(* ===== verification/Prelude.thy ===== *)
theory Prelude
  imports Main "HOL-Library.Word" "HOL-Library.While_Combinator"
begin

text \<open>
  What every component shares: the machine integers of the source under their Rust names, the
  checked and saturating operations on them, results as sums, ordered sets and maps as HOL sets and
  partial functions walked in ascending key order, and the lemma collections of the development.
\<close>

unbundle bit_operations_syntax

named_theorems result_simps \<open>unfolding of results and of their sequencing\<close>
named_theorems word_bytes \<open>words against their little-endian and big-endian bytes\<close>

section \<open>Machine integers\<close>

type_synonym u8 = "8 word"
type_synonym u16 = "16 word"
type_synonym u32 = "32 word"
type_synonym u64 = "64 word"
type_synonym bytes = "8 word list"

definition checked_add32 :: "u32 \<Rightarrow> u32 \<Rightarrow> u32 option" where
  "checked_add32 a b = (if unat a + unat b < 2 ^ 32 then Some (a + b) else None)"

lemma checked_add32_SomeD: "checked_add32 a b = Some c \<Longrightarrow> unat c = unat a + unat b"
  by (auto simp: checked_add32_def unat_word_ariths split: if_splits)

lemma checked_add32_NoneD: "checked_add32 a b = None \<Longrightarrow> 2 ^ 32 \<le> unat a + unat b"
  by (auto simp: checked_add32_def not_less split: if_splits)

text \<open>The same by the carry, which is what the kernel evaluates.\<close>

lemma checked_add32_code [code]: "checked_add32 a b = (if a \<le> a + b then Some (a + b) else None)"
proof -
  have "unat (a + b) = (unat a + unat b) mod 2 ^ 32"
    by (simp add: unat_word_ariths)
  moreover have "unat a < 2 ^ 32" "unat b < 2 ^ 32"
    using unsigned_less [where 'a = nat, of a] unsigned_less [where 'a = nat, of b] by simp_all
  ultimately have "a \<le> a + b \<longleftrightarrow> unat a + unat b < 2 ^ 32"
    by (auto simp: word_le_nat_alt mod_if [of "unat a + unat b"] le_mod_geq)
  then show ?thesis by (simp add: checked_add32_def)
qed

lemma and_1_eq_0_iff: "a AND 1 = 0 \<longleftrightarrow> even (unat a)" for a :: "'a::len word"
proof -
  have "a AND 1 = 0 \<longleftrightarrow> \<not> bit a 0" by (simp add: and_one_eq bit_0 even_iff_mod_2_eq_zero)
  moreover have "bit a 0 \<longleftrightarrow> odd (unat a)" by (simp flip: bit_0 add: bit_unsigned_iff)
  ultimately show ?thesis by simp
qed

lemma unat_two_power: "n < LENGTH('a) \<Longrightarrow> unat ((2 :: 'a::len word) ^ n) = 2 ^ n"
proof -
  assume "n < LENGTH('a)"
  then have "unat (of_nat (2 ^ n) :: 'a word) = 2 ^ n"
    by (simp only: unsigned_of_nat take_bit_eq_mod) simp
  then show ?thesis by simp
qed

lemma unat_two_power_minus_one:
  assumes "n < LENGTH('a)"
  shows "unat ((2 :: 'a::len word) ^ n - 1) = 2 ^ n - 1"
proof -
  have "(2 :: 'a word) ^ n \<noteq> 0"
    using unat_two_power [OF assms] by (metis power_not_zero unsigned_0 zero_neq_numeral)
  then show ?thesis by (simp add: unat_minus_one unat_two_power [OF assms])
qed

text \<open>\<open>usize\<close> is the 64-bit size of the hosts the compiler runs on; only its saturating counter
  needs the bound.\<close>

definition usize_max :: nat where
  "usize_max = 2 ^ 64 - 1"

definition saturating_succ :: "nat \<Rightarrow> nat" where
  "saturating_succ n = (if n < usize_max then Suc n else n)"

lemma saturating_succ_code [code]: "saturating_succ n = (if int n < 2 ^ 64 - 1 then Suc n else n)"
proof -
  have "int usize_max = 2 ^ 64 - 1" by (simp add: usize_max_def)
  then have "n < usize_max \<longleftrightarrow> int n < 2 ^ 64 - 1" by (metis of_nat_less_iff)
  then show ?thesis by (simp only: saturating_succ_def)
qed

section \<open>Results\<close>

text \<open>\<open>Result<T, E>\<close> is a sum: \<open>Inl\<close> the error, \<open>Inr\<close> the value. \<open>bind_result\<close> is the \<open>?\<close>
  operator: the first error ends the computation.\<close>

definition bind_result :: "'e + 'a \<Rightarrow> ('a \<Rightarrow> 'e + 'b) \<Rightarrow> 'e + 'b" where
  "bind_result r f = (case r of Inl e \<Rightarrow> Inl e | Inr x \<Rightarrow> f x)"

lemma bind_result_simps [simp, result_simps]:
  "bind_result (Inl e) f = Inl e"
  "bind_result (Inr x) f = f x"
  by (simp_all add: bind_result_def)

lemma bind_result_eq_Inr [simp, result_simps]:
  "bind_result r f = Inr y \<longleftrightarrow> (\<exists>x. r = Inr x \<and> f x = Inr y)"
  by (cases r) auto

lemma bind_result_cong [fundef_cong]:
  "r = r' \<Longrightarrow> (\<And>x. r' = Inr x \<Longrightarrow> f x = g x) \<Longrightarrow> bind_result r f = bind_result r' g"
  by (cases r') auto

text \<open>\<open>ok_or\<close> on an option, and a guard that returns early.\<close>

definition ok_or :: "'e \<Rightarrow> 'a option \<Rightarrow> 'e + 'a" where
  "ok_or e v = (case v of None \<Rightarrow> Inl e | Some x \<Rightarrow> Inr x)"

lemma ok_or_simps [simp, result_simps]: "ok_or e None = Inl e" "ok_or e (Some x) = Inr x"
  by (simp_all add: ok_or_def)

lemma ok_or_eq_Inr [simp, result_simps]: "ok_or e v = Inr x \<longleftrightarrow> v = Some x"
  by (cases v) auto

definition check :: "bool \<Rightarrow> 'e \<Rightarrow> 'e + unit" where
  "check ok e = (if ok then Inr () else Inl e)"

lemma check_simps [simp, result_simps]:
  "check True e = Inr ()" "check False e = Inl e"
  "check b e = Inr u \<longleftrightarrow> b"
  by (simp_all add: check_def)

text \<open>A \<open>for\<close> loop whose body may return an error.\<close>

fun for_each :: "('a \<Rightarrow> 's \<Rightarrow> 'e + 's) \<Rightarrow> 'a list \<Rightarrow> 's \<Rightarrow> 'e + 's" where
  "for_each f [] s = Inr s"
| "for_each f (x # xs) s = bind_result (f x s) (for_each f xs)"

lemma for_each_append [simp]:
  "for_each f (xs @ ys) s = bind_result (for_each f xs s) (for_each f ys)"
proof (induction xs arbitrary: s)
  case Nil
  then show ?case by simp
next
  case (Cons x xs)
  then show ?case by (cases "f x s") auto
qed

text \<open>A loop that rewrites each element of a vector.\<close>

fun map_result :: "('a \<Rightarrow> 'e + 'b) \<Rightarrow> 'a list \<Rightarrow> 'e + 'b list" where
  "map_result f [] = Inr []"
| "map_result f (x # xs) =
     bind_result (f x) (\<lambda>y. bind_result (map_result f xs) (\<lambda>ys. Inr (y # ys)))"

lemma map_result_Inr:
  "map_result f xs = Inr ys \<longleftrightarrow> list_all2 (\<lambda>x y. f x = Inr y) xs ys"
  by (induction xs arbitrary: ys) (auto simp: list_all2_Cons1)

lemma map_result_nth:
  assumes "map_result f xs = Inr ys"
  shows "length ys = length xs" and "i < length xs \<Longrightarrow> f (xs ! i) = Inr (ys ! i)"
  using assms by (auto simp: map_result_Inr list_all2_conv_all_nth)

text \<open>An invariant of the loop: it holds before, every successful body keeps it.\<close>

lemma for_each_invariant:
  assumes "for_each f xs s = Inr t" and "I s"
    and "\<And>x s t. x \<in> set xs \<Longrightarrow> I s \<Longrightarrow> f x s = Inr t \<Longrightarrow> I t"
  shows "I t"
  using assms
proof (induction xs arbitrary: s)
  case Nil
  then show ?case by simp
next
  case (Cons x xs)
  then obtain u where "f x s = Inr u" "for_each f xs u = Inr t" by auto
  with Cons show ?case by (metis list.set_intros(1) list.set_intros(2))
qed

lemma ex_unit: "(\<exists>u :: unit. P u) \<longleftrightarrow> P ()"
  by auto

text \<open>The steps of a successful computation, in order.\<close>

lemmas result_steps = bind_result_eq_Inr split_paired_Ex prod.case check_simps ok_or_eq_Inr ex_unit
  sum.inject prod.inject

text \<open>Which step of a failing computation failed.\<close>

lemma bind_result_eq_Inl:
  "bind_result r f = Inl e \<longleftrightarrow> r = Inl e \<or> (\<exists>x. r = Inr x \<and> f x = Inl e)"
  by (cases r) auto

lemma ok_or_eq_Inl: "ok_or e v = Inl d \<longleftrightarrow> v = None \<and> d = e"
  by (cases v) auto

lemma check_eq_Inl: "check b e = Inl d \<longleftrightarrow> \<not> b \<and> d = e"
  by (cases b) auto

lemmas result_errors = bind_result_eq_Inl ok_or_eq_Inl check_eq_Inl

lemma for_each_error:
  assumes "for_each f xs s = Inl e" and "I s"
    and "\<And>x s t. x \<in> set xs \<Longrightarrow> I s \<Longrightarrow> f x s = Inr t \<Longrightarrow> I t"
  shows "\<exists>x \<in> set xs. \<exists>t. I t \<and> f x t = Inl e"
  using assms
proof (induction xs arbitrary: s)
  case Nil
  then show ?case by simp
next
  case (Cons x xs)
  show ?case
  proof (cases "f x s")
    case (Inl d)
    with Cons.prems show ?thesis by auto
  next
    case (Inr u)
    with Cons.prems have "for_each f xs u = Inl e" "I u" by auto
    then have "\<exists>x \<in> set xs. \<exists>t. I t \<and> f x t = Inl e"
      by (rule Cons.IH) (use Cons.prems(3) in auto)
    then show ?thesis by auto
  qed
qed

text \<open>A loop of checks without state.\<close>

lemma for_each_unit:
  "for_each f xs () = Inr () \<longleftrightarrow> (\<forall>x \<in> set xs. f x () = Inr ())"
  by (induction xs) auto

section \<open>Overwriting a run of a list\<close>

definition splice :: "nat \<Rightarrow> 'a list \<Rightarrow> 'a list \<Rightarrow> 'a list" where
  "splice start new xs = take start xs @ new @ drop (start + length new) xs"

lemma length_splice [simp]: "start + length new \<le> length xs \<Longrightarrow> length (splice start new xs) = length xs"
  by (simp add: splice_def)

lemma nth_splice:
  "start + length new \<le> length xs \<Longrightarrow> k < length xs \<Longrightarrow>
     splice start new xs ! k = (if start \<le> k \<and> k < start + length new then new ! (k - start) else xs ! k)"
  by (auto simp: splice_def nth_append min_def)

section \<open>Ordered sets and maps\<close>

text \<open>A \<open>BTreeSet\<close> is a finite set, walked in ascending order by \<open>sorted_list_of_set\<close>; a
  \<open>BTreeMap\<close> is a partial function. A map collected from an iterator of keys holds each key once.\<close>

definition collect_map :: "'k list \<Rightarrow> 'v \<Rightarrow> ('k \<rightharpoonup> 'v)" where
  "collect_map ks v = (\<lambda>k. if k \<in> set ks then Some v else None)"

lemma collect_map_simps [simp]:
  "k \<in> set ks \<Longrightarrow> collect_map ks v k = Some v"
  "k \<notin> set ks \<Longrightarrow> collect_map ks v k = None"
  "dom (collect_map ks v) = set ks"
  by (auto simp: collect_map_def dom_def split: if_splits)

lemma collect_map_eq_Some [simp]: "collect_map ks v k = Some w \<longleftrightarrow> k \<in> set ks \<and> w = v"
  by (auto simp: collect_map_def)

section \<open>Integers as bytes\<close>

text \<open>The value a run of bytes stands for, least significant byte first or last.\<close>

fun le_value :: "bytes \<Rightarrow> nat" where
  "le_value [] = 0"
| "le_value (b # bs) = unat b + 256 * le_value bs"

definition be_value :: "bytes \<Rightarrow> nat" where
  "be_value bs = le_value (rev bs)"

definition nth_byte :: "nat \<Rightarrow> 'a::len word \<Rightarrow> u8" where
  "nth_byte i v = ucast (drop_bit (i * 8) v)"

lemma le_value_append [word_bytes]:
  "le_value (xs @ ys) = le_value xs + 256 ^ length xs * le_value ys"
  by (induction xs) (auto simp: algebra_simps)

lemma unat_nth_byte [word_bytes]: "unat (nth_byte i v) = unat v div 256 ^ i mod 256"
proof -
  have "(2 :: nat) ^ (i * 8) = (2 ^ 8) ^ i" by (simp only: power_mult [symmetric] mult.commute)
  then show ?thesis
    unfolding nth_byte_def unsigned_ucast_eq unat_drop_bit_eq by (simp add: drop_bit_eq_div take_bit_eq_mod)
qed

lemma le_value_nth_bytes [word_bytes]:
  "le_value (map (\<lambda>i. nth_byte i v) [0..<n]) = unat v mod 256 ^ n"
proof (induction n)
  case 0
  then show ?case by simp
next
  case (Suc n)
  then show ?case
    by (simp add: le_value_append unat_nth_byte mod_mult2_eq [of "unat v" "256 ^ n" 256]
        mult.commute [of 256])
qed

lemma be_value_nth_bytes [word_bytes]:
  "be_value (map (\<lambda>i. nth_byte (n - i - 1) v) [0..<n]) = unat v mod 256 ^ n"
proof -
  have "rev (map (\<lambda>i. nth_byte (n - i - 1) v) [0..<n]) = map (\<lambda>i. nth_byte i v) [0..<n]"
    by (rule nth_equalityI) (auto simp: rev_nth)
  then show ?thesis by (simp add: be_value_def le_value_nth_bytes)
qed

lemma le_value_less: "le_value bs < 256 ^ length bs"
proof (induction bs)
  case (Cons b bs)
  have "unat b < 256" using unsigned_less [where 'a = nat, of b] by simp
  moreover have "256 * le_value bs + 256 \<le> 256 * 256 ^ length bs"
    using Cons by (metis Suc_leI mult_Suc_right mult_le_mono2 add.commute)
  ultimately show ?case by simp
qed simp

end
