(* ===== verification/Flow_Graph.thy ===== *)
theory Flow_Graph
  imports Prelude
begin

text \<open>
  The directed graph the routine-level analyses consume (\<open>src/src/analysis/graph.rs\<close>). The trait
  \<open>DataflowGraph\<close> is a record of its seven accessors; the laws its documentation asks of a provider
  (one stable snapshot, predecessors and successors that agree, reachability and postorder of that
  same snapshot) are the locale \<open>flow_graph\<close>, interpreted on the compiler's NIR control-flow graph in
  theory \<open>Nir_Cfg\<close>.
\<close>

record 'n dataflow_graph =
  entry :: "'n option"
  nodes :: "'n set"
  predecessors :: "'n \<Rightarrow> 'n set"
  successors :: "'n \<Rightarrow> 'n set"
  reachable :: "'n set"
  postorder :: "'n list"
  reverse_postorder :: "'n list"

definition edges :: "'n dataflow_graph \<Rightarrow> ('n \<times> 'n) set" where
  "edges G = {(m, n). n \<in> successors G m}"

locale flow_graph =
  fixes G :: "'n::linorder dataflow_graph"
  assumes finite_nodes: "finite (nodes G)"
    and entry_node: "entry G = Some e \<Longrightarrow> e \<in> nodes G"
    and successors_nodes: "successors G n \<subseteq> nodes G"
    and predecessors_nodes: "predecessors G n \<subseteq> nodes G"
    and predecessors_iff: "m \<in> predecessors G n \<longleftrightarrow> n \<in> successors G m"
    and reachable_iff: "n \<in> reachable G \<longleftrightarrow> (\<exists>e. entry G = Some e \<and> (e, n) \<in> (edges G)\<^sup>*)"
    and set_postorder: "set (postorder G) = reachable G"
    and distinct_postorder: "distinct (postorder G)"
    and reverse_postorder_rev: "reverse_postorder G = rev (postorder G)"
begin

lemma finite_predecessors [simp, intro]: "finite (predecessors G n)"
  using predecessors_nodes finite_nodes by (rule finite_subset)

lemma finite_successors [simp, intro]: "finite (successors G n)"
  using successors_nodes finite_nodes by (rule finite_subset)

lemma edges_iff [simp]: "(m, n) \<in> edges G \<longleftrightarrow> n \<in> successors G m"
  by (simp add: edges_def)

lemma finite_reachable [simp, intro]: "finite (reachable G)"
  by (simp flip: set_postorder)

lemma set_reverse_postorder [simp]: "set (reverse_postorder G) = reachable G"
  by (simp add: reverse_postorder_rev set_postorder)

lemma distinct_reverse_postorder [simp]: "distinct (reverse_postorder G)"
  by (simp add: reverse_postorder_rev distinct_postorder)

lemma entry_reachable: "entry G = Some e \<Longrightarrow> e \<in> reachable G"
  by (auto simp: reachable_iff)

lemma successor_reachable: "m \<in> reachable G \<Longrightarrow> n \<in> successors G m \<Longrightarrow> n \<in> reachable G"
  unfolding reachable_iff by (metis edges_iff rtrancl.rtrancl_into_rtrancl)

lemma reachable_nodes: "reachable G \<subseteq> nodes G"
proof
  fix n assume "n \<in> reachable G"
  then obtain e where e: "entry G = Some e" "(e, n) \<in> (edges G)\<^sup>*"
    by (auto simp: reachable_iff)
  from e(2,1) show "n \<in> nodes G"
    using successors_nodes by (induction rule: rtrancl_induct) (auto intro: entry_node)
qed

lemma reachable_empty: "entry G = None \<Longrightarrow> reachable G = {}"
  by (auto simp: reachable_iff)

end

end
