(* ===== verification/Dataflow.thy ===== *)
theory Dataflow
  imports Flow_Graph
begin

text \<open>
  The shared worklist solver (\<open>src/src/analysis/dataflow.rs\<close>): the problem trait as a record, the
  solver state, one iteration of the loop and the loop itself. The trait's default methods are
  \<open>any_edge_executable\<close> and \<open>copy_edge_state\<close>. The loop is \<open>while_option\<close>, so a solver that never
  empties its worklist is the value \<open>None\<close>.
  Lemmas: the loop invariant (\<open>solver_inv\<close>: the in/out equations hold at every node off the
  worklist), so a returned table solves the flow equations; and, in the locale
  \<open>monotone_problem\<close>, termination and leastness of the solution for monotone problems of bounded
  height.
\<close>

datatype dataflow_direction = Forward | Backward

record ('n, 's) dataflow_problem =
  direction :: dataflow_direction
  bottom :: 's
  boundary :: "'n \<Rightarrow> 's option"
  join :: "'s \<Rightarrow> 's \<Rightarrow> 's"
  transfer :: "'n \<Rightarrow> 's \<Rightarrow> 's"
  forward_edge_is_executable :: "'n \<Rightarrow> 'n \<Rightarrow> 's \<Rightarrow> bool"
  transfer_forward_edge :: "'n \<Rightarrow> 'n \<Rightarrow> 's \<Rightarrow> 's"

definition any_edge_executable :: "'n \<Rightarrow> 'n \<Rightarrow> 's \<Rightarrow> bool" where
  "any_edge_executable _ _ _ = True"

definition copy_edge_state :: "'n \<Rightarrow> 'n \<Rightarrow> 's \<Rightarrow> 's" where
  "copy_edge_state _ _ from_out = from_out"

record ('n, 's) dataflow_result =
  in_states :: "'n \<rightharpoonup> 's"
  out_states :: "'n \<rightharpoonup> 's"
  evaluations :: nat

record ('n, 's) solver_state = "('n, 's) dataflow_result" +
  worklist :: "'n list"
  queued :: "'n set"

section \<open>One evaluation of a node\<close>

definition boundary_state :: "('n, 's) dataflow_problem \<Rightarrow> 'n \<Rightarrow> 's" where
  "boundary_state P node =
     (case boundary P node of None \<Rightarrow> bottom P | Some b \<Rightarrow> join P (bottom P) b)"

definition join_predecessor ::
  "('n, 's) dataflow_problem \<Rightarrow> ('n \<rightharpoonup> 's) \<Rightarrow> 'n \<Rightarrow> 'n \<Rightarrow> 's \<Rightarrow> 's" where
  "join_predecessor P outs node p input =
     (case outs p of
        None \<Rightarrow> input
      | Some state \<Rightarrow>
          if forward_edge_is_executable P p node state
          then join P input (transfer_forward_edge P p node state)
          else input)"

definition forward_input ::
  "('n::linorder) dataflow_graph \<Rightarrow> ('n, 's) dataflow_problem \<Rightarrow> ('n \<rightharpoonup> 's) \<Rightarrow> 'n \<Rightarrow> 's" where
  "forward_input G P outs node =
     fold (join_predecessor P outs node) (sorted_list_of_set (predecessors G node))
       (boundary_state P node)"

definition join_successor ::
  "('n, 's) dataflow_problem \<Rightarrow> ('n \<rightharpoonup> 's) \<Rightarrow> 'n \<Rightarrow> 's \<Rightarrow> 's" where
  "join_successor P ins s output =
     (case ins s of None \<Rightarrow> output | Some state \<Rightarrow> join P output state)"

definition backward_output ::
  "('n::linorder) dataflow_graph \<Rightarrow> ('n, 's) dataflow_problem \<Rightarrow> ('n \<rightharpoonup> 's) \<Rightarrow> 'n \<Rightarrow> 's" where
  "backward_output G P ins node =
     fold (join_successor P ins) (sorted_list_of_set (successors G node)) (boundary_state P node)"

definition evaluate ::
  "('n::linorder) dataflow_graph \<Rightarrow> ('n, 's) dataflow_problem \<Rightarrow> ('n \<rightharpoonup> 's) \<Rightarrow> ('n \<rightharpoonup> 's) \<Rightarrow> 'n
    \<Rightarrow> 's \<times> 's" where
  "evaluate G P ins outs node =
     (case direction P of
        Forward \<Rightarrow>
          let input = forward_input G P outs node; output = transfer P node input
          in (input, output)
      | Backward \<Rightarrow>
          let output = backward_output G P ins node; input = transfer P node output
          in (input, output))"

section \<open>The worklist loop\<close>

definition solver_order :: "'n dataflow_graph \<Rightarrow> ('n, 's) dataflow_problem \<Rightarrow> 'n list" where
  "solver_order G P =
     (case direction P of Forward \<Rightarrow> reverse_postorder G | Backward \<Rightarrow> postorder G)"

definition initial_solver ::
  "'n dataflow_graph \<Rightarrow> ('n, 's) dataflow_problem \<Rightarrow> ('n, 's) solver_state" where
  "initial_solver G P =
     \<lparr>in_states = collect_map (solver_order G P) (bottom P),
      out_states = collect_map (solver_order G P) (bottom P),
      evaluations = 0,
      worklist = solver_order G P,
      queued = set (solver_order G P)\<rparr>"

definition adjacent_nodes ::
  "'n dataflow_graph \<Rightarrow> ('n, 's) dataflow_problem \<Rightarrow> 'n \<Rightarrow> 'n set" where
  "adjacent_nodes G P node =
     (case direction P of Forward \<Rightarrow> successors G node | Backward \<Rightarrow> predecessors G node)"

definition requeue ::
  "'n dataflow_graph \<Rightarrow> 'n \<Rightarrow> ('n, 's) solver_state \<Rightarrow> ('n, 's) solver_state" where
  "requeue G adjacent s =
     (if adjacent \<in> reachable G \<and> adjacent \<notin> queued s
      then s\<lparr>queued := insert adjacent (queued s), worklist := worklist s @ [adjacent]\<rparr>
      else s)"

definition solve_step ::
  "('n::linorder) dataflow_graph \<Rightarrow> ('n, 's) dataflow_problem \<Rightarrow> ('n, 's) solver_state
    \<Rightarrow> ('n, 's) solver_state" where
  "solve_step G P s =
     (case worklist s of
        [] \<Rightarrow> s
      | node # rest \<Rightarrow>
          let (next_in, next_out) = evaluate G P (in_states s) (out_states s) node;
              input_changed = (in_states s node \<noteq> Some next_in);
              output_changed = (out_states s node \<noteq> Some next_out);
              s' = s\<lparr>worklist := rest,
                     queued := queued s - {node},
                     evaluations := saturating_succ (evaluations s),
                     in_states :=
                       (if input_changed then (in_states s)(node \<mapsto> next_in) else in_states s),
                     out_states :=
                       (if output_changed then (out_states s)(node \<mapsto> next_out) else out_states s)\<rparr>;
              propagates =
                (case direction P of Forward \<Rightarrow> output_changed | Backward \<Rightarrow> input_changed)
          in if \<not> propagates then s'
             else fold (requeue G) (sorted_list_of_set (adjacent_nodes G P node)) s')"

definition solve_dataflow ::
  "('n::linorder) dataflow_graph \<Rightarrow> ('n, 's) dataflow_problem \<Rightarrow> ('n, 's) dataflow_result option"
where
  "solve_dataflow G P =
     map_option dataflow_result.truncate
       (while_option (\<lambda>s. worklist s \<noteq> []) (solve_step G P) (initial_solver G P))"

section \<open>Direction-independent view of the solver\<close>

text \<open>The table that propagates (\<open>key_states\<close>: outputs forward, inputs backward), the nodes an
  evaluation reads, and the state it gathers from them.\<close>

definition key_states ::
  "('n, 's) dataflow_problem \<Rightarrow> ('n, 's, 'x) dataflow_result_scheme \<Rightarrow> ('n \<rightharpoonup> 's)" where
  "key_states P r = (case direction P of Forward \<Rightarrow> out_states r | Backward \<Rightarrow> in_states r)"

definition source_nodes ::
  "'n dataflow_graph \<Rightarrow> ('n, 's) dataflow_problem \<Rightarrow> 'n \<Rightarrow> 'n set" where
  "source_nodes G P node =
     (case direction P of Forward \<Rightarrow> predecessors G node | Backward \<Rightarrow> successors G node)"

definition join_source ::
  "('n, 's) dataflow_problem \<Rightarrow> ('n \<rightharpoonup> 's) \<Rightarrow> 'n \<Rightarrow> 'n \<Rightarrow> 's \<Rightarrow> 's" where
  "join_source P tbl node =
     (case direction P of
        Forward \<Rightarrow> join_predecessor P tbl node
      | Backward \<Rightarrow> join_successor P tbl)"

definition gather ::
  "('n::linorder) dataflow_graph \<Rightarrow> ('n, 's) dataflow_problem \<Rightarrow> ('n \<rightharpoonup> 's) \<Rightarrow> 'n \<Rightarrow> 's" where
  "gather G P tbl node =
     fold (join_source P tbl node) (sorted_list_of_set (source_nodes G P node))
       (boundary_state P node)"

definition flow_value ::
  "('n::linorder) dataflow_graph \<Rightarrow> ('n, 's) dataflow_problem \<Rightarrow> ('n \<rightharpoonup> 's) \<Rightarrow> 'n \<Rightarrow> 's" where
  "flow_value G P tbl node = transfer P node (gather G P tbl node)"

text \<open>The in and out equations of one node, as \<open>evaluate\<close> computes them from the tables.\<close>

definition solves_at ::
  "('n::linorder) dataflow_graph \<Rightarrow> ('n, 's) dataflow_problem \<Rightarrow> ('n, 's, 'x) dataflow_result_scheme
    \<Rightarrow> 'n \<Rightarrow> bool" where
  "solves_at G P r node \<longleftrightarrow>
     (let (i, out) = evaluate G P (in_states r) (out_states r) node
      in in_states r node = Some i \<and> out_states r node = Some out)"

lemma gather_cases:
  "gather G P tbl node =
     (case direction P of
        Forward \<Rightarrow> forward_input G P tbl node
      | Backward \<Rightarrow> backward_output G P tbl node)"
  by (simp add: gather_def join_source_def source_nodes_def forward_input_def backward_output_def
        split: dataflow_direction.splits)

lemma evaluate_gather:
  "evaluate G P (in_states r) (out_states r) node =
     (let g = gather G P (key_states P r) node; v = flow_value G P (key_states P r) node
      in case direction P of Forward \<Rightarrow> (g, v) | Backward \<Rightarrow> (v, g))"
  by (simp add: evaluate_def gather_cases flow_value_def key_states_def Let_def
        split: dataflow_direction.splits)

lemma solves_at_key:
  "solves_at G P r node \<Longrightarrow>
     key_states P r node = Some (flow_value G P (key_states P r) node)"
  by (auto simp: solves_at_def evaluate_gather Let_def key_states_def
        split: dataflow_direction.splits)

lemma join_source_cong:
  "tbl p = tbl' p \<Longrightarrow> join_source P tbl node p = join_source P tbl' node p"
  by (auto simp: join_source_def join_predecessor_def join_successor_def
        split: dataflow_direction.splits)

lemma gather_cong:
  assumes "finite (source_nodes G P node)"
    and "\<And>p. p \<in> source_nodes G P node \<Longrightarrow> tbl p = tbl' p"
  shows "gather G P tbl node = gather G P tbl' node"
  unfolding gather_def
  by (rule fold_cong) (use assms in \<open>auto intro: join_source_cong\<close>)

lemma evaluate_cong:
  assumes "key_states P r = key_states P r'"
  shows "evaluate G P (in_states r) (out_states r) = evaluate G P (in_states r') (out_states r')"
  by (rule ext) (simp add: evaluate_gather assms)

text \<open>Queueing a run of adjacent nodes.\<close>

lemma fold_requeue:
  "distinct xs \<Longrightarrow>
   in_states (fold (requeue G) xs s) = in_states s \<and>
   out_states (fold (requeue G) xs s) = out_states s \<and>
   queued (fold (requeue G) xs s) = queued s \<union> (set xs \<inter> reachable G) \<and>
   worklist (fold (requeue G) xs s) =
     worklist s @ filter (\<lambda>x. x \<in> reachable G \<and> x \<notin> queued s) xs"
proof (induction xs arbitrary: s)
  case Nil
  then show ?case by simp
next
  case (Cons x xs)
  have "filter (\<lambda>y. y \<in> reachable G \<and> y \<notin> queued (requeue G x s)) xs =
        filter (\<lambda>y. y \<in> reachable G \<and> y \<notin> queued s) xs"
    using Cons.prems by (intro filter_cong) (auto simp: requeue_def)
  moreover have "distinct xs" using Cons.prems by simp
  ultimately show ?case
    using Cons.IH [of "requeue G x s"] by (auto simp: requeue_def)
qed

section \<open>The loop invariant and the fixpoint\<close>

definition solver_inv ::
  "('n::linorder) dataflow_graph \<Rightarrow> ('n, 's) dataflow_problem \<Rightarrow> ('n, 's) solver_state \<Rightarrow> bool" where
  "solver_inv G P s \<longleftrightarrow>
     dom (in_states s) = reachable G \<and> dom (out_states s) = reachable G \<and>
     distinct (worklist s) \<and> set (worklist s) = queued s \<and> queued s \<subseteq> reachable G \<and>
     (\<forall>n \<in> reachable G - queued s. solves_at G P s n)"

lemma solve_step_effect:
  assumes wl: "worklist s = node # rest" and fin: "finite (adjacent_nodes G P node)"
  defines "v \<equiv> flow_value G P (key_states P s) node"
  defines "s' \<equiv> solve_step G P s"
  defines "changed \<equiv> key_states P s node \<noteq> Some v"
  shows "in_states s' =
           (in_states s)(node \<mapsto> fst (evaluate G P (in_states s) (out_states s) node))"
    and "out_states s' =
           (out_states s)(node \<mapsto> snd (evaluate G P (in_states s) (out_states s) node))"
    and "queued s' =
           (queued s - {node}) \<union> (if changed then adjacent_nodes G P node \<inter> reachable G else {})"
    and "worklist s' =
           rest @ (if changed
                   then filter (\<lambda>x. x \<in> reachable G \<and> x \<notin> queued s - {node})
                          (sorted_list_of_set (adjacent_nodes G P node))
                   else [])"
proof -
  obtain i out where e: "evaluate G P (in_states s) (out_states s) node = (i, out)"
    by fastforce
  then have v: "v = (case direction P of Forward \<Rightarrow> out | Backward \<Rightarrow> i)"
    by (auto simp: evaluate_gather v_def Let_def split: dataflow_direction.splits)
  have upd: "(if m k \<noteq> Some y then m(k \<mapsto> y) else m) = m(k \<mapsto> y)" for m :: "'a \<rightharpoonup> 'b" and k y
    by (simp add: fun_upd_idem)
  note fold_q = fold_requeue [where xs = "sorted_list_of_set (adjacent_nodes G P node)"]
  show "in_states s' =
           (in_states s)(node \<mapsto> fst (evaluate G P (in_states s) (out_states s) node))"
    by (simp add: s'_def solve_step_def wl e Let_def upd fold_q)
  show "out_states s' =
           (out_states s)(node \<mapsto> snd (evaluate G P (in_states s) (out_states s) node))"
    by (simp add: s'_def solve_step_def wl e Let_def upd fold_q)
  show "queued s' =
           (queued s - {node}) \<union> (if changed then adjacent_nodes G P node \<inter> reachable G else {})"
    by (cases "direction P")
      (simp_all add: s'_def solve_step_def wl e Let_def fold_q fin changed_def v key_states_def)
  show "worklist s' =
           rest @ (if changed
                   then filter (\<lambda>x. x \<in> reachable G \<and> x \<notin> queued s - {node})
                          (sorted_list_of_set (adjacent_nodes G P node))
                   else [])"
    by (cases "direction P")
      (simp_all add: s'_def solve_step_def wl e Let_def fold_q changed_def v key_states_def)
qed

context flow_graph
begin

lemma finite_adjacent [simp, intro]: "finite (adjacent_nodes G P node)"
  by (cases "direction P") (simp_all add: adjacent_nodes_def)

lemma finite_sources [simp, intro]: "finite (source_nodes G P node)"
  by (cases "direction P") (simp_all add: source_nodes_def)

lemma adjacent_iff_source: "m \<in> adjacent_nodes G P n \<longleftrightarrow> n \<in> source_nodes G P m"
  by (cases "direction P") (simp_all add: adjacent_nodes_def source_nodes_def predecessors_iff)

lemma set_solver_order: "set (solver_order G P) = reachable G" "distinct (solver_order G P)"
  by (cases "direction P"; simp add: solver_order_def set_postorder distinct_postorder)+

lemma solve_step_key:
  assumes "worklist s = node # rest"
  shows "key_states P (solve_step G P s) =
           (key_states P s)(node \<mapsto> flow_value G P (key_states P s) node)"
  by (cases "direction P")
    (simp_all add: key_states_def solve_step_effect [OF assms finite_adjacent] evaluate_gather
       Let_def)

lemma solver_inv_initial: "solver_inv G P (initial_solver G P)"
  by (simp add: solver_inv_def initial_solver_def set_solver_order)

text \<open>A node keeps its equations when the popped node's new value does not reach it.\<close>

lemma solves_at_step:
  assumes wl: "worklist s = node # rest"
    and old: "n \<noteq> node \<Longrightarrow> solves_at G P s n"
    and quiet: "key_states P s node = Some (flow_value G P (key_states P s) node) \<or>
                node \<notin> source_nodes G P n"
  shows "solves_at G P (solve_step G P s) n"
proof -
  let ?s' = "solve_step G P s"
  let ?K = "key_states P s"
  have K': "key_states P ?s' = ?K(node \<mapsto> flow_value G P ?K node)"
    by (rule solve_step_key [OF wl])
  have "gather G P (key_states P ?s') n = gather G P ?K n"
    using quiet by (intro gather_cong) (auto simp: K')
  then have e: "evaluate G P (in_states ?s') (out_states ?s') n =
                evaluate G P (in_states s) (out_states s) n"
    by (simp add: evaluate_gather flow_value_def)
  show ?thesis
  proof (cases "n = node")
    case True
    then show ?thesis
      unfolding solves_at_def e by (simp add: solve_step_effect(1,2) [OF wl finite_adjacent] split_beta)
  next
    case False
    with old have "solves_at G P s n" by simp
    with False show ?thesis
      unfolding solves_at_def e by (simp add: solve_step_effect(1,2) [OF wl finite_adjacent] split_beta)
  qed
qed

lemma solver_inv_step:
  assumes inv: "solver_inv G P s" and wl: "worklist s \<noteq> []"
  shows "solver_inv G P (solve_step G P s)"
proof -
  from wl obtain node rest where nr: "worklist s = node # rest" by (cases "worklist s") auto
  let ?s' = "solve_step G P s"
  let ?changed = "key_states P s node \<noteq> Some (flow_value G P (key_states P s) node)"
  note eff = solve_step_effect [OF nr finite_adjacent, of P]
  from inv nr have doms: "dom (in_states s) = reachable G" "dom (out_states s) = reachable G"
    and wls: "distinct (node # rest)" "insert node (set rest) = queued s" "queued s \<subseteq> reachable G"
    and off: "\<And>n. n \<in> reachable G - queued s \<Longrightarrow> solves_at G P s n"
    by (auto simp: solver_inv_def)
  have node: "node \<in> reachable G" using wls by auto
  have rest: "queued s - {node} = set rest" using wls by auto
  have "solves_at G P ?s' n" if n: "n \<in> reachable G - queued ?s'" for n
  proof (rule solves_at_step [OF nr])
    show "n \<noteq> node \<Longrightarrow> solves_at G P s n"
      using n off by (auto simp: eff(3))
    show "key_states P s node = Some (flow_value G P (key_states P s) node) \<or>
            node \<notin> source_nodes G P n"
      using n by (auto simp: eff(3) adjacent_iff_source split: if_splits)
  qed
  moreover have "distinct (worklist ?s')" "set (worklist ?s') = queued ?s'"
    using wls rest by (auto simp: eff(3,4))
  moreover have "queued ?s' \<subseteq> reachable G"
    using wls by (auto simp: eff(3))
  ultimately show ?thesis
    using node by (auto simp: solver_inv_def eff(1,2) doms insert_absorb)
qed

lemma solver_inv_returned:
  assumes "while_option (\<lambda>s. worklist s \<noteq> []) (solve_step G P) (initial_solver G P) = Some s"
  shows "solver_inv G P s" "worklist s = []"
proof -
  show "worklist s = []" using while_option_stop [OF assms] by simp
  show "solver_inv G P s"
    by (rule while_option_rule [where P = "solver_inv G P", OF _ assms])
      (auto intro: solver_inv_step solver_inv_initial)
qed

text \<open>Whatever the problem, a returned table solves the flow equations at every reachable node and
  is defined on the reachable nodes only.\<close>

lemma solve_dataflow_solves:
  assumes "solve_dataflow G P = Some r"
  shows "dom (in_states r) = reachable G" "dom (out_states r) = reachable G"
    and "n \<in> reachable G \<Longrightarrow> solves_at G P r n"
proof -
  from assms obtain s where
    s: "while_option (\<lambda>s. worklist s \<noteq> []) (solve_step G P) (initial_solver G P) = Some s"
    and r: "r = dataflow_result.truncate s"
    by (auto simp: solve_dataflow_def)
  from solver_inv_returned [OF s] have "solver_inv G P s" "queued s = {}"
    by (auto simp: solver_inv_def)
  then show "dom (in_states r) = reachable G" "dom (out_states r) = reachable G"
    and "n \<in> reachable G \<Longrightarrow> solves_at G P r n"
    by (auto simp: r solver_inv_def dataflow_result.truncate_def solves_at_def)
qed

end

section \<open>Monotone problems of bounded height\<close>

text \<open>The contract the trait's documentation asks of a problem ("a finite, monotone block
  data-flow problem"): an order on the states the problem can produce, with \<open>bottom\<close> least, \<open>join\<close>
  an upper bound, every operation monotone, edges that stay executable as states grow, and a height
  that a strictly larger state strictly increases.\<close>

locale monotone_problem = flow_graph G
  for G :: "'n::linorder dataflow_graph" +
  fixes P :: "('n, 's) dataflow_problem"
    and le :: "'s \<Rightarrow> 's \<Rightarrow> bool"
    and states :: "'s set"
    and height :: "'s \<Rightarrow> nat"
    and max_height :: nat
  assumes le_refl: "x \<in> states \<Longrightarrow> le x x"
    and le_trans: "le x y \<Longrightarrow> le y z \<Longrightarrow> le x z"
    and le_antisym: "le x y \<Longrightarrow> le y x \<Longrightarrow> x = y"
    and bottom_state: "bottom P \<in> states"
    and bottom_least: "x \<in> states \<Longrightarrow> le (bottom P) x"
    and boundary_in_states: "boundary P n = Some b \<Longrightarrow> b \<in> states"
    and join_state: "x \<in> states \<Longrightarrow> y \<in> states \<Longrightarrow> join P x y \<in> states"
    and join_upper: "x \<in> states \<Longrightarrow> y \<in> states \<Longrightarrow> le x (join P x y)"
    and join_mono: "le x x' \<Longrightarrow> le y y' \<Longrightarrow> le (join P x y) (join P x' y')"
    and transfer_state: "x \<in> states \<Longrightarrow> transfer P n x \<in> states"
    and transfer_mono: "le x y \<Longrightarrow> le (transfer P n x) (transfer P n y)"
    and edge_state: "x \<in> states \<Longrightarrow> transfer_forward_edge P m n x \<in> states"
    and edge_mono: "le x y \<Longrightarrow> le (transfer_forward_edge P m n x) (transfer_forward_edge P m n y)"
    and executable_mono:
      "le x y \<Longrightarrow> forward_edge_is_executable P m n x \<Longrightarrow> forward_edge_is_executable P m n y"
    and height_bound: "x \<in> states \<Longrightarrow> height x \<le> max_height"
    and height_strict: "x \<in> states \<Longrightarrow> y \<in> states \<Longrightarrow> le x y \<Longrightarrow> x \<noteq> y \<Longrightarrow> height x < height y"
begin

definition state_table :: "('n \<rightharpoonup> 's) \<Rightarrow> bool" where
  "state_table K \<longleftrightarrow> ran K \<subseteq> states"

definition table_le :: "('n \<rightharpoonup> 's) \<Rightarrow> ('n \<rightharpoonup> 's) \<Rightarrow> bool" where
  "table_le K K' \<longleftrightarrow> (\<forall>n. rel_option le (K n) (K' n))"

lemma state_tableD: "state_table K \<Longrightarrow> K n = Some x \<Longrightarrow> x \<in> states"
  by (auto simp: state_table_def ran_def)

lemma state_table_upd: "state_table K \<Longrightarrow> x \<in> states \<Longrightarrow> state_table (K(n \<mapsto> x))"
  by (auto simp: state_table_def ran_def)

lemma boundary_state_state [simp, intro]: "boundary_state P n \<in> states"
  by (auto simp: boundary_state_def intro: bottom_state boundary_in_states join_state
        split: option.splits)

lemma join_source_state:
  "state_table K \<Longrightarrow> acc \<in> states \<Longrightarrow> join_source P K n p acc \<in> states"
  by (cases "direction P")
    (auto simp: join_source_def join_predecessor_def join_successor_def
       intro: join_state edge_state state_tableD split: option.splits)

lemma fold_join_state:
  "state_table K \<Longrightarrow> acc \<in> states \<Longrightarrow> fold (join_source P K n) ps acc \<in> states"
  by (induction ps arbitrary: acc) (auto intro: join_source_state)

lemma gather_state: "state_table K \<Longrightarrow> gather G P K n \<in> states"
  unfolding gather_def by (rule fold_join_state) auto

lemma flow_value_state: "state_table K \<Longrightarrow> flow_value G P K n \<in> states"
  by (simp add: flow_value_def transfer_state gather_state)

lemma join_source_mono:
  assumes KK': "table_le K K'" and st: "state_table K'" "acc' \<in> states" and acc: "le acc acc'"
  shows "le (join_source P K n p acc) (join_source P K' n p acc')"
proof (cases "K p")
  case None
  with KK' have "K' p = None" by (metis table_le_def option_rel_Some2 option.rel_distinct(1) not_None_eq)
  with None acc show ?thesis
    by (auto simp: join_source_def join_predecessor_def join_successor_def
          split: dataflow_direction.splits)
next
  case (Some x)
  with KK' obtain y where y: "K' p = Some y" "le x y"
    by (metis table_le_def option_rel_Some1)
  then have "y \<in> states" using st state_tableD by blast
  with Some y acc st show ?thesis
    by (cases "direction P")
      (auto simp: join_source_def join_predecessor_def join_successor_def
         intro: join_mono edge_mono le_trans [OF _ join_upper] edge_state dest: executable_mono)
qed

lemma fold_join_mono:
  assumes "table_le K K'" and "state_table K'"
  shows "acc' \<in> states \<Longrightarrow> le acc acc' \<Longrightarrow>
           le (fold (join_source P K n) ps acc) (fold (join_source P K' n) ps acc')"
proof (induction ps arbitrary: acc acc')
  case Nil
  then show ?case by simp
next
  case (Cons p ps)
  then show ?case using assms by (simp add: join_source_mono join_source_state)
qed

lemma flow_value_mono:
  "table_le K K' \<Longrightarrow> state_table K' \<Longrightarrow> le (flow_value G P K n) (flow_value G P K' n)"
  unfolding flow_value_def gather_def
  by (intro transfer_mono fold_join_mono) (auto intro: le_refl)

lemma table_le_upd:
  assumes "state_table K" "K n = Some x" "le x y"
  shows "table_le K (K(n \<mapsto> y))"
  unfolding table_le_def
proof
  fix m show "rel_option le (K m) ((K(n \<mapsto> y)) m)"
    using assms by (cases "K m") (auto intro: le_refl state_tableD)
qed

lemma table_le_upd_left:
  "table_le K S \<Longrightarrow> S n = Some y \<Longrightarrow> le x y \<Longrightarrow> table_le (K(n \<mapsto> x)) S"
  by (auto simp: table_le_def)

text \<open>The solver only climbs: every key is below its own equation, and below every solution.\<close>

definition climbing :: "('n, 's) solver_state \<Rightarrow> bool" where
  "climbing s \<longleftrightarrow>
     solver_inv G P s \<and> state_table (key_states P s) \<and>
     (\<forall>n x. key_states P s n = Some x \<longrightarrow> le x (flow_value G P (key_states P s) n))"

lemma key_dom: "solver_inv G P s \<Longrightarrow> dom (key_states P s) = reachable G"
  by (auto simp: solver_inv_def key_states_def split: dataflow_direction.splits)

lemma initial_key: "key_states P (initial_solver G P) = collect_map (solver_order G P) (bottom P)"
  by (simp add: key_states_def initial_solver_def split: dataflow_direction.splits)

lemma climbing_initial: "climbing (initial_solver G P)"
proof -
  have "state_table (key_states P (initial_solver G P))"
    by (auto simp: state_table_def ran_def initial_key bottom_state)
  then show ?thesis
    by (auto simp: climbing_def solver_inv_initial initial_key intro: bottom_least flow_value_state)
qed

lemma climbing_step:
  assumes c: "climbing s" and wl: "worklist s = node # rest"
  shows "climbing (solve_step G P s)"
    and "table_le (key_states P s) (key_states P (solve_step G P s))"
proof -
  let ?K = "key_states P s" and ?v = "flow_value G P (key_states P s) node"
  from c have inv: "solver_inv G P s" and st: "state_table ?K"
    and below: "\<And>n x. ?K n = Some x \<Longrightarrow> le x (flow_value G P ?K n)"
    by (auto simp: climbing_def)
  from inv wl have "node \<in> reachable G" by (auto simp: solver_inv_def)
  with key_dom [OF inv] obtain x where x: "?K node = Some x" by blast
  have K': "key_states P (solve_step G P s) = ?K(node \<mapsto> ?v)" by (rule solve_step_key [OF wl])
  show le': "table_le ?K (key_states P (solve_step G P s))"
    unfolding K' using st x below [OF x] by (rule table_le_upd)
  have st': "state_table (?K(node \<mapsto> ?v))" using st by (simp add: state_table_upd flow_value_state)
  have "le y (flow_value G P (?K(node \<mapsto> ?v)) n)" if "(?K(node \<mapsto> ?v)) n = Some y" for n y
  proof (rule le_trans [OF _ flow_value_mono])
    show "le y (flow_value G P ?K n)"
      using that below by (auto intro: le_refl flow_value_state st split: if_splits)
    show "table_le ?K (?K(node \<mapsto> ?v))" using le' by (simp add: K')
    show "state_table (?K(node \<mapsto> ?v))" by (rule st')
  qed
  then show "climbing (solve_step G P s)"
    using inv wl st' by (auto simp: climbing_def K' intro: solver_inv_step)
qed

definition slack :: "('n \<rightharpoonup> 's) \<Rightarrow> nat" where
  "slack K = (\<Sum>n \<in> reachable G. max_height - height (the (K n)))"

lemma slack_upd:
  assumes "finite (reachable G)" "node \<in> reachable G" "K node = Some x"
    "x \<in> states" "y \<in> states" "le x y" "x \<noteq> y"
  shows "slack (K(node \<mapsto> y)) < slack K"
  unfolding slack_def
proof (rule sum_strict_mono_ex1)
  have "height x < height y" using assms by (intro height_strict)
  then show "\<forall>n\<in>reachable G. max_height - height (the ((K(node \<mapsto> y)) n)) \<le>
               max_height - height (the (K n))"
    and "\<exists>n\<in>reachable G. max_height - height (the ((K(node \<mapsto> y)) n)) <
               max_height - height (the (K n))"
    using assms height_bound [of y] by (auto intro!: bexI [of _ node])
qed (use assms in simp)

lemma solver_terminates:
  "\<exists>s. while_option (\<lambda>s. worklist s \<noteq> []) (solve_step G P) (initial_solver G P) = Some s"
proof (rule wf_rel_while_option_Some [where P = climbing and
    R = "inv_image (less_than <*lex*> less_than)
           (\<lambda>s. (slack (key_states P s), length (worklist s)))"])
  show "wf (inv_image (less_than <*lex*> less_than)
              (\<lambda>s. (slack (key_states P s), length (worklist s))))"
    by (intro wf_inv_image wf_lex_prod) auto
  show "climbing (initial_solver G P)" by (rule climbing_initial)
next
  fix s assume "climbing s \<and> worklist s \<noteq> []"
  then obtain node rest where c: "climbing s" and wl: "worklist s = node # rest"
    by (cases "worklist s") auto
  show "climbing (solve_step G P s)" using c wl by (rule climbing_step)
  let ?K = "key_states P s" and ?v = "flow_value G P (key_states P s) node"
  have inv: "solver_inv G P s" and st: "state_table ?K" using c by (auto simp: climbing_def)
  from inv wl have node: "node \<in> reachable G" by (auto simp: solver_inv_def)
  with key_dom [OF inv] obtain x where x: "?K node = Some x" by blast
  have K': "key_states P (solve_step G P s) = ?K(node \<mapsto> ?v)" by (rule solve_step_key [OF wl])
  show "(solve_step G P s, s) \<in> inv_image (less_than <*lex*> less_than)
          (\<lambda>s. (slack (key_states P s), length (worklist s)))"
  proof (cases "x = ?v")
    case True
    then have same: "?K node = Some ?v" using x by simp
    then have "key_states P (solve_step G P s) = ?K"
      by (metis K' fun_upd_triv)
    then show ?thesis
      by (simp add: solve_step_effect(4) [OF wl finite_adjacent] wl same)
  next
    case False
    have "slack (?K(node \<mapsto> ?v)) < slack ?K"
      using c x st False node
      by (intro slack_upd) (auto simp: climbing_def intro: state_tableD flow_value_state)
    then show ?thesis by (simp add: K')
  qed
qed

definition flow_solution :: "('n \<rightharpoonup> 's) \<Rightarrow> bool" where
  "flow_solution S \<longleftrightarrow> dom S = reachable G \<and> state_table S \<and>
     (\<forall>n \<in> reachable G. S n = Some (flow_value G P S n))"

theorem solve_dataflow_least:
  "\<exists>r. solve_dataflow G P = Some r \<and> flow_solution (key_states P r) \<and>
       (\<forall>S. flow_solution S \<longrightarrow> table_le (key_states P r) S)"
proof -
  obtain s where
    s: "while_option (\<lambda>s. worklist s \<noteq> []) (solve_step G P) (initial_solver G P) = Some s"
    using solver_terminates by blast
  let ?r = "dataflow_result.truncate s"
  have r: "solve_dataflow G P = Some ?r" using s by (simp add: solve_dataflow_def)
  have key: "key_states P ?r = key_states P s"
    by (simp add: key_states_def dataflow_result.truncate_def split: dataflow_direction.splits)
  have "climbing s \<and> (\<forall>S. flow_solution S \<longrightarrow> table_le (key_states P s) S)"
  proof (rule while_option_rule [OF _ s, where P = "\<lambda>s. climbing s \<and>
      (\<forall>S. flow_solution S \<longrightarrow> table_le (key_states P s) S)"])
    show "climbing (initial_solver G P) \<and>
        (\<forall>S. flow_solution S \<longrightarrow> table_le (key_states P (initial_solver G P)) S)"
    proof (intro conjI allI impI)
      fix S assume S: "flow_solution S"
      show "table_le (key_states P (initial_solver G P)) S"
        unfolding table_le_def
      proof
        fix n
        show "rel_option le (key_states P (initial_solver G P) n) (S n)"
        proof (cases "n \<in> reachable G")
          case True
          then obtain y where "S n = Some y" "y \<in> states"
            using S state_tableD by (auto simp: flow_solution_def)
          with True show ?thesis by (simp add: initial_key set_solver_order bottom_least)
        next
          case False
          then have "S n = None" using S by (auto simp: flow_solution_def)
          with False show ?thesis by (simp add: initial_key set_solver_order)
        qed
      qed
    qed (rule climbing_initial)
  next
    fix t
    assume *: "climbing t \<and> (\<forall>S. flow_solution S \<longrightarrow> table_le (key_states P t) S)"
      and "worklist t \<noteq> []"
    then obtain node rest where wl: "worklist t = node # rest" by (cases "worklist t") auto
    have node: "node \<in> reachable G"
      using * wl by (auto simp: climbing_def solver_inv_def)
    show "climbing (solve_step G P t) \<and>
        (\<forall>S. flow_solution S \<longrightarrow> table_le (key_states P (solve_step G P t)) S)"
      using * node
      by (auto simp: solve_step_key [OF wl] flow_solution_def
          intro!: climbing_step(1) [OF _ wl] table_le_upd_left flow_value_mono)
  qed
  moreover have "key_states P ?r n = Some (flow_value G P (key_states P ?r) n)"
    if "n \<in> reachable G" for n
    by (rule solves_at_key [OF solve_dataflow_solves(3) [OF r that]])
  then have "flow_solution (key_states P ?r)"
    using calculation key_dom by (auto simp: flow_solution_def key climbing_def)
  ultimately show ?thesis using r key by auto
qed

end

end
