(* ===== verification/Dominance.thy ===== *)
theory Dominance
  imports Flow_Graph
begin

text \<open>
  Dominance facts of a graph snapshot (\<open>src/src/analysis/dominance.rs\<close>): the iterated dominator sets,
  the immediate-dominator tree, dominance frontiers and the pruned iterated frontier. Loops that run
  until nothing changes are \<open>while_option\<close>, so a run that does not end is \<open>None\<close>; the theory
  \<open>Dominance_Correct\<close> shows that they end and what they compute. The field \<open>empty_node_set\<close> of the
  source only gives its accessors an empty set to borrow.
\<close>

record 'n dominance =
  root :: "'n option"
  dominators :: "'n \<rightharpoonup> 'n set"
  immediate_dominators :: "'n \<rightharpoonup> 'n"
  children :: "'n \<rightharpoonup> 'n list"
  frontiers :: "'n \<rightharpoonup> 'n set"

definition set_of :: "('n \<rightharpoonup> 'n set) \<Rightarrow> 'n \<Rightarrow> 'n set" where
  "set_of m n = (case m n of None \<Rightarrow> {} | Some s \<Rightarrow> s)"

section \<open>Dominator sets\<close>

definition initial_dominators :: "'n dataflow_graph \<Rightarrow> 'n \<Rightarrow> ('n \<rightharpoonup> 'n set)" where
  "initial_dominators G e =
     (\<lambda>n. if n \<in> nodes G then Some (if n = e then {n} else nodes G) else None)"

definition next_dominators ::
  "('n::linorder) dataflow_graph \<Rightarrow> ('n \<rightharpoonup> 'n set) \<Rightarrow> 'n \<Rightarrow> 'n set" where
  "next_dominators G doms node =
     insert node
       (case sorted_list_of_set (predecessors G node) of
          [] \<Rightarrow> {}
        | p # ps \<Rightarrow> fold (\<lambda>q acc. acc \<inter> set_of doms q) ps (set_of doms p))"

definition update_dominators ::
  "('n::linorder) dataflow_graph \<Rightarrow> 'n \<Rightarrow> 'n \<Rightarrow> ('n \<rightharpoonup> 'n set) \<times> bool \<Rightarrow> ('n \<rightharpoonup> 'n set) \<times> bool" where
  "update_dominators G e node st =
     (let (doms, changed) = st
      in if node = e then st
         else
           let new = next_dominators G doms node
           in if doms node \<noteq> Some new then (doms(node \<mapsto> new), True) else st)"

definition sweep_dominators ::
  "('n::linorder) dataflow_graph \<Rightarrow> 'n \<Rightarrow> ('n \<rightharpoonup> 'n set) \<Rightarrow> ('n \<rightharpoonup> 'n set) \<times> bool" where
  "sweep_dominators G e doms =
     fold (update_dominators G e) (sorted_list_of_set (nodes G)) (doms, False)"

definition compute_dominators ::
  "('n::linorder) dataflow_graph \<Rightarrow> 'n \<Rightarrow> ('n \<rightharpoonup> 'n set) option" where
  "compute_dominators G e =
     map_option fst
       (while_option snd (\<lambda>(doms, _). sweep_dominators G e doms)
          (initial_dominators G e, True))"

section \<open>Immediate dominators and the tree\<close>

definition strict_dominators :: "('n::linorder \<rightharpoonup> 'n set) \<Rightarrow> 'n \<Rightarrow> 'n list" where
  "strict_dominators doms node = filter (\<lambda>d. d \<noteq> node) (sorted_list_of_set (set_of doms node))"

definition find_immediate :: "('n::linorder \<rightharpoonup> 'n set) \<Rightarrow> 'n \<Rightarrow> 'n option" where
  "find_immediate doms node =
     (let strict = strict_dominators doms node
      in find (\<lambda>candidate.
           \<not> list_ex (\<lambda>other. other \<noteq> candidate \<and> candidate \<in> set_of doms other) strict)
           strict)"

definition push_child :: "'n \<Rightarrow> 'n \<Rightarrow> ('n \<rightharpoonup> 'n list) \<Rightarrow> ('n \<rightharpoonup> 'n list)" where
  "push_child parent child m =
     m(parent \<mapsto> (case m parent of None \<Rightarrow> [] | Some cs \<Rightarrow> cs) @ [child])"

definition attach_node ::
  "('n::linorder \<rightharpoonup> 'n set) \<Rightarrow> 'n \<Rightarrow> 'n \<Rightarrow> ('n \<rightharpoonup> 'n) \<times> ('n \<rightharpoonup> 'n list)
    \<Rightarrow> ('n \<rightharpoonup> 'n) \<times> ('n \<rightharpoonup> 'n list)" where
  "attach_node doms e node tree =
     (let (idoms, kids) = tree
      in if node = e then tree
         else case find_immediate doms node of
           None \<Rightarrow> tree
         | Some immediate \<Rightarrow> (idoms(node \<mapsto> immediate), push_child immediate node kids))"

definition dominator_tree ::
  "('n::linorder) dataflow_graph \<Rightarrow> ('n \<rightharpoonup> 'n set) \<Rightarrow> 'n \<Rightarrow> ('n \<rightharpoonup> 'n) \<times> ('n \<rightharpoonup> 'n list)" where
  "dominator_tree G doms e =
     (let (idoms, kids) =
        fold (attach_node doms e) (sorted_list_of_set (reachable G))
          (Map.empty, \<lambda>n. if n \<in> reachable G then Some [] else None)
      in (idoms, \<lambda>n. map_option sort (kids n)))"

section \<open>Dominance frontiers\<close>

definition add_frontier :: "'n \<Rightarrow> 'n \<Rightarrow> ('n \<rightharpoonup> 'n set) \<Rightarrow> ('n \<rightharpoonup> 'n set)" where
  "add_frontier current node fr = fr(current \<mapsto> insert node (set_of fr current))"

text \<open>The walk of one predecessor up the tree, until the node's own immediate dominator.\<close>

definition walk_frontier ::
  "('n \<rightharpoonup> 'n) \<Rightarrow> 'n \<Rightarrow> 'n \<Rightarrow> ('n \<rightharpoonup> 'n set) \<Rightarrow> ('n \<rightharpoonup> 'n set) option" where
  "walk_frontier idoms node predecessor fr =
     map_option snd
       (while_option (\<lambda>(runner, _). runner \<noteq> None \<and> runner \<noteq> idoms node)
          (\<lambda>(runner, fr).
             case runner of
               None \<Rightarrow> (runner, fr)
             | Some current \<Rightarrow> (idoms current, add_frontier current node fr))
          (Some predecessor, fr))"

fun fold_option :: "('a \<Rightarrow> 's \<Rightarrow> 's option) \<Rightarrow> 'a list \<Rightarrow> 's \<Rightarrow> 's option" where
  "fold_option f [] s = Some s"
| "fold_option f (x # xs) s = Option.bind (f x s) (fold_option f xs)"

definition node_frontiers ::
  "('n::linorder) dataflow_graph \<Rightarrow> ('n \<rightharpoonup> 'n) \<Rightarrow> 'n \<Rightarrow> ('n \<rightharpoonup> 'n set) \<Rightarrow> ('n \<rightharpoonup> 'n set) option" where
  "node_frontiers G idoms node fr =
     (if card (predecessors G node) < 2 then Some fr
      else fold_option (walk_frontier idoms node) (sorted_list_of_set (predecessors G node)) fr)"

definition compute_frontiers ::
  "('n::linorder) dataflow_graph \<Rightarrow> ('n \<rightharpoonup> 'n) \<Rightarrow> ('n \<rightharpoonup> 'n set) option" where
  "compute_frontiers G idoms =
     fold_option (node_frontiers G idoms) (sorted_list_of_set (reachable G))
       (\<lambda>n. if n \<in> reachable G then Some {} else None)"

section \<open>The facts of a graph\<close>

definition from_graph :: "('n::linorder) dataflow_graph \<Rightarrow> 'n dominance option" where
  "from_graph G =
     (case entry G of
        None \<Rightarrow>
          Some \<lparr>root = None, dominators = Map.empty, immediate_dominators = Map.empty,
                children = Map.empty, frontiers = Map.empty\<rparr>
      | Some e \<Rightarrow>
          Option.bind (compute_dominators G e) (\<lambda>doms.
            let (idoms, kids) = dominator_tree G doms e
            in map_option
                 (\<lambda>fr. \<lparr>root = Some e, dominators = doms, immediate_dominators = idoms,
                        children = kids, frontiers = fr\<rparr>)
                 (compute_frontiers G idoms)))"

definition dominates :: "'n dominance \<Rightarrow> 'n \<Rightarrow> 'n \<Rightarrow> bool" where
  "dominates D dominator node \<longleftrightarrow> dominator \<in> set_of (dominators D) node"

definition immediate_dominator :: "'n dominance \<Rightarrow> 'n \<Rightarrow> 'n option" where
  "immediate_dominator D node = immediate_dominators D node"

definition tree_children :: "'n dominance \<Rightarrow> 'n \<Rightarrow> 'n list" where
  "tree_children D node = (case children D node of None \<Rightarrow> [] | Some cs \<Rightarrow> cs)"

definition dominance_frontier :: "'n dominance \<Rightarrow> 'n \<Rightarrow> 'n set" where
  "dominance_frontier D node = set_of (frontiers D) node"

definition is_backedge :: "'n dominance \<Rightarrow> 'n \<Rightarrow> 'n \<Rightarrow> bool" where
  "is_backedge D from dest = dominates D dest from"

section \<open>The pruned iterated frontier\<close>

definition frontier_candidate ::
  "'n set \<Rightarrow> 'n set \<Rightarrow> 'n \<Rightarrow> 'n set \<times> 'n set \<Rightarrow> 'n set \<times> 'n set" where
  "frontier_candidate definitions live_in candidate st =
     (let (result, work) = st
      in if candidate \<notin> live_in \<or> candidate \<in> result then st
         else (insert candidate result,
               if candidate \<notin> definitions then insert candidate work else work))"

definition iterated_step ::
  "('n::linorder) dominance \<Rightarrow> 'n set \<Rightarrow> 'n set \<Rightarrow> 'n set \<times> 'n set \<Rightarrow> 'n set \<times> 'n set" where
  "iterated_step D definitions live_in st =
     (let (result, work) = st; node = Min work
      in fold (frontier_candidate definitions live_in)
           (sorted_list_of_set (dominance_frontier D node)) (result, work - {node}))"

definition pruned_iterated_frontier ::
  "('n::linorder) dominance \<Rightarrow> 'n set \<Rightarrow> 'n set \<Rightarrow> 'n set option" where
  "pruned_iterated_frontier D definitions live_in =
     map_option fst
       (while_option (\<lambda>(_, work). work \<noteq> {}) (iterated_step D definitions live_in)
          ({}, definitions))"

end
