(* ===== verification/Dominance_Correct.thy ===== *)
theory Dominance_Correct
  imports Dominance
begin

text \<open>
  What the dominance computation produces. A root is the entry or a node without predecessors (the
  code lets unreachable nodes take part in the set calculation). A node \<open>d\<close> dominates \<open>n\<close> when every
  path from a root to \<open>n\<close> passes through \<open>d\<close>. Shown here: the iteration ends with exactly these sets;
  the immediate dominator is the closest strict dominator; the frontier walk ends and collects the
  frontier; the pruned iterated frontier is the least closed set.
\<close>

section \<open>Root paths\<close>

text \<open>Paths are listed backwards: the head is the node reached.\<close>

inductive root_path :: "'n dataflow_graph \<Rightarrow> 'n \<Rightarrow> 'n list \<Rightarrow> 'n \<Rightarrow> bool" for G e where
  start: "r \<in> nodes G \<Longrightarrow> r = e \<or> predecessors G r = {} \<Longrightarrow> root_path G e [r] r"
| step: "root_path G e xs m \<Longrightarrow> n \<in> successors G m \<Longrightarrow> root_path G e (n # xs) n"

inductive_cases root_path_NilE [elim!]: "root_path G e [] n"
inductive_cases root_path_ConsE: "root_path G e (x # xs) n"

definition dom_by_paths :: "'n dataflow_graph \<Rightarrow> 'n \<Rightarrow> 'n \<Rightarrow> 'n \<Rightarrow> bool" where
  "dom_by_paths G e d n \<longleftrightarrow> d \<in> nodes G \<and> (\<forall>xs. root_path G e xs n \<longrightarrow> d \<in> set xs)"

definition strictly_dom :: "'n dataflow_graph \<Rightarrow> 'n \<Rightarrow> 'n \<Rightarrow> 'n \<Rightarrow> bool" where
  "strictly_dom G e d n \<longleftrightarrow> dom_by_paths G e d n \<and> d \<noteq> n"

lemma root_path_hd: "root_path G e xs n \<Longrightarrow> \<exists>ys. xs = n # ys"
  by (cases rule: root_path.cases) auto

lemma root_path_suffix:
  "root_path G e xs n \<Longrightarrow> xs = zs @ c # ys \<Longrightarrow> root_path G e (c # ys) c"
proof (induction arbitrary: zs rule: root_path.induct)
  case (start r)
  then show ?case by (auto simp: Cons_eq_append_conv intro: root_path.start)
next
  case (step xs m n)
  then show ?case by (cases zs) (auto intro: root_path.step)
qed

lemma root_path_through:
  "root_path G e xs n \<Longrightarrow> b \<in> set xs \<Longrightarrow>
     \<exists>ys. root_path G e ys b \<and> set ys \<subseteq> set xs \<and> (b \<noteq> n \<longrightarrow> length ys < length xs)"
proof -
  assume p: "root_path G e xs n" and "b \<in> set xs"
  then obtain zs ys where xs: "xs = zs @ b # ys" by (auto simp: in_set_conv_decomp)
  have "root_path G e (b # ys) b" by (rule root_path_suffix [OF p xs])
  moreover have "b \<noteq> n \<Longrightarrow> zs \<noteq> []" using root_path_hd [OF p] xs by auto
  ultimately show ?thesis using xs by (intro exI [of _ "b # ys"]) auto
qed

text \<open>The part of a path after its last visit to \<open>c\<close> can follow any other path to \<open>c\<close>.\<close>

lemma root_path_replace:
  "root_path G e xs n \<Longrightarrow> xs = zs @ c # ys \<Longrightarrow> root_path G e ps c \<Longrightarrow> root_path G e (zs @ ps) n"
proof (induction arbitrary: zs rule: root_path.induct)
  case (start r)
  then show ?case by (auto simp: Cons_eq_append_conv)
next
  case (step xs m n)
  show ?case
  proof (cases zs)
    case Nil
    with step show ?thesis by auto
  next
    case (Cons z zs')
    with step have "root_path G e (zs' @ ps) m" by auto
    with step Cons show ?thesis by (auto intro: root_path.step)
  qed
qed

lemma dom_refl: "n \<in> nodes G \<Longrightarrow> dom_by_paths G e n n"
  using root_path_hd by (fastforce simp: dom_by_paths_def)

lemma dom_trans: "dom_by_paths G e a b \<Longrightarrow> dom_by_paths G e b c \<Longrightarrow> dom_by_paths G e a c"
  unfolding dom_by_paths_def using root_path_through by (metis subsetD)

lemma dom_antisym:
  assumes "root_path G e xs b" and "dom_by_paths G e a b" and "dom_by_paths G e b a"
  shows "a = b"
  using assms(1)
proof (induction "length xs" arbitrary: xs rule: less_induct)
  case less
  show ?case
  proof (rule ccontr)
    assume ne: "a \<noteq> b"
    have "a \<in> set xs" using assms(2) less.prems by (simp add: dom_by_paths_def)
    with less.prems ne obtain ys where ys: "root_path G e ys a" "length ys < length xs"
      using root_path_through by (metis (no_types))
    have "b \<in> set ys" using assms(3) ys(1) by (simp add: dom_by_paths_def)
    with ys(1) ne obtain zs where "root_path G e zs b" "length zs < length ys"
      using root_path_through by (metis (no_types))
    with less.hyps ys(2) ne show False by (meson less_trans)
  qed
qed

text \<open>Two dominators of a node that some root reaches are comparable: take a path to the node and
  its last visit to either of them.\<close>

lemma dom_linear_aux:
  assumes p: "root_path G e (zs @ c # ys) n" and c: "b \<notin> set zs" and ne: "b \<noteq> c"
    and b: "dom_by_paths G e b n"
  shows "dom_by_paths G e b c"
proof -
  have "b \<in> set ps" if "root_path G e ps c" for ps
  proof -
    have "root_path G e (zs @ ps) n" by (rule root_path_replace [OF p refl that])
    with b c show ?thesis by (auto simp: dom_by_paths_def)
  qed
  with b show ?thesis by (simp add: dom_by_paths_def)
qed

lemma dom_linear:
  assumes p: "root_path G e xs n" and a: "dom_by_paths G e a n" and b: "dom_by_paths G e b n"
  shows "dom_by_paths G e a b \<or> dom_by_paths G e b a"
proof -
  have "\<exists>x \<in> set xs. x = a \<or> x = b" using p a by (auto simp: dom_by_paths_def)
  from split_list_first_prop [OF this] obtain zs c ys
    where xs: "xs = zs @ c # ys" and c: "c = a \<or> c = b" and first: "\<forall>z \<in> set zs. \<not> (z = a \<or> z = b)"
    by auto
  show ?thesis
  proof (cases "a = b")
    case True
    then show ?thesis using b dom_refl [of b G e] by (simp add: dom_by_paths_def)
  next
    case False
    from c show ?thesis
    proof
      assume "c = a"
      then show ?thesis
        using dom_linear_aux [OF p [unfolded xs], of b] first False b by auto
    next
      assume "c = b"
      then show ?thesis
        using dom_linear_aux [OF p [unfolded xs], of a] first False a by auto
    qed
  qed
qed

section \<open>The iteration computes domination by root paths\<close>

lemma fold_Int: "fold (\<lambda>q acc. acc \<inter> f q) ps S = S \<inter> (\<Inter>q \<in> set ps. f q)"
  by (induction ps arbitrary: S) auto

context flow_graph
begin

lemma next_dominators_eq:
  "next_dominators G doms n =
     insert n (if predecessors G n = {} then {}
               else \<Inter>p \<in> predecessors G n. set_of doms p)"
proof (cases "sorted_list_of_set (predecessors G n)")
  case Nil
  then have "predecessors G n = {}"
    by (metis finite_predecessors list.set(1) set_sorted_list_of_set)
  with Nil show ?thesis by (simp add: next_dominators_def)
next
  case (Cons p ps)
  then have "predecessors G n = insert p (set ps)"
    by (metis finite_predecessors list.simps(15) set_sorted_list_of_set)
  with Cons show ?thesis by (simp add: next_dominators_def fold_Int)
qed

text \<open>The invariant of the iteration: tables over the nodes, above the path-based sets, and
  descending.\<close>

definition dominator_inv :: "'n \<Rightarrow> ('n \<rightharpoonup> 'n set) \<Rightarrow> bool" where
  "dominator_inv e doms \<longleftrightarrow>
     dom doms = nodes G \<and> doms e = Some {e} \<and>
     (\<forall>n s. doms n = Some s \<longrightarrow> s \<subseteq> nodes G \<and> {d. dom_by_paths G e d n} \<subseteq> s) \<and>
     (\<forall>n s. doms n = Some s \<longrightarrow> n \<noteq> e \<longrightarrow> next_dominators G doms n \<subseteq> s)"

lemma set_of_Some [simp]: "doms n = Some s \<Longrightarrow> set_of doms n = s"
  by (simp add: set_of_def)

lemma dominator_invE:
  assumes "dominator_inv e doms" "n \<in> nodes G"
  obtains s where "doms n = Some s" "set_of doms n = s" "s \<subseteq> nodes G"
    "{d. dom_by_paths G e d n} \<subseteq> s" "n \<noteq> e \<Longrightarrow> next_dominators G doms n \<subseteq> s"
proof -
  have "n \<in> dom doms" using assms by (simp add: dominator_inv_def)
  then obtain s where s: "doms n = Some s" by blast
  show thesis by (rule that [OF s]) (use assms s in \<open>auto simp: dominator_inv_def\<close>)
qed

lemma dom_extend:
  assumes "dom_by_paths G e d n" "n \<in> successors G m" "d \<noteq> n"
  shows "dom_by_paths G e d m"
  using assms root_path.step [of G e _ m n] by (fastforce simp: dom_by_paths_def)

lemma paths_below_next:
  assumes inv: "dominator_inv e doms" and n: "n \<in> nodes G" "n \<noteq> e"
  shows "{d. dom_by_paths G e d n} \<subseteq> next_dominators G doms n"
proof
  fix d assume "d \<in> {d. dom_by_paths G e d n}"
  then have d: "dom_by_paths G e d n" by simp
  show "d \<in> next_dominators G doms n"
  proof (cases "predecessors G n = {} \<or> d = n")
    case True
    have "predecessors G n = {} \<Longrightarrow> d = n"
      using d root_path.start [of n G e] n by (auto simp: dom_by_paths_def)
    with True show ?thesis by (auto simp: next_dominators_eq)
  next
    case False
    have "d \<in> set_of doms p" if p: "p \<in> predecessors G n" for p
    proof -
      have "dom_by_paths G e d p"
        using d p False by (intro dom_extend [of e d n p]) (auto simp: predecessors_iff)
      moreover have "p \<in> nodes G" using p predecessors_nodes by blast
      ultimately show ?thesis using inv by (auto elim: dominator_invE)
    qed
    with False show ?thesis by (simp add: next_dominators_eq)
  qed
qed

lemma next_dominators_nodes:
  assumes "dominator_inv e doms" "n \<in> nodes G"
  shows "next_dominators G doms n \<subseteq> nodes G"
proof (cases "predecessors G n = {}")
  case True
  with assms show ?thesis by (simp add: next_dominators_eq)
next
  case False
  then obtain p where p: "p \<in> predecessors G n" by auto
  then have "p \<in> nodes G" using predecessors_nodes by blast
  with assms(1) have "set_of doms p \<subseteq> nodes G" by (auto elim: dominator_invE)
  with p False assms(2) show ?thesis by (auto simp: next_dominators_eq)
qed

lemma next_dominators_antimono:
  assumes "\<And>p. set_of doms' p \<subseteq> set_of doms p"
  shows "next_dominators G doms' n \<subseteq> next_dominators G doms n"
proof -
  have "(\<Inter>p \<in> predecessors G n. set_of doms' p) \<subseteq> (\<Inter>p \<in> predecessors G n. set_of doms p)"
    using assms by (rule INF_mono')
  then show ?thesis by (auto simp: next_dominators_eq)
qed

lemma dominator_inv_initial: "entry G = Some e \<Longrightarrow> dominator_inv e (initial_dominators G e)"
proof -
  assume e: "entry G = Some e"
  then have en: "e \<in> nodes G" by (rule entry_node)
  have "next_dominators G (initial_dominators G e) n \<subseteq> nodes G" if n: "n \<in> nodes G" for n
  proof (cases "predecessors G n = {}")
    case False
    then obtain p where p: "p \<in> predecessors G n" by auto
    then have "set_of (initial_dominators G e) p \<subseteq> nodes G"
      using en by (auto simp: initial_dominators_def set_of_def)
    with p False n show ?thesis by (auto simp: next_dominators_eq)
  qed (use n in \<open>simp add: next_dominators_eq\<close>)
  moreover have "{d. dom_by_paths G e d e} \<subseteq> {e}"
    using root_path.start [OF en, of e] by (auto simp: dom_by_paths_def)
  ultimately show ?thesis
    using en by (auto simp: dominator_inv_def initial_dominators_def dom_by_paths_def
        split: if_splits)
qed

lemma dominator_inv_update:
  assumes inv: "dominator_inv e doms" and n: "n \<in> nodes G" "n \<noteq> e"
  shows "dominator_inv e (doms(n \<mapsto> next_dominators G doms n))"
proof -
  let ?new = "next_dominators G doms n" and ?doms' = "doms(n \<mapsto> next_dominators G doms n)"
  obtain s where s: "doms n = Some s" using dominator_invE [OF inv n(1)] by blast
  have sub: "?new \<subseteq> s" using inv s n by (auto simp: dominator_inv_def)
  have le: "set_of ?doms' p \<subseteq> set_of doms p" for p
    using s sub by (auto simp: set_of_def)
  have "next_dominators G ?doms' m \<subseteq> t" if t: "?doms' m = Some t" "m \<noteq> e" for m t
  proof -
    have "next_dominators G doms m \<subseteq> t"
      using t inv by (cases "m = n") (auto simp: dominator_inv_def)
    with next_dominators_antimono [OF le] show ?thesis by blast
  qed
  then show ?thesis
    using inv n next_dominators_nodes [OF inv n(1)] paths_below_next [OF inv n]
    by (auto simp: dominator_inv_def split: if_splits)
qed

text \<open>The progress measure: the total size of the sets.\<close>

definition total_size :: "('n \<rightharpoonup> 'n set) \<Rightarrow> nat" where
  "total_size doms = (\<Sum>n \<in> nodes G. card (set_of doms n))"

lemma total_size_update:
  assumes inv: "dominator_inv e doms" and n: "n \<in> nodes G" "n \<noteq> e"
    and new: "doms n \<noteq> Some (next_dominators G doms n)"
  shows "total_size (doms(n \<mapsto> next_dominators G doms n)) < total_size doms"
proof -
  obtain s where s: "doms n = Some s" using dominator_invE [OF inv n(1)] by blast
  have "next_dominators G doms n \<subseteq> s" "s \<subseteq> nodes G"
    using dominator_invE [OF inv n(1)] s n(2) by auto
  then have "next_dominators G doms n \<subset> s" "finite s"
    using s new finite_nodes finite_subset by (blast, blast)
  then have "card (next_dominators G doms n) < card s" by (rule psubset_card_mono [rotated])
  then show ?thesis
    unfolding total_size_def using s n finite_nodes
    by (intro sum_strict_mono_ex1) (auto simp: set_of_def intro!: bexI [of _ n])
qed

lemma sweep_invariant:
  assumes "set ns \<subseteq> nodes G" and "dominator_inv e doms"
    and "fold (update_dominators G e) ns (doms, changed) = (doms', changed')"
  shows "dominator_inv e doms' \<and>
    (changed \<longrightarrow> changed') \<and>
    (if changed' \<and> \<not> changed then total_size doms' < total_size doms
     else total_size doms' \<le> total_size doms) \<and>
    (\<not> changed' \<longrightarrow> doms' = doms \<and>
       (\<forall>n \<in> set ns. n \<noteq> e \<longrightarrow> doms n = Some (next_dominators G doms n)))"
  using assms
proof (induction ns arbitrary: doms changed)
  case Nil
  then show ?case by auto
next
  case (Cons n ns)
  show ?case
  proof (cases "n = e \<or> doms n = Some (next_dominators G doms n)")
    case True
    then have "update_dominators G e n (doms, changed) = (doms, changed)"
      by (auto simp: update_dominators_def Let_def)
    with Cons.prems have "fold (update_dominators G e) ns (doms, changed) = (doms', changed')"
      by simp
    with Cons.IH [OF _ Cons.prems(2) this] Cons.prems(1) True show ?thesis by auto
  next
    case False
    let ?d = "doms(n \<mapsto> next_dominators G doms n)"
    have n: "n \<in> nodes G" "n \<noteq> e" using Cons.prems(1) False by auto
    have "update_dominators G e n (doms, changed) = (?d, True)"
      using False by (simp add: update_dominators_def Let_def)
    with Cons.prems have f: "fold (update_dominators G e) ns (?d, True) = (doms', changed')"
      by simp
    have "dominator_inv e ?d" by (rule dominator_inv_update [OF Cons.prems(2) n])
    with Cons.IH [OF _ this f] Cons.prems(1)
    have "dominator_inv e doms'" "changed'" "total_size doms' \<le> total_size ?d" by auto
    moreover have "total_size ?d < total_size doms"
      using False by (intro total_size_update [OF Cons.prems(2) n]) simp
    ultimately show ?thesis by auto
  qed
qed

lemma sweep_ok:
  assumes "dominator_inv e doms" and "sweep_dominators G e doms = (doms', changed)"
  shows "dominator_inv e doms'"
    and "changed \<Longrightarrow> total_size doms' < total_size doms"
    and "\<not> changed \<Longrightarrow> doms' = doms"
    and "\<not> changed \<Longrightarrow> n \<in> nodes G \<Longrightarrow> n \<noteq> e \<Longrightarrow> doms' n = Some (next_dominators G doms' n)"
  using sweep_invariant [OF _ assms(1) assms(2) [unfolded sweep_dominators_def]]
  by (auto simp: finite_nodes)

lemma compute_dominators_returns:
  assumes e: "entry G = Some e"
  shows "\<exists>doms. compute_dominators G e = Some doms \<and> dominator_inv e doms \<and>
     (\<forall>n \<in> nodes G. n \<noteq> e \<longrightarrow> doms n = Some (next_dominators G doms n))"
proof -
  let ?c = "\<lambda>(doms, _). sweep_dominators G e doms"
  let ?P = "\<lambda>(doms, changed). dominator_inv e doms \<and>
    (\<not> changed \<longrightarrow> (\<forall>n \<in> nodes G. n \<noteq> e \<longrightarrow> doms n = Some (next_dominators G doms n)))"
  let ?s = "(initial_dominators G e, True)"
  have step: "?P (?c t)" if "?P t" for t
  proof -
    obtain doms changed doms' changed' where [simp]: "t = (doms, changed)"
      and sw: "sweep_dominators G e doms = (doms', changed')"
      by (metis surj_pair)
    from that have "dominator_inv e doms" by simp
    from sweep_ok(1,4) [OF this sw] show ?thesis by (auto simp: sw)
  qed
  have "\<exists>t. while_option snd ?c ?s = Some t"
  proof (rule wf_rel_while_option_Some [where P = ?P and
      R = "inv_image (less_than <*lex*> less_than) (\<lambda>(doms, changed). (total_size doms, of_bool changed))"])
    show "wf (inv_image (less_than <*lex*> less_than)
        (\<lambda>(doms :: 'n \<rightharpoonup> 'n set, changed). (total_size doms, of_bool changed :: nat)))"
      by (intro wf_inv_image wf_lex_prod) auto
    show "?P ?s" using dominator_inv_initial [OF e] by simp
  next
    fix t assume t: "?P t \<and> snd t"
    show "?P (?c t)" by (rule step [OF conjunct1 [OF t]])
    obtain doms old where tt: "t = (doms, old)" by (cases t)
    with t have old: "old" and inv: "dominator_inv e doms" by simp_all
    obtain doms' changed where sw: "sweep_dominators G e doms = (doms', changed)" by fastforce
    from sweep_ok(2,3) [OF inv sw] old
    show "(?c t, t) \<in> inv_image (less_than <*lex*> less_than)
        (\<lambda>(doms, changed). (total_size doms, of_bool changed))"
      by (cases changed) (simp_all add: sw tt)
  qed
  then obtain t where t: "while_option snd ?c ?s = Some t" by blast
  have "?P t"
    by (rule while_option_rule [OF _ t, where P = ?P])
      (use step dominator_inv_initial [OF e] in auto)
  moreover have "\<not> snd t" by (rule while_option_stop [OF t])
  ultimately show ?thesis by (auto simp: compute_dominators_def t)
qed

lemma fixpoint_sound:
  assumes inv: "dominator_inv e doms"
    and fix_eq: "\<forall>n \<in> nodes G. n \<noteq> e \<longrightarrow> doms n = Some (next_dominators G doms n)"
  shows "root_path G e xs n \<Longrightarrow> d \<in> set_of doms n \<Longrightarrow> d \<in> set xs"
proof (induction rule: root_path.induct)
  case (start r)
  show ?case
  proof (cases "r = e")
    case True
    with start inv show ?thesis by (simp add: dominator_inv_def)
  next
    case False
    with start fix_eq have "doms r = Some {r}" by (auto simp: next_dominators_eq)
    with start show ?thesis by simp
  qed
next
  case (step xs m n)
  show ?case
  proof (cases "n = e")
    case True
    with step inv show ?thesis by (simp add: dominator_inv_def)
  next
    case False
    have m: "m \<in> predecessors G n" using step.hyps(2) by (simp add: predecessors_iff)
    have "n \<in> nodes G" using step.hyps(2) successors_nodes by blast
    with fix_eq False have "doms n = Some (next_dominators G doms n)" by blast
    with step.prems m have "d = n \<or> d \<in> set_of doms m"
      by (auto simp: next_dominators_eq split: if_splits)
    with step.IH show ?thesis by auto
  qed
qed

theorem compute_dominators_paths:
  assumes e: "entry G = Some e"
  shows "\<exists>doms. compute_dominators G e = Some doms \<and> dom doms = nodes G \<and>
           (\<forall>n \<in> nodes G. doms n = Some {d. dom_by_paths G e d n})"
proof -
  obtain doms where c: "compute_dominators G e = Some doms" and inv: "dominator_inv e doms"
    and fe: "\<forall>n \<in> nodes G. n \<noteq> e \<longrightarrow> doms n = Some (next_dominators G doms n)"
    using compute_dominators_returns [OF e] by blast
  have "doms n = Some {d. dom_by_paths G e d n}" if n: "n \<in> nodes G" for n
  proof -
    obtain s where s: "doms n = Some s" "set_of doms n = s" "s \<subseteq> nodes G"
      and above: "{d. dom_by_paths G e d n} \<subseteq> s"
      using dominator_invE [OF inv n] by metis
    have "s \<subseteq> {d. dom_by_paths G e d n}"
      using fixpoint_sound [OF inv fe] s by (auto simp: dom_by_paths_def)
    with above show ?thesis using s by simp
  qed
  with c inv show ?thesis by (auto simp: dominator_inv_def)
qed

end

section \<open>Immediate dominators\<close>

lemma find_unique:
  assumes "\<And>x y. x \<in> set xs \<Longrightarrow> y \<in> set xs \<Longrightarrow> P x \<Longrightarrow> P y \<Longrightarrow> x = y"
  shows "find P xs = Some x \<longleftrightarrow> x \<in> set xs \<and> P x"
proof
  assume "find P xs = Some x"
  then show "x \<in> set xs \<and> P x" by (auto simp: find_Some_iff)
next
  assume x: "x \<in> set xs \<and> P x"
  then have "find P xs \<noteq> None" by (auto simp: find_None_iff)
  then obtain y where y: "find P xs = Some y" by blast
  then have "y \<in> set xs" "P y" by (auto simp: find_Some_iff)
  with assms x y show "find P xs = Some x" by blast
qed

context flow_graph
begin

definition dominator_table :: "'n \<Rightarrow> ('n \<rightharpoonup> 'n set) \<Rightarrow> bool" where
  "dominator_table e doms \<longleftrightarrow>
     entry G = Some e \<and> dom doms = nodes G \<and>
     (\<forall>n \<in> nodes G. doms n = Some {d. dom_by_paths G e d n})"

lemma set_of_table:
  "dominator_table e doms \<Longrightarrow> n \<in> nodes G \<Longrightarrow> set_of doms n = {d. dom_by_paths G e d n}"
  by (simp add: dominator_table_def)

lemma dom_nodes: "dom_by_paths G e d n \<Longrightarrow> d \<in> nodes G"
  by (simp add: dom_by_paths_def)

lemma finite_doms: "finite {d. dom_by_paths G e d n}"
  by (rule finite_subset [OF _ finite_nodes]) (auto simp: dom_by_paths_def)

text \<open>Reachable nodes have a path from the entry, and everything on such a path is reachable.\<close>

lemma reachable_path:
  assumes e: "entry G = Some e" and n: "n \<in> reachable G"
  shows "\<exists>xs. root_path G e xs n \<and> set xs \<subseteq> reachable G"
proof -
  from n e have "(e, n) \<in> (edges G)\<^sup>*" by (auto simp: reachable_iff)
  then show ?thesis
  proof (induction rule: rtrancl_induct)
    case base
    have "root_path G e [e] e" by (rule root_path.start) (use e entry_node in auto)
    then show ?case using entry_reachable [OF e] by (intro exI [of _ "[e]"]) auto
  next
    case (step m n)
    then obtain xs where xs: "root_path G e xs m" "set xs \<subseteq> reachable G" by blast
    moreover have "m \<in> set xs" using xs(1) root_path_hd by fastforce
    ultimately show ?case
      using step.hyps successor_reachable [of m n] by (intro exI [of _ "n # xs"]) (auto intro: root_path.step)
  qed
qed

lemma dominator_reachable:
  "entry G = Some e \<Longrightarrow> n \<in> reachable G \<Longrightarrow> dom_by_paths G e d n \<Longrightarrow> d \<in> reachable G"
  using reachable_path by (fastforce simp: dom_by_paths_def)

lemma reachable_antisym:
  "entry G = Some e \<Longrightarrow> b \<in> reachable G \<Longrightarrow> dom_by_paths G e a b \<Longrightarrow> dom_by_paths G e b a \<Longrightarrow>
     a = b"
  using reachable_path dom_antisym by metis

lemma reachable_linear:
  "entry G = Some e \<Longrightarrow> n \<in> reachable G \<Longrightarrow> dom_by_paths G e a n \<Longrightarrow> dom_by_paths G e b n \<Longrightarrow>
     dom_by_paths G e a b \<or> dom_by_paths G e b a"
  using reachable_path dom_linear by metis

text \<open>The closest strict dominator: the one every strict dominator dominates.\<close>

definition closest_dominator :: "'n \<Rightarrow> 'n \<Rightarrow> 'n \<Rightarrow> bool" where
  "closest_dominator e n c \<longleftrightarrow>
     strictly_dom G e c n \<and> (\<forall>d. strictly_dom G e d n \<longrightarrow> dom_by_paths G e d c)"

lemma find_immediate_iff:
  assumes t: "dominator_table e doms" and n: "n \<in> reachable G"
  shows "find_immediate doms n = Some c \<longleftrightarrow> closest_dominator e n c"
proof -
  let ?strict = "strict_dominators doms n"
  let ?P = "\<lambda>c. \<not> list_ex (\<lambda>other. other \<noteq> c \<and> c \<in> set_of doms other) ?strict"
  have e: "entry G = Some e" and n': "n \<in> nodes G"
    using t n reachable_nodes by (auto simp: dominator_table_def)
  have strict: "set ?strict = {d. strictly_dom G e d n}"
    by (auto simp: strict_dominators_def set_of_table [OF t n'] finite_doms strictly_dom_def)
  have P: "?P c \<longleftrightarrow> (\<forall>d. strictly_dom G e d n \<longrightarrow> dom_by_paths G e d c)"
    if c: "c \<in> set ?strict" for c
  proof -
    have c_n: "dom_by_paths G e c n" and c_r: "c \<in> reachable G"
      using c strict dominator_reachable [OF e n] by (auto simp: strictly_dom_def)
    have "(d \<noteq> c \<longrightarrow> c \<notin> set_of doms d) \<longleftrightarrow> dom_by_paths G e d c" if d: "strictly_dom G e d n" for d
    proof -
      have d_n: "dom_by_paths G e d n" using d by (simp add: strictly_dom_def)
      have "dom_by_paths G e d c \<or> dom_by_paths G e c d"
        using reachable_path [OF e n] dom_linear [OF _ d_n c_n] by blast
      moreover have "d = c" if "dom_by_paths G e d c" "dom_by_paths G e c d"
        by (rule reachable_antisym [OF e c_r that])
      moreover have "c \<in> set_of doms d \<longleftrightarrow> dom_by_paths G e c d"
        using set_of_table [OF t dom_nodes [OF d_n]] by simp
      moreover have "dom_by_paths G e c c" using c_n by (intro dom_refl dom_nodes)
      ultimately show ?thesis by blast
    qed
    then show ?thesis by (auto simp: list_ex_iff strict)
  qed
  have "find ?P ?strict = Some c \<longleftrightarrow> c \<in> set ?strict \<and> ?P c"
  proof (rule find_unique)
    fix x y assume xy: "x \<in> set ?strict" "y \<in> set ?strict" "?P x" "?P y"
    then have "dom_by_paths G e y x" "dom_by_paths G e x y"
      using P strict by blast+
    moreover have "y \<in> reachable G"
      using xy(2) strict dominator_reachable [OF e n] by (auto simp: strictly_dom_def)
    ultimately show "x = y" using reachable_antisym [OF e] by blast
  qed
  also have "\<dots> \<longleftrightarrow> c \<in> set ?strict \<and> (\<forall>d. strictly_dom G e d n \<longrightarrow> dom_by_paths G e d c)"
    by (rule conj_cong [OF refl P])
  also have "\<dots> \<longleftrightarrow> closest_dominator e n c"
    by (simp only: strict closest_dominator_def mem_Collect_eq)
  finally show ?thesis
    by (simp only: find_immediate_def Let_def)
qed

text \<open>A node with a strict dominator has a closest one.\<close>

lemma closest_exists:
  assumes t: "dominator_table e doms" and n: "n \<in> reachable G" and d: "strictly_dom G e d n"
  shows "\<exists>c. closest_dominator e n c"
proof -
  have e: "entry G = Some e" using t by (simp add: dominator_table_def)
  let ?S = "{d. strictly_dom G e d n}"
  have fin: "finite ?S"
    by (rule finite_subset [OF _ finite_doms [of e n]]) (auto simp: strictly_dom_def)
  let ?f = "\<lambda>d. card {x. dom_by_paths G e x d}"
  have "Max (?f ` ?S) \<in> ?f ` ?S" using d fin by (intro Max_in) auto
  then obtain c where c: "c \<in> ?S" and cm: "?f c = Max (?f ` ?S)" by auto
  have max: "?f d \<le> ?f c" if "d \<in> ?S" for d
    unfolding cm using that fin by (intro Max_ge) auto
  have "dom_by_paths G e d' c" if d': "strictly_dom G e d' n" for d'
  proof (rule ccontr)
    assume no: "\<not> dom_by_paths G e d' c"
    have dn: "dom_by_paths G e d' n" "dom_by_paths G e c n" using c d' by (auto simp: strictly_dom_def)
    with no have cd: "dom_by_paths G e c d'"
      using reachable_linear [OF e n] by blast
    then have "{x. dom_by_paths G e x c} \<subseteq> {x. dom_by_paths G e x d'}" by (auto intro: dom_trans)
    moreover have "d' \<in> {x. dom_by_paths G e x d'} - {x. dom_by_paths G e x c}"
      using no dn by (auto intro: dom_refl dom_nodes)
    ultimately have "{x. dom_by_paths G e x c} \<subset> {x. dom_by_paths G e x d'}" by auto
    then have "card {x. dom_by_paths G e x c} < card {x. dom_by_paths G e x d'}"
      by (rule psubset_card_mono [OF finite_doms])
    with max [of d'] d' show False by simp
  qed
  with c show ?thesis by (auto simp: closest_dominator_def)
qed

lemma entry_not_strict: "entry G = Some e \<Longrightarrow> \<not> strictly_dom G e d e"
proof
  assume e: "entry G = Some e" and d: "strictly_dom G e d e"
  have "root_path G e [e] e" by (rule root_path.start) (use e entry_node in auto)
  with d show False by (auto simp: strictly_dom_def dom_by_paths_def)
qed

end

text \<open>The two maps of the tree after all reachable nodes are attached.\<close>

lemma fold_attach:
  "fold (attach_node doms e) ns (idoms, kids) = (idoms', kids') \<Longrightarrow> distinct ns \<Longrightarrow>
     (\<forall>n. idoms' n = (if n \<in> set ns \<and> n \<noteq> e \<and> find_immediate doms n \<noteq> None
                      then find_immediate doms n else idoms n)) \<and>
     (\<forall>m. kids' m =
        (let new = filter (\<lambda>n. n \<noteq> e \<and> find_immediate doms n = Some m) ns
         in if new = [] then kids m
            else Some ((case kids m of None \<Rightarrow> [] | Some cs \<Rightarrow> cs) @ new)))"
proof (induction ns arbitrary: idoms kids)
  case Nil
  then show ?case by simp
next
  case (Cons n ns)
  show ?case
  proof (cases "n = e \<or> find_immediate doms n = None")
    case True
    then have "attach_node doms e n (idoms, kids) = (idoms, kids)"
      by (auto simp: attach_node_def)
    with Cons.prems have "fold (attach_node doms e) ns (idoms, kids) = (idoms', kids')" by simp
    from Cons.IH [OF this] Cons.prems(2) True show ?thesis by (auto simp: Let_def)
  next
    case False
    then obtain c where c: "find_immediate doms n = Some c" "n \<noteq> e" by auto
    then have "attach_node doms e n (idoms, kids) = (idoms(n \<mapsto> c), push_child c n kids)"
      by (simp add: attach_node_def)
    with Cons.prems have
      "fold (attach_node doms e) ns (idoms(n \<mapsto> c), push_child c n kids) = (idoms', kids')" by simp
    from Cons.IH [OF this] Cons.prems(2) c show ?thesis
      by (auto simp: Let_def push_child_def split: option.split)
  qed
qed

context flow_graph
begin

lemma dominator_tree_facts:
  assumes t: "dominator_table e doms" and dt: "dominator_tree G doms e = (idoms, kids)"
  shows "idoms n = Some c \<longleftrightarrow> n \<in> reachable G \<and> closest_dominator e n c"
    and "kids m = (if m \<in> reachable G
                   then Some (sorted_list_of_set {n. idoms n = Some m}) else None)"
proof -
  have e: "entry G = Some e" using t by (simp add: dominator_table_def)
  let ?ns = "sorted_list_of_set (reachable G)"
  obtain kids0 where f: "fold (attach_node doms e) ?ns
      (Map.empty, \<lambda>n. if n \<in> reachable G then Some [] else None) = (idoms, kids0)"
    and kids: "kids = (\<lambda>n. map_option sort (kids0 n))"
    using dt by (auto simp: dominator_tree_def split: prod.splits)
  note tree = fold_attach [OF f distinct_sorted_list_of_set]
  have "idoms n = (if n \<in> reachable G \<and> n \<noteq> e then find_immediate doms n else None)" for n
    using tree by auto
  moreover have "\<not> closest_dominator e e c" for c
    using entry_not_strict [OF e] by (auto simp: closest_dominator_def)
  ultimately show idom: "idoms n = Some c \<longleftrightarrow> n \<in> reachable G \<and> closest_dominator e n c" for n c
    using find_immediate_iff [OF t] by auto
  have im: "idoms n = Some m \<longleftrightarrow> n \<in> reachable G \<and> n \<noteq> e \<and> find_immediate doms n = Some m" for n m
    using tree by auto
  let ?new = "filter (\<lambda>n. n \<noteq> e \<and> find_immediate doms n = Some m) ?ns"
  have set_new: "set ?new = {n. idoms n = Some m}" by (auto simp: im)
  have "sorted ?new" "distinct ?new"
    using sorted_filter [where f = "\<lambda>x. x" and xs = ?ns] by auto
  then have new: "?new = sorted_list_of_set {n. idoms n = Some m}"
    by (metis set_new sorted_list_of_set.idem_if_sorted_distinct)
  have "m \<in> reachable G" if "?new \<noteq> []"
  proof -
    have "set ?new \<noteq> {}" using that by (simp only: set_empty) simp
    then obtain n where "idoms n = Some m" unfolding set_new by blast
    then have "n \<in> reachable G" "dom_by_paths G e m n"
      by (auto simp: idom closest_dominator_def strictly_dom_def)
    then show ?thesis by (rule dominator_reachable [OF e])
  qed
  moreover have "kids0 m = (if ?new = [] then if m \<in> reachable G then Some [] else None
      else Some ((case if m \<in> reachable G then Some [] else None of None \<Rightarrow> [] | Some cs \<Rightarrow> cs) @ ?new))"
    using tree by (auto simp: Let_def)
  ultimately have "kids0 m = (if m \<in> reachable G then Some ?new else None)" by auto
  then show "kids m = (if m \<in> reachable G
                   then Some (sorted_list_of_set {n. idoms n = Some m}) else None)"
    by (auto simp: kids new sorted_sort_id)
qed

end

section \<open>Dominance frontiers\<close>

lemma set_of_add_frontier [simp]:
  "set_of (add_frontier q n fr) m = (if m = q then insert n (set_of fr m) else set_of fr m)"
  by (simp add: add_frontier_def set_of_def)

lemma walk_frontier_unfold:
  "walk_frontier idoms n q fr =
     (if idoms n = Some q then Some fr
      else case idoms q of
        None \<Rightarrow> Some (add_frontier q n fr)
      | Some c \<Rightarrow> walk_frontier idoms n c (add_frontier q n fr))"
proof (cases "idoms n = Some q")
  case True
  then show ?thesis by (simp add: walk_frontier_def while_option_unfold [of _ _ "(Some q, fr)"])
next
  case False
  have "walk_frontier idoms n q fr = map_option snd
       (while_option (\<lambda>(runner, _). runner \<noteq> None \<and> runner \<noteq> idoms n)
          (\<lambda>(runner, fr). case runner of None \<Rightarrow> (runner, fr)
             | Some current \<Rightarrow> (idoms current, add_frontier current n fr))
          (idoms q, add_frontier q n fr))"
    using False by (simp add: walk_frontier_def while_option_unfold [of _ _ "(Some q, fr)"])
  with False show ?thesis
    by (cases "idoms q")
      (simp_all add: walk_frontier_def while_option_unfold [of _ _ "(None, _)"])
qed

context flow_graph
begin

text \<open>The nodes whose frontier the walk of predecessor \<open>p\<close> adds \<open>n\<close> to.\<close>

definition walked :: "'n \<Rightarrow> 'n \<Rightarrow> 'n \<Rightarrow> 'n set" where
  "walked e n p =
     {m. (if p \<in> reachable G then dom_by_paths G e m p else m = p) \<and> \<not> strictly_dom G e m n}"

definition idom_table :: "'n \<Rightarrow> ('n \<rightharpoonup> 'n) \<Rightarrow> bool" where
  "idom_table e idoms \<longleftrightarrow> entry G = Some e \<and>
     (\<forall>n c. idoms n = Some c \<longleftrightarrow> n \<in> reachable G \<and> closest_dominator e n c) \<and>
     (\<forall>n\<in>reachable G. idoms n = None \<longrightarrow> (\<forall>d. \<not> strictly_dom G e d n))"

lemma idom_table_facts:
  assumes "idom_table e idoms"
  shows "entry G = Some e"
    and "idoms n = Some c \<Longrightarrow> n \<in> reachable G \<and> strictly_dom G e c n \<and> c \<in> reachable G"
    and "idoms n = Some c \<Longrightarrow> strictly_dom G e d n \<longleftrightarrow> dom_by_paths G e d c"
    and "n \<in> reachable G \<Longrightarrow> idoms n = None \<Longrightarrow> \<not> strictly_dom G e d n"
    and "n \<notin> reachable G \<Longrightarrow> idoms n = None"
proof -
  show e: "entry G = Some e" using assms by (simp add: idom_table_def)
  show A: "n \<in> reachable G \<and> strictly_dom G e c n \<and> c \<in> reachable G" if "idoms n = Some c"
    using that assms dominator_reachable [OF e]
    unfolding idom_table_def closest_dominator_def by (auto simp: strictly_dom_def)
  show "strictly_dom G e d n \<longleftrightarrow> dom_by_paths G e d c" if i: "idoms n = Some c"
  proof
    assume "strictly_dom G e d n"
    then show "dom_by_paths G e d c"
      using i assms unfolding idom_table_def closest_dominator_def by blast
  next
    assume d: "dom_by_paths G e d c"
    have c: "dom_by_paths G e c n" "c \<noteq> n" "n \<in> reachable G"
      using A [OF i] by (auto simp: strictly_dom_def)
    have "d \<noteq> n" using reachable_antisym [OF e c(3) c(1)] c(2) d by blast
    with dom_trans [OF d c(1)] show "strictly_dom G e d n" by (simp add: strictly_dom_def)
  qed
  show "n \<in> reachable G \<Longrightarrow> idoms n = None \<Longrightarrow> \<not> strictly_dom G e d n"
    using assms by (auto simp: idom_table_def)
  show "n \<notin> reachable G \<Longrightarrow> idoms n = None"
    using assms unfolding idom_table_def by (metis not_Some_eq)
qed

text \<open>A strict dominator of a node dominates each of its predecessors.\<close>

lemma strict_dominates_predecessor:
  assumes "strictly_dom G e d n" "m \<in> predecessors G n"
  shows "dom_by_paths G e d m"
  unfolding dom_by_paths_def
proof (intro conjI allI impI)
  show "d \<in> nodes G" using assms(1) by (simp add: strictly_dom_def dom_by_paths_def)
  fix xs assume "root_path G e xs m"
  then have "root_path G e (n # xs) n"
    using assms(2) predecessors_iff by (auto intro: root_path.step)
  then show "d \<in> set xs" using assms(1) by (auto simp: strictly_dom_def dom_by_paths_def)
qed

end

text \<open>Adding \<open>n\<close> to the frontiers of all nodes of a set.\<close>

definition adds :: "'n \<Rightarrow> 'n set \<Rightarrow> ('n \<rightharpoonup> 'n set) \<Rightarrow> ('n \<rightharpoonup> 'n set) \<Rightarrow> bool" where
  "adds n W fr fr' \<longleftrightarrow> (\<forall>m. set_of fr' m = (if m \<in> W then insert n (set_of fr m) else set_of fr m))"

context flow_graph
begin

lemma walked_step:
  assumes t: "idom_table e idoms" and q: "q \<in> reachable G" and n: "n \<in> reachable G"
    and below: "\<forall>s. idoms n = Some s \<longrightarrow> dom_by_paths G e s q"
  shows "idoms n = Some q \<Longrightarrow> walked e n q = {}"
    and "idoms n \<noteq> Some q \<Longrightarrow> idoms q = None \<Longrightarrow> walked e n q = {q}"
    and "idoms n \<noteq> Some q \<Longrightarrow> idoms q = Some c \<Longrightarrow> walked e n q = insert q (walked e n c)"
    and "idoms n \<noteq> Some q \<Longrightarrow> idoms q = Some c \<Longrightarrow> idoms n = Some s \<Longrightarrow> dom_by_paths G e s c"
proof -
  note facts = idom_table_facts [OF t]
  have qq: "dom_by_paths G e q q" using q reachable_nodes by (auto intro: dom_refl)
  have split: "dom_by_paths G e m q \<longleftrightarrow> m = q \<or> strictly_dom G e m q" for m
    using qq by (auto simp: strictly_dom_def)
  show "walked e n q = {}" if "idoms n = Some q"
    using facts(3) [OF that] q by (auto simp: walked_def)
  assume nq: "idoms n \<noteq> Some q"
  have q_not: "\<not> strictly_dom G e q n"
  proof
    assume s: "strictly_dom G e q n"
    then obtain s where s': "idoms n = Some s" using facts(4) [OF n] by (cases "idoms n") auto
    with s have "dom_by_paths G e q s" using facts(3) by blast
    with below s' have "s = q" using reachable_antisym [OF facts(1) q] by blast
    with s' nq show False by simp
  qed
  show "walked e n q = {q}" if "idoms q = None"
    using facts(4) [OF q that] q q_not by (auto simp: walked_def split)
  show "walked e n q = insert q (walked e n c)" if "idoms q = Some c"
    using facts(2,3) [OF that] q q_not by (auto simp: walked_def split)
  show "dom_by_paths G e s c" if "idoms q = Some c" "idoms n = Some s"
    using below nq that facts(3) [OF that(1)] by (auto simp: strictly_dom_def)
qed

lemma walk_reachable:
  assumes "idom_table e idoms" "n \<in> reachable G" "q \<in> reachable G"
    and "\<forall>s. idoms n = Some s \<longrightarrow> dom_by_paths G e s q"
  shows "\<exists>fr'. walk_frontier idoms n q fr = Some fr' \<and> adds n (walked e n q) fr fr'"
  using assms(3,4)
proof (induction "card {m. dom_by_paths G e m q}" arbitrary: q fr rule: less_induct)
  case less
  note facts = idom_table_facts [OF assms(1)]
  note step = walked_step [OF assms(1) less.prems(1) assms(2) less.prems(2)]
  consider (stop) "idoms n = Some q" | (top) "idoms n \<noteq> Some q" "idoms q = None"
    | (up) c where "idoms n \<noteq> Some q" "idoms q = Some c" by (cases "idoms q") auto
  then show ?case
  proof cases
    case stop
    with step(1) show ?thesis by (simp add: walk_frontier_unfold [of idoms n q] adds_def)
  next
    case top
    with step(2) show ?thesis by (simp add: walk_frontier_unfold [of idoms n q] adds_def)
  next
    case (up c)
    have c: "c \<in> reachable G" "strictly_dom G e c q" using facts(2) [OF up(2)] by auto
    have sub: "{m. dom_by_paths G e m c} \<subseteq> {m. dom_by_paths G e m q}"
      using c(2) dom_trans by (auto simp: strictly_dom_def)
    moreover have "q \<notin> {m. dom_by_paths G e m c}"
      using reachable_antisym [OF facts(1) less.prems(1)] c(2) by (auto simp: strictly_dom_def)
    moreover have "q \<in> {m. dom_by_paths G e m q}"
      using less.prems(1) reachable_nodes by (auto intro: dom_refl)
    ultimately have "{m. dom_by_paths G e m c} \<subset> {m. dom_by_paths G e m q}" by blast
    then have "card {m. dom_by_paths G e m c} < card {m. dom_by_paths G e m q}"
      by (rule psubset_card_mono [OF finite_doms])
    from less.hyps [OF this c(1), of "add_frontier q n fr"] step(4) [OF up]
    obtain fr' where "walk_frontier idoms n c (add_frontier q n fr) = Some fr'"
      "adds n (walked e n c) (add_frontier q n fr) fr'" by blast
    with up step(3) [OF up] show ?thesis
      by (auto simp: walk_frontier_unfold [of idoms n q] adds_def)
  qed
qed

lemma walk_predecessor:
  assumes t: "idom_table e idoms" and n: "n \<in> reachable G" and p: "p \<in> predecessors G n"
  shows "\<exists>fr'. walk_frontier idoms n p fr = Some fr' \<and> adds n (walked e n p) fr fr'"
proof (cases "p \<in> reachable G")
  case True
  show ?thesis
    using idom_table_facts(2) [OF t] strict_dominates_predecessor p
    by (intro walk_reachable [OF t n True]) blast
next
  case False
  note facts = idom_table_facts [OF t]
  have "idoms n \<noteq> Some p" using facts(2) False by blast
  moreover have "\<not> strictly_dom G e p n"
    using dominator_reachable [OF facts(1) n] False by (auto simp: strictly_dom_def)
  ultimately show ?thesis using facts(5) [OF False] False
    by (auto simp: walk_frontier_unfold [of idoms n p] adds_def walked_def)
qed

end

text \<open>
  The frontier of \<open>m\<close>: the reachable join points \<open>n\<close> (at least two predecessors) with a predecessor
  that \<open>m\<close> dominates while \<open>m\<close> does not strictly dominate \<open>n\<close>. For an unreachable predecessor the
  code records only that predecessor itself.
\<close>

definition join_frontier :: "'n dataflow_graph \<Rightarrow> 'n \<Rightarrow> 'n \<Rightarrow> 'n set" where
  "join_frontier G e m =
     {n \<in> reachable G. 2 \<le> card (predecessors G n) \<and> \<not> strictly_dom G e m n \<and>
        (\<exists>p\<in>predecessors G n. if p \<in> reachable G then dom_by_paths G e m p else m = p)}"

lemma fold_option_adds:
  assumes "\<And>x fr. x \<in> set xs \<Longrightarrow> \<exists>fr'. f x fr = Some fr' \<and> adds n (W x) fr fr'"
  shows "\<exists>fr'. fold_option f xs fr = Some fr' \<and> adds n (\<Union>x\<in>set xs. W x) fr fr'"
  using assms
proof (induction xs arbitrary: fr)
  case Nil
  then show ?case by (simp add: adds_def)
next
  case (Cons x xs)
  obtain fr1 where 1: "f x fr = Some fr1" "adds n (W x) fr fr1" using Cons.prems by force
  obtain fr2 where 2: "fold_option f xs fr1 = Some fr2" "adds n (\<Union>x\<in>set xs. W x) fr1 fr2"
    using Cons.IH Cons.prems by force
  have "adds n (\<Union>x\<in>set (x # xs). W x) fr fr2" using 1(2) 2(2) by (auto simp: adds_def)
  with 1 2 show ?case by simp
qed

lemma fold_option_collects:
  assumes "\<And>n fr. n \<in> set ns \<Longrightarrow> \<exists>fr'. f n fr = Some fr' \<and> adds n (W n) fr fr'"
  shows "\<exists>fr'. fold_option f ns fr = Some fr' \<and>
     (\<forall>m. set_of fr' m = set_of fr m \<union> {n \<in> set ns. m \<in> W n})"
  using assms
proof (induction ns arbitrary: fr)
  case Nil
  then show ?case by simp
next
  case (Cons x xs)
  obtain fr1 where 1: "f x fr = Some fr1" "adds x (W x) fr fr1" using Cons.prems by force
  obtain fr2 where 2: "fold_option f xs fr1 = Some fr2"
      "\<forall>m. set_of fr2 m = set_of fr1 m \<union> {n \<in> set xs. m \<in> W n}"
    using Cons.IH Cons.prems by force
  have "set_of fr2 m = set_of fr m \<union> {n \<in> set (x # xs). m \<in> W n}" for m
    using 1(2) 2(2) by (auto simp: adds_def)
  with 1 2 show ?case by simp
qed

context flow_graph
begin

lemma compute_frontiers_spec:
  assumes t: "idom_table e idoms"
  shows "\<exists>fr. compute_frontiers G idoms = Some fr \<and> (\<forall>m. set_of fr m = join_frontier G e m)"
proof -
  let ?W = "\<lambda>n. if card (predecessors G n) < 2 then {} else \<Union>p\<in>predecessors G n. walked e n p"
  have node: "\<exists>fr'. node_frontiers G idoms n fr = Some fr' \<and> adds n (?W n) fr fr'"
    if n: "n \<in> reachable G" for n fr
  proof (cases "card (predecessors G n) < 2")
    case True
    then show ?thesis by (simp add: node_frontiers_def adds_def)
  next
    case False
    have "\<exists>fr'. fold_option (walk_frontier idoms n) (sorted_list_of_set (predecessors G n)) fr =
        Some fr' \<and> adds n (\<Union>p\<in>set (sorted_list_of_set (predecessors G n)). walked e n p) fr fr'"
      using walk_predecessor [OF t n] by (intro fold_option_adds) simp
    with False show ?thesis by (simp add: node_frontiers_def)
  qed
  let ?ns = "sorted_list_of_set (reachable G)"
  let ?fr0 = "\<lambda>n. if n \<in> reachable G then Some {} else None"
  obtain fr where fr: "compute_frontiers G idoms = Some fr"
      "\<forall>m. set_of fr m = set_of ?fr0 m \<union> {n \<in> set ?ns. m \<in> ?W n}"
    using fold_option_collects [of ?ns "node_frontiers G idoms" ?W ?fr0] node
    unfolding compute_frontiers_def by auto
  have "set_of ?fr0 m \<union> {n \<in> set ?ns. m \<in> ?W n} = join_frontier G e m" for m
    by (auto simp: set_of_def join_frontier_def walked_def split: if_splits)
  with fr show ?thesis by simp
qed

text \<open>All facts together.\<close>

lemma dominator_tree_idom_table:
  assumes t: "dominator_table e doms" and dt: "dominator_tree G doms e = (idoms, kids)"
  shows "idom_table e idoms"
  unfolding idom_table_def
proof (intro conjI allI ballI impI)
  show "entry G = Some e" using t by (simp add: dominator_table_def)
  show "idoms n = Some c \<longleftrightarrow> n \<in> reachable G \<and> closest_dominator e n c" for n c
    by (rule dominator_tree_facts(1) [OF t dt])
  then show "\<not> strictly_dom G e d n" if "n \<in> reachable G" "idoms n = None" for n d
    using closest_exists [OF t that(1)] that by fastforce
qed

end

context flow_graph
begin

text \<open>The whole computation always returns, and every table of the result is the one meant.\<close>

theorem from_graph_facts:
  assumes e: "entry G = Some e"
  shows "\<exists>D. from_graph G = Some D \<and> root D = Some e \<and>
     (\<forall>n\<in>nodes G. \<forall>d. dominates D d n \<longleftrightarrow> dom_by_paths G e d n) \<and>
     (\<forall>n c. immediate_dominator D n = Some c \<longleftrightarrow>
        n \<in> reachable G \<and> strictly_dom G e c n \<and> (\<forall>d. strictly_dom G e d n \<longrightarrow> dom_by_paths G e d c)) \<and>
     (\<forall>m. tree_children D m = sorted_list_of_set {n. immediate_dominator D n = Some m}) \<and>
     (\<forall>m. dominance_frontier D m = join_frontier G e m)"
proof -
  obtain doms where c: "compute_dominators G e = Some doms" and t: "dominator_table e doms"
    using compute_dominators_paths [OF e] e by (auto simp: dominator_table_def)
  obtain idoms kids where dt: "dominator_tree G doms e = (idoms, kids)" by fastforce
  have it: "idom_table e idoms" by (rule dominator_tree_idom_table [OF t dt])
  obtain fr where fr: "compute_frontiers G idoms = Some fr" "\<forall>m. set_of fr m = join_frontier G e m"
    using compute_frontiers_spec [OF it] by blast
  have kid: "(case kids m of None \<Rightarrow> [] | Some cs \<Rightarrow> cs) = sorted_list_of_set {n. idoms n = Some m}"
    for m
  proof (cases "m \<in> reachable G")
    case True
    then show ?thesis by (simp add: dominator_tree_facts(2) [OF t dt])
  next
    case False
    then have "{n. idoms n = Some m} = {}" using idom_table_facts(2) [OF it] by blast
    with False show ?thesis by (simp add: dominator_tree_facts(2) [OF t dt])
  qed
  show ?thesis
    using e c dt fr set_of_table [OF t] kid dominator_tree_facts(1) [OF t dt]
    by (auto simp: from_graph_def dominates_def immediate_dominator_def tree_children_def
        dominance_frontier_def closest_dominator_def)
qed

end

section \<open>The pruned iterated frontier\<close>

text \<open>A set of blocks is closed when it holds every live block in the frontier of a definition or of
  one of its own members.\<close>

definition frontier_closed :: "'n dominance \<Rightarrow> 'n set \<Rightarrow> 'n set \<Rightarrow> 'n set \<Rightarrow> bool" where
  "frontier_closed D definitions live_in R \<longleftrightarrow>
     (\<forall>n \<in> definitions \<union> R. dominance_frontier D n \<inter> live_in \<subseteq> R)"

lemma fold_frontier_candidate:
  "fold (frontier_candidate ds live) cs (result, work) =
     (result \<union> (set cs \<inter> live), work \<union> ((set cs \<inter> live - result) - ds))"
proof (induction cs arbitrary: result work)
  case Nil
  then show ?case by simp
next
  case (Cons c cs)
  show ?case
    using Cons by (auto simp: frontier_candidate_def)
qed

lemma iterated_step_eq:
  assumes "finite (dominance_frontier D (Min work))"
  shows "iterated_step D ds live (result, work) =
     (result \<union> (dominance_frontier D (Min work) \<inter> live),
      (work - {Min work}) \<union> ((dominance_frontier D (Min work) \<inter> live - result) - ds))"
  using assms by (simp add: iterated_step_def Let_def fold_frontier_candidate)

definition iterated_inv :: "'n::linorder dominance \<Rightarrow> 'n set \<Rightarrow> 'n set \<Rightarrow> 'n set \<times> 'n set \<Rightarrow> bool" where
  "iterated_inv D ds live st \<longleftrightarrow>
     (let (result, work) = st in finite work \<and> work \<subseteq> ds \<union> result \<and>
        (\<forall>n \<in> (ds \<union> result) - work. dominance_frontier D n \<inter> live \<subseteq> result) \<and>
        (\<forall>R. frontier_closed D ds live R \<longrightarrow> result \<subseteq> R))"

lemma iterated_inv_step:
  assumes fin: "\<And>n. finite (dominance_frontier D n)"
    and inv: "iterated_inv D ds live (result, work)" and work: "work \<noteq> {}"
  shows "iterated_inv D ds live (iterated_step D ds live (result, work))"
proof -
  let ?n = "Min work" and ?F = "dominance_frontier D (Min work) \<inter> live"
  have n: "?n \<in> work" using inv work by (auto simp: iterated_inv_def)
  have "?F \<subseteq> R" if "frontier_closed D ds live R" for R
  proof -
    have "result \<subseteq> R" "?n \<in> ds \<union> result" using that inv n by (auto simp: iterated_inv_def)
    then show ?thesis using that unfolding frontier_closed_def by blast
  qed
  moreover have "dominance_frontier D m \<inter> live \<subseteq> result \<union> ?F"
    if "m \<in> ds \<union> (result \<union> ?F)" "m \<notin> (work - {?n}) \<union> ((?F - result) - ds)" for m
  proof (cases "m = ?n")
    case False
    with that have "m \<in> (ds \<union> result) - work" by auto
    then show ?thesis using inv by (auto simp: iterated_inv_def)
  qed auto
  ultimately show ?thesis
    using inv fin unfolding iterated_step_eq [OF fin] iterated_inv_def
    by auto
qed


lemma pruned_iterated_frontier_least:
  assumes F: "finite F" "\<And>n. dominance_frontier D n \<subseteq> F" and ds: "finite ds"
  shows "\<exists>R. pruned_iterated_frontier D ds live = Some R \<and> frontier_closed D ds live R \<and>
     (\<forall>R'. frontier_closed D ds live R' \<longrightarrow> R \<subseteq> R')"
proof -
  have fin: "finite (dominance_frontier D n)" for n using F finite_subset by blast
  let ?c = "iterated_step D ds live" and ?b = "\<lambda>(_, work :: 'a set). work \<noteq> {}"
  let ?P = "\<lambda>st. iterated_inv D ds live st"
  let ?m = "\<lambda>(result, work). card work + card (F - result)"
  have "\<exists>st. while_option ?b ?c ({}, ds) = Some st"
  proof (rule measure_while_option_Some [of ?P ?b ?c ?m])
    fix st :: "'a set \<times> 'a set"
    obtain result work where st: "st = (result, work)" by fastforce
    assume P: "?P st" and b: "?b st"
    let ?n = "Min work" and ?N = "dominance_frontier D (Min work) \<inter> live - result"
    have w: "finite work" "work \<noteq> {}" using P b by (auto simp: st iterated_inv_def)
    have N: "?N \<subseteq> F - result" "finite ?N" using F fin by auto
    have "card ((work - {?n}) \<union> (?N - ds)) + card (F - result - ?N) \<le>
        card (work - {?n}) + card ?N + card (F - result - ?N)"
      using card_Un_le [of "work - {?n}" "?N - ds"] card_mono [OF N(2), of "?N - ds"] by auto
    also have "\<dots> = card (work - {?n}) + card (F - result)"
      using N F(1) by (simp add: card_Diff_subset card_mono)
    also have "\<dots> < card work + card (F - result)"
      using w by (simp add: card_gt_0_iff)
    finally have "card ((work - {?n}) \<union> (?N - ds)) + card (F - result - ?N) <
        card work + card (F - result)" .
    moreover have "F - result - ?N = F - (result \<union> (dominance_frontier D ?n \<inter> live))" by auto
    ultimately show "?P (?c st) \<and> ?m (?c st) < ?m st"
      using iterated_inv_step [OF fin, of ds live result work] P w
      by (simp add: st iterated_step_eq [OF fin])
  qed (use ds in \<open>auto simp: iterated_inv_def\<close>)
  then obtain R work where loop: "while_option ?b ?c ({}, ds) = Some (R, work)" by auto
  have "?P (R, work)"
  proof (rule while_option_rule [OF _ loop])
    show "?P ({}, ds)" using ds by (auto simp: iterated_inv_def)
    show "?P (?c st)" if "?P st" "?b st" for st
      using iterated_inv_step [OF fin] that by (cases st) blast
  qed
  moreover have "work = {}" using while_option_stop [OF loop] by simp
  ultimately show ?thesis
    using loop by (auto simp: pruned_iterated_frontier_def iterated_inv_def frontier_closed_def)
qed

end
