(* ===== verification/Target.thy ===== *)
theory Target
  imports Prelude
begin

text \<open>
  Targets and their layout facts (\<open>src/src/target.rs\<close>). \<open>ByteSize\<close> and \<open>ByteOffset\<close> are newtypes of
  \<open>u32\<close>, here the type itself; their checked and saturating operations are written out. Strings are
  their bytes. Lemmas: the target names parse back in any letter case; what the checked and
  saturating operations return.
\<close>

type_synonym byte_size = u32
type_synonym byte_offset = u32

text \<open>Identifiers of program entities (newtypes of \<open>u32\<close> in \<open>src/src/nir/facts.rs\<close>), source spans,
  and the reasons of compiler-generated failures (\<open>src/src/runtime_fault.rs\<close>).\<close>

type_synonym param_id = u32
type_synonym local_id = u32
type_synonym symbol_id = u32
type_synonym routine_id = u32
type_synonym signature_id = u32
type_synonym runtime_symbol_id = u32
type_synonym span = "nat \<times> nat"

datatype runtime_fault =
  InvalidArgument | DivisionByZero | InvalidNumber | NumberOutOfRange | InputTruncated
| InvalidVariantTag | InvalidVariantOverlap

section \<open>Byte counts\<close>

definition checked_mul32 :: "u32 \<Rightarrow> u32 \<Rightarrow> u32 option" where
  "checked_mul32 a b = (if unat a * unat b < 2 ^ 32 then Some (a * b) else None)"

definition saturating_add32 :: "u32 \<Rightarrow> u32 \<Rightarrow> u32" where
  "saturating_add32 a b = (if unat a + unat b < 2 ^ 32 then a + b else 0xFFFFFFFF)"

definition saturating_sub32 :: "u32 \<Rightarrow> u32 \<Rightarrow> u32" where
  "saturating_sub32 a b = (if b \<le> a then a - b else 0)"

definition is_power_of_two32 :: "u32 \<Rightarrow> bool" where
  "is_power_of_two32 a \<longleftrightarrow> a \<noteq> 0 \<and> a AND (a - 1) = 0"

definition checked_add_signed64 :: "u64 \<Rightarrow> int \<Rightarrow> u64 option" where
  "checked_add_signed64 a d =
     (if 0 \<le> uint a + d \<and> uint a + d < 2 ^ 64 then Some (word_of_int (uint a + d)) else None)"

lemma saturating_add32_unat: "unat (saturating_add32 a b) = min (unat a + unat b) (2 ^ 32 - 1)"
  by (auto simp: saturating_add32_def unat_word_ariths)

lemma saturating_sub32_unat: "unat (saturating_sub32 a b) = unat a - unat b"
  by (simp add: saturating_sub32_def word_le_nat_alt unat_sub)

lemma checked_mul32_SomeD: "checked_mul32 a b = Some c \<Longrightarrow> unat c = unat a * unat b"
  by (auto simp: checked_mul32_def unat_word_ariths split: if_splits)

lemma uint_word_of_int64: "0 \<le> k \<Longrightarrow> k < 2 ^ 64 \<Longrightarrow> uint (word_of_int k :: u64) = k"
  by (simp add: unsigned_of_int take_bit_int_eq_self)

lemma checked_add_signed64_SomeD: "checked_add_signed64 a d = Some c \<Longrightarrow> uint c = uint a + d"
  unfolding checked_add_signed64_def using uint_word_of_int64 by (metis option.distinct(1) option.inject)

section \<open>Targets\<close>

datatype cpu_id = Mos6502 | Wdc65816 | CpuMotorola68000
datatype platform_id = Atari8Bit | Generic65816 | Generic68k
datatype abi_id = AtariActionPacked | AbiWdc65816Native | AbiWdc65816Small | Motorola68kNative
datatype routine_activation_model = ClassicStatic | NativeReentrant
datatype target_id = Atari6502 | Wdc65816Native | Wdc65816Small | Motorola68000
datatype endian = Little | Big
datatype record_layout_policy = Packed | Natural

type_synonym address_space_id = u8

record address_value =
  address_space :: address_space_id
  address_number :: u64

record pointer_layout =
  pointer_address_space :: address_space_id
  size_bytes :: byte_size
  alignment_bytes :: byte_size

record target_layout =
  layout_target :: target_id
  cpu :: cpu_id
  platform :: platform_id
  abi :: abi_id
  routine_activation :: routine_activation_model
  layout_endian :: endian
  address_bits :: u8
  address_integer_bits :: u8
  size_integer_bits :: u8
  link_address_bits :: u8
  data_pointer :: pointer_layout
  code_pointer :: pointer_layout
  record_layout :: record_layout_policy
  natural_word_alignment_bytes :: u8

definition data_address_space :: address_space_id where
  "data_address_space = 0"

definition code_address_space :: address_space_id where
  "code_address_space = 1"

definition address_checked_add_signed :: "address_value \<Rightarrow> int \<Rightarrow> address_value option" where
  "address_checked_add_signed a addend =
     map_option (\<lambda>v. \<lparr>address_space = address_space a, address_number = v\<rparr>)
       (checked_add_signed64 (address_number a) addend)"

definition atari_6502 :: target_layout where
  "atari_6502 =
     \<lparr>layout_target = Atari6502, cpu = Mos6502, platform = Atari8Bit, abi = AtariActionPacked,
      routine_activation = ClassicStatic, layout_endian = Little,
      address_bits = 16, address_integer_bits = 16, size_integer_bits = 16, link_address_bits = 16,
      data_pointer = \<lparr>pointer_address_space = data_address_space,
        size_bytes = 2, alignment_bytes = 1\<rparr>,
      code_pointer = \<lparr>pointer_address_space = code_address_space,
        size_bytes = 2, alignment_bytes = 1\<rparr>,
      record_layout = Packed, natural_word_alignment_bytes = 1\<rparr>"

definition wdc_65816_native :: target_layout where
  "wdc_65816_native =
     \<lparr>layout_target = Wdc65816Native, cpu = Wdc65816, platform = Generic65816,
      abi = AbiWdc65816Native,
      routine_activation = NativeReentrant, layout_endian = Little,
      address_bits = 24, address_integer_bits = 24, size_integer_bits = 24, link_address_bits = 24,
      data_pointer = \<lparr>pointer_address_space = data_address_space,
        size_bytes = 3, alignment_bytes = 1\<rparr>,
      code_pointer = \<lparr>pointer_address_space = code_address_space,
        size_bytes = 3, alignment_bytes = 1\<rparr>,
      record_layout = Natural, natural_word_alignment_bytes = 2\<rparr>"

definition wdc_65816_small :: target_layout where
  "wdc_65816_small =
     \<lparr>layout_target = Wdc65816Small, cpu = Wdc65816, platform = Generic65816,
      abi = AbiWdc65816Small,
      routine_activation = NativeReentrant, layout_endian = Little,
      address_bits = 24, address_integer_bits = 24, size_integer_bits = 16, link_address_bits = 24,
      data_pointer = \<lparr>pointer_address_space = data_address_space,
        size_bytes = 2, alignment_bytes = 1\<rparr>,
      code_pointer = \<lparr>pointer_address_space = code_address_space,
        size_bytes = 2, alignment_bytes = 1\<rparr>,
      record_layout = Natural, natural_word_alignment_bytes = 2\<rparr>"

definition motorola_68000 :: target_layout where
  "motorola_68000 =
     \<lparr>layout_target = Motorola68000, cpu = CpuMotorola68000, platform = Generic68k,
      abi = Motorola68kNative,
      routine_activation = NativeReentrant, layout_endian = Big,
      address_bits = 32, address_integer_bits = 32, size_integer_bits = 32, link_address_bits = 24,
      data_pointer = \<lparr>pointer_address_space = data_address_space,
        size_bytes = 4, alignment_bytes = 2\<rparr>,
      code_pointer = \<lparr>pointer_address_space = code_address_space,
        size_bytes = 4, alignment_bytes = 2\<rparr>,
      record_layout = Natural, natural_word_alignment_bytes = 2\<rparr>"

fun for_target :: "target_id \<Rightarrow> target_layout" where
  "for_target Atari6502 = atari_6502"
| "for_target Wdc65816Native = wdc_65816_native"
| "for_target Wdc65816Small = wdc_65816_small"
| "for_target Motorola68000 = motorola_68000"

fun target_as_str :: "target_id \<Rightarrow> string" where
  "target_as_str Atari6502 = ''atari-6502''"
| "target_as_str Wdc65816Native = ''wdc-65816-native''"
| "target_as_str Wdc65816Small = ''wdc-65816-small''"
| "target_as_str Motorola68000 = ''motorola-68000''"

definition to_ascii_lowercase :: "char \<Rightarrow> char" where
  "to_ascii_lowercase c =
     (let n = of_char c :: nat in if 65 \<le> n \<and> n \<le> 90 then char_of (n + 32) else c)"

definition to_ascii_uppercase :: "char \<Rightarrow> char" where
  "to_ascii_uppercase c =
     (let n = of_char c :: nat in if 97 \<le> n \<and> n \<le> 122 then char_of (n - 32) else c)"

datatype target_error = UnknownTarget string

definition target_from_str :: "string \<Rightarrow> target_error + target_id" where
  "target_from_str s =
     (let t = map to_ascii_lowercase s
      in if t \<in> {''atari'', ''atari-6502'', ''6502''} then Inr Atari6502
         else if t \<in> {''65816'', ''65816-native'', ''wdc-65816-native''} then Inr Wdc65816Native
         else if t \<in> {''65816-small'', ''wdc-65816-small''} then Inr Wdc65816Small
         else if t \<in> {''68k'', ''68000'', ''m68000'', ''motorola-68000''} then Inr Motorola68000
         else Inl (UnknownTarget s))"

lemma to_ascii_lowercase_idem [simp]:
  "to_ascii_lowercase (to_ascii_lowercase c) = to_ascii_lowercase c"
  by (auto simp: to_ascii_lowercase_def Let_def)

lemma of_char_le_255: "(of_char c :: nat) \<le> 255"
  using nat_of_char_less_256 [of c] by linarith

lemma lowercase_of_uppercase [simp]:
  "to_ascii_lowercase (to_ascii_uppercase c) = to_ascii_lowercase c"
  using of_char_le_255 [of c] by (auto simp: to_ascii_lowercase_def to_ascii_uppercase_def Let_def)

lemma target_from_str_lower: "target_from_str (map to_ascii_lowercase s) =
    (case target_from_str s of Inl _ \<Rightarrow> Inl (UnknownTarget (map to_ascii_lowercase s)) | Inr t \<Rightarrow> Inr t)"
  by (simp add: target_from_str_def Let_def o_def)

text \<open>C12: the printed name of a target parses back to the target, in any mixture of upper and lower
  case letters.\<close>

theorem target_names_parse:
  assumes "map to_ascii_lowercase s = target_as_str t"
  shows "target_from_str s = Inr t"
  using assms by (cases t) (simp_all add: target_from_str_def)

theorem target_names_parse_witness:
  "target_from_str ''Motorola-68000'' = Inr Motorola68000"
  by (rule target_names_parse) (simp add: to_ascii_lowercase_def char_of_def bit_iff_odd)

end
