(* ===== verification/Nir_Ir.thy ===== *)
theory Nir_Ir
  imports Target
begin

text \<open>
  The target-independent intermediate representation: types, values, places, operations and blocks
  (\<open>src/src/nir/facts.rs\<close>, \<open>src/src/nir/ir.rs\<close>) and the small operations on them. Readable names stay
  strings; identifiers are newtypes of \<open>u32\<close>. The span type is the pair of the source's offsets.
  Lemmas: integer constants are stored masked and then fit their own storage; a type after
  \<open>apply_target_layout\<close> has exactly the width of the layout; region overlap is a common byte; the
  constant projection of a data image keeps its length and writes only inside a fragment.
\<close>

section \<open>Identifiers\<close>

datatype temp_id = TempId (temp_number: u32)
datatype block_id = BlockId (block_number: u32)

instantiation temp_id :: linorder
begin

definition less_eq_temp_id :: "temp_id \<Rightarrow> temp_id \<Rightarrow> bool" where
  "less_eq_temp_id a b \<longleftrightarrow> temp_number a \<le> temp_number b"

definition less_temp_id :: "temp_id \<Rightarrow> temp_id \<Rightarrow> bool" where
  "less_temp_id a b \<longleftrightarrow> temp_number a < temp_number b"

instance
  by intro_classes (auto simp: less_eq_temp_id_def less_temp_id_def temp_id.expand)

end

instantiation block_id :: linorder
begin

definition less_eq_block_id :: "block_id \<Rightarrow> block_id \<Rightarrow> bool" where
  "less_eq_block_id a b \<longleftrightarrow> block_number a \<le> block_number b"

definition less_block_id :: "block_id \<Rightarrow> block_id \<Rightarrow> bool" where
  "less_block_id a b \<longleftrightarrow> block_number a < block_number b"

instance
  by intro_classes (auto simp: less_eq_block_id_def less_block_id_def block_id.expand)

end

section \<open>Types\<close>

datatype nir_integer_role = Ordinary | Address | Size

record nir_integer_type =
  bits :: u8
  signed_type :: bool
  role :: nir_integer_role

datatype nir_callable_kind = Proc | Func

datatype nir_call_convention = TargetInternal | TargetPublic | Runtime | External u32

datatype nir_type_kind =
  Void
| Bool
| Integer nir_integer_type
| Real
| Pointer "nir_type_kind option" address_space_id
| Record "nat option" string "byte_size option"
| Callable nir_callable_kind signature_id nir_call_convention address_space_id
| Error

record nir_type =
  type_kind :: nir_type_kind
  summary :: string
  width :: "byte_size option"
  pointer :: bool

definition ordinary :: "u8 \<Rightarrow> bool \<Rightarrow> nir_integer_type" where
  "ordinary b s = \<lparr>bits = b, signed_type = s, role = Ordinary\<rparr>"

text \<open>\<open>storage_width\<close> is the division rounded up of the bit count by eight; \<open>mask\<close> has the type's bits
  set.\<close>

definition storage_width :: "nir_integer_type \<Rightarrow> byte_size" where
  "storage_width t = of_nat ((unat (bits t) + 7) div 8)"

definition type_mask :: "nir_integer_type \<Rightarrow> u64" where
  "type_mask t =
     (if 64 \<le> bits t then 0xFFFFFFFFFFFFFFFF
      else if bits t = 0 then 0
      else push_bit (unat (bits t)) 1 - 1)"

fun kind_width :: "nir_type_kind \<Rightarrow> target_layout \<Rightarrow> byte_size option" where
  "kind_width Void layout = Some 0"
| "kind_width Bool layout = Some 1"
| "kind_width (Integer integer) layout = Some (storage_width integer)"
| "kind_width (Pointer _ space) layout =
     (if space = pointer_address_space (data_pointer layout)
      then Some (size_bytes (data_pointer layout)) else None)"
| "kind_width (Callable _ _ _ space) layout =
     (if space = pointer_address_space (code_pointer layout)
      then Some (size_bytes (code_pointer layout)) else None)"
| "kind_width Real layout = Some 6"
| "kind_width (Record _ _ record_size) layout = record_size"
| "kind_width Error layout = None"

fun is_pointer :: "nir_type_kind \<Rightarrow> bool" where
  "is_pointer (Pointer _ _) = True"
| "is_pointer _ = False"

fun is_address :: "nir_type_kind \<Rightarrow> bool" where
  "is_address (Pointer _ _) = True"
| "is_address (Callable _ _ _ _) = True"
| "is_address _ = False"

fun kind_apply_target_layout :: "target_layout \<Rightarrow> nir_type_kind \<Rightarrow> nir_type_kind" where
  "kind_apply_target_layout layout (Pointer None _) =
     Pointer None (pointer_address_space (data_pointer layout))"
| "kind_apply_target_layout layout (Pointer (Some pointee) _) =
     Pointer (Some (kind_apply_target_layout layout pointee))
       (pointer_address_space (data_pointer layout))"
| "kind_apply_target_layout layout (Callable kind signature convention _) =
     Callable kind signature convention (pointer_address_space (code_pointer layout))"
| "kind_apply_target_layout layout (Integer integer) =
     (case role integer of
        Address \<Rightarrow> Integer (integer\<lparr>bits := address_integer_bits layout\<rparr>)
      | Size \<Rightarrow> Integer (integer\<lparr>bits := size_integer_bits layout\<rparr>)
      | Ordinary \<Rightarrow> Integer integer)"
| "kind_apply_target_layout layout kind = kind"

definition apply_target_layout :: "target_layout \<Rightarrow> nir_type \<Rightarrow> nir_type" where
  "apply_target_layout layout ty =
     (let kind = kind_apply_target_layout layout (type_kind ty)
      in ty\<lparr>type_kind := kind, width := kind_width kind layout, pointer := is_pointer kind\<rparr>)"

definition condition_type :: nir_type where
  "condition_type =
     \<lparr>type_kind = Bool, summary = ''condition'', width = Some 1, pointer = False\<rparr>"

section \<open>Values and places\<close>

datatype nir_value =
  Aggregate nir_place
| IntegerConst u64 nir_integer_type
| Null nir_type
| AddressConst address_value nir_type
| StaticAddr symbol_id string nir_type
| Temp temp_id nir_type
| ParamValue param_id
| GlobalAddr symbol_id
| RoutineAddr routine_id string nir_type
and nir_place = NirPlace (place_kind: nir_place_kind) (place_type: "nir_type option")
and nir_place_kind =
  Param param_id string
| Local local_id string
| Global symbol_id string
| Absolute address_value
| Deref nir_value
| Index nir_value nir_value nir_type byte_size
| Field nir_place byte_offset nir_type

datatype nir_storage_id = StorageLocal local_id | StorageParam param_id | StorageGlobal symbol_id

fun direct_storage_id :: "nir_place \<Rightarrow> nir_storage_id option" where
  "direct_storage_id (NirPlace (Local ident _) _) = Some (StorageLocal ident)"
| "direct_storage_id (NirPlace (Param ident _) _) = Some (StorageParam ident)"
| "direct_storage_id (NirPlace (Global ident _) _) = Some (StorageGlobal ident)"
| "direct_storage_id _ = None"

fun root_storage_id :: "nir_place \<Rightarrow> nir_storage_id option" where
  "root_storage_id (NirPlace (Field base _ _) _) = root_storage_id base"
| "root_storage_id place = direct_storage_id place"

definition integer_const :: "u64 \<Rightarrow> nir_integer_type \<Rightarrow> nir_value" where
  "integer_const b ty = IntegerConst (b AND type_mask ty) ty"

fun as_integer_const :: "nir_value \<Rightarrow> (u64 \<times> nir_integer_type) option" where
  "as_integer_const (IntegerConst b ty) = Some (b, ty)"
| "as_integer_const _ = None"

fun value_temp :: "nir_value \<Rightarrow> temp_id option" where
  "value_temp (Temp ident _) = Some ident"
| "value_temp _ = None"

fun value_width :: "nir_value \<Rightarrow> byte_size option" where
  "value_width (Aggregate place) = Option.bind (place_type place) width"
| "value_width (IntegerConst _ ty) = Some (storage_width ty)"
| "value_width (Null ty) = width ty"
| "value_width (AddressConst _ ty) = width ty"
| "value_width (StaticAddr _ _ ty) = width ty"
| "value_width (Temp _ ty) = width ty"
| "value_width (RoutineAddr _ _ ty) = width ty"
| "value_width (ParamValue _) = None"
| "value_width (GlobalAddr _) = None"

definition saturating_mul32 :: "u32 \<Rightarrow> u32 \<Rightarrow> u32" where
  "saturating_mul32 a b = (if unat a * unat b < 2 ^ 32 then a * b else 0xFFFFFFFF)"

fun value_is_oversized_literal :: "nir_value \<Rightarrow> byte_size \<Rightarrow> bool" where
  "value_is_oversized_literal (IntegerConst b _) w =
     (let width_bits = saturating_mul32 w 8
      in width_bits = 0 \<or> (width_bits < 64 \<and> push_bit (unat width_bits) 1 - 1 < b))"
| "value_is_oversized_literal _ _ = False"

section \<open>Effects and calls\<close>

datatype nir_memory_region_kind =
  StorageRegion nir_storage_id | StaticRegion symbol_id | AbsoluteRange address_space_id

record nir_memory_region =
  region_kind :: nir_memory_region_kind
  region_offset :: byte_offset
  region_size :: byte_size

datatype nir_memory_access = NoAccess | Regions "nir_memory_region list" | Unknown | All

record nir_memory_effects =
  reads :: nir_memory_access
  writes :: nir_memory_access

record nir_effects =
  memory :: nir_memory_effects
  may_call_external :: bool
  opaque :: bool

definition ranges_overlap :: "byte_offset \<Rightarrow> byte_size \<Rightarrow> byte_offset \<Rightarrow> byte_size \<Rightarrow> bool" where
  "ranges_overlap left left_size right right_size =
     (if left_size = 0 \<or> right_size = 0 then False
      else unat left < unat right + unat right_size \<and> unat right < unat left + unat left_size)"

definition region_overlaps :: "nir_memory_region \<Rightarrow> nir_memory_region \<Rightarrow> bool" where
  "region_overlaps a b \<longleftrightarrow>
     region_kind a = region_kind b \<and>
     ranges_overlap (region_offset a) (region_size a) (region_offset b) (region_size b)"

datatype nir_callee =
  Fault runtime_fault
| User routine_id string
| Builtin string
| Indirect nir_value nir_type
| RuntimeService runtime_symbol_id string

record nir_call_result =
  result_dest :: temp_id
  result_type :: nir_type

record nir_callable_signature =
  signature_identity :: signature_id
  signature_params :: "nir_type list"
  signature_variadic :: "nir_type option"
  signature_result :: "nir_type option"
  signature_kind :: nir_callable_kind
  signature_convention :: nir_call_convention

section \<open>Foreign code\<close>

datatype foreign_relocation_encoding =
  AddressEncoding byte_size | UnsignedEncoding byte_size | TargetByte target_id u8

fun encoding_width :: "foreign_relocation_encoding \<Rightarrow> byte_size" where
  "encoding_width (AddressEncoding w) = w"
| "encoding_width (UnsignedEncoding w) = w"
| "encoding_width (TargetByte _ _) = 1"

datatype foreign_symbol_use =
  UseAddress | UseConstant | UseRead | UseWrite | UseReadWrite | UseIndexedRead | UseIndexedWrite
| UseIndexedReadWrite | UseCall | UseControl | UsePointerRead

datatype nir_foreign_code_kind = LegacyMachineBlock | InlineAssembly

datatype nir_foreign_code_target =
  CodeStorage nir_storage_id | CodeRoutine routine_id | CodeAbsolute address_value
| InlineOffset byte_offset

datatype nir_machine_byte_selector = SelectLow | SelectHigh

datatype nir_machine_atom = AtomNumber u16 | AtomName string | AtomCurrent

datatype nir_machine_item =
  ItemByte u8
| ItemWord u16
| StringLiteral string
| CharLiteral nat
| ItemName string
| AddressExpr "nir_machine_byte_selector option" bool nir_machine_atom int string
| AddressByte bool string
| ItemRelocation foreign_relocation_encoding nir_foreign_code_target int "u8 option" span

record nir_foreign_relocation =
  relocation_offset :: byte_offset
  relocation_encoding :: foreign_relocation_encoding
  relocation_target :: nir_foreign_code_target
  relocation_addend :: int
  required_address_bits :: "u8 option"
  symbol_use :: foreign_symbol_use
  relocation_span :: span

datatype nir_foreign_code_payload =
  Structured "nir_machine_item list"
| ForeignBytes bytes "nir_foreign_relocation list"

record nir_foreign_code =
  foreign_target :: target_id
  foreign_kind :: nir_foreign_code_kind
  payload :: nir_foreign_code_payload
  foreign_source :: string
  foreign_span :: span

section \<open>Operations, terminators and blocks\<close>

datatype nir_unary_op = Plus | Neg

datatype nir_binary_op = Add | Sub | Mul | Div | Mod | Lsh | Rsh | And | Or | Xor

datatype nir_compare_op = Eq | Ne | Lt | Le | Gt | Ge

datatype nir_cast_kind = CastInteger | CastPointer | IntegerToPointer | PointerToInteger

datatype nir_real_source = RealPlace nir_place | RealStatic symbol_id string

datatype nir_real_op =
  RealCopy nir_place nir_real_source
| RealUnary nir_unary_op nir_place nir_real_source
| RealBinary nir_binary_op nir_place nir_real_source nir_real_source
| RealCompare nir_compare_op temp_id nir_type nir_real_source nir_real_source
| IntegerToReal nir_place nir_value nir_type
| RealToInteger temp_id nir_type nir_place

datatype nir_op =
  Load temp_id nir_type nir_place
| VolatileLoad temp_id nir_type nir_place
| AddrOf temp_id nir_type nir_place
| Store nir_place nir_value nir_type
| VolatileStore nir_place nir_value nir_type
| CopyBytes nir_place nir_place byte_size bool bool
| Unary temp_id nir_type nir_unary_op nir_value
| Cast temp_id nir_value nir_type nir_type nir_cast_kind
| PointerOffset temp_id nir_type nir_value nir_value bool
| Binary temp_id nir_type nir_binary_op nir_value nir_value
| Compare temp_id nir_type nir_type nir_compare_op nir_value nir_value
| RealOp nir_real_op
| Call nir_callee "nir_value list" "nir_call_result option" "nir_place option"
    "nir_callable_signature option" nir_effects
| ForeignCode nir_foreign_code nir_effects
| Unsupported string

record nir_edge =
  edge_target :: block_id
  edge_args :: "nir_value list"

datatype nir_terminator =
  Open
| Fallthrough
| Goto nir_edge
| Branch nir_value nir_edge nir_edge
| Return "nir_value option"
| Exit

record nir_block_param =
  param_dest :: temp_id
  param_type :: nir_type

record nir_block =
  block_id :: block_id
  block_label :: string
  block_params :: "nir_block_param list"
  ops :: "nir_op list"
  terminator :: nir_terminator

section \<open>Data images\<close>

datatype nir_data_address_encoding =
  DataPointer address_space_id byte_size | DataTargetByte target_id u8

fun data_encoding_width :: "nir_data_address_encoding \<Rightarrow> byte_size" where
  "data_encoding_width (DataPointer _ w) = w"
| "data_encoding_width (DataTargetByte _ _) = 1"

datatype nir_data_address_target =
  DataStorage nir_storage_id | DataRoutine routine_id | DataAbsolute address_value

datatype nir_data_fragment =
  IntegerFragment byte_offset byte_size u64
| AddressFragment byte_offset nir_data_address_encoding nir_data_address_target int span

record nir_data_image =
  image_bytes :: bytes
  fragments :: "nir_data_fragment list"

definition image_literal :: "bytes \<Rightarrow> nir_data_image" where
  "image_literal bs = \<lparr>image_bytes = bs, fragments = []\<rparr>"

definition integer_byte :: "endian \<Rightarrow> nat \<Rightarrow> u64 \<Rightarrow> nat \<Rightarrow> u8" where
  "integer_byte endian w v index =
     (let significance = (case endian of Little \<Rightarrow> index | Big \<Rightarrow> w - index - 1)
      in nth_byte significance v)"

fun project_fragment :: "endian \<Rightarrow> nir_data_fragment \<Rightarrow> bytes \<Rightarrow> bytes option" where
  "project_fragment endian (AddressFragment _ _ _ _ _) bs = Some bs"
| "project_fragment endian (IntegerFragment off w v) bs =
     (let start = unat off; wd = unat w
      in if wd = 0 \<or> 8 < wd then None
         else if length bs < start + wd then None
         else Some (take start bs @ map (integer_byte endian wd v) [0..<wd] @ drop (start + wd) bs))"

fun project_fragments :: "endian \<Rightarrow> nir_data_fragment list \<Rightarrow> bytes \<Rightarrow> bytes option" where
  "project_fragments endian [] bs = Some bs"
| "project_fragments endian (f # fs) bs =
     Option.bind (project_fragment endian f bs) (project_fragments endian fs)"

definition project_constants :: "endian \<Rightarrow> nir_data_image \<Rightarrow> bytes option" where
  "project_constants endian img = project_fragments endian (fragments img) (image_bytes img)"

text \<open>The identity of a runtime service is the FNV-1a hash of its upper-cased name.\<close>

definition hash_byte :: "u32 \<Rightarrow> u8 \<Rightarrow> u32" where
  "hash_byte hash b = (hash XOR ucast b) * 16777619"

definition runtime_symbol_id :: "string \<Rightarrow> runtime_symbol_id" where
  "runtime_symbol_id name =
     foldl (\<lambda>hash c. hash_byte hash (of_char (to_ascii_uppercase c))) 2166136261 name"

section \<open>Lemmas\<close>

lemma type_mask_unat: "unat (type_mask t) = (if 64 \<le> bits t then 2 ^ 64 - 1 else 2 ^ unat (bits t) - 1)"
proof (cases "64 \<le> bits t")
  case True
  then show ?thesis by (simp add: type_mask_def)
next
  case False
  then have b: "unat (bits t) < 64" by (simp add: word_le_nat_alt)
  have "unat (push_bit (unat (bits t)) (1 :: u64) - 1) = 2 ^ unat (bits t) - 1"
    using b by (simp add: push_bit_eq_mult unat_two_power_minus_one)
  with False show ?thesis by (auto simp: type_mask_def)
qed

lemma storage_width_unat: "unat (storage_width t) = (unat (bits t) + 7) div 8"
proof -
  have "(unat (bits t) + 7) div 8 < 2 ^ 32" using unsigned_less [where 'a = nat, of "bits t"] by simp
  then show ?thesis by (simp add: storage_width_def unsigned_of_nat take_bit_eq_mod)
qed

lemma and_unat_le: "unat (a AND b) \<le> unat (b :: 'a::len word)"
  using word_and_le1 [of a b] by (simp add: word_le_nat_alt)

text \<open>C9: an integer constant built by \<open>integer_const\<close> is never too large for its own storage: masking
  keeps it below two to the bits of its type, so the literal check accepts it at the storage width
  (for every type that has at least one bit).\<close>

theorem integer_const_fits:
  assumes "0 < bits ty"
  shows "\<not> value_is_oversized_literal (integer_const b ty) (storage_width ty)"
proof -
  have pos: "0 < unat (bits ty)" using assms by (simp add: word_gt_0 unat_gt_0)
  have lt: "unat (bits ty) < 256" using unsigned_less [where 'a = nat, of "bits ty"] by simp
  let ?w = "storage_width ty"
  have w8: "unat (saturating_mul32 ?w 8) = 8 * ((unat (bits ty) + 7) div 8)"
    using lt by (simp add: saturating_mul32_def unat_word_ariths storage_width_unat)
  then have nz: "saturating_mul32 ?w 8 \<noteq> 0" using pos by (auto simp: unat_eq_zero [symmetric] simp del: unat_eq_zero)
  have "b AND type_mask ty \<le> push_bit (unat (saturating_mul32 ?w 8)) 1 - 1"
    if small: "saturating_mul32 ?w 8 < 64"
  proof -
    let ?n = "8 * ((unat (bits ty) + 7) div 8)"
    have n: "?n < 64" "unat (bits ty) \<le> ?n" using small w8 by (auto simp: word_less_nat_alt)
    have "unat (b AND type_mask ty) \<le> 2 ^ unat (bits ty) - 1"
      using and_unat_le [of b "type_mask ty"] n by (simp add: type_mask_unat word_le_nat_alt)
    also have "\<dots> \<le> 2 ^ ?n - 1" using n by (intro diff_le_mono) simp
    also have "\<dots> = unat (push_bit ?n (1 :: u64) - 1)"
      using n by (simp add: push_bit_eq_mult unat_two_power_minus_one)
    finally show ?thesis by (simp add: w8 word_le_nat_alt)
  qed
  with nz show ?thesis unfolding integer_const_def value_is_oversized_literal.simps Let_def
    by (meson not_le)
qed

theorem integer_const_fits_witness:
  "\<not> value_is_oversized_literal (integer_const 0x12345 (ordinary 8 False)) (storage_width (ordinary 8 False))"
  by (rule integer_const_fits) (simp add: ordinary_def)

definition region_bytes :: "nir_memory_region \<Rightarrow> nat set" where
  "region_bytes r = {unat (region_offset r) ..< unat (region_offset r) + unat (region_size r)}"

text \<open>C10: two memory regions overlap exactly when they are of the same object and have a byte in
  common; an empty region overlaps nothing.\<close>

theorem region_overlaps_iff:
  "region_overlaps a b \<longleftrightarrow> region_kind a = region_kind b \<and> region_bytes a \<inter> region_bytes b \<noteq> {}"
proof -
  let ?a = "unat (region_offset a)" and ?b = "unat (region_offset b)"
  let ?m = "unat (region_size a)" and ?n = "unat (region_size b)"
  have "{?a ..< ?a + ?m} \<inter> {?b ..< ?b + ?n} \<noteq> {} \<longleftrightarrow> 0 < ?m \<and> 0 < ?n \<and> ?a < ?b + ?n \<and> ?b < ?a + ?m"
    (is "?L \<longleftrightarrow> ?R")
  proof
    assume ?R
    then have "max ?a ?b \<in> {?a ..< ?a + ?m} \<inter> {?b ..< ?b + ?n}" by auto
    then show ?L by blast
  qed auto
  then show ?thesis
    by (auto simp: region_overlaps_def ranges_overlap_def region_bytes_def unat_gt_0)
qed

lemma kind_apply_twice:
  "kind_apply_target_layout l2 (kind_apply_target_layout l1 k) = kind_apply_target_layout l2 k"
  by (induction l1 k rule: kind_apply_target_layout.induct)
    (simp_all split: nir_integer_role.split)

lemma kind_apply_pointer: "is_pointer (kind_apply_target_layout l k) = is_pointer k"
  by (induction l k rule: kind_apply_target_layout.induct) (simp_all split: nir_integer_role.split)

text \<open>C11: giving a type the layout of a target forgets any layout it had before; afterwards every
  pointer has the data-pointer size of the target, every callable its code-pointer size, address and
  size integers the target's bits, and only errors and records of unknown size have no width.\<close>

theorem apply_target_layout_width:
  "apply_target_layout l (apply_target_layout l' ty) = apply_target_layout l ty \<and>
   pointer (apply_target_layout l ty) = is_pointer (type_kind ty) \<and>
   width (apply_target_layout l ty) =
     (case type_kind ty of
        Void \<Rightarrow> Some 0
      | Bool \<Rightarrow> Some 1
      | Integer i \<Rightarrow>
          Some (storage_width (i\<lparr>bits := (case role i of Ordinary \<Rightarrow> bits i
             | Address \<Rightarrow> address_integer_bits l | Size \<Rightarrow> size_integer_bits l)\<rparr>))
      | Real \<Rightarrow> Some 6
      | Pointer _ _ \<Rightarrow> Some (size_bytes (data_pointer l))
      | Record _ _ sz \<Rightarrow> sz
      | Callable _ _ _ _ \<Rightarrow> Some (size_bytes (code_pointer l))
      | Error \<Rightarrow> None)"
proof -
  have "kind_width (kind_apply_target_layout l (Pointer p a)) l = Some (size_bytes (data_pointer l))"
    for p a by (cases p) simp_all
  then show ?thesis
    by (auto simp: apply_target_layout_def Let_def kind_apply_twice kind_apply_pointer
        split: nir_type_kind.split nir_integer_role.split)
qed

section \<open>Data images\<close>

fun fragment_range :: "nir_data_fragment \<Rightarrow> nat set" where
  "fragment_range (IntegerFragment off w _) = {unat off ..< unat off + unat w}"
| "fragment_range (AddressFragment _ _ _ _ _) = {}"

definition endian_value :: "endian \<Rightarrow> bytes \<Rightarrow> nat" where
  "endian_value endian bs = (case endian of Little \<Rightarrow> le_value bs | Big \<Rightarrow> be_value bs)"

lemma integer_bytes_value:
  "endian_value endian (map (integer_byte endian w v) [0..<w]) = unat v mod 256 ^ w"
proof -
  have "integer_byte Little w v = (\<lambda>i. nth_byte i v)" "integer_byte Big w v = (\<lambda>i. nth_byte (w - i - 1) v)"
    by (simp_all add: integer_byte_def Let_def fun_eq_iff)
  then show ?thesis
    by (cases endian) (simp_all only: endian_value_def le_value_nth_bytes be_value_nth_bytes endian.case)
qed

lemma project_fragment_effect:
  assumes "project_fragment endian f bs = Some bs'"
  shows "length bs' = length bs"
    and "i \<notin> fragment_range f \<Longrightarrow> i < length bs \<Longrightarrow> bs' ! i = bs ! i"
proof -
  show "length bs' = length bs" using assms by (cases f) (auto simp: Let_def split: if_splits)
  show "bs' ! i = bs ! i" if "i \<notin> fragment_range f" "i < length bs"
    using assms that by (cases f) (auto simp: Let_def nth_append split: if_splits)
qed

lemma project_integer_slice:
  assumes "project_fragment endian (IntegerFragment off w v) bs = Some bs'"
  shows "take (unat w) (drop (unat off) bs') = map (integer_byte endian (unat w) v) [0..<unat w]"
    and "unat off + unat w \<le> length bs"
  using assms by (auto simp: Let_def split: if_splits)

lemma project_fragments_effect:
  assumes "project_fragments endian fs bs = Some bs'"
  shows "length bs' = length bs \<and>
    (\<forall>i < length bs. (\<forall>f \<in> set fs. i \<notin> fragment_range f) \<longrightarrow> bs' ! i = bs ! i)"
  using assms
proof (induction fs arbitrary: bs)
  case Nil
  then show ?case by simp
next
  case (Cons f fs)
  then obtain bs1 where 1: "project_fragment endian f bs = Some bs1"
    "project_fragments endian fs bs1 = Some bs'" by (auto simp: bind_eq_Some_conv)
  from project_fragment_effect [OF 1(1)] Cons.IH [OF 1(2)] show ?case by auto
qed

lemma project_fragments_append:
  "project_fragments endian (fs @ gs) bs =
     Option.bind (project_fragments endian fs bs) (project_fragments endian gs)"
proof (induction fs arbitrary: bs)
  case (Cons f fs)
  then show ?case by (cases "project_fragment endian f bs") simp_all
qed simp

text \<open>C8: when the constants of a data image can be projected, the image keeps its length, every byte
  outside the integer fragments is the source byte, and reading back, in the target's byte order, a
  fragment that no later fragment overwrites gives its value reduced to the fragment's width.\<close>

theorem project_constants_reads_back:
  assumes "project_constants endian img = Some bs"
  shows "length bs = length (image_bytes img) \<and>
    (\<forall>i < length bs. (\<forall>f \<in> set (fragments img). i \<notin> fragment_range f) \<longrightarrow>
        bs ! i = image_bytes img ! i) \<and>
    (\<forall>before off w v after. fragments img = before @ IntegerFragment off w v # after \<longrightarrow>
        (\<forall>g \<in> set after. fragment_range g \<inter> fragment_range (IntegerFragment off w v) = {}) \<longrightarrow>
        endian_value endian (take (unat w) (drop (unat off) bs)) = unat v mod 256 ^ unat w)"
proof (intro conjI allI impI)
  have eff: "length bs = length (image_bytes img) \<and> (\<forall>i < length (image_bytes img).
      (\<forall>f \<in> set (fragments img). i \<notin> fragment_range f) \<longrightarrow> bs ! i = image_bytes img ! i)"
    by (rule project_fragments_effect) (use assms in \<open>simp add: project_constants_def\<close>)
  then show "length bs = length (image_bytes img)" by simp
  show "bs ! i = image_bytes img ! i"
    if "i < length bs" "\<forall>f \<in> set (fragments img). i \<notin> fragment_range f" for i
    using eff that by simp
  fix before off w v "after"
  assume fr: "fragments img = before @ IntegerFragment off w v # after"
    and disj: "\<forall>g \<in> set after. fragment_range g \<inter> fragment_range (IntegerFragment off w v) = {}"
  from assms fr obtain bs1 bs2 where
    1: "project_fragment endian (IntegerFragment off w v) bs1 = Some bs2" and
    2: "project_fragments endian after bs2 = Some bs"
    by (auto simp: project_constants_def project_fragments_append bind_eq_Some_conv
        simp del: project_fragment.simps)
  note slice = project_integer_slice [OF 1]
  note e2 = project_fragments_effect [OF 2]
  have "take (unat w) (drop (unat off) bs) = take (unat w) (drop (unat off) bs2)"
  proof (rule nth_equalityI)
    fix i assume "i < length (take (unat w) (drop (unat off) bs))"
    then have i: "i < unat w" "unat off + i < length bs2" using e2 by auto
    then have "unat off + i \<in> fragment_range (IntegerFragment off w v)" by simp
    with disj have "\<forall>g \<in> set after. unat off + i \<notin> fragment_range g" by blast
    with e2 i show "take (unat w) (drop (unat off) bs) ! i = take (unat w) (drop (unat off) bs2) ! i"
      by simp
  qed (use e2 in simp)
  with slice(1) show "endian_value endian (take (unat w) (drop (unat off) bs)) = unat v mod 256 ^ unat w"
    by (simp add: integer_bytes_value)
qed

definition sample_image :: nir_data_image where
  "sample_image = \<lparr>image_bytes = [1, 0, 0, 9], fragments = [IntegerFragment 1 2 0x1234]\<rparr>"

theorem project_constants_reads_back_witness:
  "project_constants Big sample_image = Some [1, 0x12, 0x34, 9] \<and>
   length [1, 0x12, 0x34, 9 :: u8] = length (image_bytes sample_image)"
proof -
  have p: "project_constants Big sample_image = Some [1, 0x12, 0x34, 9]"
    by code_simp
  from project_constants_reads_back [OF p] p show ?thesis by blast
qed

end
