(* ===== verification/Set_Map.thy ===== *)
theory Set_Map
  imports Prelude "HOL-Library.Finite_Map"
begin

text \<open>
  A \<open>BTreeMap\<close> that the code grows key by key is a finite map; the two idioms the graph builders and the
  allocator use on maps of sets are \<open>entry(k).or_insert(v)\<close> and \<open>entry(k).or_default().insert(a)\<close>. Lemmas:
  both as updates of the set a key stands for.
\<close>

definition or_insert :: "'k \<Rightarrow> 'v \<Rightarrow> ('k, 'v) fmap \<Rightarrow> ('k, 'v) fmap" where
  "or_insert k v m = (case fmlookup m k of None \<Rightarrow> fmupd k v m | Some _ \<Rightarrow> m)"

definition set_at :: "('k, 'a set) fmap \<Rightarrow> 'k \<Rightarrow> 'a set" where
  "set_at m k = (case fmlookup m k of None \<Rightarrow> {} | Some s \<Rightarrow> s)"

definition insert_at :: "'k \<Rightarrow> 'a \<Rightarrow> ('k, 'a set) fmap \<Rightarrow> ('k, 'a set) fmap" where
  "insert_at k a m = fmupd k (insert a (set_at m k)) m"

definition map_edges :: "('n, 'n set) fmap \<Rightarrow> ('n \<times> 'n) set" where
  "map_edges succs = {(m, n). n \<in> set_at succs m}"

lemma set_at_fmupd: "set_at (fmupd k s m) k' = (if k' = k then s else set_at m k')"
  by (simp add: set_at_def)

lemma set_at_insert_at [simp]:
  "set_at (insert_at k a m) k' = (if k' = k then insert a (set_at m k) else set_at m k')"
  by (simp add: set_at_def insert_at_def)

lemma set_at_or_insert [simp]: "set_at (or_insert k {} m) = set_at m"
  by (rule ext) (simp add: set_at_def or_insert_def split: option.split)

lemma set_at_empty [simp]: "set_at fmempty k = {}"
  by (simp add: set_at_def)

lemma set_at_finite: "(\<And>k. finite (set_at m k)) \<Longrightarrow> fmlookup m k = Some s \<Longrightarrow> finite s"
  by (metis option.simps(5) set_at_def)

end
