(* ===== verification/Nir_Cfg.thy ===== *)
theory Nir_Cfg
  imports Dataflow Dominance_Correct Nir_Ir Set_Map
begin

text \<open>
  The target-independent control-flow graph of a NIR routine
  (\<open>src/src/nir/analysis/cfg.rs\<close>). A \<open>BTreeMap\<close> that the code grows key by key is a finite map.
  Lemmas: the adjacency built from the block list, the depth-first postorder (it terminates, visits
  exactly the reachable blocks, each once and after its subtree), and the interpretation of the locale \<open>flow_graph\<close>, which
  every analysis over this graph rests on.
\<close>

section \<open>Building the graph\<close>

text \<open>\<open>for_each_target\<close> visits the edge targets of a terminator in order.\<close>

fun for_each_target :: "nir_terminator \<Rightarrow> block_id list" where
  "for_each_target (Goto edge) = [edge_target edge]"
| "for_each_target (Branch _ then_edge else_edge) = [edge_target then_edge, edge_target else_edge]"
| "for_each_target Open = []"
| "for_each_target Fallthrough = []"
| "for_each_target (Return _) = []"
| "for_each_target Exit = []"

record nir_cfg =
  cfg_entry :: "block_id option"
  cfg_block_ids :: "block_id set"
  cfg_block_indices :: "(block_id, nat) fmap"
  cfg_predecessors :: "(block_id, block_id set) fmap"
  cfg_successors :: "(block_id, block_id set) fmap"
  cfg_reachable :: "block_id set"
  cfg_postorder :: "block_id list"
  cfg_reverse_postorder :: "block_id list"
  cfg_exits :: "block_id set"

text \<open>The depth-first visit, with the loop over the successors as a list of nodes still to visit.
  A node without an entry in the map has no successors.\<close>

function visit_postorder ::
  "('n::linorder, 'n set) fmap \<Rightarrow> 'n list \<Rightarrow> 'n set \<times> 'n list \<Rightarrow> 'n set \<times> 'n list" where
  "visit_postorder succs [] st = st"
| "visit_postorder succs (b # bs) (visited, post) =
     (if b \<in> visited then visit_postorder succs bs (visited, post)
      else
        let (visited', post') =
          (case fmlookup succs b of
             None \<Rightarrow> (insert b visited, post)
           | Some next \<Rightarrow>
               visit_postorder succs (sorted_list_of_set next) (insert b visited, post))
        in visit_postorder succs bs (visited', post' @ [b]))"
  by pat_completeness auto

lemma visit_postorder_grows:
  "visit_postorder_dom (succs, bs, st) \<Longrightarrow> fst st \<subseteq> fst (visit_postorder succs bs st)"
  by (induction succs bs st rule: visit_postorder.pinduct)
    (fastforce simp: visit_postorder.psimps split: prod.splits option.splits if_splits)+

definition unvisited :: "('n, 'b) fmap \<Rightarrow> 'n set \<Rightarrow> 'n set" where
  "unvisited succs visited = fmdom' succs - visited"

lemma unvisited_finite [simp]: "finite (unvisited succs visited)"
  by (simp add: unvisited_def)

lemma unvisited_insert:
  "fmlookup succs b = Some nxt \<Longrightarrow> b \<notin> visited \<Longrightarrow>
     unvisited succs (insert b visited) \<subset> unvisited succs visited"
  unfolding unvisited_def using fmlookup_dom'_iff [of b succs] by auto

lemma unvisited_mono:
  "visited \<subseteq> visited' \<Longrightarrow> unvisited succs visited' \<subset> unvisited succs visited \<or>
     unvisited succs visited' = unvisited succs visited"
  unfolding unvisited_def by auto

termination visit_postorder
proof (relation "inv_image (finite_psubset <*lex*> less_than)
                   (\<lambda>(succs, bs, st). (unvisited succs (fst st), length bs))", goal_cases)
  case 1
  show ?case by (intro wf_inv_image wf_lex_prod wf_finite_psubset wf_less_than)
next
  case 2
  then show ?case by simp
next
  case (3 succs b bs visited post nxt)
  then show ?case by (simp add: finite_psubset_def unvisited_insert)
next
  case (4 succs b bs visited post st visited' post')
  have "visited \<subseteq> visited'"
  proof (cases "fmlookup succs b")
    case None
    with 4 show ?thesis by auto
  next
    case (Some nxt)
    with 4 have "visit_postorder_dom (succs, sorted_list_of_set nxt, insert b visited, post)"
      by simp
    from visit_postorder_grows [OF this] Some 4(2,3) show ?thesis by (auto simp: fst_def split: prod.splits)
  qed
  from unvisited_mono [OF this, of succs] show ?case by (auto simp: finite_psubset_def)
qed

declare visit_postorder.simps(2) [simp del]

text \<open>The order of a depth-first postorder: a node is listed while the path of the visit that led to it is
  still open, so that path runs through nodes listed no earlier; and when it is listed each of its
  successors is known already, listed before, or open, that is, the node is on a cycle with it through
  nodes listed no earlier.\<close>

definition depth_first_order ::
  "('n \<times> 'n) set \<Rightarrow> 'n set \<Rightarrow> 'n set \<Rightarrow> 'n list \<Rightarrow> bool" where
  "depth_first_order E roots known order \<longleftrightarrow>
     (\<forall>before m after. order = before @ m # after \<longrightarrow>
        (\<exists>r \<in> roots. (r, m) \<in> (Restr E (set (m # after)))\<^sup>*) \<and>
        (\<forall>s. (m, s) \<in> E \<longrightarrow>
           s \<in> known \<or> s \<in> set before \<or> (s, m) \<in> (Restr E (set (m # after)))\<^sup>*))"

lemma depth_first_order_Nil [simp]: "depth_first_order E roots known []"
  by (simp add: depth_first_order_def)

lemma depth_first_order_more_roots:
  "depth_first_order E roots known order \<Longrightarrow> roots \<subseteq> roots' \<Longrightarrow> depth_first_order E roots' known order"
  unfolding depth_first_order_def by blast

lemma depth_first_orderD:
  assumes "depth_first_order E roots known (before @ m # after)"
  shows "\<exists>r \<in> roots. (r, m) \<in> (Restr E (set (m # after)))\<^sup>*"
    and "(m, s) \<in> E \<Longrightarrow> s \<notin> known \<Longrightarrow> s \<notin> set before \<Longrightarrow> (s, m) \<in> (Restr E (set (m # after)))\<^sup>*"
  using assms unfolding depth_first_order_def by blast+

lemma rtrancl_Restr_mono: "(a, c) \<in> (Restr E S)\<^sup>* \<Longrightarrow> S \<subseteq> T \<Longrightarrow> (a, c) \<in> (Restr E T)\<^sup>*"
  using rtrancl_mono [of "Restr E S" "Restr E T"] by blast

lemma rtrancl_Restr_start: "(a, c) \<in> (Restr E S)\<^sup>* \<Longrightarrow> c \<in> S \<Longrightarrow> a \<in> S"
  by (erule converse_rtranclE) auto

lemma append_split_cases:
  assumes "xs @ b # ys = before @ m # after"
  obtains (early) zs where "xs = before @ m # zs" "after = zs @ b # ys"
  | (here) "before = xs" "m = b" "after = ys"
  | (late) zs where "before = xs @ b # zs" "ys = zs @ m # after"
  using assms by (auto simp: append_eq_append_conv2 append_eq_Cons_conv Cons_eq_append_conv)

text \<open>A node after its subtree, followed by the subtrees of its siblings.\<close>

lemma depth_first_order_Cons:
  assumes kids: "\<And>s. (b, s) \<in> E \<longleftrightarrow> s \<in> set kids"
    and inner: "depth_first_order E (set kids) (insert b known) xs"
    and found: "set kids \<subseteq> insert b (known \<union> set xs)"
    and outer: "depth_first_order E (set bs) (insert b (known \<union> set xs)) ys"
  shows "depth_first_order E (set (b # bs)) known (xs @ b # ys)"
  unfolding depth_first_order_def
proof (intro allI impI)
  fix before m after
  assume "xs @ b # ys = before @ m # after"
  then show "(\<exists>r \<in> set (b # bs). (r, m) \<in> (Restr E (set (m # after)))\<^sup>*) \<and>
    (\<forall>s. (m, s) \<in> E \<longrightarrow>
       s \<in> known \<or> s \<in> set before \<or> (s, m) \<in> (Restr E (set (m # after)))\<^sup>*)"
  proof (cases rule: append_split_cases)
    case (early zs)
    have sub: "set (m # zs) \<subseteq> set (m # after)" using early by auto
    note ord = depth_first_orderD [OF inner [unfolded early(1)]]
    from ord(1) obtain k where k: "k \<in> set kids" "(k, m) \<in> (Restr E (set (m # zs)))\<^sup>*" by blast
    from k(2) have "k \<in> set (m # zs)" by (rule rtrancl_Restr_start) simp
    with sub k(1) early kids have "(b, k) \<in> Restr E (set (m # after))" by auto
    with rtrancl_Restr_mono [OF k(2) sub] have path: "(b, m) \<in> (Restr E (set (m # after)))\<^sup>*"
      by (rule converse_rtrancl_into_rtrancl [rotated])
    with ord(2) rtrancl_Restr_mono [OF _ sub] show ?thesis by (metis insertE list.set_intros(1))
  next
    case here
    with found kids show ?thesis by (auto 4 3)
  next
    case (late zs)
    note ord = depth_first_orderD [OF outer [unfolded late(2)]]
    from late(1) have "set before = insert b (set xs \<union> set zs)" by auto
    with ord show ?thesis by auto
  qed
qed

text \<open>What one visit adds: the new nodes, once each and in depth-first order, all reached from the
  roots, and closed under successors.\<close>

definition visited_ok ::
  "('n, 'n set) fmap \<Rightarrow> 'n list \<Rightarrow> 'n set \<times> 'n list \<Rightarrow> 'n set \<times> 'n list \<Rightarrow> bool" where
  "visited_ok succs bs st st' \<longleftrightarrow>
     (\<exists>new. snd st' = snd st @ new \<and> distinct new \<and> set new = fst st' - fst st \<and>
        depth_first_order (map_edges succs) (set bs) (fst st) new) \<and>
     fst st \<subseteq> fst st' \<and> set bs \<subseteq> fst st' \<and>
     fst st' \<subseteq> fst st \<union> (map_edges succs)\<^sup>* `` set bs \<and>
     (\<forall>m \<in> fst st' - fst st. set_at succs m \<subseteq> fst st')"

lemma visited_ok_Nil: "visited_ok succs [] st st"
  by (auto simp: visited_ok_def)

lemma visited_ok_skip:
  assumes "b \<in> fst st" and "visited_ok succs bs st st'"
  shows "visited_ok succs (b # bs) st st'"
proof -
  have "set bs \<subseteq> set (b # bs)" by auto
  note more = depth_first_order_more_roots [OF _ this]
  from assms(2) obtain new where "snd st' = snd st @ new" "distinct new" "set new = fst st' - fst st"
    "depth_first_order (map_edges succs) (set (b # bs)) (fst st) new"
    unfolding visited_ok_def using more by blast
  then have "\<exists>new. snd st' = snd st @ new \<and> distinct new \<and> set new = fst st' - fst st \<and>
    depth_first_order (map_edges succs) (set (b # bs)) (fst st) new" by blast
  with assms show ?thesis unfolding visited_ok_def by auto
qed

lemma subset_chain:
  "S \<subseteq> V \<union> B \<Longrightarrow> V \<subseteq> insert b W \<union> C \<Longrightarrow> C \<subseteq> A \<Longrightarrow> b \<in> A \<Longrightarrow> S \<subseteq> W \<union> (A \<union> B)"
  by blast

lemma visited_ok_Cons:
  assumes b: "b \<notin> visited" and ch: "set kids = set_at succs b"
    and inner: "visited_ok succs kids (insert b visited, post) (v1, p1)"
    and outer: "visited_ok succs bs (v1, p1 @ [b]) st'"
  shows "visited_ok succs (b # bs) (visited, post) st'"
proof -
  from inner obtain n1 where n1: "p1 = post @ n1" "distinct n1" "set n1 = v1 - insert b visited"
      "depth_first_order (map_edges succs) (set kids) (insert b visited) n1"
    and i: "insert b visited \<subseteq> v1" "set kids \<subseteq> v1"
      "v1 \<subseteq> insert b visited \<union> (map_edges succs)\<^sup>* `` set kids"
      "\<forall>m \<in> v1 - insert b visited. set_at succs m \<subseteq> v1"
    by (auto simp: visited_ok_def)
  from outer obtain n2 where n2: "snd st' = p1 @ [b] @ n2" "distinct n2" "set n2 = fst st' - v1"
      "depth_first_order (map_edges succs) (set bs) v1 n2"
    and o: "v1 \<subseteq> fst st'" "set bs \<subseteq> fst st'"
      "fst st' \<subseteq> v1 \<union> (map_edges succs)\<^sup>* `` set bs"
      "\<forall>m \<in> fst st' - v1. set_at succs m \<subseteq> fst st'"
    by (auto simp: visited_ok_def)
  have "(b, c) \<in> map_edges succs" if "c \<in> set kids" for c
    using that ch by (simp add: map_edges_def)
  then have "(map_edges succs)\<^sup>* `` set kids \<subseteq> (map_edges succs)\<^sup>* `` {b}"
    by (auto intro: converse_rtrancl_into_rtrancl)
  then have ch': "(map_edges succs)\<^sup>* `` set kids \<subseteq> (map_edges succs)\<^sup>* `` {b}" .
  have reach: "fst st' \<subseteq> visited \<union> (map_edges succs)\<^sup>* `` set (b # bs)"
  proof -
    have split: "(map_edges succs)\<^sup>* `` set (b # bs) =
          (map_edges succs)\<^sup>* `` {b} \<union> (map_edges succs)\<^sup>* `` set bs"
      by (simp add: Image_Un [symmetric])
    have b: "b \<in> (map_edges succs)\<^sup>* `` {b}" by auto
    show ?thesis unfolding split by (rule subset_chain [OF o(3) i(3) ch' b])
  qed
  have v1: "v1 = insert b (visited \<union> set n1)" using n1(3) i(1) by blast
  have order: "depth_first_order (map_edges succs) (set (b # bs)) visited (n1 @ b # n2)"
    using n1(4) n2(4) i(2) ch unfolding v1
    by (intro depth_first_order_Cons [where kids = kids]) (auto simp: map_edges_def)
  have "snd st' = post @ (n1 @ b # n2) \<and> distinct (n1 @ b # n2) \<and> set (n1 @ b # n2) = fst st' - visited"
    using n1 n2 b i(1) o(1) by auto
  with order have "\<exists>new. snd st' = post @ new \<and> distinct new \<and> set new = fst st' - visited \<and>
      depth_first_order (map_edges succs) (set (b # bs)) visited new" by blast
  moreover have "\<forall>m \<in> fst st' - visited. set_at succs m \<subseteq> fst st'"
  proof
    fix m assume m: "m \<in> fst st' - visited"
    consider "m = b" | "m \<in> v1 - insert b visited" | "m \<in> fst st' - v1" using m i(1) by auto
    then show "set_at succs m \<subseteq> fst st'"
    proof cases
      case 1
      with ch i(2) o(1) show ?thesis by simp
    next
      case 2
      with i(4) have "set_at succs m \<subseteq> v1" by blast
      with o(1) show ?thesis by blast
    next
      case 3
      with o(4) show ?thesis by blast
    qed
  qed
  ultimately show ?thesis
    using i(1) o reach by (auto simp: visited_ok_def)
qed

lemma visit_postorder_ok:
  assumes "\<And>m s. fmlookup succs m = Some s \<Longrightarrow> finite s"
  shows "visited_ok succs bs st (visit_postorder succs bs st)"
  using assms
proof (induction succs bs st rule: visit_postorder.induct)
  case (1 succs st)
  then show ?case by (simp add: visited_ok_Nil)
next
  case (2 succs b bs visited post)
  show ?case
  proof (cases "b \<in> visited")
    case True
    with 2 show ?thesis by (simp add: visit_postorder.simps(2) visited_ok_skip)
  next
    case new: False
    show ?thesis
    proof (cases "fmlookup succs b")
      case None
      then have "visited_ok succs [] (insert b visited, post) (insert b visited, post)"
        by (simp add: visited_ok_Nil)
      then have "visited_ok succs (b # bs) (visited, post)
          (visit_postorder succs bs (insert b visited, post @ [b]))"
        using new None "2.IH"(3) [OF new _ refl] "2.prems"
        by (intro visited_ok_Cons [where kids = "[]"]) (auto simp: set_at_def)
      then show ?thesis using new None by (simp add: visit_postorder.simps(2))
    next
      case (Some nxt)
      obtain v1 p1 where
        v1: "visit_postorder succs (sorted_list_of_set nxt) (insert b visited, post) = (v1, p1)"
        by fastforce
      have "visited_ok succs (sorted_list_of_set nxt) (insert b visited, post) (v1, p1)"
        using "2.IH"(2) [OF new Some] "2.prems" v1 by simp
      then have "visited_ok succs (b # bs) (visited, post) (visit_postorder succs bs (v1, p1 @ [b]))"
        using new Some v1 "2.IH"(3) [OF new _ refl] "2.prems"
        by (intro visited_ok_Cons [where kids = "sorted_list_of_set nxt"]) (auto simp: set_at_def)
      then show ?thesis using new Some v1 by (simp add: visit_postorder.simps(2))
    qed
  qed
qed

lemma visit_from_root:
  assumes "\<And>m s. fmlookup succs m = Some s \<Longrightarrow> finite s"
    and "visit_postorder succs [e] ({}, []) = (v, p)"
  shows "v = (map_edges succs)\<^sup>* `` {e}" "set p = v" "distinct p"
    "depth_first_order (map_edges succs) {e} {} p"
proof -
  have ok: "visited_ok succs [e] ({}, []) (v, p)"
    using visit_postorder_ok [where succs = succs and bs = "[e]" and st = "({}, [])"] assms by simp
  then show "set p = v" "distinct p" "depth_first_order (map_edges succs) {e} {} p"
    by (auto simp: visited_ok_def)
  have "n \<in> v" if "(e, n) \<in> (map_edges succs)\<^sup>*" for n
    using that ok by (induction rule: rtrancl_induct) (auto simp: visited_ok_def map_edges_def)
  with ok show "v = (map_edges succs)\<^sup>* `` {e}" by (auto simp: visited_ok_def)
qed

section \<open>The graph of a routine\<close>

text \<open>The two passes over the blocks, and the record of facts.\<close>

type_synonym cfg_maps =
  "block_id set \<times> (block_id, nat) fmap \<times> (block_id, block_id set) fmap \<times>
   (block_id, block_id set) fmap"

definition register_block :: "nat \<times> nir_block \<Rightarrow> cfg_maps \<Rightarrow> cfg_maps" where
  "register_block indexed_block maps =
     (let (index, block) = indexed_block; (ids, indices, preds, succs) = maps; b = block_id block
      in (insert b ids, or_insert b index indices, or_insert b {} preds, or_insert b {} succs))"

definition connect_target ::
  "block_id set \<Rightarrow> block_id \<Rightarrow> block_id
    \<Rightarrow> (block_id, block_id set) fmap \<times> (block_id, block_id set) fmap
    \<Rightarrow> (block_id, block_id set) fmap \<times> (block_id, block_id set) fmap" where
  "connect_target ids from target_id maps =
     (let (preds, succs) = maps
      in if target_id \<notin> ids then (preds, succs)
         else (insert_at target_id from preds, insert_at from target_id succs))"

definition connect_block ::
  "block_id set \<Rightarrow> nir_block
    \<Rightarrow> (block_id, block_id set) fmap \<times> (block_id, block_id set) fmap
    \<Rightarrow> (block_id, block_id set) fmap \<times> (block_id, block_id set) fmap" where
  "connect_block ids block =
     fold (connect_target ids (block_id block)) (for_each_target (terminator block))"

definition from_routine :: "nir_block list \<Rightarrow> nir_cfg" where
  "from_routine blocks =
     (let first = (case blocks of [] \<Rightarrow> None | block # _ \<Rightarrow> Some (block_id block));
          (ids, indices, preds0, succs0) =
            fold register_block (enumerate 0 blocks) ({}, fmempty, fmempty, fmempty);
          (preds, succs) = fold (connect_block ids) blocks (preds0, succs0);
          (reached, post) =
            (case first of None \<Rightarrow> ({}, []) | Some e \<Rightarrow> visit_postorder succs [e] ({}, []))
      in \<lparr>cfg_entry = first, cfg_block_ids = ids, cfg_block_indices = indices,
          cfg_predecessors = preds, cfg_successors = succs, cfg_reachable = reached,
          cfg_postorder = post, cfg_reverse_postorder = rev post,
          cfg_exits = {b \<in> reached. set_at succs b = {}}\<rparr>)"

text \<open>\<open>NirCfg\<close> as a provider of the shared graph interface: a missing key has no neighbours.\<close>

definition nir_graph :: "nir_cfg \<Rightarrow> block_id dataflow_graph" where
  "nir_graph cfg =
     \<lparr>entry = cfg_entry cfg, nodes = cfg_block_ids cfg,
      predecessors = set_at (cfg_predecessors cfg), successors = set_at (cfg_successors cfg),
      reachable = cfg_reachable cfg, postorder = cfg_postorder cfg,
      reverse_postorder = cfg_reverse_postorder cfg\<rparr>"

lemma register_block_pair:
  "register_block (i, b) (ids, indices, preds, succs) =
     (insert (block_id b) ids, or_insert (block_id b) i indices,
      or_insert (block_id b) {} preds, or_insert (block_id b) {} succs)"
  by (simp add: register_block_def Let_def)

lemma connect_target_pair:
  "connect_target ids from t (preds, succs) =
     (if t \<in> ids then (insert_at t from preds, insert_at from t succs) else (preds, succs))"
  by (simp add: connect_target_def)

lemma fold_register_block:
  "fold register_block xs (ids, indices, preds, succs) = (ids', indices', preds', succs') \<Longrightarrow>
     ids' = ids \<union> (\<lambda>(_, block). block_id block) ` set xs \<and>
     set_at preds' = set_at preds \<and> set_at succs' = set_at succs"
proof (induction xs arbitrary: ids indices preds succs)
  case Nil
  then show ?case by simp
next
  case (Cons x xs)
  obtain i b where x: "x = (i, b)" by (cases x)
  from Cons.prems have
    "fold register_block xs (insert (block_id b) ids, or_insert (block_id b) i indices,
       or_insert (block_id b) {} preds, or_insert (block_id b) {} succs) =
     (ids', indices', preds', succs')"
    by (simp add: x register_block_pair)
  from Cons.IH [OF this] show ?case by (auto simp: x)
qed

text \<open>The edges the terminators of a block list name, restricted to known blocks.\<close>

definition block_edges :: "block_id set \<Rightarrow> nir_block list \<Rightarrow> (block_id \<times> block_id) set" where
  "block_edges ids blocks =
     {(block_id b, t) | b t. b \<in> set blocks \<and> t \<in> set (for_each_target (terminator b)) \<and> t \<in> ids}"

lemma fold_connect_target:
  "fold (connect_target ids from) ts (preds, succs) = (preds', succs') \<Longrightarrow>
     (m \<in> set_at preds' n \<longleftrightarrow> m \<in> set_at preds n \<or> m = from \<and> n \<in> set ts \<and> n \<in> ids) \<and>
     (n \<in> set_at succs' m \<longleftrightarrow> n \<in> set_at succs m \<or> m = from \<and> n \<in> set ts \<and> n \<in> ids)"
proof (induction ts arbitrary: preds succs)
  case Nil
  then show ?case by simp
next
  case (Cons t ts)
  show ?case
  proof (cases "t \<in> ids")
    case True
    with Cons.prems
    have "fold (connect_target ids from) ts (insert_at t from preds, insert_at from t succs) =
            (preds', succs')"
      by (simp add: connect_target_pair)
    from Cons.IH [OF this] True show ?thesis by auto
  next
    case False
    with Cons.prems have "fold (connect_target ids from) ts (preds, succs) = (preds', succs')"
      by (simp add: connect_target_pair)
    from Cons.IH [OF this] False show ?thesis by auto
  qed
qed

lemma fold_connect_block:
  "fold (connect_block ids) blocks (preds, succs) = (preds', succs') \<Longrightarrow>
     (m \<in> set_at preds' n \<longleftrightarrow> m \<in> set_at preds n \<or> (m, n) \<in> block_edges ids blocks) \<and>
     (n \<in> set_at succs' m \<longleftrightarrow> n \<in> set_at succs m \<or> (m, n) \<in> block_edges ids blocks)"
proof (induction blocks arbitrary: preds succs)
  case Nil
  then show ?case by (auto simp: block_edges_def)
next
  case (Cons b blocks)
  obtain p1 s1 where one: "connect_block ids b (preds, succs) = (p1, s1)" by fastforce
  from Cons.prems have "fold (connect_block ids) blocks (p1, s1) = (preds', succs')"
    by (simp add: one)
  from Cons.IH [OF this] fold_connect_target [OF one [unfolded connect_block_def], of m n]
  show ?case by (auto simp: block_edges_def)
qed

text \<open>All facts of the built graph over the blocks and their terminators.\<close>

lemma from_routine_facts:
  fixes blocks :: "nir_block list"
  defines "cfg \<equiv> from_routine blocks"
  defines "ids \<equiv> block_id ` set blocks"
  shows "cfg_entry cfg = (case blocks of [] \<Rightarrow> None | b # _ \<Rightarrow> Some (block_id b))"
    and "cfg_block_ids cfg = ids"
    and "m \<in> set_at (cfg_predecessors cfg) n \<longleftrightarrow> (m, n) \<in> block_edges ids blocks"
    and "n \<in> set_at (cfg_successors cfg) m \<longleftrightarrow> (m, n) \<in> block_edges ids blocks"
    and "cfg_reachable cfg =
           {n. \<exists>e. cfg_entry cfg = Some e \<and> (e, n) \<in> (block_edges ids blocks)\<^sup>*}"
    and "set (cfg_postorder cfg) = cfg_reachable cfg"
    and "distinct (cfg_postorder cfg)"
    and "cfg_reverse_postorder cfg = rev (cfg_postorder cfg)"
    and "cfg_exits cfg = {b \<in> cfg_reachable cfg. set_at (cfg_successors cfg) b = {}}"
    and "depth_first_order (block_edges ids blocks) {e. cfg_entry cfg = Some e} {} (cfg_postorder cfg)"
proof -
  let ?e = "case blocks of [] \<Rightarrow> None | b # _ \<Rightarrow> Some (block_id b)"
  obtain ids' indices preds0 succs0 where reg:
    "fold register_block (enumerate 0 blocks) ({}, fmempty, fmempty, fmempty) =
       (ids', indices, preds0, succs0)"
    by (metis prod_cases4)
  have "(\<lambda>(_, b). block_id b) ` set (enumerate 0 blocks) = block_id ` snd ` set (enumerate 0 blocks)"
    by (simp add: image_image case_prod_unfold)
  also have "snd ` set (enumerate 0 blocks) = set blocks"
    by (metis list.set_map map_snd_enumerate)
  finally have ids': "ids' = ids" and z: "set_at preds0 = (\<lambda>_. {})" "set_at succs0 = (\<lambda>_. {})"
    using fold_register_block [OF reg] by (auto simp: ids_def fun_eq_iff)
  obtain preds succs where conn: "fold (connect_block ids) blocks (preds0, succs0) = (preds, succs)"
    by fastforce
  obtain reached post where vis:
    "(case ?e of None \<Rightarrow> ({}, []) | Some e \<Rightarrow> visit_postorder succs [e] ({}, [])) = (reached, post)"
    by fastforce
  have cfg: "cfg =
      \<lparr>cfg_entry = ?e, cfg_block_ids = ids, cfg_block_indices = indices,
       cfg_predecessors = preds, cfg_successors = succs, cfg_reachable = reached,
       cfg_postorder = post, cfg_reverse_postorder = rev post,
       cfg_exits = {b \<in> reached. set_at succs b = {}}\<rparr>"
    using reg conn vis by (simp add: cfg_def from_routine_def ids')
  have adj: "m \<in> set_at preds n \<longleftrightarrow> (m, n) \<in> block_edges ids blocks"
    "n \<in> set_at succs m \<longleftrightarrow> (m, n) \<in> block_edges ids blocks" for m n
    using fold_connect_block [OF conn] by (simp_all add: z)
  have edges: "map_edges succs = block_edges ids blocks"
    by (auto simp: map_edges_def adj)
  have "finite (set_at succs k)" for k
    by (rule finite_subset [of _ ids]) (auto simp: adj block_edges_def ids_def)
  note fin = set_at_finite [OF this]
  have reach: "reached = {n. \<exists>e. ?e = Some e \<and> (e, n) \<in> (block_edges ids blocks)\<^sup>*} \<and>
    set post = reached \<and> distinct post \<and>
    depth_first_order (block_edges ids blocks) {e. ?e = Some e} {} post"
  proof (cases ?e)
    case None
    with vis show ?thesis by auto
  next
    case (Some e)
    with vis have "visit_postorder succs [e] ({}, []) = (reached, post)" by simp
    from visit_from_root [OF fin this] Some show ?thesis by (simp add: edges Image_def)
  qed
  show "cfg_entry cfg = ?e" "cfg_block_ids cfg = ids"
    "m \<in> set_at (cfg_predecessors cfg) n \<longleftrightarrow> (m, n) \<in> block_edges ids blocks"
    "n \<in> set_at (cfg_successors cfg) m \<longleftrightarrow> (m, n) \<in> block_edges ids blocks"
    "cfg_reachable cfg = {n. \<exists>e. cfg_entry cfg = Some e \<and> (e, n) \<in> (block_edges ids blocks)\<^sup>*}"
    "set (cfg_postorder cfg) = cfg_reachable cfg" "distinct (cfg_postorder cfg)"
    "cfg_reverse_postorder cfg = rev (cfg_postorder cfg)"
    "cfg_exits cfg = {b \<in> cfg_reachable cfg. set_at (cfg_successors cfg) b = {}}"
    "depth_first_order (block_edges ids blocks) {e. cfg_entry cfg = Some e} {} (cfg_postorder cfg)"
    by (simp_all add: cfg adj reach)
qed

interpretation nir: flow_graph "nir_graph (from_routine blocks)"
  for blocks :: "nir_block list"
proof
  let ?G = "nir_graph (from_routine blocks)"
  have edges: "edges ?G = block_edges (block_id ` set blocks) blocks"
    by (auto simp: edges_def nir_graph_def from_routine_facts(4))
  show "finite (nodes ?G)"
    by (simp add: nir_graph_def from_routine_facts(2))
  show "entry ?G = Some e \<Longrightarrow> e \<in> nodes ?G" for e
    by (auto simp: nir_graph_def from_routine_facts(1,2) split: list.splits)
  show "successors ?G n \<subseteq> nodes ?G" "predecessors ?G n \<subseteq> nodes ?G"
    "m \<in> predecessors ?G n \<longleftrightarrow> n \<in> successors ?G m" for m n
    by (auto simp: nir_graph_def from_routine_facts(2,3,4) block_edges_def)
  show "n \<in> reachable ?G \<longleftrightarrow> (\<exists>e. entry ?G = Some e \<and> (e, n) \<in> (edges ?G)\<^sup>*)" for n
    unfolding edges by (simp add: nir_graph_def from_routine_facts(5))
  show "set (postorder ?G) = reachable ?G" "distinct (postorder ?G)"
    "reverse_postorder ?G = rev (postorder ?G)"
    by (simp_all add: nir_graph_def from_routine_facts(6,7,8))
qed

end
