(* ===== verification/Nir_Use_Def.thy ===== *)
theory Nir_Use_Def
  imports Nir_Cfg
begin

text \<open>
  Definition and use sites of the temporaries of a routine (\<open>src/src/nir/analysis/use_def.rs\<close>). The
  two tables are finite maps from temporaries to the sites in the order the routine is walked.
  Lemmas: what a table holds after the whole walk, in terms of the blocks alone.
\<close>

record def_site =
  def_block :: block_id
  def_op_index :: "nat option"

datatype use_kind =
  LoadPlace | AddressPlace | StorePlace | StoreSource | UnarySource | CastSource
| BinaryLeft | BinaryRight | CompareLeft | CompareRight | IndirectCallee
| CallArgument nat | BranchCondition | EdgeArgument block_id nat | ReturnValue

datatype use_site = OpSite block_id nat use_kind | TerminatorSite block_id use_kind

fun use_block :: "use_site \<Rightarrow> block_id" where
  "use_block (OpSite block _ _) = block"
| "use_block (TerminatorSite block _) = block"

fun use_op_index :: "use_site \<Rightarrow> nat option" where
  "use_op_index (OpSite _ op_index _) = Some op_index"
| "use_op_index (TerminatorSite _ _) = None"

section \<open>Tables of sites\<close>

definition list_at :: "('k, 'a list) fmap \<Rightarrow> 'k \<Rightarrow> 'a list" where
  "list_at m k = (case fmlookup m k of None \<Rightarrow> [] | Some xs \<Rightarrow> xs)"

definition push_at :: "'k \<Rightarrow> 'a \<Rightarrow> ('k, 'a list) fmap \<Rightarrow> ('k, 'a list) fmap" where
  "push_at k a m = fmupd k (list_at m k @ [a]) m"

type_synonym use_table = "(temp_id, use_site list) fmap"

record nir_use_def =
  definitions :: "(temp_id, def_site list) fmap"
  uses :: use_table

section \<open>Recording uses\<close>

fun record_place :: "nir_place \<Rightarrow> use_site \<Rightarrow> use_table \<Rightarrow> use_table"
and record_value :: "nir_value \<Rightarrow> use_site \<Rightarrow> use_table \<Rightarrow> use_table" where
  "record_place (NirPlace (Deref addr) _) site table = record_value addr site table"
| "record_place (NirPlace (Index base_addr index _ _) _) site table =
     record_value index site (record_value base_addr site table)"
| "record_place (NirPlace (Field base _ _) _) site table = record_place base site table"
| "record_place (NirPlace (Param _ _) _) site table = table"
| "record_place (NirPlace (Local _ _) _) site table = table"
| "record_place (NirPlace (Global _ _) _) site table = table"
| "record_place (NirPlace (Absolute _) _) site table = table"
| "record_value (Aggregate place) site table = record_place place site table"
| "record_value (Temp ident _) site table = push_at ident site table"
| "record_value (IntegerConst _ _) site table = table"
| "record_value (Null _) site table = table"
| "record_value (AddressConst _ _) site table = table"
| "record_value (StaticAddr _ _ _) site table = table"
| "record_value (ParamValue _) site table = table"
| "record_value (GlobalAddr _) site table = table"
| "record_value (RoutineAddr _ _ _) site table = table"

fun record_real_source :: "nir_real_source \<Rightarrow> use_site \<Rightarrow> use_table \<Rightarrow> use_table" where
  "record_real_source (RealPlace place) site table = record_place place site table"
| "record_real_source (RealStatic _ _) site table = table"

fun op_definition :: "nir_op \<Rightarrow> temp_id option" where
  "op_definition (Load dest _ _) = Some dest"
| "op_definition (VolatileLoad dest _ _) = Some dest"
| "op_definition (AddrOf dest _ _) = Some dest"
| "op_definition (Unary dest _ _ _) = Some dest"
| "op_definition (Cast dest _ _ _ _) = Some dest"
| "op_definition (PointerOffset dest _ _ _ _) = Some dest"
| "op_definition (Binary dest _ _ _ _) = Some dest"
| "op_definition (Compare dest _ _ _ _ _) = Some dest"
| "op_definition (RealOp (RealCompare _ dest _ _ _)) = Some dest"
| "op_definition (RealOp (RealToInteger dest _ _)) = Some dest"
| "op_definition (Call _ _ (Some r) _ _ _) = Some (result_dest r)"
| "op_definition _ = None"

fun record_arguments :: "(nat \<Rightarrow> use_site) \<Rightarrow> nat \<Rightarrow> nir_value list \<Rightarrow> use_table \<Rightarrow> use_table" where
  "record_arguments site index [] table = table"
| "record_arguments site index (v # vs) table =
     record_arguments site (Suc index) vs (record_value v (site index) table)"

fun record_real_uses :: "(use_kind \<Rightarrow> use_site) \<Rightarrow> nir_real_op \<Rightarrow> use_table \<Rightarrow> use_table" where
  "record_real_uses site (RealCopy destination source) table =
     record_real_source source (site LoadPlace) (record_place destination (site StorePlace) table)"
| "record_real_uses site (RealUnary _ destination operand) table =
     record_real_source operand (site LoadPlace) (record_place destination (site StorePlace) table)"
| "record_real_uses site (RealBinary _ destination left right) table =
     record_real_source right (site LoadPlace)
       (record_real_source left (site LoadPlace) (record_place destination (site StorePlace) table))"
| "record_real_uses site (RealCompare _ _ _ left right) table =
     record_real_source right (site LoadPlace) (record_real_source left (site LoadPlace) table)"
| "record_real_uses site (IntegerToReal destination source _) table =
     record_value source (site CastSource) (record_place destination (site StorePlace) table)"
| "record_real_uses site (RealToInteger _ _ source) table =
     record_place source (site CastSource) table"

fun record_op_uses :: "(use_kind \<Rightarrow> use_site) \<Rightarrow> nir_op \<Rightarrow> use_table \<Rightarrow> use_table" where
  "record_op_uses site (Load _ _ place) table = record_place place (site LoadPlace) table"
| "record_op_uses site (VolatileLoad _ _ place) table = record_place place (site LoadPlace) table"
| "record_op_uses site (AddrOf _ _ place) table = record_place place (site AddressPlace) table"
| "record_op_uses site (Store place src _) table =
     record_value src (site StoreSource) (record_place place (site StorePlace) table)"
| "record_op_uses site (VolatileStore place src _) table =
     record_value src (site StoreSource) (record_place place (site StorePlace) table)"
| "record_op_uses site (CopyBytes destination source _ _ _) table =
     record_place source (site LoadPlace) (record_place destination (site StorePlace) table)"
| "record_op_uses site (Unary _ _ _ src) table = record_value src (site UnarySource) table"
| "record_op_uses site (Cast _ src _ _ _) table = record_value src (site CastSource) table"
| "record_op_uses site (Binary _ _ _ left right) table =
     record_value right (site BinaryRight) (record_value left (site BinaryLeft) table)"
| "record_op_uses site (PointerOffset _ _ base offset _) table =
     record_value offset (site BinaryRight) (record_value base (site BinaryLeft) table)"
| "record_op_uses site (Compare _ _ _ _ left right) table =
     record_value right (site CompareRight) (record_value left (site CompareLeft) table)"
| "record_op_uses site (RealOp real) table = record_real_uses site real table"
| "record_op_uses site (Call callee args _ aggregate_result _ _) table =
     (let table1 = (case aggregate_result of
            None \<Rightarrow> table | Some place \<Rightarrow> record_place place (site StorePlace) table);
          table2 = (case callee of
            Indirect t _ \<Rightarrow> record_value t (site IndirectCallee) table1 | _ \<Rightarrow> table1)
      in record_arguments (\<lambda>argument. site (CallArgument argument)) 0 args table2)"
| "record_op_uses site (ForeignCode _ _) table = table"
| "record_op_uses site (Unsupported _) table = table"

definition record_edge_uses :: "block_id \<Rightarrow> nir_edge \<Rightarrow> use_table \<Rightarrow> use_table" where
  "record_edge_uses block edge table =
     record_arguments (\<lambda>index. TerminatorSite block (EdgeArgument (edge_target edge) index)) 0
       (edge_args edge) table"

fun record_terminator_uses :: "block_id \<Rightarrow> nir_terminator \<Rightarrow> use_table \<Rightarrow> use_table" where
  "record_terminator_uses block (Goto edge) table = record_edge_uses block edge table"
| "record_terminator_uses block (Branch condition then_edge else_edge) table =
     record_edge_uses block else_edge
       (record_edge_uses block then_edge
         (record_value condition (TerminatorSite block BranchCondition) table))"
| "record_terminator_uses block (Return (Some v)) table =
     record_value v (TerminatorSite block ReturnValue) table"
| "record_terminator_uses block (Return None) table = table"
| "record_terminator_uses block Open table = table"
| "record_terminator_uses block Fallthrough table = table"
| "record_terminator_uses block Exit table = table"

section \<open>The walk of a routine\<close>

definition record_param :: "block_id \<Rightarrow> nir_block_param \<Rightarrow> nir_use_def \<Rightarrow> nir_use_def" where
  "record_param block param facts =
     facts\<lparr>definitions := push_at (param_dest param) \<lparr>def_block = block, def_op_index = None\<rparr>
       (definitions facts)\<rparr>"

definition record_op :: "block_id \<Rightarrow> nat \<times> nir_op \<Rightarrow> nir_use_def \<Rightarrow> nir_use_def" where
  "record_op block indexed facts =
     (let (op_index, oper) = indexed;
          defs = (case op_definition oper of
            None \<Rightarrow> definitions facts
          | Some temp \<Rightarrow>
              push_at temp \<lparr>def_block = block, def_op_index = Some op_index\<rparr> (definitions facts))
      in facts\<lparr>definitions := defs, uses := record_op_uses (OpSite block op_index) oper (uses facts)\<rparr>)"

definition record_block :: "nir_block \<Rightarrow> nir_use_def \<Rightarrow> nir_use_def" where
  "record_block block facts =
     (let facts1 = fold (record_param (block_id block)) (block_params block) facts;
          facts2 = fold (record_op (block_id block)) (enumerate 0 (ops block)) facts1
      in facts2\<lparr>uses := record_terminator_uses (block_id block) (terminator block) (uses facts2)\<rparr>)"

definition use_def_from_routine :: "nir_block list \<Rightarrow> nir_use_def" where
  "use_def_from_routine blocks =
     fold record_block blocks \<lparr>definitions = fmempty, uses = fmempty\<rparr>"

definition temp_definitions :: "nir_use_def \<Rightarrow> temp_id \<Rightarrow> def_site list" where
  "temp_definitions facts temp = list_at (definitions facts) temp"

definition unique_definition :: "nir_use_def \<Rightarrow> temp_id \<Rightarrow> def_site option" where
  "unique_definition facts temp =
     (case temp_definitions facts temp of [d] \<Rightarrow> Some d | _ \<Rightarrow> None)"

definition temp_uses :: "nir_use_def \<Rightarrow> temp_id \<Rightarrow> use_site list" where
  "temp_uses facts temp = list_at (uses facts) temp"

definition use_count :: "nir_use_def \<Rightarrow> temp_id \<Rightarrow> nat" where
  "use_count facts temp = length (temp_uses facts temp)"

definition has_use_at :: "nir_use_def \<Rightarrow> temp_id \<Rightarrow> block_id \<Rightarrow> nat option \<Rightarrow> bool" where
  "has_use_at facts temp block op_index =
     list_ex (\<lambda>site. use_block site = block \<and> use_op_index site = op_index) (temp_uses facts temp)"

section \<open>What the tables hold\<close>

text \<open>The temporaries an operand, an operation and a terminator read, by structure alone.\<close>

fun place_temps :: "nir_place \<Rightarrow> temp_id set"
and value_temps :: "nir_value \<Rightarrow> temp_id set" where
  "place_temps (NirPlace (Deref addr) _) = value_temps addr"
| "place_temps (NirPlace (Index base_addr index _ _) _) = value_temps base_addr \<union> value_temps index"
| "place_temps (NirPlace (Field base _ _) _) = place_temps base"
| "place_temps (NirPlace (Param _ _) _) = {}"
| "place_temps (NirPlace (Local _ _) _) = {}"
| "place_temps (NirPlace (Global _ _) _) = {}"
| "place_temps (NirPlace (Absolute _) _) = {}"
| "value_temps (Aggregate place) = place_temps place"
| "value_temps (Temp ident _) = {ident}"
| "value_temps (IntegerConst _ _) = {}"
| "value_temps (Null _) = {}"
| "value_temps (AddressConst _ _) = {}"
| "value_temps (StaticAddr _ _ _) = {}"
| "value_temps (ParamValue _) = {}"
| "value_temps (GlobalAddr _) = {}"
| "value_temps (RoutineAddr _ _ _) = {}"

fun real_source_temps :: "nir_real_source \<Rightarrow> temp_id set" where
  "real_source_temps (RealPlace place) = place_temps place"
| "real_source_temps (RealStatic _ _) = {}"

fun real_operands :: "nir_real_op \<Rightarrow> temp_id set" where
  "real_operands (RealCopy d s) = place_temps d \<union> real_source_temps s"
| "real_operands (RealUnary _ d s) = place_temps d \<union> real_source_temps s"
| "real_operands (RealBinary _ d l r) = place_temps d \<union> real_source_temps l \<union> real_source_temps r"
| "real_operands (RealCompare _ _ _ l r) = real_source_temps l \<union> real_source_temps r"
| "real_operands (IntegerToReal d s _) = place_temps d \<union> value_temps s"
| "real_operands (RealToInteger _ _ s) = place_temps s"

fun op_operands :: "nir_op \<Rightarrow> temp_id set" where
  "op_operands (Load _ _ p) = place_temps p"
| "op_operands (VolatileLoad _ _ p) = place_temps p"
| "op_operands (AddrOf _ _ p) = place_temps p"
| "op_operands (Store p s _) = place_temps p \<union> value_temps s"
| "op_operands (VolatileStore p s _) = place_temps p \<union> value_temps s"
| "op_operands (CopyBytes d s _ _ _) = place_temps d \<union> place_temps s"
| "op_operands (Unary _ _ _ s) = value_temps s"
| "op_operands (Cast _ s _ _ _) = value_temps s"
| "op_operands (Binary _ _ _ l r) = value_temps l \<union> value_temps r"
| "op_operands (PointerOffset _ _ b off _) = value_temps b \<union> value_temps off"
| "op_operands (Compare _ _ _ _ l r) = value_temps l \<union> value_temps r"
| "op_operands (RealOp r) = real_operands r"
| "op_operands (Call c args _ agg _ _) =
     (case agg of None \<Rightarrow> {} | Some p \<Rightarrow> place_temps p) \<union>
     (case c of Indirect t _ \<Rightarrow> value_temps t | _ \<Rightarrow> {}) \<union> \<Union> (value_temps ` set args)"
| "op_operands (ForeignCode _ _) = {}"
| "op_operands (Unsupported _) = {}"

fun terminator_operands :: "nir_terminator \<Rightarrow> temp_id set" where
  "terminator_operands (Goto e) = \<Union> (value_temps ` set (edge_args e))"
| "terminator_operands (Branch c t e) =
     value_temps c \<union> \<Union> (value_temps ` set (edge_args t)) \<union> \<Union> (value_temps ` set (edge_args e))"
| "terminator_operands (Return (Some v)) = value_temps v"
| "terminator_operands (Return None) = {}"
| "terminator_operands Open = {}"
| "terminator_operands Fallthrough = {}"
| "terminator_operands Exit = {}"

text \<open>A site without its operand kind: the block and the operation index.\<close>

definition location :: "use_site \<Rightarrow> block_id \<times> nat option" where
  "location s = (use_block s, use_op_index s)"

definition locations :: "use_table \<Rightarrow> temp_id \<Rightarrow> (block_id \<times> nat option) set" where
  "locations table t = location ` set (list_at table t)"

definition def_locations :: "(temp_id, def_site list) fmap \<Rightarrow> temp_id \<Rightarrow> (block_id \<times> nat option) set" where
  "def_locations table t = (\<lambda>d. (def_block d, def_op_index d)) ` set (list_at table t)"

lemma list_at_push_at [simp]:
  "list_at (push_at k a m) k' = (if k' = k then list_at m k @ [a] else list_at m k')"
  by (simp add: list_at_def push_at_def)

lemma locations_push [simp]:
  "locations (push_at k s m) t = locations m t \<union> (if t = k then {location s} else {})"
  by (auto simp: locations_def)

lemma def_locations_push [simp]:
  "def_locations (push_at k d m) t =
     def_locations m t \<union> (if t = k then {(def_block d, def_op_index d)} else {})"
  by (auto simp: def_locations_def)

lemma locations_record [simp]:
  "locations (record_place p site table) t =
     locations table t \<union> (if t \<in> place_temps p then {location site} else {})"
  "locations (record_value v site table) t =
     locations table t \<union> (if t \<in> value_temps v then {location site} else {})"
  by (induction p site table and v site table rule: record_place_record_value.induct) auto

lemma locations_real_source [simp]:
  "locations (record_real_source s site table) t =
     locations table t \<union> (if t \<in> real_source_temps s then {location site} else {})"
  by (cases s) simp_all

lemma locations_arguments:
  assumes "\<And>k. location (site k) = L"
  shows "locations (record_arguments site i vs table) t =
     locations table t \<union> (if t \<in> \<Union> (value_temps ` set vs) then {L} else {})"
  by (induction vs arbitrary: i table) (auto simp: assms)

lemma locations_op_uses:
  assumes L: "\<And>k. location (site k) = L"
  shows "locations (record_op_uses site oper table) t =
     locations table t \<union> (if t \<in> op_operands oper then {L} else {})"
proof (cases oper)
  case (RealOp r)
  then show ?thesis by (cases r) (auto simp: L)
next
  case (Call c args res agg sig eff)
  have "locations (record_op_uses site oper table) t =
      locations (case c of
            Indirect t _ \<Rightarrow> record_value t (site IndirectCallee)
              (case agg of None \<Rightarrow> table | Some place \<Rightarrow> record_place place (site StorePlace) table)
          | _ \<Rightarrow> (case agg of None \<Rightarrow> table | Some place \<Rightarrow> record_place place (site StorePlace) table)) t
      \<union> (if t \<in> \<Union> (value_temps ` set args) then {L} else {})"
    unfolding Call record_op_uses.simps Let_def by (rule locations_arguments) (rule L)
  then show ?thesis by (auto simp: Call L split: nir_callee.split option.split)
qed (auto simp: L)

lemma locations_edge [simp]:
  "locations (record_edge_uses b e table) t =
     locations table t \<union> (if t \<in> \<Union> (value_temps ` set (edge_args e)) then {(b, None)} else {})"
  unfolding record_edge_uses_def by (rule locations_arguments) (simp add: location_def)

lemma locations_terminator [simp]:
  "locations (record_terminator_uses b trm table) t =
     locations table t \<union> (if t \<in> terminator_operands trm then {(b, None)} else {})"
  by (induction b trm table rule: record_terminator_uses.induct) (auto simp: location_def)

text \<open>The locations one block contributes to a temporary.\<close>

definition block_uses :: "nir_block \<Rightarrow> temp_id \<Rightarrow> (block_id \<times> nat option) set" where
  "block_uses b t =
     {(block_id b, Some i) | i. i < length (ops b) \<and> t \<in> op_operands (ops b ! i)} \<union>
     (if t \<in> terminator_operands (terminator b) then {(block_id b, None)} else {})"

definition block_defs :: "nir_block \<Rightarrow> temp_id \<Rightarrow> (block_id \<times> nat option) set" where
  "block_defs b t =
     {(block_id b, Some i) | i. i < length (ops b) \<and> op_definition (ops b ! i) = Some t} \<union>
     (if t \<in> param_dest ` set (block_params b) then {(block_id b, None)} else {})"

lemma fold_record_param:
  "uses (fold (record_param b) ps facts) = uses facts"
  "def_locations (definitions (fold (record_param b) ps facts)) t =
     def_locations (definitions facts) t \<union> (if t \<in> param_dest ` set ps then {(b, None)} else {})"
  by (induction ps arbitrary: facts) (auto simp: record_param_def)

lemma record_op_effect:
  "locations (uses (record_op b (k, x) facts)) t =
     locations (uses facts) t \<union> (if t \<in> op_operands x then {(b, Some k)} else {})"
  "def_locations (definitions (record_op b (k, x) facts)) t =
     def_locations (definitions facts) t \<union> (if op_definition x = Some t then {(b, Some k)} else {})"
proof -
  have "locations (record_op_uses (OpSite b k) x (uses facts)) t =
      locations (uses facts) t \<union> (if t \<in> op_operands x then {(b, Some k)} else {})"
    by (rule locations_op_uses) (simp add: location_def)
  then show "locations (uses (record_op b (k, x) facts)) t =
     locations (uses facts) t \<union> (if t \<in> op_operands x then {(b, Some k)} else {})"
    by (simp add: record_op_def)
  show "def_locations (definitions (record_op b (k, x) facts)) t =
     def_locations (definitions facts) t \<union> (if op_definition x = Some t then {(b, Some k)} else {})"
    by (auto simp: record_op_def split: option.split)
qed

lemma indexed_Cons:
  "{(b, Some (k + i)) | i. i < length (x # xs) \<and> P ((x # xs) ! i)} =
     (if P x then {(b, Some k)} else {}) \<union> {(b, Some (Suc k + i)) | i. i < length xs \<and> P (xs ! i)}"
  by (auto simp: less_Suc_eq_0_disj)

lemma fold_record_op:
  "locations (uses (fold (record_op b) (enumerate k os) facts)) t =
     locations (uses facts) t \<union> {(b, Some (k + i)) | i. i < length os \<and> t \<in> op_operands (os ! i)} \<and>
   def_locations (definitions (fold (record_op b) (enumerate k os) facts)) t =
     def_locations (definitions facts) t \<union>
       {(b, Some (k + i)) | i. i < length os \<and> op_definition (os ! i) = Some t}"
proof (induction os arbitrary: k facts)
  case Nil
  then show ?case by simp
next
  case (Cons x xs)
  show ?case
    unfolding indexed_Cons [where P = "\<lambda>oper. t \<in> op_operands oper"]
      indexed_Cons [where P = "\<lambda>oper. op_definition oper = Some t"]
    by (simp only: enumerate_simps fold_simps Cons.IH [of "Suc k" "record_op b (k, x) facts"]
        record_op_effect Un_assoc simp_thms)
qed

lemma record_block_effect:
  "locations (uses (record_block b facts)) t = locations (uses facts) t \<union> block_uses b t"
  "def_locations (definitions (record_block b facts)) t =
     def_locations (definitions facts) t \<union> block_defs b t"
  using fold_record_op [of "block_id b" 0 "ops b" _ t]
  by (simp_all add: record_block_def Let_def fold_record_param block_uses_def block_defs_def Un_ac)

lemma use_def_tables:
  "locations (uses (use_def_from_routine blocks)) t = (\<Union>b \<in> set blocks. block_uses b t)"
  "def_locations (definitions (use_def_from_routine blocks)) t = (\<Union>b \<in> set blocks. block_defs b t)"
proof -
  have "locations (uses (fold record_block blocks facts)) t =
        locations (uses facts) t \<union> (\<Union>b \<in> set blocks. block_uses b t) \<and>
      def_locations (definitions (fold record_block blocks facts)) t =
        def_locations (definitions facts) t \<union> (\<Union>b \<in> set blocks. block_defs b t)" for facts
    by (induction blocks arbitrary: facts) (simp_all add: record_block_effect Un_ac)
  from this [of "\<lparr>definitions = fmempty, uses = fmempty\<rparr>"]
  show "locations (uses (use_def_from_routine blocks)) t = (\<Union>b \<in> set blocks. block_uses b t)"
    "def_locations (definitions (use_def_from_routine blocks)) t = (\<Union>b \<in> set blocks. block_defs b t)"
    by (simp_all add: use_def_from_routine_def locations_def def_locations_def list_at_def)
qed

text \<open>C7: after the walk of a routine the use table answers exactly the program's uses: it reports a
  use of a temporary at an operation index of a block when the operation with that index of a block
  with that number reads the temporary, and at no index when the block's terminator does.\<close>

theorem has_use_at_iff:
  "has_use_at (use_def_from_routine blocks) t blk idx \<longleftrightarrow>
     (\<exists>b \<in> set blocks. block_id b = blk \<and>
        (case idx of
           Some i \<Rightarrow> i < length (ops b) \<and> t \<in> op_operands (ops b ! i)
         | None \<Rightarrow> t \<in> terminator_operands (terminator b)))"
proof -
  have "has_use_at (use_def_from_routine blocks) t blk idx \<longleftrightarrow>
      (blk, idx) \<in> locations (uses (use_def_from_routine blocks)) t"
    by (auto simp: has_use_at_def temp_uses_def locations_def location_def list_ex_iff)
  then show ?thesis
    by (auto simp: use_def_tables block_uses_def split: option.split)
qed

end
