(* ===== verification/Nir_Liveness.thy ===== *)
theory Nir_Liveness
  imports Nir_Use_Def
begin

text \<open>
  Liveness of temporaries (\<open>src/src/nir/analysis/liveness.rs\<close>): the backward set problem built from the
  use and definition sites, and its solution by the shared solver.
  Lemmas: the problem is monotone of bounded height (the interpretation of \<open>monotone_problem\<close>), so the
  solver returns the least solution, and that solution is liveness: a temporary is live on entry to a
  reachable block exactly when some path from the block reaches a use of it before a definition.
\<close>

record liveness_tables =
  block_definitions :: "(block_id, temp_id set) fmap"
  upward_uses :: "(block_id, temp_id set) fmap"

definition definition_precedes_use :: "def_site \<Rightarrow> use_site \<Rightarrow> bool" where
  "definition_precedes_use d u =
     (if def_block d \<noteq> use_block u then False
      else case (def_op_index d, use_op_index u) of
        (None, _) \<Rightarrow> True
      | (Some i, Some j) \<Rightarrow> i < j
      | (Some _, None) \<Rightarrow> True)"

definition add_definitions ::
  "nir_cfg \<Rightarrow> temp_id \<times> def_site list \<Rightarrow> (block_id, temp_id set) fmap \<Rightarrow> (block_id, temp_id set) fmap"
where
  "add_definitions cfg table_entry =
     (let (temp, sites) = table_entry
      in fold (\<lambda>site m. if def_block site \<in> cfg_reachable cfg
                        then insert_at (def_block site) temp m else m) sites)"

definition add_upward_uses ::
  "nir_cfg \<Rightarrow> nir_use_def \<Rightarrow> temp_id \<times> use_site list \<Rightarrow> (block_id, temp_id set) fmap
    \<Rightarrow> (block_id, temp_id set) fmap"
where
  "add_upward_uses cfg use_def table_entry =
     (let (temp, sites) = table_entry
      in fold (\<lambda>site m.
           if use_block site \<notin> cfg_reachable cfg then m
           else if \<not> list_ex (\<lambda>d. definition_precedes_use d site) (temp_definitions use_def temp)
           then insert_at (use_block site) temp m
           else m) sites)"

text \<open>The entries of a map in key order.\<close>

definition sorted_entries :: "('k::linorder, 'a list) fmap \<Rightarrow> ('k \<times> 'a list) list" where
  "sorted_entries m = map (\<lambda>k. (k, list_at m k)) (sorted_list_of_fset (fmdom m))"

definition liveness_problem_new :: "nir_cfg \<Rightarrow> nir_use_def \<Rightarrow> liveness_tables" where
  "liveness_problem_new cfg use_def =
     (let empty_sets = fold (\<lambda>b. fmupd b {}) (sorted_list_of_set (cfg_reachable cfg)) fmempty
      in \<lparr>block_definitions =
            fold (add_definitions cfg) (sorted_entries (definitions use_def)) empty_sets,
          upward_uses =
            fold (add_upward_uses cfg use_def) (sorted_entries (uses use_def)) empty_sets\<rparr>)"

definition liveness_transfer :: "liveness_tables \<Rightarrow> block_id \<Rightarrow> temp_id set \<Rightarrow> temp_id set" where
  "liveness_transfer tables block live_out =
     (let live_in = (case fmlookup (block_definitions tables) block of
            None \<Rightarrow> live_out | Some defs \<Rightarrow> {t \<in> live_out. t \<notin> defs})
      in case fmlookup (upward_uses tables) block of
           None \<Rightarrow> live_in | Some us \<Rightarrow> live_in \<union> us)"

definition liveness_problem :: "liveness_tables \<Rightarrow> (block_id, temp_id set) dataflow_problem" where
  "liveness_problem tables =
     \<lparr>direction = Backward, bottom = {}, boundary = (\<lambda>_. None), join = (\<union>),
      transfer = liveness_transfer tables,
      forward_edge_is_executable = any_edge_executable,
      transfer_forward_edge = copy_edge_state\<rparr>"

definition analyze_liveness ::
  "nir_cfg \<Rightarrow> nir_use_def \<Rightarrow> (block_id, temp_id set) dataflow_result option" where
  "analyze_liveness cfg use_def =
     solve_dataflow (nir_graph cfg) (liveness_problem (liveness_problem_new cfg use_def))"

definition live_in :: "(block_id, temp_id set) dataflow_result \<Rightarrow> block_id \<Rightarrow> temp_id set" where
  "live_in r block = (case in_states r block of None \<Rightarrow> {} | Some s \<Rightarrow> s)"

definition live_out :: "(block_id, temp_id set) dataflow_result \<Rightarrow> block_id \<Rightarrow> temp_id set" where
  "live_out r block = (case out_states r block of None \<Rightarrow> {} | Some s \<Rightarrow> s)"

section \<open>The tables\<close>

lemma set_at_fold_insert:
  "set_at (fold (\<lambda>s m. if P s then insert_at (key s) a m else m) ss m) b =
     set_at m b \<union> (if \<exists>s \<in> set ss. P s \<and> key s = b then {a} else {})"
  by (induction ss arbitrary: m) auto

lemma set_at_add_definitions:
  "set_at (add_definitions cfg (t, sites) m) b =
     set_at m b \<union> (if b \<in> cfg_reachable cfg \<and> b \<in> def_block ` set sites then {t} else {})"
  by (auto simp: add_definitions_def set_at_fold_insert)

lemma set_at_add_upward_uses:
  "set_at (add_upward_uses cfg ud (t, sites) m) b =
     set_at m b \<union> (if b \<in> cfg_reachable cfg \<and>
       (\<exists>s \<in> set sites. use_block s = b \<and>
          (\<forall>d \<in> set (temp_definitions ud t). \<not> definition_precedes_use d s)) then {t} else {})"
proof -
  let ?P = "\<lambda>s. use_block s \<in> cfg_reachable cfg \<and>
      \<not> list_ex (\<lambda>d. definition_precedes_use d s) (temp_definitions ud t)"
  have "add_upward_uses cfg ud (t, sites) = fold (\<lambda>s m. if ?P s then insert_at (use_block s) t m else m) sites"
    unfolding add_upward_uses_def by (simp add: Let_def) (rule arg_cong [where f = "\<lambda>f. fold f sites"], auto simp: fun_eq_iff)
  then show ?thesis by (auto simp: set_at_fold_insert list_ex_iff)
qed

lemma set_at_fold_sets:
  "set_at (fold (\<lambda>b. fmupd b {}) bs m) b' = (if b' \<in> set bs then {} else set_at m b')"
  by (induction bs arbitrary: m) (auto simp: set_at_def)

lemma set_at_empty_sets [simp]: "set_at (fold (\<lambda>b. fmupd b {}) bs fmempty) b' = {}"
  by (simp add: set_at_fold_sets)

lemma set_sorted_entries:
  "(t, sites) \<in> set (sorted_entries m) \<longleftrightarrow> t \<in> fset (fmdom m) \<and> sites = list_at m t"
  by (auto simp: sorted_entries_def)

lemma list_at_dom: "s \<in> set (list_at m t) \<Longrightarrow> t \<in> fset (fmdom m)"
  by (auto simp: list_at_def split: option.splits) (metis fmdomI)

text \<open>The order of a definition and a use inside one block.\<close>

fun index_precedes :: "nat option \<Rightarrow> nat option \<Rightarrow> bool" where
  "index_precedes None _ = True"
| "index_precedes (Some i) (Some j) = (i < j)"
| "index_precedes (Some _) None = True"

lemma definition_precedes_use_eq:
  "definition_precedes_use d u \<longleftrightarrow>
     def_block d = use_block u \<and> index_precedes (def_op_index d) (use_op_index u)"
  by (cases "def_op_index d"; cases "use_op_index u") (simp_all add: definition_precedes_use_def)

definition upward_exposed :: "nir_use_def \<Rightarrow> block_id \<Rightarrow> temp_id \<Rightarrow> bool" where
  "upward_exposed ud b t \<longleftrightarrow>
     (\<exists>idx. (b, idx) \<in> locations (uses ud) t \<and>
        (\<forall>d. (b, d) \<in> def_locations (definitions ud) t \<longrightarrow> \<not> index_precedes d idx))"

lemma liveness_definitions_iff:
  "t \<in> set_at (block_definitions (liveness_problem_new cfg ud)) b \<longleftrightarrow>
     b \<in> cfg_reachable cfg \<and> (\<exists>idx. (b, idx) \<in> def_locations (definitions ud) t)"
proof -
  have "set_at (fold (add_definitions cfg) es m) b =
      set_at m b \<union> {t. \<exists>sites. (t, sites) \<in> set es \<and> b \<in> cfg_reachable cfg \<and> b \<in> def_block ` set sites}"
    for es m
  proof (induction es arbitrary: m)
    case (Cons e es)
    then show ?case by (cases e) (auto simp: set_at_add_definitions)
  qed simp
  then show ?thesis
    by (auto simp: liveness_problem_new_def Let_def set_sorted_entries def_locations_def
        intro: list_at_dom)
qed

lemma liveness_upward_iff:
  "t \<in> set_at (upward_uses (liveness_problem_new cfg ud)) b \<longleftrightarrow>
     b \<in> cfg_reachable cfg \<and> upward_exposed ud b t"
proof -
  let ?Q = "\<lambda>t sites. \<exists>s \<in> set sites. use_block s = b \<and>
      (\<forall>d \<in> set (temp_definitions ud t). \<not> definition_precedes_use d s)"
  have fold_eq: "set_at (fold (add_upward_uses cfg ud) es m) b =
      set_at m b \<union> {t. \<exists>sites. (t, sites) \<in> set es \<and> b \<in> cfg_reachable cfg \<and> ?Q t sites}"
    for es m
  proof (induction es arbitrary: m)
    case (Cons e es)
    then show ?case by (cases e) (auto simp: set_at_add_upward_uses)
  qed simp
  have "?Q t (list_at (uses ud) t) \<longleftrightarrow> upward_exposed ud b t"
  proof
    assume "?Q t (list_at (uses ud) t)"
    then obtain s where "s \<in> set (list_at (uses ud) t)" "use_block s = b"
      "\<forall>d \<in> set (temp_definitions ud t). \<not> definition_precedes_use d s" by blast
    then show "upward_exposed ud b t"
      unfolding upward_exposed_def locations_def location_def def_locations_def
      by (intro exI [of _ "use_op_index s"])
        (auto simp: temp_definitions_def definition_precedes_use_eq)
  next
    assume "upward_exposed ud b t"
    then obtain s where s: "s \<in> set (list_at (uses ud) t)" "use_block s = b"
      and free: "\<forall>d. (b, d) \<in> def_locations (definitions ud) t \<longrightarrow>
        \<not> index_precedes d (use_op_index s)"
      by (auto simp: upward_exposed_def locations_def location_def)
    have "\<not> definition_precedes_use d s" if "d \<in> set (temp_definitions ud t)" for d
    proof -
      have "(def_block d, def_op_index d) \<in> def_locations (definitions ud) t"
        using that by (auto simp: def_locations_def temp_definitions_def)
      with free s(2) show ?thesis by (auto simp: definition_precedes_use_eq)
    qed
    with s show "?Q t (list_at (uses ud) t)" by blast
  qed
  then show ?thesis
    by (auto simp: liveness_problem_new_def Let_def set_sorted_entries fold_eq intro: list_at_dom)
qed

lemma liveness_transfer_eq:
  "liveness_transfer tables b out =
     (out - set_at (block_definitions tables) b) \<union> set_at (upward_uses tables) b"
  by (auto simp: liveness_transfer_def set_at_def split: option.split)

section \<open>The problem as a monotone problem\<close>

definition used_temps :: "nir_use_def \<Rightarrow> temp_id set" where
  "used_temps ud = fset (fmdom (uses ud))"

lemma upward_exposed_used: "upward_exposed ud b t \<Longrightarrow> t \<in> used_temps ud"
  by (auto simp: upward_exposed_def locations_def used_temps_def intro: list_at_dom)

interpretation live: monotone_problem "nir_graph (from_routine blocks)"
    "liveness_problem (liveness_problem_new cfg ud)" "(\<subseteq>)" "Pow (used_temps ud)" card
    "card (used_temps ud)"
  for blocks :: "nir_block list" and cfg :: nir_cfg and ud :: nir_use_def
proof
  have fin: "finite (used_temps ud)" by (simp add: used_temps_def)
  show "card x \<le> card (used_temps ud)" if "x \<in> Pow (used_temps ud)" for x
    using that fin by (auto intro: card_mono)
  show "card x < card y" if "x \<in> Pow (used_temps ud)" "y \<in> Pow (used_temps ud)" "x \<subseteq> y" "x \<noteq> y" for x y
    using that fin by (auto intro!: psubset_card_mono dest: finite_subset)
qed (auto simp: liveness_problem_def liveness_transfer_eq liveness_upward_iff any_edge_executable_def
    copy_edge_state_def dest: upward_exposed_used)

text \<open>The flow equation of liveness, with the solver's machinery evaluated away.\<close>

lemma fold_union_option:
  "fold (\<lambda>s out. case K s of None \<Rightarrow> out | Some x \<Rightarrow> out \<union> x) ss out =
     out \<union> \<Union> {x. \<exists>s \<in> set ss. K s = Some x}"
  by (induction ss arbitrary: out) (auto split: option.splits)

lemma liveness_flow_value:
  assumes "finite (successors G b)"
  shows "flow_value G (liveness_problem tables) K b =
    (\<Union> {x. \<exists>s \<in> successors G b. K s = Some x} - set_at (block_definitions tables) b) \<union>
    set_at (upward_uses tables) b"
proof -
  have "gather G (liveness_problem tables) K b =
      fold (\<lambda>s out. case K s of None \<Rightarrow> out | Some x \<Rightarrow> out \<union> x) (sorted_list_of_set (successors G b)) {}"
    unfolding gather_def join_source_def source_nodes_def join_successor_def boundary_state_def
    by (simp add: liveness_problem_def cong: option.case_cong)
  then show ?thesis
    using assms by (simp add: flow_value_def liveness_problem_def liveness_transfer_eq fold_union_option)
qed

section \<open>Liveness of program points\<close>

text \<open>
  A temporary is live before operation \<open>i\<close> of a block (before the terminator when \<open>i\<close> is the number of
  operations) when the operation reads it, or does not define it and it is live after it; before the
  terminator when that reads it or a successor has it live on entry, where the block parameters are
  definitions.
\<close>

inductive live_at :: "nir_block list \<Rightarrow> temp_id \<Rightarrow> nir_block \<Rightarrow> nat \<Rightarrow> bool" for blocks t where
  used: "i < length (ops b) \<Longrightarrow> t \<in> op_operands (ops b ! i) \<Longrightarrow> live_at blocks t b i"
| passed: "i < length (ops b) \<Longrightarrow> op_definition (ops b ! i) \<noteq> Some t \<Longrightarrow> live_at blocks t b (Suc i) \<Longrightarrow>
    live_at blocks t b i"
| ended: "t \<in> terminator_operands (terminator b) \<Longrightarrow> live_at blocks t b (length (ops b))"
| edge: "c \<in> set blocks \<Longrightarrow> block_id c \<in> set (for_each_target (terminator b)) \<Longrightarrow>
    t \<notin> param_dest ` set (block_params c) \<Longrightarrow> live_at blocks t c 0 \<Longrightarrow>
    live_at blocks t b (length (ops b))"

definition entry_live :: "nir_block list \<Rightarrow> nir_block \<Rightarrow> temp_id set" where
  "entry_live blocks b = {t. t \<notin> param_dest ` set (block_params b) \<and> live_at blocks t b 0}"

definition not_defined_before :: "nir_block \<Rightarrow> temp_id \<Rightarrow> nat \<Rightarrow> bool" where
  "not_defined_before b t i \<longleftrightarrow>
     t \<notin> param_dest ` set (block_params b) \<and> (\<forall>k < i. op_definition (ops b ! k) \<noteq> Some t)"

lemma live_at_down:
  assumes "live_at blocks t b i" "i \<le> length (ops b)" "not_defined_before b t i"
  shows "t \<in> entry_live blocks b"
  using assms
proof (induction i rule: nat_induct)
  case 0
  then show ?case by (simp add: entry_live_def not_defined_before_def)
next
  case (Suc i)
  have i: "i < length (ops b)" "op_definition (ops b ! i) \<noteq> Some t" "not_defined_before b t i"
    using Suc.prems by (auto simp: not_defined_before_def)
  show ?case
    by (rule Suc.IH) (use i Suc.prems(1) in \<open>auto intro: live_at.passed\<close>)
qed

lemma owned_union:
  assumes own: "\<And>k i b'. (k, i) \<in> F b' \<Longrightarrow> k = key b'" and inj: "inj_on key S" and b: "b \<in> S"
  shows "(key b, idx) \<in> (\<Union>b \<in> S. F b) \<longleftrightarrow> (key b, idx) \<in> F b"
proof
  assume "(key b, idx) \<in> (\<Union>b \<in> S. F b)"
  then obtain b' where b': "b' \<in> S" "(key b, idx) \<in> F b'" by blast
  then have "b' = b" using own inj b by (metis inj_onD)
  with b'(2) show "(key b, idx) \<in> F b" by simp
qed (use b in blast)

text \<open>The block-level view of the tables when block numbers are distinct.\<close>

lemma block_tables:
  assumes d: "distinct (map block_id blocks)" and b: "b \<in> set blocks"
  defines "ud \<equiv> use_def_from_routine blocks"
  shows "upward_exposed ud (block_id b) t \<longleftrightarrow>
      (\<exists>i < length (ops b). t \<in> op_operands (ops b ! i) \<and> not_defined_before b t i) \<or>
      t \<in> terminator_operands (terminator b) \<and> not_defined_before b t (length (ops b))"
    and "(\<exists>idx. (block_id b, idx) \<in> def_locations (definitions ud) t) \<longleftrightarrow>
      \<not> not_defined_before b t (length (ops b))"
proof -
  have inj: "inj_on block_id (set blocks)" using d by (simp add: distinct_map)
  have uses_b: "(block_id b, idx) \<in> locations (uses ud) t \<longleftrightarrow> (block_id b, idx) \<in> block_uses b t" for idx
    unfolding ud_def use_def_tables
    by (rule owned_union [OF _ inj b]) (auto simp: block_uses_def split: if_splits)
  have defs_b: "(block_id b, idx) \<in> def_locations (definitions ud) t \<longleftrightarrow> (block_id b, idx) \<in> block_defs b t" for idx
    unfolding ud_def use_def_tables
    by (rule owned_union [OF _ inj b]) (auto simp: block_defs_def split: if_splits)
  have nd: "(\<forall>d. (block_id b, d) \<in> block_defs b t \<longrightarrow> \<not> index_precedes d idx) \<longleftrightarrow>
      not_defined_before b t (case idx of Some i \<Rightarrow> min i (length (ops b)) | None \<Rightarrow> length (ops b))" for idx
    by (cases idx) (auto simp: block_defs_def not_defined_before_def split: if_splits)
  show "upward_exposed ud (block_id b) t \<longleftrightarrow>
      (\<exists>i < length (ops b). t \<in> op_operands (ops b ! i) \<and> not_defined_before b t i) \<or>
      t \<in> terminator_operands (terminator b) \<and> not_defined_before b t (length (ops b))"
    unfolding upward_exposed_def uses_b defs_b nd
    by (auto simp: block_uses_def min_def split: if_splits)
  show "(\<exists>idx. (block_id b, idx) \<in> def_locations (definitions ud) t) \<longleftrightarrow>
      \<not> not_defined_before b t (length (ops b))"
    unfolding defs_b by (auto simp: block_defs_def not_defined_before_def)
qed

definition reads_upward :: "nir_block \<Rightarrow> temp_id \<Rightarrow> bool" where
  "reads_upward b t \<longleftrightarrow>
     (\<exists>i < length (ops b). t \<in> op_operands (ops b ! i) \<and> not_defined_before b t i) \<or>
     t \<in> terminator_operands (terminator b) \<and> not_defined_before b t (length (ops b))"

definition successor_live :: "nir_block list \<Rightarrow> nir_block \<Rightarrow> temp_id set" where
  "successor_live blocks b =
     \<Union> (entry_live blocks ` {c \<in> set blocks. block_id c \<in> set (for_each_target (terminator b))})"

lemma live_at_unroll:
  "live_at blocks t b i \<Longrightarrow> not_defined_before b t i \<Longrightarrow>
     reads_upward b t \<or> not_defined_before b t (length (ops b)) \<and> t \<in> successor_live blocks b"
proof (induction rule: live_at.induct)
  case (used i b)
  then show ?case by (auto simp: reads_upward_def)
next
  case (passed i b)
  moreover have "not_defined_before b t (Suc i)"
    using passed by (auto simp: not_defined_before_def less_Suc_eq)
  ultimately show ?case by simp
next
  case (ended b)
  then show ?case by (auto simp: reads_upward_def)
next
  case (edge c b)
  then show ?case by (auto simp: successor_live_def entry_live_def)
qed

lemma entry_live_eq:
  "t \<in> entry_live blocks b \<longleftrightarrow>
     reads_upward b t \<or> not_defined_before b t (length (ops b)) \<and> t \<in> successor_live blocks b"
proof
  assume "t \<in> entry_live blocks b"
  then have "live_at blocks t b 0" "not_defined_before b t 0"
    by (auto simp: entry_live_def not_defined_before_def)
  then show "reads_upward b t \<or> not_defined_before b t (length (ops b)) \<and> t \<in> successor_live blocks b"
    by (rule live_at_unroll)
next
  assume "reads_upward b t \<or> not_defined_before b t (length (ops b)) \<and> t \<in> successor_live blocks b"
  then consider (op) i where "i < length (ops b)" "t \<in> op_operands (ops b ! i)" "not_defined_before b t i"
    | (trm) "t \<in> terminator_operands (terminator b)" "not_defined_before b t (length (ops b))"
    | (succ) "not_defined_before b t (length (ops b))" "t \<in> successor_live blocks b"
    by (auto simp: reads_upward_def)
  then show "t \<in> entry_live blocks b"
  proof cases
    case op
    then show ?thesis by (intro live_at_down [of _ _ _ i] live_at.used) auto
  next
    case trm
    then show ?thesis by (intro live_at_down [of _ _ _ "length (ops b)"] live_at.ended) auto
  next
    case succ
    then obtain c where "c \<in> set blocks" "block_id c \<in> set (for_each_target (terminator b))"
      "t \<in> entry_live blocks c" by (auto simp: successor_live_def)
    then have "live_at blocks t b (length (ops b))"
      by (auto simp: entry_live_def intro: live_at.edge)
    with succ show ?thesis by (intro live_at_down [of _ _ _ "length (ops b)"]) auto
  qed
qed

lemma live_at_used: "live_at blocks t b i \<Longrightarrow> b \<in> set blocks \<Longrightarrow> \<exists>b \<in> set blocks. block_uses b t \<noteq> {}"
  by (induction rule: live_at.induct) (auto simp: block_uses_def)

lemma entry_live_used:
  assumes "t \<in> entry_live blocks b" "b \<in> set blocks"
  shows "t \<in> used_temps (use_def_from_routine blocks)"
proof -
  have "live_at blocks t b 0" using assms(1) by (simp add: entry_live_def)
  from live_at_used [OF this assms(2)]
  obtain c l where "c \<in> set blocks" "l \<in> block_uses c t" by blast
  then have "l \<in> locations (uses (use_def_from_routine blocks)) t" by (auto simp: use_def_tables)
  then show ?thesis by (auto simp: used_temps_def locations_def intro: list_at_dom)
qed

section \<open>The solver computes liveness\<close>

definition entry_table :: "nir_block list \<Rightarrow> block_id \<rightharpoonup> temp_id set" where
  "entry_table blocks n =
     (if n \<in> cfg_reachable (from_routine blocks)
      then Some (\<Union> (entry_live blocks ` {b \<in> set blocks. block_id b = n})) else None)"

lemma entry_table_at:
  assumes "distinct (map block_id blocks)" "b \<in> set blocks"
    "block_id b \<in> cfg_reachable (from_routine blocks)"
  shows "entry_table blocks (block_id b) = Some (entry_live blocks b)"
proof -
  have "{b' \<in> set blocks. block_id b' = block_id b} = {b}"
    using assms(1,2) by (auto simp: distinct_map inj_on_def)
  with assms(3) show ?thesis by (simp add: entry_table_def)
qed

lemma reachable_block:
  assumes "n \<in> cfg_reachable (from_routine blocks)"
  obtains b where "b \<in> set blocks" "block_id b = n"
proof -
  have "n \<in> cfg_block_ids (from_routine blocks)"
    using nir.reachable_nodes [of blocks] assms by (auto simp: nir_graph_def)
  with that show thesis by (auto simp: from_routine_facts(2))
qed

lemma graph_successors:
  assumes "distinct (map block_id blocks)" "b \<in> set blocks"
  shows "successors (nir_graph (from_routine blocks)) (block_id b) =
     {block_id c | c. c \<in> set blocks \<and> block_id c \<in> set (for_each_target (terminator b))}"
proof -
  have "b' = b" if "b' \<in> set blocks" "block_id b' = block_id b" for b'
    using that assms by (auto simp: distinct_map inj_on_def)
  then show ?thesis
    using assms(2) unfolding nir_graph_def dataflow_graph.simps set_eq_iff from_routine_facts(4) block_edges_def
    by (auto; metis)
qed

lemma liveness_equation:
  assumes d: "distinct (map block_id blocks)" and b: "b \<in> set blocks"
    and r: "block_id b \<in> cfg_reachable (from_routine blocks)"
  defines "P \<equiv> liveness_problem (liveness_problem_new (from_routine blocks) (use_def_from_routine blocks))"
  shows "t \<in> flow_value (nir_graph (from_routine blocks)) P K (block_id b) \<longleftrightarrow>
     reads_upward b t \<or> not_defined_before b t (length (ops b)) \<and>
       (\<exists>c \<in> set blocks. block_id c \<in> set (for_each_target (terminator b)) \<and>
          (\<exists>x. K (block_id c) = Some x \<and> t \<in> x))"
  using r by (auto simp: P_def liveness_flow_value nir.finite_successors liveness_definitions_iff
      liveness_upward_iff block_tables [OF d b] reads_upward_def graph_successors [OF d b])

lemma entry_table_solution:
  assumes d: "distinct (map block_id blocks)"
  shows "live.flow_solution blocks (from_routine blocks) (use_def_from_routine blocks) (entry_table blocks)"
  unfolding live.flow_solution_def live.state_table_def
proof (intro conjI ballI)
  show "dom (entry_table blocks) = reachable (nir_graph (from_routine blocks))"
    by (auto simp: entry_table_def dom_def nir_graph_def)
  show "ran (entry_table blocks) \<subseteq> Pow (used_temps (use_def_from_routine blocks))"
    using entry_live_used by (fastforce simp: entry_table_def ran_def split: if_splits)
  fix n assume "n \<in> reachable (nir_graph (from_routine blocks))"
  then have n: "n \<in> cfg_reachable (from_routine blocks)" by (simp add: nir_graph_def)
  then obtain b where b: "b \<in> set blocks" "block_id b = n" by (rule reachable_block)
  let ?P = "liveness_problem (liveness_problem_new (from_routine blocks) (use_def_from_routine blocks))"
  have r: "block_id c \<in> cfg_reachable (from_routine blocks)"
    if "c \<in> set blocks" "block_id c \<in> set (for_each_target (terminator b))" for c
    using nir.successor_reachable [of "block_id b" blocks "block_id c"] that n b
    by (auto simp: graph_successors [OF d b(1)]) (auto simp: nir_graph_def)
  have "t \<in> flow_value (nir_graph (from_routine blocks)) ?P (entry_table blocks) n \<longleftrightarrow>
      t \<in> entry_live blocks b" for t
    unfolding b(2) [symmetric] liveness_equation [OF d b(1) n [folded b(2)]] entry_live_eq [of t blocks b]
    using r by (auto simp: successor_live_def entry_table_at [OF d])
  then show "entry_table blocks n =
      Some (flow_value (nir_graph (from_routine blocks)) ?P (entry_table blocks) n)"
    using entry_table_at [OF d b(1)] n b(2) by auto
qed

lemma reachable_nir_graph: "reachable (nir_graph cfg) = cfg_reachable cfg"
  by (simp add: nir_graph_def)

lemma flow_solution_entry:
  assumes d: "distinct (map block_id blocks)"
    and K: "live.flow_solution blocks (from_routine blocks) (use_def_from_routine blocks) K"
  shows "live_at blocks t b i \<Longrightarrow> b \<in> set blocks \<Longrightarrow> not_defined_before b t i \<Longrightarrow>
     block_id b \<in> cfg_reachable (from_routine blocks) \<Longrightarrow> \<exists>x. K (block_id b) = Some x \<and> t \<in> x"
proof (induction rule: live_at.induct)
  let ?P = "liveness_problem (liveness_problem_new (from_routine blocks) (use_def_from_routine blocks))"
  have at: "K n = Some (flow_value (nir_graph (from_routine blocks)) ?P K n)"
    if "n \<in> cfg_reachable (from_routine blocks)" for n
    using K that by (simp add: live.flow_solution_def reachable_nir_graph)
  {
    case (used i b)
    then have "reads_upward b t" by (auto simp: reads_upward_def)
    with used show ?case by (simp add: at liveness_equation [OF d])
  next
    case (passed i b)
    then have "not_defined_before b t (Suc i)" by (auto simp: not_defined_before_def less_Suc_eq)
    with passed show ?case by simp
  next
    case (ended b)
    then have "reads_upward b t" by (auto simp: reads_upward_def)
    with ended show ?case by (simp add: at liveness_equation [OF d])
  next
    case (edge c b)
    have "block_id c \<in> successors (nir_graph (from_routine blocks)) (block_id b)"
      using edge by (auto simp: graph_successors [OF d])
    then have "block_id c \<in> cfg_reachable (from_routine blocks)"
      using nir.successor_reachable edge(8) by (metis reachable_nir_graph)
    with edge have "\<exists>x. K (block_id c) = Some x \<and> t \<in> x" by (auto simp: not_defined_before_def)
    with edge show ?case by (auto simp: at [OF edge(8)] liveness_equation [OF d])
  }
qed

text \<open>C1: in a routine with distinct block numbers the liveness analysis always returns, and for every
  block reachable from the entry its live-in set is exactly the set of temporaries that are live on
  entry to the block: some execution path reads the temporary before an operation or a block parameter
  defines it.\<close>

theorem analyze_liveness_exact:
  assumes d: "distinct (map block_id blocks)"
  shows "\<exists>r. analyze_liveness (from_routine blocks) (use_def_from_routine blocks) = Some r \<and>
    (\<forall>b \<in> set blocks. block_id b \<in> cfg_reachable (from_routine blocks) \<longrightarrow>
       live_in r (block_id b) = entry_live blocks b)"
proof -
  let ?P = "liveness_problem (liveness_problem_new (from_routine blocks) (use_def_from_routine blocks))"
  obtain r where r: "solve_dataflow (nir_graph (from_routine blocks)) ?P = Some r"
    and sol: "live.flow_solution blocks (from_routine blocks) (use_def_from_routine blocks) (key_states ?P r)"
    and least: "\<forall>S. live.flow_solution blocks (from_routine blocks) (use_def_from_routine blocks) S \<longrightarrow>
      live.table_le (key_states ?P r) S"
    using live.solve_dataflow_least by blast
  have key: "key_states ?P r = in_states r" by (simp add: key_states_def liveness_problem_def)
  have "live_in r (block_id b) = entry_live blocks b"
    if b: "b \<in> set blocks" and n: "block_id b \<in> cfg_reachable (from_routine blocks)" for b
  proof
    have "rel_option (\<subseteq>) (in_states r (block_id b)) (entry_table blocks (block_id b))"
      using least entry_table_solution [OF d] by (auto simp: live.table_le_def key)
    then show "live_in r (block_id b) \<subseteq> entry_live blocks b"
      unfolding entry_table_at [OF d b n] by (cases "in_states r (block_id b)") (auto simp: live_in_def)
    show "entry_live blocks b \<subseteq> live_in r (block_id b)"
    proof
      fix t assume "t \<in> entry_live blocks b"
      then have "live_at blocks t b 0" "not_defined_before b t 0"
        by (auto simp: entry_live_def not_defined_before_def)
      from flow_solution_entry [OF d sol this(1) b this(2) n]
      show "t \<in> live_in r (block_id b)" by (auto simp: live_in_def key)
    qed
  qed
  with r show ?thesis by (auto simp: analyze_liveness_def)
qed

end
