(* ===== verification/Nir_Analysis.thy ===== *)
theory Nir_Analysis
  imports Nir_Liveness
begin

text \<open>
  The shared analyses on the control-flow graph of a NIR routine
  (\<open>src/src/nir/analysis/dataflow.rs\<close>, \<open>src/src/nir/analysis/dominance.rs\<close>): the facts proved for any
  \<open>flow_graph\<close>, instantiated on \<open>nir_graph (from_routine blocks)\<close>, with the sample routine that the
  witnesses run on.
\<close>

section \<open>A sample routine\<close>

text \<open>A branch on temporary 0, two arms, and a join that returns temporary 0.\<close>

definition sample_value :: nir_value where
  "sample_value = Temp (TempId 0) condition_type"

definition sample_edge :: "u32 \<Rightarrow> nir_edge" where
  "sample_edge n = \<lparr>edge_target = BlockId n, edge_args = []\<rparr>"

definition sample_block :: "u32 \<Rightarrow> nir_terminator \<Rightarrow> nir_block" where
  "sample_block n t =
     \<lparr>block_id = BlockId n, block_label = [], block_params = [], ops = [], terminator = t\<rparr>"

definition sample_blocks :: "nir_block list" where
  "sample_blocks =
     [sample_block 0 (Branch sample_value (sample_edge 1) (sample_edge 2)),
      sample_block 1 (Goto (sample_edge 3)), sample_block 2 (Goto (sample_edge 3)),
      sample_block 3 (Return (Some sample_value))]"

lemma sample_blocks_distinct: "distinct (map block_id sample_blocks)"
  by (simp add: sample_blocks_def sample_block_def)

lemma sample_entry: "cfg_entry (from_routine sample_blocks) = Some (BlockId 0)"
  by (simp add: from_routine_facts(1)) (simp add: sample_blocks_def sample_block_def)

lemma sample_reachable: "BlockId 0 \<in> cfg_reachable (from_routine sample_blocks)"
  by (simp add: from_routine_facts(5) sample_entry)

theorem analyze_liveness_exact_witness:
  "\<exists>r. analyze_liveness (from_routine sample_blocks) (use_def_from_routine sample_blocks) = Some r \<and>
     TempId 0 \<in> live_in r (BlockId 0)"
proof -
  let ?b = "sample_block 0 (Branch sample_value (sample_edge 1) (sample_edge 2))"
  have "live_at sample_blocks (TempId 0) ?b (length (ops ?b))"
    by (rule live_at.ended) (simp add: sample_block_def sample_value_def)
  then have "TempId 0 \<in> entry_live sample_blocks ?b"
    by (simp add: entry_live_def sample_block_def)
  moreover have "?b \<in> set sample_blocks" "block_id ?b = BlockId 0"
    by (simp_all add: sample_blocks_def sample_block_def)
  ultimately show ?thesis
    using analyze_liveness_exact [OF sample_blocks_distinct] sample_reachable by metis
qed

section \<open>The control-flow graph\<close>

text \<open>C6: the graph of any block list has the first block as its entry and the block numbers as its
  nodes; its predecessor and successor sets are the two views of the same edges, which are the
  terminator targets that name an existing block; reachability is reachability along those edges. The
  postorder lists the reachable blocks, each once, in depth-first postorder: when a block is listed,
  every successor of it has been listed before, except where the edge closes a cycle: then the successor
  leads back to the block through blocks listed no earlier than it. And the entry leads to the block
  through blocks listed no earlier, so the entry is listed last. The reverse postorder is the reversed
  list.\<close>

theorem nir_graph_facts:
  "entry (nir_graph (from_routine blocks)) = (case blocks of [] \<Rightarrow> None | b # _ \<Rightarrow> Some (block_id b)) \<and>
   nodes (nir_graph (from_routine blocks)) = block_id ` set blocks \<and>
   {(m, n). n \<in> successors (nir_graph (from_routine blocks)) m} =
     {(block_id b, t) | b t. b \<in> set blocks \<and> t \<in> set (for_each_target (terminator b)) \<and>
        t \<in> block_id ` set blocks} \<and>
   {(m, n). m \<in> predecessors (nir_graph (from_routine blocks)) n} =
     {(m, n). n \<in> successors (nir_graph (from_routine blocks)) m} \<and>
   reachable (nir_graph (from_routine blocks)) =
     {n. \<exists>e. entry (nir_graph (from_routine blocks)) = Some e \<and>
        (e, n) \<in> {(m, n). n \<in> successors (nir_graph (from_routine blocks)) m}\<^sup>*} \<and>
   set (postorder (nir_graph (from_routine blocks))) = reachable (nir_graph (from_routine blocks)) \<and>
   distinct (postorder (nir_graph (from_routine blocks))) \<and>
   reverse_postorder (nir_graph (from_routine blocks)) = rev (postorder (nir_graph (from_routine blocks))) \<and>
   (\<forall>before b after. postorder (nir_graph (from_routine blocks)) = before @ b # after \<longrightarrow>
      (\<exists>e. entry (nir_graph (from_routine blocks)) = Some e \<and>
         (e, b) \<in> {(m, n). n \<in> successors (nir_graph (from_routine blocks)) m \<and>
                      m \<in> set (b # after) \<and> n \<in> set (b # after)}\<^sup>*) \<and>
      (\<forall>s \<in> successors (nir_graph (from_routine blocks)) b.
         s \<in> set before \<or>
         (s, b) \<in> {(m, n). n \<in> successors (nir_graph (from_routine blocks)) m \<and>
                      m \<in> set (b # after) \<and> n \<in> set (b # after)}\<^sup>*))"
proof -
  let ?G = "nir_graph (from_routine blocks)"
  have ord: "(\<exists>e. entry ?G = Some e \<and> (e, b) \<in> (Restr (edges ?G) (set (b # after)))\<^sup>*) \<and>
      (\<forall>s \<in> successors ?G b. s \<in> set before \<or> (s, b) \<in> (Restr (edges ?G) (set (b # after)))\<^sup>*)"
    if "postorder ?G = before @ b # after" for before b after
  proof -
    have "edges ?G = block_edges (block_id ` set blocks) blocks"
      by (auto simp: edges_def nir_graph_def from_routine_facts(4))
    with from_routine_facts(10) [of blocks] that
    have "depth_first_order (edges ?G) {e. entry ?G = Some e} {} (before @ b # after)"
      by (simp add: nir_graph_def)
    from depth_first_orderD [OF this] show ?thesis by (simp add: edges_def) blast
  qed
  have restr: "Restr (edges ?G) S = {(m, n). n \<in> successors ?G m \<and> m \<in> S \<and> n \<in> S}" for S
    by (auto simp: edges_def)
  have r: "n \<in> reachable (nir_graph (from_routine blocks)) \<longleftrightarrow>
      (\<exists>e. entry (nir_graph (from_routine blocks)) = Some e \<and>
        (e, n) \<in> {(m, n). n \<in> successors (nir_graph (from_routine blocks)) m}\<^sup>*)" for n
    using nir.reachable_iff [of n blocks] by (simp add: edges_def)
  have built: "entry ?G = (case blocks of [] \<Rightarrow> None | b # _ \<Rightarrow> Some (block_id b))"
    "nodes ?G = block_id ` set blocks"
    "{(m, n). n \<in> successors ?G m} =
      {(block_id b, t) | b t. b \<in> set blocks \<and> t \<in> set (for_each_target (terminator b)) \<and>
         t \<in> block_id ` set blocks}"
    by (auto simp: nir_graph_def from_routine_facts block_edges_def split: list.split)
  have inverse: "{(m, n). m \<in> predecessors ?G n} = {(m, n). n \<in> successors ?G m}"
    by (simp add: nir.predecessors_iff)
  have reach: "reachable ?G = {n. \<exists>e. entry ?G = Some e \<and> (e, n) \<in> {(m, n). n \<in> successors ?G m}\<^sup>*}"
    by (simp only: set_eq_iff r mem_Collect_eq) simp
  note lists = nir.set_postorder [of blocks] nir.distinct_postorder [of blocks]
    nir.reverse_postorder_rev [of blocks]
  show ?thesis
    by (intro conjI allI impI)
      (rule built inverse reach lists ord [unfolded restr, THEN conjunct1]
         ord [unfolded restr, THEN conjunct2] | assumption)+
qed

theorem nir_graph_facts_witness:
  "BlockId 0 \<notin> set (butlast (postorder (nir_graph (from_routine sample_blocks)))) \<and>
   BlockId 0 = last (postorder (nir_graph (from_routine sample_blocks)))"
proof -
  let ?G = "nir_graph (from_routine sample_blocks)"
  have e: "entry ?G = Some (BlockId 0)" by (simp add: nir_graph_def sample_entry)
  from sample_reachable nir.set_postorder [of sample_blocks] have "BlockId 0 \<in> set (postorder ?G)"
    by (simp add: nir_graph_def)
  then obtain xs x where post: "postorder ?G = xs @ [x]" by (cases "postorder ?G" rule: rev_cases) auto
  from nir_graph_facts [of sample_blocks] post e
  have "(BlockId 0, x) \<in> {(m, n). n \<in> successors ?G m \<and> m \<in> {x} \<and> n \<in> {x}}\<^sup>*" by force
  then have "x = BlockId 0" by (induction rule: rtrancl_induct) auto
  with post nir.distinct_postorder [of sample_blocks] show ?thesis by simp
qed

section \<open>The solver\<close>

text \<open>C2: whatever the problem, when the solver returns, both of its tables are defined exactly on the
  reachable blocks and every reachable block satisfies its equations: re-evaluating it from the tables
  gives the stored input and output.\<close>

theorem solve_dataflow_fixpoint:
  fixes P :: "(block_id, 's) dataflow_problem"
  assumes "solve_dataflow (nir_graph (from_routine blocks)) P = Some r"
  shows "dom (in_states r) = cfg_reachable (from_routine blocks) \<and>
    dom (out_states r) = cfg_reachable (from_routine blocks) \<and>
    (\<forall>n \<in> cfg_reachable (from_routine blocks). \<exists>i out.
       in_states r n = Some i \<and> out_states r n = Some out \<and>
       evaluate (nir_graph (from_routine blocks)) P (in_states r) (out_states r) n = (i, out))"
proof -
  let ?ev = "\<lambda>n. evaluate (nir_graph (from_routine blocks)) P (in_states r) (out_states r) n"
  have "\<exists>i out. in_states r n = Some i \<and> out_states r n = Some out \<and> ?ev n = (i, out)"
    if "n \<in> cfg_reachable (from_routine blocks)" for n
    using nir.solve_dataflow_solves(3) [OF assms, of n] that
    by (cases "?ev n") (simp add: solves_at_def reachable_nir_graph)
  then show ?thesis
    using nir.solve_dataflow_solves(1,2) [OF assms] by (simp add: reachable_nir_graph)
qed

theorem solve_dataflow_fixpoint_witness:
  "\<exists>r. analyze_liveness (from_routine sample_blocks) (use_def_from_routine sample_blocks) = Some r \<and>
     (\<exists>i. in_states r (BlockId 0) = Some i)"
proof -
  obtain r where r: "solve_dataflow (nir_graph (from_routine sample_blocks))
      (liveness_problem (liveness_problem_new (from_routine sample_blocks)
        (use_def_from_routine sample_blocks))) = Some r"
    using live.solve_dataflow_least by blast
  from solve_dataflow_fixpoint [OF r] sample_reachable r show ?thesis
    by (auto simp: analyze_liveness_def)
qed

section \<open>Dominance\<close>

text \<open>C3: the dominance computation returns for every routine that has a block, and its tables mean
  what their names say: \<open>d\<close> dominates \<open>n\<close> when every path from a root (the entry, or a block without
  predecessors) to \<open>n\<close> passes through \<open>d\<close>; the immediate dominator of a reachable block is the strict
  dominator that all its strict dominators dominate; the children of a block are the blocks it
  immediately dominates, in order; and the frontier is the set of reachable joins \<open>n\<close> with a
  predecessor the block dominates, not strictly dominated themselves.\<close>

theorem nir_dominance:
  fixes blocks :: "nir_block list"
  defines "G \<equiv> nir_graph (from_routine blocks)"
  assumes e: "entry G = Some e"
  shows "\<exists>D. from_graph G = Some D \<and> root D = Some e \<and>
     (\<forall>n \<in> block_id ` set blocks. \<forall>d. dominates D d n \<longleftrightarrow> dom_by_paths G e d n) \<and>
     (\<forall>n c. immediate_dominator D n = Some c \<longleftrightarrow>
        n \<in> reachable G \<and> strictly_dom G e c n \<and> (\<forall>d. strictly_dom G e d n \<longrightarrow> dom_by_paths G e d c)) \<and>
     (\<forall>m. tree_children D m = sorted_list_of_set {n. immediate_dominator D n = Some m}) \<and>
     (\<forall>m. dominance_frontier D m = join_frontier G e m)"
proof -
  have "nodes G = block_id ` set blocks" by (simp add: G_def nir_graph_def from_routine_facts(2))
  then show ?thesis using nir.from_graph_facts [OF e [unfolded G_def]] by (simp add: G_def)
qed

text \<open>Paths from the entry alone.\<close>

inductive entry_path :: "'n dataflow_graph \<Rightarrow> 'n \<Rightarrow> 'n list \<Rightarrow> 'n \<Rightarrow> bool" for G e where
  here: "entry_path G e [e] e"
| onward: "entry_path G e xs m \<Longrightarrow> n \<in> successors G m \<Longrightarrow> entry_path G e (n # xs) n"

context flow_graph
begin

lemma entry_path_root:
  assumes e: "entry G = Some e"
  shows "entry_path G e xs n \<Longrightarrow> root_path G e xs n"
proof (induction rule: entry_path.induct)
  case here
  show ?case by (rule root_path.start) (use entry_node [OF e] in auto)
next
  case (onward xs m n)
  then show ?case by (auto intro: root_path.step)
qed

lemma root_path_entry:
  assumes e: "entry G = Some e" and all: "reachable G = nodes G"
  shows "root_path G e xs n \<Longrightarrow> entry_path G e xs n"
proof (induction rule: root_path.induct)
  case (start r)
  have "r = e"
  proof (rule ccontr)
    assume "r \<noteq> e"
    with start have none: "predecessors G r = {}" by simp
    have "(e, r) \<in> (edges G)\<^sup>*" using start(1) all e by (auto simp: reachable_iff)
    then show False
      by (cases rule: rtranclE) (use \<open>r \<noteq> e\<close> none predecessors_iff in auto)
  qed
  then show ?case by (simp add: entry_path.here)
next
  case (step xs m n)
  then show ?case by (auto intro: entry_path.onward)
qed

end

text \<open>C4: dominance is sound for execution, and exact when every block of the routine is reachable: a
  dominator lies on every edge path from the entry to the block; if no block is unreachable, a block
  of the routine that lies on all those paths is a dominator, so the entry dominates every block.\<close>

theorem dominates_execution_paths:
  fixes blocks :: "nir_block list"
  defines "G \<equiv> nir_graph (from_routine blocks)"
  assumes D: "from_graph G = Some D" and e: "entry G = Some e" and n: "n \<in> nodes G"
  shows "(dominates D d n \<longrightarrow> (\<forall>xs. entry_path G e xs n \<longrightarrow> d \<in> set xs)) \<and>
     (reachable G = nodes G \<longrightarrow>
        (dominates D d n \<longleftrightarrow> d \<in> nodes G \<and> (\<forall>xs. entry_path G e xs n \<longrightarrow> d \<in> set xs)) \<and>
        dominates D e n)"
proof -
  have dom: "dominates D d n \<longleftrightarrow> dom_by_paths G e d n" for d
    using nir.from_graph_facts [OF e [unfolded G_def]] D n unfolding G_def by auto
  have sound: "entry_path G e xs n \<Longrightarrow> root_path G e xs n" for xs
    using nir.entry_path_root e unfolding G_def by blast
  have exact: "root_path G e xs n \<Longrightarrow> entry_path G e xs n" if "reachable G = nodes G" for xs
    using nir.root_path_entry e that unfolding G_def by blast
  have start: "entry_path G e xs n \<Longrightarrow> e \<in> set xs" for xs n
    by (induction rule: entry_path.induct) auto
  have "e \<in> nodes G" using nir.entry_node e unfolding G_def by blast
  then show ?thesis
    using sound exact start by (auto simp: dom dom_by_paths_def)
qed

theorem nir_dominance_witness:
  "\<exists>D. from_graph (nir_graph (from_routine sample_blocks)) = Some D \<and> root D = Some (BlockId 0)"
proof -
  have "entry (nir_graph (from_routine sample_blocks)) = Some (BlockId 0)"
    using sample_entry by (simp add: nir_graph_def)
  from nir_dominance [OF this] show ?thesis by blast
qed

theorem dominates_execution_paths_witness:
  "\<exists>D. from_graph (nir_graph (from_routine sample_blocks)) = Some D \<and> \<not> dominates D (BlockId 1) (BlockId 3)"
proof -
  let ?G = "nir_graph (from_routine sample_blocks)"
  have e: "entry ?G = Some (BlockId 0)" using sample_entry by (simp add: nir_graph_def)
  then obtain D where D: "from_graph ?G = Some D" using nir.from_graph_facts by blast
  have s: "t \<in> successors ?G n \<longleftrightarrow> (\<exists>b \<in> set sample_blocks. block_id b = n \<and>
      t \<in> set (for_each_target (terminator b))) \<and> t \<in> block_id ` set sample_blocks" for t n
    by (auto simp: nir_graph_def from_routine_facts(4) block_edges_def)
  have "entry_path ?G (BlockId 0) [BlockId 3, BlockId 2, BlockId 0] (BlockId 3)"
  proof (rule entry_path.onward [OF entry_path.onward [OF entry_path.here]])
    show "BlockId 2 \<in> successors ?G (BlockId 0)" "BlockId 3 \<in> successors ?G (BlockId 2)"
      unfolding s by (simp_all add: sample_blocks_def sample_block_def sample_edge_def)
  qed
  moreover have "BlockId 3 \<in> nodes ?G"
    by (simp add: nir_graph_def from_routine_facts(2)) (simp add: sample_blocks_def sample_block_def)
  ultimately have "\<not> dominates D (BlockId 1) (BlockId 3)"
    using dominates_execution_paths [OF D e] by fastforce
  with D show ?thesis by blast
qed

text \<open>C5: the pruned iterated frontier of a finite set of definition blocks always returns, and is the
  least set that holds every live block of the dominance frontier of a definition block or of one of
  its own members: the merge points where a promoted value needs a block parameter.\<close>

theorem pruned_iterated_frontier_closed:
  assumes D: "from_graph (nir_graph (from_routine blocks)) = Some D" and fin: "finite ds"
  shows "\<exists>R. pruned_iterated_frontier D ds live = Some R \<and>
     (\<forall>n \<in> ds \<union> R. dominance_frontier D n \<inter> live \<subseteq> R) \<and>
     (\<forall>R'. (\<forall>n \<in> ds \<union> R'. dominance_frontier D n \<inter> live \<subseteq> R') \<longrightarrow> R \<subseteq> R')"
proof -
  let ?G = "nir_graph (from_routine blocks)"
  have "dominance_frontier D n \<subseteq> reachable ?G" for n
  proof (cases "entry ?G")
    case None
    with D have "dominance_frontier D n = {}"
      by (auto simp: from_graph_def dominance_frontier_def set_of_def)
    then show ?thesis by simp
  next
    case (Some e)
    then have "dominance_frontier D n = join_frontier ?G e n"
      using nir.from_graph_facts D by fastforce
    then show ?thesis by (auto simp: join_frontier_def)
  qed
  from pruned_iterated_frontier_least [OF nir.finite_reachable this fin]
  show ?thesis unfolding frontier_closed_def .
qed

theorem pruned_iterated_frontier_closed_witness:
  "\<exists>D R. from_graph (nir_graph (from_routine sample_blocks)) = Some D \<and>
     pruned_iterated_frontier D {BlockId 1} {BlockId 3} = Some R"
proof -
  have "entry (nir_graph (from_routine sample_blocks)) = Some (BlockId 0)"
    using sample_entry by (simp add: nir_graph_def)
  then obtain D where D: "from_graph (nir_graph (from_routine sample_blocks)) = Some D"
    using nir.from_graph_facts by blast
  have "finite {BlockId 1}" by simp
  from pruned_iterated_frontier_closed [OF D this, of "{BlockId 3}"]
  obtain R where "pruned_iterated_frontier D {BlockId 1} {BlockId 3} = Some R" by (elim exE conjE)
  with D show ?thesis by simp
qed

end
