(* ===== verification/M68k_Machine.thy ===== *)
theory M68k_Machine
  imports Target
begin

text \<open>
  Physical instructions of the original MC68000 (\<open>src/src/mir68k/machine.rs\<close>, with the platform and data
  identities of \<open>src/src/mir68k/amiga.rs\<close> and \<open>src/src/mir68k/mod.rs\<close>). Condition codes carry their
  4-bit encoding. Lemmas: inverting a condition flips the low bit of its encoding.
\<close>

datatype m68k_error =
  UnsupportedScalarWidth u32
| InvalidRegister u8
| TrapVectorRange
| QuickMagnitudeRange
| ExtendNeedsWordOrLong
| ShiftCountRange
| MoveDestinationNotAlterable
| NoByteAddressMove
| NotControlMode
| AddressImmediateWidth
| BranchDisplacementRange
| DuplicateMachineBlock
| CodeSizeOverflow
| MissingBranchTarget
| ResolverError string

datatype machine_width = Byte | Word | Long

fun width_bytes :: "machine_width \<Rightarrow> u32" where
  "width_bytes Byte = 1"
| "width_bytes Word = 2"
| "width_bytes Long = 4"

definition width_from_bytes :: "u32 \<Rightarrow> m68k_error + machine_width" where
  "width_from_bytes n =
     (if n = 1 then Inr Byte else if n = 2 then Inr Word else if n = 4 then Inr Long
      else Inl (UnsupportedScalarWidth n))"

type_synonym machine_block_id = u32
type_synonym m68k_result_u32 = "m68k_error + u32"

text \<open>Frame objects are numbered by a newtype of \<open>u32\<close>; frame offsets are \<open>i32\<close> words read as signed.\<close>

type_synonym frame_object_id = u32
type_synonym i32 = "32 word"

datatype mir68k_data_id =
  DataGlobal symbol_id | DataStatic symbol_id | DataArrayBacking symbol_id
| DataLocal routine_id local_id

datatype console_service =
  Put | PutE | Print | PrintE | PrintB | PrintBE | PrintC | PrintCE | PrintI | PrintIE
| PrintLC | PrintLCE | PrintLI | PrintLIE

datatype library_call = OpenLibrary | CloseLibrary | LibraryOutput | LibraryWrite

datatype platform_routine_id =
  Startup | Cleanup | Finish | Failure | WriteSpan | PlatformFault runtime_fault
| Console console_service | Library library_call

datatype platform_data_id = PlatformState | LibraryName | FaultMessage runtime_fault

datatype machine_target =
  BlockTarget machine_block_id
| RoutineTarget routine_id
| DataTarget mir68k_data_id
| PlatformRoutine platform_routine_id
| PlatformData platform_data_id
| AbsoluteTarget u32

record address =
  address_target :: machine_target
  addend :: int

definition address_new :: "machine_target \<Rightarrow> address" where
  "address_new t = \<lparr>address_target = t, addend = 0\<rparr>"

definition address_absolute :: "u32 \<Rightarrow> address" where
  "address_absolute a = address_new (AbsoluteTarget a)"

text \<open>Effective addresses; \<open>i16\<close> displacements are 16-bit words read as signed.\<close>

datatype ea =
  DataReg u8
| AddressReg u8
| Indirect u8
| Displacement u8 u16
| AbsoluteEa address
| Immediate u32
| ImmediateAddress address

datatype condition =
  High | LowOrSame | CarryClear | CarrySet | NotEqual | Equal | OverflowClear | OverflowSet
| Plus | Minus | GreaterOrEqual | Less | Greater | LessOrEqual

fun condition_bits :: "condition \<Rightarrow> u16" where
  "condition_bits High = 2"
| "condition_bits LowOrSame = 3"
| "condition_bits CarryClear = 4"
| "condition_bits CarrySet = 5"
| "condition_bits NotEqual = 6"
| "condition_bits Equal = 7"
| "condition_bits OverflowClear = 8"
| "condition_bits OverflowSet = 9"
| "condition_bits Plus = 10"
| "condition_bits Minus = 11"
| "condition_bits GreaterOrEqual = 12"
| "condition_bits Less = 13"
| "condition_bits Greater = 14"
| "condition_bits LessOrEqual = 15"

fun condition_inverse :: "condition \<Rightarrow> condition" where
  "condition_inverse High = LowOrSame"
| "condition_inverse LowOrSame = High"
| "condition_inverse CarryClear = CarrySet"
| "condition_inverse CarrySet = CarryClear"
| "condition_inverse NotEqual = Equal"
| "condition_inverse Equal = NotEqual"
| "condition_inverse OverflowClear = OverflowSet"
| "condition_inverse OverflowSet = OverflowClear"
| "condition_inverse Plus = Minus"
| "condition_inverse Minus = Plus"
| "condition_inverse GreaterOrEqual = Less"
| "condition_inverse Less = GreaterOrEqual"
| "condition_inverse Greater = LessOrEqual"
| "condition_inverse LessOrEqual = Greater"

definition inverse_bits :: "condition \<Rightarrow> u16" where
  "inverse_bits c = condition_bits c XOR 1"

datatype alu = AluAdd | AluSub | AluAnd | AluOr | AluXor | AluCompare

datatype shift_count = ImmediateCount u8 | RegisterCount u8

datatype instruction =
  MoveQuick u8 u8
| AluImmediate alu machine_width u32 u8
| Trap u8
| AddExtend machine_width u8 u8
| AddQuick machine_width u8 u8
| MultiplyUnsignedWord u8 u8
| AddAddress ea u8
| Alu alu machine_width u8 u8
| CompareImmediate machine_width u32 u8
| Negate machine_width u8
| Extend machine_width u8
| SetCondition condition u8
| LogicalShift machine_width bool shift_count u8
| Move machine_width ea ea
| Lea ea u8
| Jump ea
| Jsr ea
| Branch condition address
| BranchRelative "condition option" address
| Link u8 u16
| Unlink u8
| Rts

record machine_block =
  machine_block_id :: machine_block_id
  instructions :: "instruction list"

lemma condition_bits_inverse: "condition_bits (condition_inverse c) = inverse_bits c"
  by (cases c) (simp_all add: inverse_bits_def)

lemma condition_inverse_inverse [simp]: "condition_inverse (condition_inverse c) = c"
  by (cases c) simp_all

lemma condition_bits_range: "2 \<le> condition_bits c \<and> condition_bits c \<le> 15"
  by (cases c) simp_all

lemma width_round_trip: "width_from_bytes (width_bytes w) = Inr w"
  by (cases w) (simp_all add: width_from_bytes_def)

end
