(* ===== verification/M68k_Encode.thy ===== *)
theory M68k_Encode
  imports M68k_Machine
begin

text \<open>
  The instruction encoder (\<open>src/src/mir68k/encode.rs\<close>). The address resolver is the caller's closure,
  here an argument; the mutable list of relocations is threaded through, \<open>None\<close> when the caller asked
  for none. Lemmas: the length of an encoding depends on the instruction alone, not on the resolver,
  the address or whether relocations are kept; it is even and between 2 and 10 bytes; each recorded
  relocation is a longword inside the instruction that holds zero.
\<close>

type_synonym resolver = "address \<Rightarrow> m68k_error + u32"

record code_relocation =
  code_offset :: u32
  code_address :: address

record relocatable_instruction =
  code_bytes :: bytes
  code_relocations :: "code_relocation list"

type_synonym relocations = "code_relocation list option"

fun size_bits :: "machine_width \<Rightarrow> u16" where
  "size_bits Byte = 0"
| "size_bits Word = 1"
| "size_bits Long = 2"

definition check_register :: "u8 \<Rightarrow> m68k_error + unit" where
  "check_register register = check (register < 8) (InvalidRegister register)"

fun control_address :: "ea \<Rightarrow> m68k_error + unit" where
  "control_address (Indirect _) = Inr ()"
| "control_address (Displacement _ _) = Inr ()"
| "control_address (AbsoluteEa _) = Inr ()"
| "control_address _ = Inl NotControlMode"

definition long_words :: "u32 \<Rightarrow> u16 list" where
  "long_words v = [ucast (drop_bit 16 v), ucast v]"

fun is_absolute_target :: "machine_target \<Rightarrow> bool" where
  "is_absolute_target (AbsoluteTarget _) = True"
| "is_absolute_target _ = False"

definition relocated_address ::
  "address \<Rightarrow> resolver \<Rightarrow> relocations \<Rightarrow> u32 \<Rightarrow> m68k_error + u32 \<times> relocations" where
  "relocated_address address resolve relocs offset =
     (case relocs of
        Some rs \<Rightarrow>
          if \<not> is_absolute_target (address_target address)
          then Inr (0, Some (rs @ [\<lparr>code_offset = offset, code_address = address\<rparr>]))
          else bind_result (resolve address) (\<lambda>v. Inr (v, relocs))
      | None \<Rightarrow> bind_result (resolve address) (\<lambda>v. Inr (v, relocs)))"

definition register_ea :: "u16 \<Rightarrow> u8 \<Rightarrow> u16 list \<Rightarrow> relocations \<Rightarrow>
    m68k_error + (u16 \<times> u16 list) \<times> relocations" where
  "register_ea mode register ext relocs =
     bind_result (check_register register) (\<lambda>_.
       Inr ((push_bit 3 mode OR ucast register, ext), relocs))"

definition long_ea :: "u16 \<Rightarrow> address \<Rightarrow> resolver \<Rightarrow> relocations \<Rightarrow> u32 \<Rightarrow>
    m68k_error + (u16 \<times> u16 list) \<times> relocations" where
  "long_ea mode_bits address resolve relocs offset =
     bind_result (relocated_address address resolve relocs offset) (\<lambda>(v, relocs).
       Inr ((mode_bits, long_words v), relocs))"

fun effective_address ::
  "ea \<Rightarrow> machine_width \<Rightarrow> resolver \<Rightarrow> relocations \<Rightarrow> u32 \<Rightarrow>
     m68k_error + (u16 \<times> u16 list) \<times> relocations"
where
  "effective_address (DataReg r) width resolve relocs offset = register_ea 0 r [] relocs"
| "effective_address (AddressReg r) width resolve relocs offset = register_ea 1 r [] relocs"
| "effective_address (Indirect r) width resolve relocs offset = register_ea 2 r [] relocs"
| "effective_address (Displacement r d) width resolve relocs offset = register_ea 5 r [d] relocs"
| "effective_address (AbsoluteEa a) width resolve relocs offset =
     long_ea 0x39 a resolve relocs offset"
| "effective_address (Immediate v) width resolve relocs offset =
     Inr ((0x3c, case width of
             Byte \<Rightarrow> [ucast (v AND 0xff)] | Word \<Rightarrow> [ucast v] | Long \<Rightarrow> long_words v), relocs)"
| "effective_address (ImmediateAddress a) width resolve relocs offset =
     (if width \<noteq> Long then Inl AddressImmediateWidth
      else long_ea 0x3c a resolve relocs offset)"

fun alu_immediate_opcode :: "alu \<Rightarrow> u16" where
  "alu_immediate_opcode AluAdd = 0x0600"
| "alu_immediate_opcode AluSub = 0x0400"
| "alu_immediate_opcode AluAnd = 0x0200"
| "alu_immediate_opcode AluOr = 0x0000"
| "alu_immediate_opcode AluXor = 0x0a00"
| "alu_immediate_opcode AluCompare = 0x0c00"

text \<open>Opcode, register field and effective-address field of a register ALU operation.\<close>

fun alu_fields :: "alu \<Rightarrow> u8 \<Rightarrow> u8 \<Rightarrow> u16 \<times> u8 \<times> u8" where
  "alu_fields AluAdd source destination = (0xd000, destination, source)"
| "alu_fields AluSub source destination = (0x9000, destination, source)"
| "alu_fields AluAnd source destination = (0xc000, destination, source)"
| "alu_fields AluOr source destination = (0x8000, destination, source)"
| "alu_fields AluXor source destination = (0xb100, source, destination)"
| "alu_fields AluCompare source destination = (0xb000, destination, source)"

definition immediate_words :: "machine_width \<Rightarrow> u32 \<Rightarrow> u16 list" where
  "immediate_words width v =
     (if width = Long then long_words v
      else [ucast v AND (if width = Byte then 0xff else 0xffff)])"

text \<open>The result of an instruction without operands that may be relocated.\<close>

definition plain :: "u16 list \<Rightarrow> relocations \<Rightarrow> m68k_error + u16 list \<times> relocations" where
  "plain words relocs = Inr (words, relocs)"

fun is_immediate :: "ea \<Rightarrow> bool" where
  "is_immediate (Immediate _) = True"
| "is_immediate (ImmediateAddress _) = True"
| "is_immediate _ = False"

fun is_address_register :: "ea \<Rightarrow> bool" where
  "is_address_register (AddressReg _) = True"
| "is_address_register _ = False"

fun shift_fields :: "shift_count \<Rightarrow> m68k_error + u8 \<times> u16" where
  "shift_fields (RegisterCount r) = bind_result (check_register r) (\<lambda>_. Inr (r, 0x20))"
| "shift_fields (ImmediateCount n) =
     (if 1 \<le> n \<and> n \<le> 8 then Inr (n AND 7, 0) else Inl ShiftCountRange)"

fun move_opcode :: "machine_width \<Rightarrow> u16" where
  "move_opcode Byte = 0x1000"
| "move_opcode Word = 0x3000"
| "move_opcode Long = 0x2000"

definition move_words ::
  "machine_width \<Rightarrow> ea \<Rightarrow> ea \<Rightarrow> resolver \<Rightarrow> relocations \<Rightarrow> m68k_error + u16 list \<times> relocations" where
  "move_words width source destination resolve relocs =
     (if is_immediate destination then Inl MoveDestinationNotAlterable
      else if width = Byte \<and> (is_address_register source \<or> is_address_register destination)
      then Inl NoByteAddressMove
      else bind_result (effective_address source width resolve relocs 2) (\<lambda>((src, src_ext), relocs).
        bind_result
          (effective_address destination width resolve relocs (2 + of_nat (length src_ext) * 2))
          (\<lambda>((dst, dst_ext), relocs).
             Inr ([move_opcode width OR push_bit 9 (dst AND 7) OR push_bit 6 (drop_bit 3 dst) OR src]
                  @ src_ext @ dst_ext, relocs))))"

definition control_words ::
  "u16 \<Rightarrow> ea \<Rightarrow> resolver \<Rightarrow> relocations \<Rightarrow> m68k_error + u16 list \<times> relocations" where
  "control_words opcode ea resolve relocs =
     bind_result (control_address ea) (\<lambda>_.
       bind_result (effective_address ea Long resolve relocs 2) (\<lambda>((bits, ext), relocs).
         Inr ((opcode OR bits) # ext, relocs)))"

text \<open>\<open>i16::try_from\<close> of the displacement to the target from the word after the opcode.\<close>

definition relative_words ::
  "condition option \<Rightarrow> address \<Rightarrow> u32 \<Rightarrow> resolver \<Rightarrow> relocations \<Rightarrow> m68k_error + u16 list \<times> relocations"
where
  "relative_words condition target address resolve relocs =
     bind_result (resolve target) (\<lambda>v.
       let displacement = uint v - (uint address + 2)
       in if - 32768 \<le> displacement \<and> displacement \<le> 32767
          then Inr ([0x6000 OR push_bit 8 (case condition of None \<Rightarrow> 0 | Some c \<Rightarrow> condition_bits c),
                     word_of_int displacement], relocs)
          else Inl BranchDisplacementRange)"

fun encode_words ::
  "instruction \<Rightarrow> u32 \<Rightarrow> resolver \<Rightarrow> relocations \<Rightarrow> m68k_error + u16 list \<times> relocations"
where
  "encode_words (MoveQuick v register) address resolve relocs =
     bind_result (check_register register) (\<lambda>_.
       plain [0x7000 OR push_bit 9 (ucast register) OR ucast v] relocs)"
| "encode_words (AluImmediate operation width v destination) address resolve relocs =
     bind_result (check_register destination) (\<lambda>_.
       plain ((alu_immediate_opcode operation OR push_bit 6 (size_bits width) OR ucast destination)
              # immediate_words width v) relocs)"
| "encode_words (Trap vector) address resolve relocs =
     (if 15 < vector then Inl TrapVectorRange else plain [0x4e40 OR ucast vector] relocs)"
| "encode_words (AddExtend width source destination) address resolve relocs =
     bind_result (check_register source) (\<lambda>_. bind_result (check_register destination) (\<lambda>_.
       plain [0xd100 OR push_bit 9 (ucast destination) OR push_bit 6 (size_bits width)
              OR ucast source] relocs))"
| "encode_words (AddQuick width delta register) address resolve relocs =
     bind_result (check_register register) (\<lambda>_.
       if (- 8 \<le> sint delta \<and> sint delta \<le> - 1) \<or> (1 \<le> sint delta \<and> sint delta \<le> 8)
       then plain [0x5000 OR push_bit 9 (word_of_int (abs (sint delta)) AND 7)
                   OR (if sint delta < 0 then 0x100 else 0)
                   OR push_bit 6 (size_bits width) OR ucast register] relocs
       else Inl QuickMagnitudeRange)"
| "encode_words (MultiplyUnsignedWord source destination) address resolve relocs =
     bind_result (check_register source) (\<lambda>_. bind_result (check_register destination) (\<lambda>_.
       plain [0xc0c0 OR push_bit 9 (ucast destination) OR ucast source] relocs))"
| "encode_words (AddAddress source destination) address resolve relocs =
     bind_result (check_register destination) (\<lambda>_.
       bind_result (effective_address source Long resolve relocs 2) (\<lambda>((ea, ext), relocs).
         Inr ((0xd1c0 OR push_bit 9 (ucast destination) OR ea) # ext, relocs)))"
| "encode_words (Alu operation width source destination) address resolve relocs =
     bind_result (check_register source) (\<lambda>_. bind_result (check_register destination) (\<lambda>_.
       let (opcode, reg, ea) = alu_fields operation source destination
       in plain [opcode OR push_bit 9 (ucast reg) OR push_bit 6 (size_bits width) OR ucast ea] relocs))"
| "encode_words (CompareImmediate width v destination) address resolve relocs =
     bind_result (check_register destination) (\<lambda>_.
       plain ((0x0c00 OR push_bit 6 (size_bits width) OR ucast destination)
              # immediate_words width v) relocs)"
| "encode_words (Negate width register) address resolve relocs =
     bind_result (check_register register) (\<lambda>_.
       plain [0x4400 OR push_bit 6 (size_bits width) OR ucast register] relocs)"
| "encode_words (Extend to_width register) address resolve relocs =
     bind_result (check_register register) (\<lambda>_.
       case to_width of
         Word \<Rightarrow> plain [0x4880 OR ucast register] relocs
       | Long \<Rightarrow> plain [0x48c0 OR ucast register] relocs
       | Byte \<Rightarrow> Inl ExtendNeedsWordOrLong)"
| "encode_words (SetCondition condition register) address resolve relocs =
     bind_result (check_register register) (\<lambda>_.
       plain [0x50c0 OR push_bit 8 (condition_bits condition) OR ucast register] relocs)"
| "encode_words (LogicalShift width left count register) address resolve relocs =
     bind_result (check_register register) (\<lambda>_.
       bind_result (shift_fields count) (\<lambda>(count, dynamic).
         plain [0xe008 OR push_bit 9 (ucast count) OR (if left then 0x100 else 0)
                OR push_bit 6 (size_bits width) OR dynamic OR ucast register] relocs))"
| "encode_words (Move width source destination) address resolve relocs =
     move_words width source destination resolve relocs"
| "encode_words (Lea source destination) address resolve relocs =
     bind_result (check_register destination) (\<lambda>_.
       control_words (0x41c0 OR push_bit 9 (ucast destination)) source resolve relocs)"
| "encode_words (Jump ea) address resolve relocs = control_words 0x4ec0 ea resolve relocs"
| "encode_words (Jsr ea) address resolve relocs = control_words 0x4e80 ea resolve relocs"
| "encode_words (Branch condition target) address resolve relocs =
     bind_result (relocated_address target resolve relocs 4) (\<lambda>(v, relocs).
       Inr ([0x6006 OR push_bit 8 (inverse_bits condition), 0x4ef9] @ long_words v, relocs))"
| "encode_words (BranchRelative condition target) address resolve relocs =
     relative_words condition target address resolve relocs"
| "encode_words (Link register displacement) address resolve relocs =
     bind_result (check_register register) (\<lambda>_.
       plain [0x4e50 OR ucast register, displacement] relocs)"
| "encode_words (Unlink register) address resolve relocs =
     bind_result (check_register register) (\<lambda>_. plain [0x4e58 OR ucast register] relocs)"
| "encode_words Rts address resolve relocs = plain [0x4e75] relocs"

definition to_be_bytes16 :: "u16 \<Rightarrow> bytes" where
  "to_be_bytes16 w = [ucast (drop_bit 8 w), ucast w]"

definition encode_inner ::
  "instruction \<Rightarrow> u32 \<Rightarrow> resolver \<Rightarrow> relocations \<Rightarrow> m68k_error + bytes \<times> relocations" where
  "encode_inner i address resolve relocs =
     bind_result (encode_words i address resolve relocs) (\<lambda>(words, relocs).
       Inr (concat (map to_be_bytes16 words), relocs))"

definition encode_at :: "instruction \<Rightarrow> u32 \<Rightarrow> resolver \<Rightarrow> m68k_error + bytes" where
  "encode_at i address resolve =
     bind_result (encode_inner i address resolve None) (\<lambda>(bs, _). Inr bs)"

definition encode :: "instruction \<Rightarrow> resolver \<Rightarrow> m68k_error + bytes" where
  "encode i resolve = encode_at i 0 resolve"

definition encode_relocatable ::
  "instruction \<Rightarrow> u32 \<Rightarrow> resolver \<Rightarrow> m68k_error + relocatable_instruction" where
  "encode_relocatable i offset resolve =
     bind_result (encode_inner i offset resolve (Some [])) (\<lambda>(bs, relocs).
       Inr \<lparr>code_bytes = bs, code_relocations = (case relocs of None \<Rightarrow> [] | Some rs \<Rightarrow> rs)\<rparr>)"

fun is_branch_relative :: "instruction \<Rightarrow> bool" where
  "is_branch_relative (BranchRelative _ _) = True"
| "is_branch_relative _ = False"

definition code_size :: "instruction \<Rightarrow> m68k_error + u32" where
  "code_size i =
     (if is_branch_relative i then Inr 4
      else bind_result (encode i (\<lambda>_. Inr 0)) (\<lambda>bs. Inr (of_nat (length bs))))"

section \<open>Lengths\<close>

text \<open>The number of extension words of an operand, and of words of an instruction, by shape alone.\<close>

fun ea_words :: "ea \<Rightarrow> machine_width \<Rightarrow> nat" where
  "ea_words (Displacement _ _) _ = 1"
| "ea_words (AbsoluteEa _) _ = 2"
| "ea_words (Immediate _) width = (if width = Long then 2 else 1)"
| "ea_words (ImmediateAddress _) _ = 2"
| "ea_words _ _ = 0"

fun instruction_words :: "instruction \<Rightarrow> nat" where
  "instruction_words (AluImmediate _ width _ _) = (if width = Long then 3 else 2)"
| "instruction_words (AddAddress source _) = 1 + ea_words source Long"
| "instruction_words (CompareImmediate width _ _) = (if width = Long then 3 else 2)"
| "instruction_words (Move width source destination) =
     1 + ea_words source width + ea_words destination width"
| "instruction_words (Lea source _) = 1 + ea_words source Long"
| "instruction_words (Jump ea) = 1 + ea_words ea Long"
| "instruction_words (Jsr ea) = 1 + ea_words ea Long"
| "instruction_words (Branch _ _) = 4"
| "instruction_words (BranchRelative _ _) = 2"
| "instruction_words (Link _ _) = 2"
| "instruction_words _ = 1"

lemma length_long_words [simp]: "length (long_words v) = 2"
  by (simp add: long_words_def)

lemma length_immediate_words [simp]: "length (immediate_words w v) = (if w = Long then 2 else 1)"
  by (simp add: immediate_words_def)

lemma effective_address_length:
  "effective_address ea width resolve relocs off = Inr ((bits, ext), relocs') \<Longrightarrow>
     length ext = ea_words ea width"
  by (cases ea) (auto simp: register_ea_def long_ea_def split: machine_width.splits if_splits)

lemma encode_words_length:
  "encode_words i address resolve relocs = Inr (words, relocs') \<Longrightarrow>
     length words = instruction_words i"
  by (cases i)
    (auto simp: plain_def move_words_def control_words_def relative_words_def Let_def
        dest!: effective_address_length split: if_splits machine_width.splits prod.splits)

lemma ea_words_le: "ea_words ea w \<le> 2"
  by (cases ea) auto

lemma instruction_words_range: "1 \<le> instruction_words i \<and> instruction_words i \<le> 5"
proof (cases i)
  case (Move w a b)
  then show ?thesis using ea_words_le [of a w] ea_words_le [of b w] by simp
next
  case (AddAddress a _)
  then show ?thesis using ea_words_le [of a Long] by simp
next
  case (Lea a _)
  then show ?thesis using ea_words_le [of a Long] by simp
next
  case (Jump a)
  then show ?thesis using ea_words_le [of a Long] by simp
next
  case (Jsr a)
  then show ?thesis using ea_words_le [of a Long] by simp
qed auto

lemma length_to_be_bytes16: "length (concat (map to_be_bytes16 ws)) = 2 * length ws"
  by (induction ws) (simp_all add: to_be_bytes16_def)

text \<open>Whether an instruction encodes does not depend on the addresses the resolver supplies.\<close>

abbreviation zero_resolver :: resolver where
  "zero_resolver \<equiv> \<lambda>_. Inr 0"

lemma relocated_address_zero [simp]: "relocated_address a zero_resolver None off = Inr (0, None)"
  by (simp add: relocated_address_def)

lemma effective_address_zero:
  "effective_address ea width resolve relocs off = Inr ((bits, ext), relocs') \<Longrightarrow>
     \<exists>ext0. effective_address ea width zero_resolver None off0 = Inr ((bits, ext0), None)"
  by (cases ea) (auto simp: register_ea_def long_ea_def split: if_splits)

lemma control_words_zero:
  assumes "control_words opcode ea resolve relocs = Inr (words, relocs')"
  shows "\<exists>words0. control_words opcode ea zero_resolver None = Inr (words0, None)"
proof -
  from assms obtain bits ext relocs1 where c: "control_address ea = Inr ()"
    and e: "effective_address ea Long resolve relocs 2 = Inr ((bits, ext), relocs1)"
    by (auto simp: control_words_def)
  from effective_address_zero [OF e, of 2] c show ?thesis by (auto simp: control_words_def)
qed

lemma move_words_zero:
  assumes "move_words width source destination resolve relocs = Inr (words, relocs')"
  shows "\<exists>words0. move_words width source destination zero_resolver None = Inr (words0, None)"
proof -
  from assms obtain src src_ext relocs1 dst dst_ext relocs2 where
    ok: "\<not> is_immediate destination"
      "\<not> (width = Byte \<and> (is_address_register source \<or> is_address_register destination))" and
    s: "effective_address source width resolve relocs 2 = Inr ((src, src_ext), relocs1)" and
    d: "effective_address destination width resolve relocs1 (2 + of_nat (length src_ext) * 2) =
      Inr ((dst, dst_ext), relocs2)"
    by (auto simp: move_words_def split: if_splits)
  from effective_address_zero [OF s, of 2] obtain e0 where
    "effective_address source width zero_resolver None 2 = Inr ((src, e0), None)" by blast
  moreover from effective_address_zero [OF d, of "2 + of_nat (length e0) * 2"] obtain e1 where
    "effective_address destination width zero_resolver None (2 + of_nat (length e0) * 2) =
      Inr ((dst, e1), None)" by blast
  ultimately show ?thesis using ok by (simp add: move_words_def)
qed

lemma encode_words_zero:
  assumes "encode_words i address resolve relocs = Inr (words, relocs')" "\<not> is_branch_relative i"
  shows "\<exists>words0. encode_words i 0 zero_resolver None = Inr (words0, None)"
proof (cases i)
  case (Move w a b)
  then show ?thesis using assms move_words_zero by simp
next
  case (AddAddress a d)
  with assms obtain bits ext relocs1 where "check_register d = Inr ()"
    "effective_address a Long resolve relocs 2 = Inr ((bits, ext), relocs1)" by auto
  with effective_address_zero [OF this(2), of 2] show ?thesis by (auto simp: AddAddress)
next
  case (Lea a d)
  with assms obtain words1 relocs1 where "check_register d = Inr ()"
    "control_words (0x41c0 OR push_bit 9 (ucast d)) a resolve relocs = Inr (words1, relocs1)" by auto
  with control_words_zero [OF this(2)] show ?thesis by (auto simp: Lea)
next
  case (Jump a)
  then show ?thesis using assms control_words_zero by simp
next
  case (Jsr a)
  then show ?thesis using assms control_words_zero by simp
qed (use assms in \<open>auto simp: plain_def Let_def split: if_splits machine_width.splits prod.splits\<close>)

section \<open>Relocatable encodings\<close>

definition be_long :: "u32 \<Rightarrow> bytes" where
  "be_long v = [nth_byte 3 v, nth_byte 2 v, nth_byte 1 v, nth_byte 0 v]"

definition patch_long :: "nat \<Rightarrow> u32 \<Rightarrow> bytes \<Rightarrow> bytes" where
  "patch_long off v bs = take off bs @ be_long v @ drop (off + 4) bs"

definition word_bytes_of :: "u16 list \<Rightarrow> bytes" where
  "word_bytes_of ws = concat (map to_be_bytes16 ws)"

definition resolved :: "resolver \<Rightarrow> address \<Rightarrow> u32" where
  "resolved resolve a = (case resolve a of Inl _ \<Rightarrow> 0 | Inr v \<Rightarrow> v)"

definition link_instruction :: "resolver \<Rightarrow> code_relocation list \<Rightarrow> bytes \<Rightarrow> bytes" where
  "link_instruction resolve relocs bs =
     fold (\<lambda>r. patch_long (unat (code_offset r)) (resolved resolve (code_address r))) relocs bs"

lemma word_bytes_of_append [simp]: "word_bytes_of (xs @ ys) = word_bytes_of xs @ word_bytes_of ys"
  by (simp add: word_bytes_of_def)

lemma length_word_bytes_of [simp]: "length (word_bytes_of ws) = 2 * length ws"
  by (simp add: word_bytes_of_def length_to_be_bytes16)

lemma to_be_bytes16_nth: "to_be_bytes16 w = [nth_byte 1 w, nth_byte 0 w]"
  by (simp add: to_be_bytes16_def nth_byte_def)

lemma long_word_bytes: "word_bytes_of (long_words v) = be_long v"
proof -
  have h: "nth_byte i (ucast (drop_bit 16 v) :: u16) = nth_byte (i + 2) v" if "i < 2" for i
    using that by (intro bit_word_eqI) (auto simp: nth_byte_def bit_simps less_Suc_eq numeral_2_eq_2)
  have l: "nth_byte i (ucast v :: u16) = nth_byte i v" if "i < 2" for i
    using that by (intro bit_word_eqI) (auto simp: nth_byte_def bit_simps less_Suc_eq numeral_2_eq_2)
  show ?thesis
    using h [of 1] h [of 0] l [of 1] l [of 0]
    by (simp add: word_bytes_of_def long_words_def to_be_bytes16_nth be_long_def numeral_eq_Suc)
qed

lemma patch_long_middle:
  assumes "unat off = 2 * length pre"
  shows "patch_long (unat off) v (word_bytes_of (pre @ long_words u @ post)) =
     word_bytes_of (pre @ long_words v @ post)"
proof -
  have "length (be_long w) = 4" for w by (simp add: be_long_def)
  then show ?thesis using assms by (simp add: patch_long_def long_word_bytes)
qed

text \<open>An operand encoded with relocations: the same words, or zeros and one relocation for them.\<close>

lemma effective_address_relocatable:
  assumes "effective_address e w resolve None off = Inr ((bits, ext), x)"
  obtains (same) "effective_address e w resolve (Some rs) off = Inr ((bits, ext), Some rs)"
  | (reloc) a v where "\<not> is_absolute_target (address_target a)" "resolve a = Inr v"
      "ext = long_words v"
      "effective_address e w resolve (Some rs) off =
         Inr ((bits, long_words 0), Some (rs @ [\<lparr>code_offset = off, code_address = a\<rparr>]))"
proof -
  have "effective_address e w resolve (Some rs) off = Inr ((bits, ext), Some rs) \<or>
    (\<exists>a v. \<not> is_absolute_target (address_target a) \<and> resolve a = Inr v \<and> ext = long_words v \<and>
      effective_address e w resolve (Some rs) off =
         Inr ((bits, long_words 0), Some (rs @ [\<lparr>code_offset = off, code_address = a\<rparr>])))"
    using assms
    by (cases e) (auto simp: register_ea_def long_ea_def relocated_address_def split: if_splits)
  then show thesis using same reloc by blast
qed

text \<open>The relocations of an encoded instruction: even offsets of zero longwords inside it, in order,
  never of an absolute address.\<close>

fun well_placed :: "nat \<Rightarrow> code_relocation list \<Rightarrow> bytes \<Rightarrow> bool" where
  "well_placed start [] bs = True"
| "well_placed start (r # rs) bs =
     (start \<le> unat (code_offset r) \<and> even (unat (code_offset r)) \<and>
      unat (code_offset r) + 4 \<le> length bs \<and>
      take 4 (drop (unat (code_offset r)) bs) = [0, 0, 0, 0] \<and>
      \<not> is_absolute_target (address_target (code_address r)) \<and>
      well_placed (unat (code_offset r) + 4) rs bs)"

definition linked :: "resolver \<Rightarrow> code_relocation list \<Rightarrow> u16 list \<Rightarrow> u16 list \<Rightarrow> bool" where
  "linked resolve relocs words0 words \<longleftrightarrow>
     link_instruction resolve relocs (word_bytes_of words0) = word_bytes_of words \<and>
     well_placed 2 relocs (word_bytes_of words0)"

lemma linked_none: "linked resolve [] words words"
  by (simp add: linked_def link_instruction_def)

lemma be_long_zero: "be_long 0 = [0, 0, 0, 0]"
  by (simp add: be_long_def nth_byte_def)

lemma linked_one:
  assumes "unat off = 2 * length pre" "pre \<noteq> []" "resolve a = Inr v"
    "\<not> is_absolute_target (address_target a)"
  shows "linked resolve [\<lparr>code_offset = off, code_address = a\<rparr>]
     (pre @ long_words 0 @ post) (pre @ long_words v @ post)"
proof -
  have "2 \<le> unat off" using assms(1,2) by (cases pre) auto
  then show ?thesis
    using assms patch_long_middle [OF assms(1), of v 0 post]
    by (simp add: linked_def link_instruction_def resolved_def long_word_bytes be_long_zero)
qed

lemma linked_two:
  assumes "unat off1 = 2 * length pre" "pre \<noteq> []" "unat off2 = 2 * (length pre + 2)"
    "resolve a = Inr v" "resolve b = Inr w"
    "\<not> is_absolute_target (address_target a)" "\<not> is_absolute_target (address_target b)"
  shows "linked resolve
     [\<lparr>code_offset = off1, code_address = a\<rparr>, \<lparr>code_offset = off2, code_address = b\<rparr>]
     (pre @ long_words 0 @ long_words 0) (pre @ long_words v @ long_words w)"
proof -
  have "2 \<le> unat off1" using assms(1,2) by (cases pre) auto
  moreover have "unat off2 = 2 * length (pre @ long_words v)" using assms(3) by simp
  from patch_long_middle [OF this, of w 0 "[]"] have
    "patch_long (unat off2) w (word_bytes_of (pre @ long_words v @ long_words 0)) =
      word_bytes_of (pre @ long_words v @ long_words w)" by simp
  ultimately show ?thesis
    using assms patch_long_middle [OF assms(1), of v 0 "long_words 0"]
    by (simp add: linked_def link_instruction_def resolved_def long_word_bytes be_long_zero)
qed

text \<open>One operand after an opcode, and the two operands of a move.\<close>

lemma one_operand_linked:
  assumes e: "effective_address ea w resolve None 2 = Inr ((bits, ext), x)"
  obtains ext0 rs where
    "effective_address ea w resolve (Some []) 2 = Inr ((bits, ext0), Some rs)"
    "\<And>opcode. linked resolve rs (opcode # ext0) (opcode # ext)"
  using e
proof (cases rule: effective_address_relocatable [where rs = "[]"])
  case same
  then show ?thesis using that linked_none by blast
next
  case (reloc a v)
  have "linked resolve [\<lparr>code_offset = 2, code_address = a\<rparr>] (opcode # long_words 0) (opcode # ext)" for opcode
    using linked_one [of 2 "[opcode]" resolve a v "[]"] reloc by simp
  with reloc that show ?thesis by simp
qed

lemma move_linked:
  assumes "move_words w s d resolve None = Inr (words, x)"
  shows "\<exists>words0 rs. move_words w s d resolve (Some []) = Inr (words0, Some rs) \<and>
    linked resolve rs words0 words"
proof -
  from assms obtain src src_ext y dst dst_ext z where
    ok: "\<not> is_immediate d" "\<not> (w = Byte \<and> (is_address_register s \<or> is_address_register d))" and
    se: "effective_address s w resolve None 2 = Inr ((src, src_ext), y)" and
    de: "effective_address d w resolve y (2 + of_nat (length src_ext) * 2) = Inr ((dst, dst_ext), z)" and
    words: "words = [move_opcode w OR push_bit 9 (dst AND 7) OR push_bit 6 (drop_bit 3 dst) OR src]
      @ src_ext @ dst_ext"
    by (auto simp: move_words_def split: if_splits)
  have y: "y = None"
    using se by (cases s) (auto simp: register_ea_def long_ea_def relocated_address_def split: if_splits)
  let ?op = "move_opcode w OR push_bit 9 (dst AND 7) OR push_bit 6 (drop_bit 3 dst) OR src"
  let ?off = "2 + of_nat (length src_ext) * 2 :: u32"
  have len: "length src_ext \<le> 2" using effective_address_length [OF se] ea_words_le by simp
  then have off: "unat ?off = 2 * length (?op # src_ext)"
  proof -
    consider "length src_ext = 0" | "length src_ext = 1" | "length src_ext = 2" using len by linarith
    then show ?thesis by cases simp_all
  qed
  note de = de [unfolded y]
  from se show ?thesis
  proof (cases rule: effective_address_relocatable [where rs = "[]"])
    case same
    from de show ?thesis
    proof (cases rule: effective_address_relocatable [where rs = "[]"])
      case 1: same
      with same ok show ?thesis by (auto simp: move_words_def words intro: linked_none)
    next
      case (reloc a v)
      have "linked resolve [\<lparr>code_offset = ?off, code_address = a\<rparr>]
          ((?op # src_ext) @ long_words 0 @ []) ((?op # src_ext) @ long_words v @ [])"
        by (rule linked_one) (use off reloc in auto)
      with same reloc ok show ?thesis by (simp add: move_words_def words)
    qed
  next
    case (reloc a v)
    note src = reloc
    let ?rs = "[\<lparr>code_offset = 2, code_address = a\<rparr>]"
    have two: "length (long_words 0) = length src_ext" using src by simp
    from de show ?thesis
    proof (cases rule: effective_address_relocatable [where rs = ?rs])
      case same
      have "linked resolve ?rs ([?op] @ long_words 0 @ dst_ext) ([?op] @ long_words v @ dst_ext)"
        by (rule linked_one) (use src in auto)
      with same src ok two show ?thesis by (simp add: move_words_def words)
    next
      case (reloc b u)
      have "linked resolve [\<lparr>code_offset = 2, code_address = a\<rparr>, \<lparr>code_offset = ?off, code_address = b\<rparr>]
          ([?op] @ long_words 0 @ long_words 0) ([?op] @ long_words v @ long_words u)"
        by (rule linked_two) (use off src reloc two in auto)
      with reloc src ok two show ?thesis by (simp add: move_words_def words)
    qed
  qed
qed

lemma control_linked:
  assumes "control_words opcode ea resolve None = Inr (words, x)"
  shows "\<exists>words0 rs. control_words opcode ea resolve (Some []) = Inr (words0, Some rs) \<and>
    linked resolve rs words0 words"
proof -
  from assms obtain bits ext where c: "control_address ea = Inr ()"
    and e: "effective_address ea Long resolve None 2 = Inr ((bits, ext), x)"
    and w: "words = (opcode OR bits) # ext" by (auto simp: control_words_def)
  from e obtain ext0 rs where
    "effective_address ea Long resolve (Some []) 2 = Inr ((bits, ext0), Some rs)"
    "linked resolve rs ((opcode OR bits) # ext0) ((opcode OR bits) # ext)"
    by (rule one_operand_linked) blast
  with c w show ?thesis by (simp add: control_words_def)
qed

lemma encode_words_linked:
  assumes enc: "encode_words i address resolve None = Inr (words, x)"
  shows "\<exists>words0 rs. encode_words i address resolve (Some []) = Inr (words0, Some rs) \<and>
    linked resolve rs words0 words"
proof (cases i)
  case (Move w a b)
  with enc move_linked show ?thesis by simp
next
  case (AddAddress a d)
  from enc obtain bits ext where c: "check_register d = Inr ()"
    and e: "effective_address a Long resolve None 2 = Inr ((bits, ext), x)"
    and w: "words = (0xd1c0 OR push_bit 9 (ucast d) OR bits) # ext" by (auto simp: AddAddress)
  from e obtain ext0 rs where
    "effective_address a Long resolve (Some []) 2 = Inr ((bits, ext0), Some rs)"
    "\<And>opcode. linked resolve rs (opcode # ext0) (opcode # ext)"
    by (rule one_operand_linked) blast
  with c w show ?thesis by (simp add: AddAddress)
next
  case (Lea a d)
  with enc obtain c: "check_register d = Inr ()"
    and "control_words (0x41c0 OR push_bit 9 (ucast d)) a resolve None = Inr (words, x)" by auto
  with control_linked show ?thesis by (fastforce simp: Lea)
next
  case (Jump a)
  with enc control_linked show ?thesis by simp
next
  case (Jsr a)
  with enc control_linked show ?thesis by simp
next
  case (Branch c a)
  let ?pre = "[0x6006 OR push_bit 8 (inverse_bits c), 0x4ef9 :: u16]"
  show ?thesis
  proof (cases "is_absolute_target (address_target a)")
    case True
    with enc show ?thesis
      by (auto simp: Branch relocated_address_def intro: linked_none)
  next
    case False
    with enc obtain v where v: "resolve a = Inr v" "words = ?pre @ long_words v"
      by (auto simp: Branch relocated_address_def)
    have "linked resolve [\<lparr>code_offset = 4, code_address = a\<rparr>] (?pre @ long_words 0 @ [])
        (?pre @ long_words v @ [])"
      by (rule linked_one) (use v False in auto)
    with v False show ?thesis by (auto simp: Branch relocated_address_def)
  qed
qed (use enc linked_none in
    \<open>auto simp: plain_def Let_def relative_words_def split: if_splits machine_width.splits prod.splits\<close>)

section \<open>Properties\<close>

text \<open>C16: linking is consistent with direct encoding. Whenever an instruction encodes directly at an
  address, its relocatable form also encodes; every relocation of it marks an even, non-overlapping
  longword of zeros after the opcode word and never names an absolute address; and storing the
  resolved addresses big-endian at those places gives exactly the direct encoding.\<close>

theorem relocatable_links_to_direct:
  assumes "encode_at i a resolve = Inr bs"
  shows "\<exists>ri. encode_relocatable i a resolve = Inr ri \<and>
     well_placed 2 (code_relocations ri) (code_bytes ri) \<and>
     link_instruction resolve (code_relocations ri) (code_bytes ri) = bs"
proof -
  from assms obtain words x where w: "encode_words i a resolve None = Inr (words, x)"
    and bs: "bs = word_bytes_of words"
    by (auto simp: encode_at_def encode_inner_def word_bytes_of_def)
  from encode_words_linked [OF w] obtain words0 rs where
    r: "encode_words i a resolve (Some []) = Inr (words0, Some rs)" "linked resolve rs words0 words"
    by blast
  then have "encode_relocatable i a resolve =
      Inr \<lparr>code_bytes = word_bytes_of words0, code_relocations = rs\<rparr>"
    by (simp add: encode_relocatable_def encode_inner_def word_bytes_of_def)
  with r(2) bs show ?thesis by (simp add: linked_def)
qed

definition sample_target :: address where
  "sample_target = \<lparr>address_target = BlockTarget 7, addend = -2\<rparr>"

theorem relocatable_links_to_direct_witness:
  "\<exists>ri. encode_relocatable (Move Long (AbsoluteEa sample_target) (AbsoluteEa sample_target)) 0
      (\<lambda>_. Inr 0x12345) = Inr ri \<and> length (code_relocations ri) = 2 \<and>
     link_instruction (\<lambda>_. Inr 0x12345) (code_relocations ri) (code_bytes ri) =
       [0x23, 0xf9, 0, 1, 0x23, 0x45, 0, 1, 0x23, 0x45]"
proof -
  have "encode_at (Move Long (AbsoluteEa sample_target) (AbsoluteEa sample_target)) 0 (\<lambda>_. Inr 0x12345) =
      Inr [0x23, 0xf9, 0, 1, 0x23, 0x45, 0, 1, 0x23, 0x45]"
    by code_simp
  from relocatable_links_to_direct [OF this] obtain ri where
    ri: "encode_relocatable (Move Long (AbsoluteEa sample_target) (AbsoluteEa sample_target)) 0
      (\<lambda>_. Inr 0x12345) = Inr ri"
    "link_instruction (\<lambda>_. Inr 0x12345) (code_relocations ri) (code_bytes ri) =
       [0x23, 0xf9, 0, 1, 0x23, 0x45, 0, 1, 0x23, 0x45]" by blast
  have "length (code_relocations ri) = 2"
    using ri(1)
    by (auto simp: encode_relocatable_def encode_inner_def move_words_def long_ea_def
        relocated_address_def sample_target_def)
  with ri show ?thesis by blast
qed

text \<open>C17: the size the layout passes use is the real one: when an instruction encodes at any address
  with any resolver, \<open>code_size\<close> succeeds with the length of that encoding, which is even and between
  2 and 10 bytes.\<close>

theorem code_size_exact:
  assumes "encode_at i a resolve = Inr bs"
  shows "code_size i = Inr (of_nat (length bs)) \<and> even (length bs) \<and> 2 \<le> length bs \<and> length bs \<le> 10"
proof -
  from assms obtain words x where w: "encode_words i a resolve None = Inr (words, x)"
    and bs: "length bs = 2 * length words"
    by (auto simp: encode_at_def encode_inner_def length_to_be_bytes16)
  have len: "length words = instruction_words i" by (rule encode_words_length [OF w])
  have "code_size i = Inr (of_nat (length bs))"
  proof (cases "is_branch_relative i")
    case True
    then show ?thesis using bs len by (cases i) (simp_all add: code_size_def)
  next
    case False
    from encode_words_zero [OF w False] obtain words0 where
      w0: "encode_words i 0 zero_resolver None = Inr (words0, None)" by blast
    have "length words0 = instruction_words i" by (rule encode_words_length [OF w0])
    with w0 False bs len show ?thesis
      by (simp add: code_size_def encode_def encode_at_def encode_inner_def length_to_be_bytes16)
  qed
  with bs len instruction_words_range [of i] show ?thesis by simp
qed

theorem code_size_exact_witness:
  "encode_at (Lea (AbsoluteEa sample_target) 2) 0x40 (\<lambda>_. Inr 0x12345) =
     Inr [0x45, 0xf9, 0, 1, 0x23, 0x45] \<and>
   code_size (Lea (AbsoluteEa sample_target) 2) = Inr 6"
proof -
  have e: "encode_at (Lea (AbsoluteEa sample_target) 2) 0x40 (\<lambda>_. Inr 0x12345) =
      Inr [0x45, 0xf9, 0, 1, 0x23, 0x45]"
    by code_simp
  from code_size_exact [OF this] e show ?thesis by simp
qed

end
