(* ===== verification/M68k_Relax.thy ===== *)
theory M68k_Relax
  imports M68k_Encode
begin

text \<open>
  Word-branch relaxation (\<open>src/src/mir68k/branch_relaxation.rs\<close>): passes that lay the program out and
  shorten every long branch or jump to a block label that is within a signed word, until a pass
  changes nothing. The program's routine table and platform are untouched by the code and left out.
  The unbounded loop is \<open>while_option\<close>. Lemmas: the loop ends; a shortened instruction stays in range
  in every later, shorter layout; no remaining long branch could be shortened.
\<close>

type_synonym labels = "machine_block_id \<rightharpoonup> u32"

section \<open>One layout\<close>

definition layout_instruction :: "instruction \<Rightarrow> u32 \<Rightarrow> m68k_error + u32" where
  "layout_instruction i cursor =
     bind_result (code_size i) (\<lambda>s. ok_or CodeSizeOverflow (checked_add32 cursor s))"

definition layout_block :: "machine_block \<Rightarrow> labels \<times> u32 \<Rightarrow> m68k_error + labels \<times> u32" where
  "layout_block b st =
     (let (labels, cursor) = st
      in bind_result (check (labels (machine_block_id b) = None) DuplicateMachineBlock) (\<lambda>_.
           bind_result (for_each layout_instruction (instructions b) cursor) (\<lambda>c.
             Inr (labels(machine_block_id b \<mapsto> cursor), c))))"

definition layout :: "machine_block list \<Rightarrow> m68k_error + labels" where
  "layout blocks = bind_result (for_each layout_block blocks (Map.empty, 0)) (\<lambda>(labels, _). Inr labels)"

section \<open>One shortening pass\<close>

fun relax_candidate :: "instruction \<Rightarrow> (condition option \<times> address) option" where
  "relax_candidate (Branch c t) = Some (Some c, t)"
| "relax_candidate (Jump (AbsoluteEa t)) = Some (None, t)"
| "relax_candidate _ = None"

definition shorten :: "labels \<Rightarrow> u32 \<Rightarrow> instruction \<Rightarrow> m68k_error + instruction \<times> bool" where
  "shorten labels cursor i =
     (case relax_candidate i of
        None \<Rightarrow> Inr (i, False)
      | Some (c, t) \<Rightarrow>
          (case address_target t of
             BlockTarget b \<Rightarrow>
               if addend t = 0
               then bind_result (ok_or MissingBranchTarget (labels b)) (\<lambda>address.
                 let displacement = uint address - (uint cursor + 2)
                 in if - 32768 \<le> displacement \<and> displacement \<le> 32767
                    then Inr (BranchRelative c t, True)
                    else Inr (i, False))
               else Inr (i, False)
           | _ \<Rightarrow> Inr (i, False)))"

fun relax_instructions ::
  "labels \<Rightarrow> instruction list \<Rightarrow> u32 \<Rightarrow> m68k_error + instruction list \<times> u32 \<times> bool" where
  "relax_instructions labels [] cursor = Inr ([], cursor, False)"
| "relax_instructions labels (i # is) cursor =
     bind_result (code_size i) (\<lambda>s.
       bind_result (shorten labels cursor i) (\<lambda>(i', changed).
         bind_result (relax_instructions labels is (cursor + s)) (\<lambda>(is', c, changed').
           Inr (i' # is', c, changed \<or> changed'))))"

fun relax_blocks ::
  "labels \<Rightarrow> machine_block list \<Rightarrow> u32 \<Rightarrow> m68k_error + machine_block list \<times> bool" where
  "relax_blocks labels [] cursor = Inr ([], False)"
| "relax_blocks labels (b # bs) cursor =
     bind_result (relax_instructions labels (instructions b) cursor) (\<lambda>(is', c, changed).
       bind_result (relax_blocks labels bs c) (\<lambda>(bs', changed').
         Inr (b\<lparr>instructions := is'\<rparr> # bs', changed \<or> changed')))"

definition relax_pass :: "machine_block list \<Rightarrow> m68k_error + machine_block list \<times> bool" where
  "relax_pass blocks = bind_result (layout blocks) (\<lambda>labels. relax_blocks labels blocks 0)"

text \<open>The state of the loop: the program or the error that ended it, and whether to go on.\<close>

type_synonym relax_state = "(m68k_error + machine_block list) \<times> bool"

definition relax_step :: "relax_state \<Rightarrow> relax_state" where
  "relax_step st =
     (case fst st of
        Inl e \<Rightarrow> (Inl e, False)
      | Inr blocks \<Rightarrow>
          (case relax_pass blocks of
             Inl e \<Rightarrow> (Inl e, False)
           | Inr (blocks', changed) \<Rightarrow> (Inr blocks', changed)))"

definition relax :: "machine_block list \<Rightarrow> (m68k_error + machine_block list) option" where
  "relax blocks = map_option fst (while_option snd relax_step (Inr blocks, True))"

section \<open>Positions\<close>

text \<open>The size of an instruction as a number, the byte position before the \<open>n\<close>-th instruction of a
  flat program, and the index of the first instruction of a block.\<close>

definition isize :: "instruction \<Rightarrow> nat" where
  "isize i = (case code_size i of Inl _ \<Rightarrow> 0 | Inr s \<Rightarrow> unat s)"

definition position :: "instruction list \<Rightarrow> nat \<Rightarrow> nat" where
  "position is n = sum_list (map isize (take n is))"

definition flat :: "machine_block list \<Rightarrow> instruction list" where
  "flat bs = concat (map instructions bs)"

fun label_index :: "machine_block list \<Rightarrow> machine_block_id \<Rightarrow> nat option" where
  "label_index [] l = None"
| "label_index (b # bs) l =
     (if machine_block_id b = l then Some 0
      else map_option (\<lambda>k. length (instructions b) + k) (label_index bs l))"

lemma flat_simps [simp]: "flat [] = []" "flat (b # bs) = instructions b @ flat bs"
  by (simp_all add: flat_def)

lemma position_0 [simp]: "position is 0 = 0"
  by (simp add: position_def)

lemma position_Cons_Suc [simp]: "position (i # is) (Suc n) = isize i + position is n"
  by (simp add: position_def)

lemma position_append: "position (xs @ ys) (length xs + k) = position xs (length xs) + position ys k"
  by (simp add: position_def)

lemma position_append_left: "k \<le> length xs \<Longrightarrow> position (xs @ ys) k = position xs k"
  by (simp add: position_def)

lemma position_mono: "m \<le> n \<Longrightarrow> position is m \<le> position is n"
proof -
  assume "m \<le> n"
  then have "take n is = take m is @ take (n - m) (drop m is)"
    by (metis le_add_diff_inverse take_add)
  then show ?thesis by (simp add: position_def)
qed

lemma label_index_le: "label_index bs l = Some k \<Longrightarrow> k \<le> length (flat bs)"
  by (induction bs arbitrary: k) (auto split: if_splits)

lemma layout_instruction_Inr:
  "layout_instruction i c = Inr c' \<longleftrightarrow> (\<exists>s. code_size i = Inr s \<and> checked_add32 c s = Some c')"
  by (auto simp: layout_instruction_def)

lemma layout_block_Inr:
  "layout_block b (labels, c) = Inr st \<longleftrightarrow> labels (machine_block_id b) = None \<and>
     (\<exists>c'. for_each layout_instruction (instructions b) c = Inr c' \<and>
        st = (labels(machine_block_id b \<mapsto> c), c'))"
  by (auto simp: layout_block_def)

lemma layout_instructions:
  "for_each layout_instruction is c = Inr c' \<Longrightarrow>
     unat c' = unat c + position is (length is) \<and> (\<forall>i \<in> set is. \<exists>s. code_size i = Inr s)"
proof (induction "is" arbitrary: c)
  case Nil
  then show ?case by simp
next
  case (Cons i "is")
  then obtain s c1 where s: "code_size i = Inr s" "checked_add32 c s = Some c1"
    "for_each layout_instruction is c1 = Inr c'" by (auto simp: layout_instruction_Inr)
  with Cons.IH [OF s(3)] checked_add32_SomeD [OF s(2)] show ?case by (simp add: isize_def)
qed

lemma layout_blocks:
  "for_each layout_block bs (labels, c) = Inr (labels', c') \<Longrightarrow>
     unat c' = unat c + position (flat bs) (length (flat bs)) \<and>
     (\<forall>i \<in> set (flat bs). \<exists>s. code_size i = Inr s) \<and>
     distinct (map machine_block_id bs) \<and> (\<forall>b \<in> set bs. labels (machine_block_id b) = None) \<and>
     (\<forall>l. rel_option (\<lambda>a n. unat a = n) (labels' l)
        (case label_index bs l of
           None \<Rightarrow> map_option unat (labels l) | Some k \<Rightarrow> Some (unat c + position (flat bs) k)))"
proof (induction bs arbitrary: labels c)
  case Nil
  then show ?case by (auto simp: option.rel_map option.rel_refl)
next
  case (Cons b bs)
  then obtain c1 where fresh: "labels (machine_block_id b) = None"
    and l: "for_each layout_instruction (instructions b) c = Inr c1"
    and r: "for_each layout_block bs (labels(machine_block_id b \<mapsto> c), c1) = Inr (labels', c')"
    by (auto simp: layout_block_Inr)
  note li = layout_instructions [OF l]
  note IH = Cons.IH [OF r]
  have nb: "machine_block_id b \<notin> machine_block_id ` set bs" using IH by (auto split: if_splits)
  have ln: "label_index bs l = None" if "l \<notin> machine_block_id ` set bs" for l
    using that by (induction bs) auto
  have "rel_option (\<lambda>a n. unat a = n) (labels' m)
      (case label_index (b # bs) m of
         None \<Rightarrow> map_option unat (labels m)
       | Some k \<Rightarrow> Some (unat c + position (flat (b # bs)) k))" for m
  proof (cases "m = machine_block_id b")
    case True
    with IH ln [OF nb] show ?thesis by (auto elim!: allE [of _ m])
  next
    case False
    with IH li show ?thesis
      by (auto simp: position_append add.assoc elim!: allE [of _ m] split: option.splits)
  qed
  with IH li fresh nb show ?case by (auto simp: position_append split: if_splits)
qed

lemma layout_facts:
  assumes "layout blocks = Inr labels"
  shows "labels l = Some a \<Longrightarrow> \<exists>k. label_index blocks l = Some k \<and> unat a = position (flat blocks) k"
    and "label_index blocks l = Some k \<Longrightarrow> \<exists>a. labels l = Some a"
    and "position (flat blocks) (length (flat blocks)) < 2 ^ 32"
    and "i \<in> set (flat blocks) \<Longrightarrow> \<exists>s. code_size i = Inr s"
    and "distinct (map machine_block_id blocks)"
proof -
  from assms obtain c where "for_each layout_block blocks (Map.empty, 0) = Inr (labels, c)"
    by (auto simp: layout_def)
  note L = layout_blocks [OF this]
  then have c: "unat c = position (flat blocks) (length (flat blocks))" by simp
  show "position (flat blocks) (length (flat blocks)) < 2 ^ 32"
    using unsigned_less [where 'a = nat, of c] by (simp flip: c)
  have "rel_option (\<lambda>a n. unat a = n) (labels l)
      (case label_index blocks l of None \<Rightarrow> None | Some k \<Rightarrow> Some (position (flat blocks) k))"
    using L by (cases "label_index blocks l") (auto elim!: allE [of _ l])
  then show "labels l = Some a \<Longrightarrow> \<exists>k. label_index blocks l = Some k \<and> unat a = position (flat blocks) k"
    "label_index blocks l = Some k \<Longrightarrow> \<exists>a. labels l = Some a"
    by (auto split: option.splits simp: option_rel_Some2)
  show "i \<in> set (flat blocks) \<Longrightarrow> \<exists>s. code_size i = Inr s" "distinct (map machine_block_id blocks)"
    using L by auto
qed

section \<open>The effect of a pass\<close>

text \<open>The displacement a branch at index \<open>j\<close> has to index \<open>k\<close>, and when it fits a word.\<close>

definition displacement :: "instruction list \<Rightarrow> nat \<Rightarrow> nat \<Rightarrow> int" where
  "displacement is j k = int (position is k) - (int (position is j) + 2)"

definition in_range :: "machine_block list \<Rightarrow> nat \<Rightarrow> machine_block_id \<Rightarrow> bool" where
  "in_range blocks j l \<longleftrightarrow> (\<exists>k. label_index blocks l = Some k \<and>
     - 32768 \<le> displacement (flat blocks) j k \<and> displacement (flat blocks) j k \<le> 32767)"

text \<open>The local target of an instruction that may be shortened.\<close>

definition local_target :: "instruction \<Rightarrow> machine_block_id option" where
  "local_target i =
     (case relax_candidate i of
        Some (c, t) \<Rightarrow>
          (case address_target t of BlockTarget b \<Rightarrow> if addend t = 0 then Some b else None | _ \<Rightarrow> None)
      | None \<Rightarrow> None)"

definition short_form :: "instruction \<Rightarrow> instruction" where
  "short_form i = (case relax_candidate i of Some (c, t) \<Rightarrow> BranchRelative c t | None \<Rightarrow> i)"

text \<open>One instruction against another: the same, or its shortened form.\<close>

definition shortened :: "instruction \<Rightarrow> instruction \<Rightarrow> bool" where
  "shortened i i' \<longleftrightarrow> i' = i \<or> local_target i \<noteq> None \<and> i' = short_form i"

lemma local_target_size: "local_target i \<noteq> None \<Longrightarrow> 6 \<le> isize i"
  by (cases i rule: relax_candidate.cases)
    (auto simp: local_target_def isize_def code_size_def encode_def encode_at_def encode_inner_def
      relocated_address_def control_words_def long_ea_def to_be_bytes16_def long_words_def)

lemma short_form_size: "local_target i \<noteq> None \<Longrightarrow> isize (short_form i) = 4"
  by (auto simp: local_target_def short_form_def isize_def code_size_def split: option.splits)

lemma short_form_no_target: "local_target i \<noteq> None \<Longrightarrow> local_target (short_form i) = None"
  by (auto simp: local_target_def short_form_def split: option.splits)

lemma shorten_effect:
  assumes "shorten labels cursor i = Inr (i', changed)"
  shows "case local_target i of
      None \<Rightarrow> i' = i \<and> \<not> changed
    | Some l \<Rightarrow> (\<exists>a. labels l = Some a \<and>
        (let d = uint a - (uint cursor + 2) in
           if - 32768 \<le> d \<and> d \<le> 32767 then i' = short_form i \<and> changed else i' = i \<and> \<not> changed))"
  using assms
  by (auto simp: shorten_def local_target_def short_form_def Let_def
      split: option.splits prod.splits machine_target.splits if_splits)

lemma relax_candidate_changes: "relax_candidate i = Some (c, t) \<Longrightarrow> BranchRelative c t \<noteq> i"
  by (cases i) auto

text \<open>The whole pass over a flat program, with the cursor as a number.\<close>

definition shorten_at :: "machine_block list \<Rightarrow> instruction list \<Rightarrow> nat \<Rightarrow> instruction" where
  "shorten_at blocks is j =
     (case local_target (is ! j) of
        None \<Rightarrow> is ! j
      | Some l \<Rightarrow> if in_range blocks j l then short_form (is ! j) else is ! j)"

lemma relax_instructions_effect:
  assumes "relax_instructions labels is c = Inr (is', c', changed)"
    and "unat c + position is (length is) < 2 ^ 32"
    and "\<forall>i \<in> set is. \<exists>s. code_size i = Inr s"
  shows "length is' = length is" "unat c' = unat c + position is (length is)"
    and "j < length is \<Longrightarrow> \<exists>ch. shorten labels (c + of_nat (position is j)) (is ! j) = Inr (is' ! j, ch) \<and>
        (ch \<longrightarrow> changed)"
    and "changed \<Longrightarrow> is' \<noteq> is" "\<not> changed \<Longrightarrow> is' = is"
proof -
  have "length is' = length is \<and> unat c' = unat c + position is (length is) \<and>
    (\<forall>j < length is. \<exists>ch. shorten labels (c + of_nat (position is j)) (is ! j) = Inr (is' ! j, ch) \<and>
        (ch \<longrightarrow> changed)) \<and> (changed \<longleftrightarrow> is' \<noteq> is)"
    using assms
  proof (induction "is" arbitrary: c is' changed)
    case Nil
    then show ?case by simp
  next
    case (Cons i "is")
    from Cons.prems(1) obtain s i' ch is1 changed1 where
      s: "code_size i = Inr s" "shorten labels c i = Inr (i', ch)"
      "relax_instructions labels is (c + s) = Inr (is1, c', changed1)"
      "is' = i' # is1" "changed = (ch \<or> changed1)"
      by (simp only: relax_instructions.simps bind_result_eq_Inr split_paired_Ex prod.case
          sum.inject prod.inject) blast
    have sz: "isize i = unat s" using s(1) by (simp add: isize_def)
    then have cs: "unat (c + s) = unat c + isize i" using Cons.prems(2) by (simp add: unat_word_ariths)
    have IH: "length is1 = length is \<and> unat c' = unat (c + s) + position is (length is) \<and>
      (\<forall>j < length is. \<exists>ch. shorten labels (c + s + of_nat (position is j)) (is ! j) = Inr (is1 ! j, ch) \<and>
        (ch \<longrightarrow> changed1)) \<and> (changed1 \<longleftrightarrow> is1 \<noteq> is)"
      by (rule Cons.IH [OF s(3)]) (use Cons.prems cs in auto)
    have "ch \<longleftrightarrow> i' \<noteq> i"
      using shorten_effect [OF s(2)]
      by (auto simp: Let_def short_form_def local_target_def split: option.splits if_splits
          dest: relax_candidate_changes)
    moreover have "\<exists>ch. shorten labels (c + of_nat (position (i # is) j)) ((i # is) ! j) = Inr (is' ! j, ch) \<and>
        (ch \<longrightarrow> changed)" if "j < length (i # is)" for j
    proof (cases j)
      case 0
      with s show ?thesis by simp
    next
      case (Suc k)
      have "of_nat (isize i) = s" by (simp add: sz)
      with Suc IH that s(4,5) show ?thesis by (force simp: add.assoc)
    qed
    ultimately show ?case using IH cs s(4,5) by auto
  qed
  then show "length is' = length is" "unat c' = unat c + position is (length is)"
    "j < length is \<Longrightarrow> \<exists>ch. shorten labels (c + of_nat (position is j)) (is ! j) = Inr (is' ! j, ch) \<and>
        (ch \<longrightarrow> changed)" "changed \<Longrightarrow> is' \<noteq> is" "\<not> changed \<Longrightarrow> is' = is"
    by auto
qed

lemma relax_instructions_append:
  "relax_instructions labels (xs @ ys) c =
     bind_result (relax_instructions labels xs c) (\<lambda>(xs', c1, ch1).
       bind_result (relax_instructions labels ys c1) (\<lambda>(ys', c2, ch2).
         Inr (xs' @ ys', c2, ch1 \<or> ch2)))"
proof (induction xs arbitrary: c)
  case Nil
  show ?case by (cases "relax_instructions labels ys c") auto
next
  case (Cons x xs)
  show ?case
  proof (cases "code_size x")
    case (Inr s)
    show ?thesis
    proof (cases "shorten labels c x")
      case sh: (Inr r)
      show ?thesis
      proof (cases "relax_instructions labels xs (c + s)")
        case xs: (Inr t)
        obtain xs' c1 ch1 where t: "t = (xs', c1, ch1)" by (cases t)
        show ?thesis
          by (cases r; cases "relax_instructions labels ys c1")
            (auto simp: Cons Inr sh xs t)
      qed (cases r, simp add: Cons Inr sh)
    qed (simp add: Inr)
  qed simp
qed

text \<open>Two programs of the same shape: the same blocks with instruction lists of the same lengths.\<close>

definition same_shape :: "machine_block list \<Rightarrow> machine_block list \<Rightarrow> bool" where
  "same_shape = list_all2 (\<lambda>b b'. machine_block_id b' = machine_block_id b \<and>
     length (instructions b') = length (instructions b))"

lemma same_shape_refl [simp]: "same_shape bs bs"
  by (simp add: same_shape_def list_all2_refl)

lemma same_shape_trans: "same_shape as bs \<Longrightarrow> same_shape bs cs \<Longrightarrow> same_shape as cs"
  unfolding same_shape_def by (erule (1) list_all2_trans [rotated]) auto

lemma same_shape_label: "same_shape bs bs' \<Longrightarrow> label_index bs' l = label_index bs l"
  unfolding same_shape_def by (induction rule: list_all2_induct) auto

lemma same_shape_length: "same_shape bs bs' \<Longrightarrow> length (flat bs') = length (flat bs)"
  unfolding same_shape_def by (induction rule: list_all2_induct) auto

lemma same_shape_flat_eq: "same_shape bs bs' \<Longrightarrow> flat bs' = flat bs \<Longrightarrow> bs' = bs"
  unfolding same_shape_def by (induction rule: list_all2_induct) auto

lemma relax_instructions_length:
  "relax_instructions labels is c = Inr (is', c', ch) \<Longrightarrow> length is' = length is"
proof (induction "is" arbitrary: c is' ch)
  case (Cons i "is")
  then obtain s i' ch1 is1 ch2 where
    "relax_instructions labels is (c + s) = Inr (is1, c', ch2)" "is' = i' # is1"
    by (simp only: relax_instructions.simps bind_result_eq_Inr split_paired_Ex prod.case
        sum.inject prod.inject) blast
  with Cons.IH show ?case by simp
qed simp

lemma relax_blocks_flat:
  "relax_blocks labels bs c = Inr (bs', ch) \<Longrightarrow>
     same_shape bs bs' \<and> (\<exists>c'. relax_instructions labels (flat bs) c = Inr (flat bs', c', ch))"
proof (induction bs arbitrary: c bs' ch)
  case Nil
  then show ?case by (simp add: same_shape_def)
next
  case (Cons b bs)
  from Cons.prems obtain is' c1 ch1 bs1 ch2 where
    r: "relax_instructions labels (instructions b) c = Inr (is', c1, ch1)"
    "relax_blocks labels bs c1 = Inr (bs1, ch2)"
    "bs' = b\<lparr>instructions := is'\<rparr> # bs1" "ch = (ch1 \<or> ch2)"
    by (simp only: relax_blocks.simps bind_result_eq_Inr split_paired_Ex prod.case
        sum.inject prod.inject) blast
  from Cons.IH [OF r(2)] obtain c2 where
    IH: "same_shape bs bs1" "relax_instructions labels (flat bs) c1 = Inr (flat bs1, c2, ch2)" by blast
  have "length is' = length (instructions b)" by (rule relax_instructions_length [OF r(1)])
  with IH r show ?case by (simp add: same_shape_def relax_instructions_append)
qed

lemma relax_pass_effect:
  assumes "relax_pass bs = Inr (bs', ch)"
  shows "same_shape bs bs'"
    and "j < length (flat bs) \<Longrightarrow> flat bs' ! j = shorten_at bs (flat bs) j"
    and "j < length (flat bs) \<Longrightarrow> local_target (flat bs ! j) = Some l \<Longrightarrow> label_index bs l \<noteq> None"
    and "ch \<Longrightarrow> flat bs' \<noteq> flat bs" and "\<not> ch \<Longrightarrow> bs' = bs"
    and "distinct (map machine_block_id bs)"
    and "position (flat bs) (length (flat bs)) < 2 ^ 32"
    and "i \<in> set (flat bs) \<Longrightarrow> \<exists>s. code_size i = Inr s"
proof -
  from assms obtain labels where lay: "layout bs = Inr labels"
    and rb: "relax_blocks labels bs 0 = Inr (bs', ch)" by (auto simp: relax_pass_def)
  note L = layout_facts [OF lay]
  from relax_blocks_flat [OF rb] obtain c' where
    shape: "same_shape bs bs'" and ri: "relax_instructions labels (flat bs) 0 = Inr (flat bs', c', ch)"
    by blast
  show "same_shape bs bs'" "distinct (map machine_block_id bs)"
    "position (flat bs) (length (flat bs)) < 2 ^ 32"
    "i \<in> set (flat bs) \<Longrightarrow> \<exists>s. code_size i = Inr s"
    using shape L by auto
  have size: "unat (0 :: u32) + position (flat bs) (length (flat bs)) < 2 ^ 32" using L(3) by simp
  have codes: "\<forall>i \<in> set (flat bs). \<exists>s. code_size i = Inr s" using L(4) by blast
  note eff = relax_instructions_effect [OF ri size codes]
  show "ch \<Longrightarrow> flat bs' \<noteq> flat bs" by (rule eff(4))
  show "\<not> ch \<Longrightarrow> bs' = bs" using eff(5) same_shape_flat_eq [OF shape] by blast
  have step: "flat bs' ! j = shorten_at bs (flat bs) j \<and>
      (\<forall>l. local_target (flat bs ! j) = Some l \<longrightarrow> label_index bs l \<noteq> None)"
    if j: "j < length (flat bs)" for j
  proof -
    let ?c = "of_nat (position (flat bs) j) :: u32"
    from eff(3) [OF j] obtain ch' where
      sh: "shorten labels ?c (flat bs ! j) = Inr (flat bs' ! j, ch')" by auto
    have "position (flat bs) j < 2 ^ 32"
      using position_mono [of j "length (flat bs)" "flat bs"] j L(3) by simp
    then have c: "uint ?c = int (position (flat bs) j)"
      by (simp add: unsigned_of_nat take_bit_eq_mod)
    show ?thesis
    proof (cases "local_target (flat bs ! j)")
      case None
      with shorten_effect [OF sh] show ?thesis by (simp add: shorten_at_def)
    next
      case (Some l)
      with shorten_effect [OF sh] obtain a where a: "labels l = Some a"
        "let d = uint a - (uint ?c + 2) in
          if - 32768 \<le> d \<and> d \<le> 32767 then flat bs' ! j = short_form (flat bs ! j) \<and> ch'
          else flat bs' ! j = flat bs ! j \<and> \<not> ch'" by auto
      from L(1) [OF a(1)] obtain k where k: "label_index bs l = Some k" "unat a = position (flat bs) k"
        by blast
      then have "uint a = int (position (flat bs) k)" by (metis uint_nat)
      with a(2) c k(1) Some show ?thesis
        by (auto simp: shorten_at_def in_range_def displacement_def Let_def split: if_splits)
    qed
  qed
  then show "j < length (flat bs) \<Longrightarrow> flat bs' ! j = shorten_at bs (flat bs) j"
    "j < length (flat bs) \<Longrightarrow> local_target (flat bs ! j) = Some l \<Longrightarrow> label_index bs l \<noteq> None"
    by auto
qed

section \<open>Shrinking keeps displacements in range\<close>

lemma position_split: "j \<le> k \<Longrightarrow> position is k = position is j + sum_list (map isize (take (k - j) (drop j is)))"
proof -
  assume "j \<le> k"
  then have "take k is = take j is @ take (k - j) (drop j is)"
    by (metis le_add_diff_inverse take_add)
  then show ?thesis by (simp add: position_def)
qed

lemma position_gap_le:
  assumes len: "length is' = length is" and le: "\<And>j. j < length is \<Longrightarrow> isize (is' ! j) \<le> isize (is ! j)"
    and jk: "j \<le> k"
  shows "position is' k - position is' j \<le> position is k - position is j"
proof -
  have "list_all2 (\<le>) (map isize (take (k - j) (drop j is'))) (map isize (take (k - j) (drop j is)))"
    using len le by (auto simp: list_all2_conv_all_nth)
  then have "sum_list (map isize (take (k - j) (drop j is'))) \<le> sum_list (map isize (take (k - j) (drop j is)))"
    by (induction rule: list_all2_induct) auto
  then show ?thesis by (simp add: position_split [OF jk])
qed

lemma position_gap_ge: "j < k \<Longrightarrow> j < length is \<Longrightarrow> position is j + isize (is ! j) \<le> position is k"
  using position_mono [of "Suc j" k "is"] by (simp add: position_def take_Suc_conv_app_nth)

lemma in_range_shrink:
  assumes shape: "same_shape bs bs'"
    and le: "\<And>j. j < length (flat bs) \<Longrightarrow> isize (flat bs' ! j) \<le> isize (flat bs ! j)"
    and j: "j < length (flat bs)" and two: "2 \<le> isize (flat bs' ! j)" and r: "in_range bs j l"
  shows "in_range bs' j l"
proof -
  let ?is = "flat bs" and ?is' = "flat bs'"
  have len: "length ?is' = length ?is" by (rule same_shape_length [OF shape])
  from r obtain k where k: "label_index bs l = Some k"
    "- 32768 \<le> displacement ?is j k" "displacement ?is j k \<le> 32767" by (auto simp: in_range_def)
  have "- 32768 \<le> displacement ?is' j k \<and> displacement ?is' j k \<le> 32767"
  proof (cases "j < k")
    case True
    have "position ?is' j + 2 \<le> position ?is' k"
      using position_gap_ge [OF True, of ?is'] j len two by simp
    moreover have "position ?is' k - position ?is' j \<le> position ?is k - position ?is j"
      by (rule position_gap_le) (use len le True in auto)
    ultimately show ?thesis using k(3) by (simp add: displacement_def)
  next
    case False
    then have "position ?is' j - position ?is' k \<le> position ?is j - position ?is k"
      by (intro position_gap_le) (use len le in auto)
    moreover have "position ?is' k \<le> position ?is' j" "position ?is k \<le> position ?is j"
      using False by (auto intro: position_mono)
    ultimately show ?thesis using k(2) by (simp add: displacement_def)
  qed
  with k(1) same_shape_label [OF shape] show ?thesis by (auto simp: in_range_def)
qed

text \<open>The program \<open>bs\<close> is \<open>bs0\<close> with some local branches shortened, all of those in range in the
  layout of \<open>bs\<close>.\<close>

definition relaxed :: "machine_block list \<Rightarrow> machine_block list \<Rightarrow> bool" where
  "relaxed bs0 bs \<longleftrightarrow> same_shape bs0 bs \<and>
     (\<forall>j < length (flat bs0). flat bs ! j = flat bs0 ! j \<or>
        (\<exists>l. local_target (flat bs0 ! j) = Some l \<and> flat bs ! j = short_form (flat bs0 ! j) \<and>
           in_range bs j l))"

lemma relaxed_refl: "relaxed bs bs"
  by (simp add: relaxed_def)

lemma shorten_at_size:
  "isize (shorten_at bs is j) \<le> isize (is ! j)"
  using local_target_size [of "is ! j"] short_form_size [of "is ! j"]
  by (auto simp: shorten_at_def split: option.split)

lemma relaxed_pass:
  assumes r: "relaxed bs0 bs" and p: "relax_pass bs = Inr (bs', ch)"
  shows "relaxed bs0 bs'"
proof -
  note eff = relax_pass_effect [OF p]
  have shape: "same_shape bs0 bs'" using r eff(1) same_shape_trans by (auto simp: relaxed_def)
  have len: "length (flat bs) = length (flat bs0)" using r by (auto simp: relaxed_def same_shape_length)
  have le: "isize (flat bs' ! j) \<le> isize (flat bs ! j)" if "j < length (flat bs)" for j
    using eff(2) [OF that] shorten_at_size by simp
  have "flat bs' ! j = flat bs0 ! j \<or> (\<exists>l. local_target (flat bs0 ! j) = Some l \<and>
      flat bs' ! j = short_form (flat bs0 ! j) \<and> in_range bs' j l)" if j: "j < length (flat bs0)" for j
  proof -
    have j': "j < length (flat bs)" using j len by simp
    note step = eff(2) [OF j']
    have grow: "in_range bs' j l" if "in_range bs j l" "isize (flat bs' ! j) = 4" for l
      by (rule in_range_shrink [OF eff(1) le j' _ that(1)]) (simp_all add: that(2))
    from r j consider (orig) "flat bs ! j = flat bs0 ! j"
      | (short) l where "local_target (flat bs0 ! j) = Some l"
          "flat bs ! j = short_form (flat bs0 ! j)" "in_range bs j l"
      by (auto simp: relaxed_def)
    then show ?thesis
    proof cases
      case orig
      show ?thesis
      proof (cases "local_target (flat bs ! j)")
        case None
        with step orig show ?thesis by (simp add: shorten_at_def)
      next
        case (Some l)
        show ?thesis
        proof (cases "in_range bs j l")
          case True
          with Some step have s: "flat bs' ! j = short_form (flat bs ! j)" by (simp add: shorten_at_def)
          then have "isize (flat bs' ! j) = 4" using short_form_size Some by simp
          with True grow s Some orig show ?thesis by auto
        next
          case False
          with Some step orig show ?thesis by (simp add: shorten_at_def)
        qed
      qed
    next
      case short
      then have "local_target (flat bs ! j) = None" using short_form_no_target by simp
      with step have s: "flat bs' ! j = flat bs ! j" by (simp add: shorten_at_def)
      moreover have "isize (flat bs' ! j) = 4" using s short short_form_size by simp
      ultimately show ?thesis using short grow by auto
    qed
  qed
  with shape show ?thesis by (simp add: relaxed_def)
qed

section \<open>The loop\<close>

text \<open>Each pass that changes the program removes a candidate.\<close>

definition candidates :: "machine_block list \<Rightarrow> nat set" where
  "candidates bs = {j. j < length (flat bs) \<and> local_target (flat bs ! j) \<noteq> None}"

lemma pass_removes_candidate:
  assumes p: "relax_pass bs = Inr (bs', True)"
  shows "card (candidates bs') < card (candidates bs)"
proof -
  note eff = relax_pass_effect [OF p]
  have len: "length (flat bs') = length (flat bs)" by (rule same_shape_length [OF eff(1)])
  have keep: "local_target (flat bs' ! j) \<noteq> None \<Longrightarrow> flat bs' ! j = flat bs ! j"
    if "j < length (flat bs)" for j
    using eff(2) [OF that] short_form_no_target by (auto simp: shorten_at_def split: option.splits if_splits)
  have sub: "candidates bs' \<subseteq> candidates bs"
    using keep len by (fastforce simp: candidates_def)
  from eff(4) len obtain j where j: "j < length (flat bs)" "flat bs' ! j \<noteq> flat bs ! j"
    by (metis nth_equalityI)
  have "local_target (flat bs' ! j) = None" using keep [OF j(1)] j(2) by blast
  moreover have "local_target (flat bs ! j) \<noteq> None"
    using eff(2) [OF j(1)] j(2) by (cases "local_target (flat bs ! j)") (simp_all add: shorten_at_def)
  ultimately have "j \<in> candidates bs" "j \<notin> candidates bs'"
    using j(1) by (simp_all add: candidates_def)
  with sub have "candidates bs' \<subset> candidates bs" by blast
  then show ?thesis by (rule psubset_card_mono [rotated]) (simp add: candidates_def)
qed

text \<open>A pass that succeeds leaves a program on which the next pass succeeds.\<close>

lemma layout_instructions_ok:
  "unat c + position is (length is) < 2 ^ 32 \<Longrightarrow> \<forall>i \<in> set is. \<exists>s. code_size i = Inr s \<Longrightarrow>
     \<exists>c'. for_each layout_instruction is c = Inr c'"
proof (induction "is" arbitrary: c)
  case (Cons i "is")
  then obtain s where s: "code_size i = Inr s" "isize i = unat s" by (auto simp: isize_def)
  with Cons.prems have ok: "checked_add32 c s = Some (c + s)" "unat (c + s) = unat c + unat s"
    by (simp_all add: checked_add32_def unat_word_ariths)
  with Cons.prems s Cons.IH [of "c + s"] show ?case by (simp add: layout_instruction_def)
qed simp

lemma layout_blocks_ok:
  "unat c + position (flat bs) (length (flat bs)) < 2 ^ 32 \<Longrightarrow>
     \<forall>i \<in> set (flat bs). \<exists>s. code_size i = Inr s \<Longrightarrow> distinct (map machine_block_id bs) \<Longrightarrow>
     \<forall>b \<in> set bs. labels (machine_block_id b) = None \<Longrightarrow>
     \<exists>st. for_each layout_block bs (labels, c) = Inr st"
proof (induction bs arbitrary: labels c)
  case (Cons b bs)
  from Cons.prems(1) have sz: "unat c + position (instructions b) (length (instructions b)) < 2 ^ 32"
    by (simp add: position_append)
  obtain c1 where c1: "for_each layout_instruction (instructions b) c = Inr c1"
    using layout_instructions_ok [OF sz] Cons.prems(2) by auto
  have "\<exists>st. for_each layout_block bs (labels(machine_block_id b \<mapsto> c), c1) = Inr st"
    by (rule Cons.IH) (use Cons.prems layout_instructions [OF c1] in \<open>auto simp: position_append image_iff\<close>)
  moreover have "layout_block b (labels, c) = Inr (labels(machine_block_id b \<mapsto> c), c1)"
    using c1 Cons.prems(4) by (simp add: layout_block_Inr)
  ultimately show ?case by simp
qed simp

lemma shorten_ok:
  assumes "\<And>l. local_target i = Some l \<Longrightarrow> labels l \<noteq> None"
  shows "\<exists>r. shorten labels c i = Inr r"
  using assms
  by (cases "shorten labels c i")
    (auto simp: shorten_def local_target_def Let_def split: option.splits prod.splits machine_target.splits if_splits)

lemma relax_instructions_ok:
  "\<forall>i \<in> set is. (\<exists>s. code_size i = Inr s) \<and> (\<forall>l. local_target i = Some l \<longrightarrow> labels l \<noteq> None) \<Longrightarrow>
     \<exists>r. relax_instructions labels is c = Inr r"
proof (induction "is" arbitrary: c)
  case Nil
  show ?case by (rule exI) (rule relax_instructions.simps)
next
  case (Cons i "is")
  then obtain s r where "code_size i = Inr s" "shorten labels c i = Inr r"
    using shorten_ok [of i labels c] by auto
  moreover obtain is1 c1 ch1 where "relax_instructions labels is (c + s) = Inr (is1, c1, ch1)"
    using Cons by (metis list.set_intros(2) prod_cases3)
  moreover obtain i' ch where "r = (i', ch)" by (cases r)
  ultimately show ?case by simp
qed

lemma relax_blocks_ok:
  "\<forall>i \<in> set (flat bs). (\<exists>s. code_size i = Inr s) \<and> (\<forall>l. local_target i = Some l \<longrightarrow> labels l \<noteq> None) \<Longrightarrow>
     \<exists>r. relax_blocks labels bs c = Inr r"
proof (induction bs arbitrary: c)
  case Nil
  show ?case by (rule exI) (rule relax_blocks.simps)
next
  case (Cons b bs)
  have "\<exists>r. relax_instructions labels (instructions b) c = Inr r"
    by (rule relax_instructions_ok) (use Cons.prems in auto)
  then obtain is' c1 ch where "relax_instructions labels (instructions b) c = Inr (is', c1, ch)" by auto
  moreover have "\<exists>r. relax_blocks labels bs c1 = Inr r" by (rule Cons.IH) (use Cons.prems in auto)
  then obtain bs1 ch1 where "relax_blocks labels bs c1 = Inr (bs1, ch1)" by auto
  ultimately show ?case by simp
qed

lemma position_le:
  assumes "length is' = length is" "\<And>j. j < length is \<Longrightarrow> isize (is' ! j) \<le> isize (is ! j)"
  shows "position is' (length is') \<le> position is (length is)"
  using position_gap_le [OF assms, of 0 "length is"] assms(1) by simp

lemma next_pass_ok:
  assumes p: "relax_pass bs = Inr (bs', ch)"
  shows "\<exists>r. relax_pass bs' = Inr r"
proof -
  note eff = relax_pass_effect [OF p]
  have len: "length (flat bs') = length (flat bs)" by (rule same_shape_length [OF eff(1)])
  have le: "isize (flat bs' ! j) \<le> isize (flat bs ! j)" if "j < length (flat bs)" for j
    using eff(2) [OF that] shorten_at_size by simp
  have ids: "map machine_block_id bs' = map machine_block_id bs"
    using eff(1) by (auto simp: same_shape_def list_all2_conv_all_nth intro: nth_equalityI)
  have each: "(\<exists>s. code_size i = Inr s) \<and> (\<forall>l. local_target i = Some l \<longrightarrow> label_index bs' l \<noteq> None)"
    if i: "i \<in> set (flat bs')" for i
  proof -
    from i obtain j where j: "j < length (flat bs)" "i = flat bs' ! j"
      using len by (auto simp: in_set_conv_nth)
    from eff(2) [OF j(1)] consider "i = flat bs ! j" | "local_target (flat bs ! j) \<noteq> None" "i = short_form (flat bs ! j)"
      by (auto simp: j(2) shorten_at_def split: option.splits if_splits)
    then show ?thesis
    proof cases
      case 1
      with eff(3) [OF j(1)] eff(8) j(1) show ?thesis by (auto simp: same_shape_label [OF eff(1)])
    next
      case 2
      then have "is_branch_relative i" by (auto simp: local_target_def short_form_def split: option.splits)
      with 2 short_form_no_target show ?thesis by (simp add: code_size_def)
    qed
  qed
  have "position (flat bs') (length (flat bs')) < 2 ^ 32"
    using position_le [OF len le] eff(7) by simp
  then obtain st where "for_each layout_block bs' (Map.empty, 0) = Inr st"
    using layout_blocks_ok [of 0 bs' Map.empty] each eff(6) ids by auto
  then obtain labels where lay: "layout bs' = Inr labels" by (cases st) (simp add: layout_def)
  have "\<exists>r. relax_blocks labels bs' 0 = Inr r"
    using relax_blocks_ok [of bs' labels] each layout_facts(2) [OF lay] by fastforce
  with lay show ?thesis by (simp add: relax_pass_def)
qed

text \<open>The states the loop goes through.\<close>

definition relax_inv :: "machine_block list \<Rightarrow> relax_state \<Rightarrow> bool" where
  "relax_inv bs0 st \<longleftrightarrow>
     (case fst st of
        Inl e \<Rightarrow> \<not> snd st \<and> relax_pass bs0 = Inl e
      | Inr bs \<Rightarrow> relaxed bs0 bs \<and> (bs = bs0 \<or> (\<exists>r. relax_pass bs = Inr r)) \<and>
          (\<not> snd st \<longrightarrow> relax_pass bs = Inr (bs, False)))"

lemma relax_inv_step:
  assumes inv: "relax_inv bs0 st" and run: "snd st"
  shows "relax_inv bs0 (relax_step st)"
proof (cases "fst st")
  case (Inl e)
  with inv run show ?thesis by (simp add: relax_inv_def)
next
  case (Inr bs)
  note bs = Inr
  show ?thesis
  proof (cases "relax_pass bs")
    case (Inl e)
    with inv bs show ?thesis by (auto simp: relax_inv_def relax_step_def)
  next
    case (Inr r)
    obtain bs' ch where r: "r = (bs', ch)" by (cases r)
    note p = Inr [unfolded r]
    have "relaxed bs0 bs'" using relaxed_pass [OF _ p] inv bs by (simp add: relax_inv_def)
    moreover have "\<exists>r. relax_pass bs' = Inr r" by (rule next_pass_ok [OF p])
    moreover have "relax_pass bs' = Inr (bs', False)" if "\<not> ch"
      using relax_pass_effect(5) [OF p that] p that by simp
    ultimately show ?thesis using p bs by (simp add: relax_inv_def relax_step_def)
  qed
qed

lemma relax_returns: "\<exists>st. while_option snd relax_step (Inr bs0, True) = Some st"
proof (rule measure_while_option_Some
    [of "relax_inv bs0" snd relax_step
      "\<lambda>st. (case fst st of Inl _ \<Rightarrow> 0 | Inr bs \<Rightarrow> 2 * card (candidates bs)) + (if snd st then 1 else 0)"])
  show "relax_inv bs0 (Inr bs0, True)" by (simp add: relax_inv_def relaxed_refl)
  fix st assume inv: "relax_inv bs0 st" and run: "snd st"
  let ?m = "\<lambda>st :: relax_state. (case fst st of Inl _ \<Rightarrow> 0 | Inr bs \<Rightarrow> 2 * card (candidates bs)) +
    (if snd st then 1 else 0 :: nat)"
  have "?m (relax_step st) < ?m st"
  proof (cases "fst st")
    case (Inl e)
    with run show ?thesis by (simp add: relax_step_def)
  next
    case (Inr bs)
    note bs = Inr
    show ?thesis
    proof (cases "relax_pass bs")
      case (Inl e)
      with bs run show ?thesis by (simp add: relax_step_def)
    next
      case (Inr r)
      obtain bs' ch where r: "r = (bs', ch)" by (cases r)
      show ?thesis
      proof (cases ch)
        case True
        with pass_removes_candidate [of bs bs'] Inr r have "card (candidates bs') < card (candidates bs)" by simp
        with Inr r bs run True show ?thesis by (simp add: relax_step_def)
      next
        case False
        with relax_pass_effect(5) [of bs bs' ch] Inr r bs run show ?thesis by (simp add: relax_step_def)
      qed
    qed
  qed
  with relax_inv_step [OF inv run] show "relax_inv bs0 (relax_step st) \<and> ?m (relax_step st) < ?m st"
    by blast
qed

lemma relax_result:
  assumes "relax bs0 = Some r"
  shows "\<exists>run. relax_inv bs0 (r, run) \<and> \<not> run"
proof -
  from assms obtain run where w: "while_option snd relax_step (Inr bs0, True) = Some (r, run)"
    by (auto simp: relax_def)
  have "relax_inv bs0 (r, run)"
  proof (rule while_option_rule [where P = "relax_inv bs0", OF _ w])
    show "relax_inv bs0 (relax_step st)" if "relax_inv bs0 st" "snd st" for st
      by (rule relax_inv_step [OF that])
    show "relax_inv bs0 (Inr bs0, True)" by (simp add: relax_inv_def relaxed_refl)
  qed
  moreover have "\<not> run" using while_option_stop [OF w] by simp
  ultimately show ?thesis by blast
qed

lemma relax_facts:
  assumes "relax bs = Some (Inr bs')"
  shows "relaxed bs bs'" and "relax_pass bs' = Inr (bs', False)"
    and "length (flat bs') = length (flat bs)"
proof -
  from relax_result [OF assms] show r: "relaxed bs bs'" and "relax_pass bs' = Inr (bs', False)"
    by (auto simp: relax_inv_def)
  then show "length (flat bs') = length (flat bs)"
    using same_shape_length [of bs bs'] by (simp add: relaxed_def)
qed

lemma relax_entry:
  assumes "relax bs = Some (Inr bs')" and "j < length (flat bs)"
  shows "flat bs' ! j = flat bs ! j \<or>
    (\<exists>l. local_target (flat bs ! j) = Some l \<and> flat bs' ! j = short_form (flat bs ! j) \<and> in_range bs' j l)"
  using relax_facts(1) [OF assms(1)] assms(2) by (simp add: relaxed_def)

text \<open>A forward branch over one word move to a return.\<close>

definition sample_blocks :: "machine_block list" where
  "sample_blocks =
     [\<lparr>machine_block_id = 0, instructions =
         [Branch Equal (address_new (BlockTarget 1)), MoveQuick 5 0]\<rparr>,
      \<lparr>machine_block_id = 1, instructions = [Jump (AbsoluteEa (address_new (BlockTarget 0))), Rts]\<rparr>]"

definition sample_relaxed :: "machine_block list" where
  "sample_relaxed =
     [\<lparr>machine_block_id = 0, instructions =
         [BranchRelative (Some Equal) (address_new (BlockTarget 1)), MoveQuick 5 0]\<rparr>,
      \<lparr>machine_block_id = 1, instructions =
         [BranchRelative None (address_new (BlockTarget 0)), Rts]\<rparr>]"

lemma sample_passes:
  "relax_pass sample_blocks = Inr (sample_relaxed, True)"
  "relax_pass sample_relaxed = Inr (sample_relaxed, False)"
  by code_simp+

lemma sample_relax: "relax sample_blocks = Some (Inr sample_relaxed)"
proof -
  have "relax_step (Inr sample_blocks, True) = (Inr sample_relaxed, True)"
    "relax_step (Inr sample_relaxed, True) = (Inr sample_relaxed, False)"
    by (simp_all add: relax_step_def sample_passes)
  then show ?thesis
    by (simp add: relax_def while_option_unfold [of _ _ "(Inr sample_blocks, True)"]
        while_option_unfold [of _ _ "(Inr sample_relaxed, True)"]
        while_option_unfold [of _ _ "(Inr sample_relaxed, False)"])
qed

section \<open>Properties\<close>

text \<open>C14: relaxation always ends. It fails exactly when its first pass fails, with the same error
  (a duplicate block number, an instruction that does not encode, a code size beyond 32 bits or a
  missing target); an input that passes the first layout is never rejected later.\<close>

theorem relax_terminates:
  "\<exists>r. relax bs = Some r \<and> (\<forall>e. r = Inl e \<longleftrightarrow> relax_pass bs = Inl e)"
proof -
  obtain r run where w: "while_option snd relax_step (Inr bs, True) = Some (r, run)"
    using relax_returns by (metis prod.exhaust)
  then have r: "relax bs = Some r" by (simp add: relax_def)
  have "r = Inl e \<longleftrightarrow> relax_pass bs = Inl e" for e
  proof
    show "relax_pass bs = Inl e" if "r = Inl e"
      using relax_result [OF r] that by (auto simp: relax_inv_def)
    assume p: "relax_pass bs = Inl e"
    have step: "relax_step (Inr bs, True) = (Inl e, False)" by (simp add: relax_step_def p)
    have "while_option snd relax_step (Inr bs, True) = Some (Inl e, False)"
      by (simp add: while_option_unfold [of _ _ "(Inr bs, True)"] step
          while_option_unfold [of _ _ "(Inl e, False)"])
    with w show "r = Inl e" by simp
  qed
  with r show ?thesis by blast
qed

text \<open>C13: what relaxation returns. The blocks keep their numbers and instruction counts; an instruction
  is unchanged, or it was a long branch or absolute jump to the label of a block and is now the
  word-displacement branch with the same condition and target, whose displacement in the final layout
  fits a signed word; and every long branch or jump to a label that is left does not fit.\<close>

theorem relax_correct:
  assumes "relax bs = Some (Inr bs')"
  shows "map machine_block_id bs' = map machine_block_id bs \<and>
    map (length \<circ> instructions) bs' = map (length \<circ> instructions) bs \<and>
    (\<forall>j < length (flat bs).
       (flat bs' ! j = flat bs ! j \<or>
        (\<exists>l. local_target (flat bs ! j) = Some l \<and> flat bs' ! j = short_form (flat bs ! j) \<and>
           in_range bs' j l)) \<and>
       (\<forall>l. local_target (flat bs' ! j) = Some l \<longrightarrow> \<not> in_range bs' j l))"
proof -
  note r = relax_facts(1) [OF assms] and p = relax_facts(2) [OF assms]
  have shape: "same_shape bs bs'" using r by (simp add: relaxed_def)
  then have "map machine_block_id bs' = map machine_block_id bs"
    "map (length \<circ> instructions) bs' = map (length \<circ> instructions) bs"
    by (auto simp: same_shape_def list_all2_conv_all_nth intro!: nth_equalityI)
  moreover have "\<not> in_range bs' j l"
    if j: "j < length (flat bs)" and l: "local_target (flat bs' ! j) = Some l" for j l
  proof
    assume i: "in_range bs' j l"
    have "j < length (flat bs')" using j same_shape_length [OF shape] by simp
    from relax_pass_effect(2) [OF p this] i l
    have s: "flat bs' ! j = short_form (flat bs' ! j)" by (simp add: shorten_at_def)
    have "local_target (short_form (flat bs' ! j)) = None"
      by (rule short_form_no_target) (simp add: l)
    with s l show False by simp
  qed
  ultimately show ?thesis using r by (auto simp: relaxed_def)
qed

theorem relax_correct_witness:
  "local_target (flat sample_blocks ! 0) = Some 1 \<and> in_range sample_relaxed 0 1"
proof -
  have f: "length (flat sample_blocks) = 4"
    "flat sample_relaxed ! 0 \<noteq> flat sample_blocks ! 0" "local_target (flat sample_blocks ! 0) = Some 1"
    by (simp_all add: sample_blocks_def sample_relaxed_def local_target_def address_new_def)
  from relax_correct [OF sample_relax] have
    "\<forall>j < length (flat sample_blocks). flat sample_relaxed ! j = flat sample_blocks ! j \<or>
       (\<exists>l. local_target (flat sample_blocks ! j) = Some l \<and>
          flat sample_relaxed ! j = short_form (flat sample_blocks ! j) \<and> in_range sample_relaxed j l)"
    by blast
  then have "flat sample_relaxed ! 0 = flat sample_blocks ! 0 \<or>
      (\<exists>l. local_target (flat sample_blocks ! 0) = Some l \<and>
         flat sample_relaxed ! 0 = short_form (flat sample_blocks ! 0) \<and> in_range sample_relaxed 0 l)"
    using f(1) by simp
  with f(2,3) show ?thesis by simp
qed

text \<open>C15: the shortened branches encode. In the layout of the relaxed program, with a resolver that
  gives every block label its position, each instruction the relaxation shortened encodes at its own
  position: the encoder's range check never fails on them.\<close>

theorem relaxed_branches_encode:
  assumes "relax bs = Some (Inr bs')" and j: "j < length (flat bs)" and "flat bs' ! j \<noteq> flat bs ! j"
    and resolve: "\<And>l k. label_index bs' l = Some k \<Longrightarrow>
      resolve (address_new (BlockTarget l)) = Inr (of_nat (position (flat bs') k))"
  shows "\<exists>code. encode_at (flat bs' ! j) (of_nat (position (flat bs') j)) resolve = Inr code \<and>
     length code = 4"
proof -
  note p = relax_facts(2) [OF assms(1)]
  note total = relax_pass_effect(7) [OF p]
  from relax_entry [OF assms(1) j] assms(3) obtain l where
    l: "local_target (flat bs ! j) = Some l" "flat bs' ! j = short_form (flat bs ! j)" "in_range bs' j l"
    by blast
  then obtain c where c: "flat bs' ! j = BranchRelative c (address_new (BlockTarget l))"
    by (auto simp: local_target_def short_form_def address_new_def
        split: option.splits machine_target.splits if_splits intro: address.equality)
  from l(3) obtain k where k: "label_index bs' l = Some k"
    "- 32768 \<le> displacement (flat bs') j k" "displacement (flat bs') j k \<le> 32767"
    by (auto simp: in_range_def)
  note len = relax_facts(3) [OF assms(1)]
  have small: "position (flat bs') n < 2 ^ 32" if "n \<le> length (flat bs')" for n
    using position_mono [OF that, of "flat bs'"] total by simp
  have "uint (of_nat (position (flat bs') n) :: u32) = int (position (flat bs') n)"
    if "n \<le> length (flat bs')" for n
    using small [OF that] by (simp add: unsigned_of_nat take_bit_eq_mod)
  with k j len label_index_le [OF k(1)] resolve [OF k(1)] show ?thesis
    by (auto simp: c encode_at_def encode_inner_def relative_words_def displacement_def Let_def
        to_be_bytes16_def)
qed

theorem relaxed_branches_encode_witness:
  "\<exists>code. encode_at (flat sample_relaxed ! 2) (of_nat (position (flat sample_relaxed) 2))
     (\<lambda>a. case address_target a of
        BlockTarget l \<Rightarrow>
          Inr (case label_index sample_relaxed l of
                 None \<Rightarrow> 0 | Some k \<Rightarrow> of_nat (position (flat sample_relaxed) k))
      | _ \<Rightarrow> Inr 0) = Inr code \<and> length code = 4"
proof (rule relaxed_branches_encode [OF sample_relax])
  show "2 < length (flat sample_blocks)" "flat sample_relaxed ! 2 \<noteq> flat sample_blocks ! 2"
    by (simp_all add: sample_blocks_def sample_relaxed_def)
qed (simp add: address_new_def)

end
