(* ===== verification/M68k_Image.thy ===== *)
theory M68k_Image
  imports M68k_Machine Nir_Ir "HOL-Library.Product_Lexorder"
begin

text \<open>
  Linked native images (\<open>src/src/mir68k/image.rs\<close>): segments and zero-filled ranges at 24-bit
  addresses, symbols and their lookup by name, and the check of their extents. The view traits for
  artifact readers only rename these operations. Lemmas: sorting the extents and comparing neighbours decides
  whether any two of them share an address.
\<close>

datatype image_error =
  NativeExtentRange
| EmptySegment
| UnalignedCodeSegment
| EmptyZeroFill
| OverlappingRegions
| EntryOutsideCode
| WrongImageTarget
| SegmentTooLarge

definition address_limit :: u32 where
  "address_limit = 0x1000000"

record segment =
  segment_address :: u32
  segment_bytes :: bytes
  segment_writable :: bool
  segment_executable :: bool

record zero_fill =
  zero_address :: u32
  zero_size :: u32
  zero_writable :: bool

datatype image_symbol_id =
  DataSymbol mir68k_data_id
| RoutineSymbol routine_id
| ParameterSymbol routine_id param_id
| AutomaticSymbol routine_id frame_object_id

datatype symbol_location =
  SymbolAbsolute u32
| SymbolFrame routine_id i32

record image_array_info =
  image_element_width :: u32
  image_stride :: u32
  image_count :: "u32 option"
  image_descriptor :: bool
  backing_address :: "u32 option"

record image_symbol =
  image_symbol_id :: image_symbol_id
  image_symbol_name :: string
  image_symbol_location :: symbol_location
  image_symbol_size :: u32
  image_symbol_alignment :: u32
  image_symbol_ty :: "nir_type option"
  image_symbol_array :: "image_array_info option"

record native_image =
  image_layout :: target_layout
  image_entry :: u32
  segments :: "segment list"
  zero_fills :: "zero_fill list"
  image_symbols :: "image_symbol list"

section \<open>Symbols\<close>

datatype symbol_error =
  RequiresActiveFrame string
| NoScalarType
| UnsupportedScalar
| UnknownSymbol string
| AmbiguousSymbol string

definition symbol_address :: "image_symbol \<Rightarrow> symbol_error + u32" where
  "symbol_address s =
     (case image_symbol_location s of
        SymbolAbsolute a \<Rightarrow> Inr a
      | _ \<Rightarrow> Inl (RequiresActiveFrame (image_symbol_name s)))"

text \<open>Width and signedness of an inspectable scalar.\<close>

definition scalar_type :: "image_symbol \<Rightarrow> (u32 \<times> bool) option" where
  "scalar_type s =
     Option.bind (image_symbol_ty s) (\<lambda>ty.
       Option.bind
         (case type_kind ty of
            Integer i \<Rightarrow> Some (signed_type i)
          | Bool \<Rightarrow> Some False
          | Pointer _ _ \<Rightarrow> Some False
          | Callable _ _ _ _ \<Rightarrow> Some False
          | _ \<Rightarrow> None) (\<lambda>signed.
         map_option (\<lambda>w. (w, signed)) (width ty)))"

definition scalar_width :: "image_symbol \<Rightarrow> symbol_error + u32" where
  "scalar_width s =
     bind_result (ok_or NoScalarType (scalar_type s)) (\<lambda>(width, _).
       if image_symbol_array s \<noteq> None \<or> image_symbol_size s \<noteq> width \<or> width \<notin> {1, 2, 4}
       then Inl UnsupportedScalar else Inr width)"

definition eq_ignore_ascii_case :: "string \<Rightarrow> string \<Rightarrow> bool" where
  "eq_ignore_ascii_case a b \<longleftrightarrow> map to_ascii_lowercase a = map to_ascii_lowercase b"

definition find_symbol :: "native_image \<Rightarrow> string \<Rightarrow> symbol_error + image_symbol" where
  "find_symbol img name =
     (case filter (\<lambda>s. eq_ignore_ascii_case (image_symbol_name s) name) (image_symbols img) of
        [] \<Rightarrow> Inl (UnknownSymbol name)
      | [s] \<Rightarrow> Inr s
      | _ \<Rightarrow> Inl (AmbiguousSymbol name))"

lemma find_symbol_Inr:
  "find_symbol img name = Inr s \<longleftrightarrow>
     filter (\<lambda>s. eq_ignore_ascii_case (image_symbol_name s) name) (image_symbols img) = [s]"
  by (auto simp: find_symbol_def split: list.splits)

section \<open>Extents\<close>

definition checked_end :: "u32 \<Rightarrow> u32 \<Rightarrow> image_error + u32" where
  "checked_end address extent =
     (case checked_add32 address extent of
        Some e \<Rightarrow> if e \<le> address_limit then Inr e else Inl NativeExtentRange
      | None \<Rightarrow> Inl NativeExtentRange)"

definition segment_range ::
  "u32 \<times> u32 \<times> bool \<Rightarrow> (u32 \<times> u32) list \<Rightarrow> image_error + (u32 \<times> u32) list" where
  "segment_range s ranges =
     (let (address, extent, executable) = s
      in bind_result (check (extent \<noteq> 0) EmptySegment) (\<lambda>_.
           bind_result (checked_end address extent) (\<lambda>e.
             bind_result
               (check (\<not> (executable \<and> (address AND 1 \<noteq> 0 \<or> extent AND 1 \<noteq> 0))) UnalignedCodeSegment)
               (\<lambda>_. Inr (ranges @ [(address, e)])))))"

definition zero_range :: "zero_fill \<Rightarrow> (u32 \<times> u32) list \<Rightarrow> image_error + (u32 \<times> u32) list" where
  "zero_range z ranges =
     bind_result (check (zero_size z \<noteq> 0) EmptyZeroFill) (\<lambda>_.
       bind_result (checked_end (zero_address z) (zero_size z)) (\<lambda>e.
         Inr (ranges @ [(zero_address z, e)])))"

fun neighbours_overlap :: "(u32 \<times> u32) list \<Rightarrow> bool" where
  "neighbours_overlap (r1 # r2 # rs) = (snd r1 > fst r2 \<or> neighbours_overlap (r2 # rs))"
| "neighbours_overlap _ = False"

definition entry_in_code :: "u32 \<Rightarrow> (u32 \<times> u32 \<times> bool) list \<Rightarrow> bool" where
  "entry_in_code pc segs =
     (\<exists>(address, extent, executable) \<in> set segs. executable \<and> address \<le> pc \<and> pc < address + extent)"

definition verify_region_extents ::
  "u32 \<Rightarrow> (u32 \<times> u32 \<times> bool) list \<Rightarrow> zero_fill list \<Rightarrow> image_error + unit" where
  "verify_region_extents pc segs zeros =
     bind_result (for_each segment_range segs []) (\<lambda>ranges.
       bind_result (for_each zero_range zeros ranges) (\<lambda>ranges.
         bind_result (check (\<not> neighbours_overlap (sort ranges)) OverlappingRegions) (\<lambda>_.
           check (pc AND 1 = 0 \<and> entry_in_code pc segs) EntryOutsideCode)))"

definition segment_extent ::
  "segment \<Rightarrow> (u32 \<times> u32 \<times> bool) list \<Rightarrow> image_error + (u32 \<times> u32 \<times> bool) list" where
  "segment_extent s extents =
     (if length (segment_bytes s) < 2 ^ 32
      then Inr (extents @ [(segment_address s, of_nat (length (segment_bytes s)), segment_executable s)])
      else Inl SegmentTooLarge)"

lemma segment_extent_code [code]:
  "segment_extent s extents =
     (if int (length (segment_bytes s)) < 4294967296
      then Inr (extents @ [(segment_address s, of_nat (length (segment_bytes s)), segment_executable s)])
      else Inl SegmentTooLarge)"
  by (simp add: segment_extent_def)

definition verify_regions ::
  "target_layout \<Rightarrow> u32 \<Rightarrow> segment list \<Rightarrow> zero_fill list \<Rightarrow> image_error + unit" where
  "verify_regions layout pc segs zeros =
     bind_result (check (layout = for_target Motorola68000) WrongImageTarget) (\<lambda>_.
       bind_result (for_each segment_extent segs []) (\<lambda>extents.
         verify_region_extents pc extents zeros))"

definition verify_image :: "native_image \<Rightarrow> image_error + unit" where
  "verify_image i = verify_regions (image_layout i) (image_entry i) (segments i) (zero_fills i)"

section \<open>Sorted neighbours\<close>

text \<open>Two ranges of addresses are disjoint when one ends before the other starts.\<close>

definition disjoint_ranges :: "u32 \<times> u32 \<Rightarrow> u32 \<times> u32 \<Rightarrow> bool" where
  "disjoint_ranges r s \<longleftrightarrow> snd r \<le> fst s \<or> snd s \<le> fst r"

lemma disjoint_ranges_sym: "disjoint_ranges r s \<longleftrightarrow> disjoint_ranges s r"
  by (auto simp: disjoint_ranges_def)

definition pairwise_disjoint :: "(u32 \<times> u32) list \<Rightarrow> bool" where
  "pairwise_disjoint rs \<longleftrightarrow> sorted_wrt disjoint_ranges rs"

lemma pairwise_disjoint_simps [simp]:
  "pairwise_disjoint []"
  "pairwise_disjoint (r # rs) \<longleftrightarrow> (\<forall>s \<in> set rs. disjoint_ranges r s) \<and> pairwise_disjoint rs"
  by (simp_all add: pairwise_disjoint_def)

lemma pairwise_disjoint_insort:
  "pairwise_disjoint (insort r rs) \<longleftrightarrow> (\<forall>s \<in> set rs. disjoint_ranges r s) \<and> pairwise_disjoint rs"
proof (induction rs)
  case Nil
  then show ?case by simp
next
  case (Cons s rs)
  then show ?case by (auto simp: set_insort_key disjoint_ranges_sym)
qed

lemma pairwise_disjoint_sort: "pairwise_disjoint (sort rs) \<longleftrightarrow> pairwise_disjoint rs"
  by (induction rs) (simp_all add: pairwise_disjoint_insort)

lemma pairwise_disjoint_nth:
  "pairwise_disjoint rs \<longleftrightarrow>
     (\<forall>i < length rs. \<forall>j < length rs. i \<noteq> j \<longrightarrow> disjoint_ranges (rs ! i) (rs ! j))"
  (is "_ \<longleftrightarrow> ?all")
proof
  assume ?all
  then show "pairwise_disjoint rs"
    by (simp add: pairwise_disjoint_def sorted_wrt_iff_nth_less)
next
  assume p: "pairwise_disjoint rs"
  have less: "disjoint_ranges (rs ! i) (rs ! j)" if "i < j" "j < length rs" for i j
    using p that by (simp add: pairwise_disjoint_def sorted_wrt_iff_nth_less)
  show ?all
  proof (intro allI impI)
    fix i j assume "i < length rs" "j < length rs" "i \<noteq> j"
    then show "disjoint_ranges (rs ! i) (rs ! j)"
      using less [of i j] less [of j i] disjoint_ranges_sym by (metis nat_neq_iff)
  qed
qed

lemma sorted_neighbours:
  assumes "sorted rs" and "\<forall>r \<in> set rs. fst r < snd r"
  shows "neighbours_overlap rs \<longleftrightarrow> \<not> pairwise_disjoint rs"
  using assms
proof (induction rs rule: neighbours_overlap.induct)
  case (1 r1 r2 rs)
  show ?case
  proof (cases "snd r1 \<le> fst r2")
    case True
    have "disjoint_ranges r1 s" if s: "s \<in> set (r2 # rs)" for s
    proof -
      from s have "fst r2 \<le> fst s" using 1(2) by (auto simp: less_eq_prod_def)
      with True show ?thesis by (auto simp: disjoint_ranges_def)
    qed
    with 1 True show ?thesis by (auto simp: not_less)
  next
    case False
    have "fst r1 \<le> fst r2" using 1(2) by (auto simp: less_eq_prod_def)
    with False 1(3) have "\<not> disjoint_ranges r1 r2" by (auto simp: disjoint_ranges_def)
    with False show ?thesis by auto
  qed
qed simp_all

section \<open>What the checks establish\<close>

lemma unat_address_limit: "unat address_limit = 2 ^ 24"
  by (simp add: address_limit_def)

lemma checked_end_Inr:
  "checked_end a n = Inr e \<longleftrightarrow> unat a + unat n \<le> 2 ^ 24 \<and> e = a + n"
proof (cases "checked_add32 a n")
  case None
  then show ?thesis using checked_add32_NoneD [of a n] by (auto simp: checked_end_def)
next
  case (Some s)
  have "s = a + n" using Some by (auto simp: checked_add32_def split: if_splits)
  moreover have "s \<le> address_limit \<longleftrightarrow> unat a + unat n \<le> 2 ^ 24"
    by (simp add: word_le_nat_alt unat_address_limit checked_add32_SomeD [OF Some])
  ultimately show ?thesis using Some by (auto simp: checked_end_def)
qed

lemma unat_end: "unat a + unat n \<le> 2 ^ 24 \<Longrightarrow> unat (a + n) = unat a + unat n" for a n :: u32
  by (simp add: unat_word_ariths)

definition segment_ok :: "u32 \<times> u32 \<times> bool \<Rightarrow> bool" where
  "segment_ok = (\<lambda>(a, n, x). n \<noteq> 0 \<and> unat a + unat n \<le> 2 ^ 24 \<and> (x \<longrightarrow> a AND 1 = 0 \<and> n AND 1 = 0))"

definition zero_ok :: "zero_fill \<Rightarrow> bool" where
  "zero_ok z \<longleftrightarrow> zero_size z \<noteq> 0 \<and> unat (zero_address z) + unat (zero_size z) \<le> 2 ^ 24"

definition extent_ranges :: "(u32 \<times> u32 \<times> bool) list \<Rightarrow> zero_fill list \<Rightarrow> (u32 \<times> u32) list" where
  "extent_ranges segs zeros =
     map (\<lambda>(a, n, x). (a, a + n)) segs @ map (\<lambda>z. (zero_address z, zero_address z + zero_size z)) zeros"

lemma segment_ranges:
  "for_each segment_range segs rs = Inr rs' \<longleftrightarrow>
     (\<forall>s \<in> set segs. segment_ok s) \<and> rs' = rs @ map (\<lambda>(a, n, x). (a, a + n)) segs"
  by (induction segs arbitrary: rs)
    (auto simp: segment_range_def checked_end_Inr segment_ok_def Let_def)

lemma zero_ranges:
  "for_each zero_range zeros rs = Inr rs' \<longleftrightarrow>
     (\<forall>z \<in> set zeros. zero_ok z) \<and>
     rs' = rs @ map (\<lambda>z. (zero_address z, zero_address z + zero_size z)) zeros"
  by (induction zeros arbitrary: rs) (auto simp: zero_range_def checked_end_Inr zero_ok_def)

lemma range_increasing: "n \<noteq> 0 \<Longrightarrow> unat a + unat n \<le> 16777216 \<Longrightarrow> a < a + n" for a n :: u32
  by (simp add: word_less_nat_alt unat_end unat_gt_0)

lemma extent_ranges_increasing:
  assumes "\<forall>s \<in> set segs. segment_ok s" and "\<forall>z \<in> set zeros. zero_ok z"
  shows "\<forall>r \<in> set (extent_ranges segs zeros). fst r < snd r"
proof -
  have "a < a + n" if "segment_ok (a, n, x)" for a n x
    using that range_increasing [of n a] by (simp add: segment_ok_def)
  moreover have "zero_address z < zero_address z + zero_size z" if "zero_ok z" for z
    using that range_increasing [of "zero_size z" "zero_address z"] by (simp add: zero_ok_def)
  ultimately show ?thesis using assms by (fastforce simp: extent_ranges_def)
qed

lemma disjoint_ranges_interval:
  "fst r < snd r \<Longrightarrow> fst s < snd s \<Longrightarrow>
     disjoint_ranges r s \<longleftrightarrow> {fst r..<snd r} \<inter> {fst s..<snd s} = {}"
  by (auto simp: disjoint_ranges_def disjoint_iff intro: leI)

lemma verify_region_extents_Inr:
  "verify_region_extents pc segs zeros = Inr () \<longleftrightarrow>
     (\<forall>s \<in> set segs. segment_ok s) \<and> (\<forall>z \<in> set zeros. zero_ok z) \<and>
     pairwise_disjoint (extent_ranges segs zeros) \<and> pc AND 1 = 0 \<and> entry_in_code pc segs"
proof -
  have "neighbours_overlap (sort (extent_ranges segs zeros)) \<longleftrightarrow>
      \<not> pairwise_disjoint (extent_ranges segs zeros)"
    if "\<forall>s \<in> set segs. segment_ok s" "\<forall>z \<in> set zeros. zero_ok z"
    using sorted_neighbours [of "sort (extent_ranges segs zeros)"] extent_ranges_increasing [OF that]
    by (simp add: pairwise_disjoint_sort)
  then show ?thesis
    by (auto simp: verify_region_extents_def segment_ranges zero_ranges extent_ranges_def)
qed

lemma segment_extents:
  "for_each segment_extent segs es = Inr es' \<longleftrightarrow>
     (\<forall>s \<in> set segs. length (segment_bytes s) < 2 ^ 32) \<and>
     es' = es @ map (\<lambda>s. (segment_address s, of_nat (length (segment_bytes s)), segment_executable s)) segs"
proof (induction segs arbitrary: es)
  case Nil
  then show ?case by auto
next
  case (Cons s segs)
  then show ?case by (cases "length (segment_bytes s) < 2 ^ 32") (auto simp: segment_extent_def)
qed

section \<open>Properties\<close>

text \<open>C22: the extent check accepts exactly the lists of segments and zero-filled ranges that are
  non-empty, end within the 24-bit address space, keep code at even addresses and sizes, share no
  address with one another, and hold an even entry address in a code segment. Comparing neighbours
  after sorting is enough.\<close>

theorem region_extents_accepted_iff:
  "verify_region_extents pc segs zeros = Inr () \<longleftrightarrow>
     (\<forall>s \<in> set segs. segment_ok s) \<and> (\<forall>z \<in> set zeros. zero_ok z) \<and>
     (\<forall>i < length (extent_ranges segs zeros). \<forall>j < length (extent_ranges segs zeros). i \<noteq> j \<longrightarrow>
        {fst (extent_ranges segs zeros ! i)..<snd (extent_ranges segs zeros ! i)} \<inter>
        {fst (extent_ranges segs zeros ! j)..<snd (extent_ranges segs zeros ! j)} = {}) \<and>
     even (unat pc) \<and> entry_in_code pc segs"
proof -
  let ?rs = "extent_ranges segs zeros"
  have "pairwise_disjoint ?rs \<longleftrightarrow>
      (\<forall>i < length ?rs. \<forall>j < length ?rs. i \<noteq> j \<longrightarrow>
         {fst (?rs ! i)..<snd (?rs ! i)} \<inter> {fst (?rs ! j)..<snd (?rs ! j)} = {})"
    if "\<forall>s \<in> set segs. segment_ok s" "\<forall>z \<in> set zeros. zero_ok z"
  proof -
    note inc = extent_ranges_increasing [OF that]
    have "disjoint_ranges (?rs ! i) (?rs ! j) \<longleftrightarrow>
        {fst (?rs ! i)..<snd (?rs ! i)} \<inter> {fst (?rs ! j)..<snd (?rs ! j)} = {}"
      if "i < length ?rs" "j < length ?rs" for i j
      by (rule disjoint_ranges_interval) (use inc that in auto)
    then show ?thesis by (simp add: pairwise_disjoint_nth)
  qed
  moreover have "pc AND 1 = 0 \<longleftrightarrow> even (unat pc)"
    by (rule and_1_eq_0_iff)
  ultimately show ?thesis unfolding verify_region_extents_Inr by blast
qed

theorem region_extents_accepted_iff_witness:
  "verify_region_extents 0x100 [(0x100, 4, True), (0x108, 3, False)]
     [\<lparr>zero_address = 0x104, zero_size = 4, zero_writable = True\<rparr>] = Inr ()"
proof -
  let ?segs = "[(0x100, 4, True), (0x108, 3, False)] :: (u32 \<times> u32 \<times> bool) list"
  let ?zeros = "[\<lparr>zero_address = 0x104, zero_size = 4, zero_writable = True\<rparr>]"
  have rs: "extent_ranges ?segs ?zeros = [(0x100, 0x104), (0x108, 0x10B), (0x104, 0x108)]"
    by (simp add: extent_ranges_def)
  show ?thesis
  proof (rule region_extents_accepted_iff [THEN iffD2], intro conjI allI impI)
    show "\<forall>s \<in> set ?segs. segment_ok s" "\<forall>z \<in> set ?zeros. zero_ok z"
      by (simp_all add: segment_ok_def zero_ok_def)
    show "even (unat (0x100 :: u32))" "entry_in_code 0x100 ?segs"
      by (simp_all add: entry_in_code_def)
    fix i j assume "i < length (extent_ranges ?segs ?zeros)" "j < length (extent_ranges ?segs ?zeros)" "i \<noteq> j"
    then show "{fst (extent_ranges ?segs ?zeros ! i)..<snd (extent_ranges ?segs ?zeros ! i)} \<inter>
      {fst (extent_ranges ?segs ?zeros ! j)..<snd (extent_ranges ?segs ?zeros ! j)} = {}"
      unfolding rs by (auto simp: less_Suc_eq)
  qed
qed

end
