(* ===== verification/M68k_Object.thy ===== *)
theory M68k_Object
  imports M68k_Encode M68k_Image
begin

text \<open>
  Relocatable native objects and their linker (\<open>src/src/mir68k/object.rs\<close>, without \<open>emit\<close>): sections,
  relocations and symbols; \<open>verify_object\<close>; the bare layout of \<open>link\<close>; \<open>link_sections\<close>, which patches
  the section bytes and builds the image. An index outside a vector, where the code panics, is the
  error \<open>Panic\<close>. The slice index of a section is its number as \<open>usize\<close>. Lemmas: what a verified object
  guarantees; the bases \<open>link\<close> assigns; linking a verified object never panics; each relocation site of the
  image holds its resolved value and every other byte is the section's own.
\<close>

type_synonym section_id = u32

datatype object_error =
  ExtentRange
| AddressRange
| AddendRange
| StaticNeedsFrame
| MissingSectionBase
| FrameNeedsInvocation
| InvalidSection
| InvalidCodeExtent
| MissingSection
| SymbolPastSection
| EntryNotSection
| EntryNotInCode
| MissingRelocationSource
| InvalidRelocation
| OverlappingRelocations
| RelocationTargetsFrame
| BadOrigin
| BaseCountMismatch
| ImageEndNeedsBare
| ValueTooWide
| InvalidSectionBase
| ImageError image_error
| Panic

datatype location =
  SectionLocation section_id u32
| AbsoluteLocation u32
| FrameLocation routine_id i32

record object_section =
  section_number :: section_id
  section_bytes :: bytes
  section_zero_fill :: u32
  section_size :: u32
  section_alignment :: u32
  section_writable :: bool
  section_executable :: bool
  fixed_address :: "u32 option"

datatype relocation_target = LocationTarget location | ImageEnd

record relocation =
  reloc_section :: section_id
  reloc_offset :: u32
  reloc_width :: u32
  byte_index :: "u8 option"
  reloc_target :: relocation_target
  reloc_addend :: int

record array_info =
  element_width :: u32
  array_stride :: u32
  array_count :: "u32 option"
  array_descriptor :: bool
  array_backing :: "location option"

record object_symbol =
  symbol_number :: image_symbol_id
  symbol_name :: string
  symbol_location :: location
  symbol_size :: u32
  symbol_alignment :: u32
  symbol_ty :: "nir_type option"
  symbol_array :: "array_info option"

record native_object =
  object_entry :: location
  object_sections :: "object_section list"
  object_relocations :: "relocation list"
  object_symbols :: "object_symbol list"

section \<open>Checked addresses\<close>

definition extent_end :: "u32 \<Rightarrow> u32 \<Rightarrow> object_error + u32" where
  "extent_end address n =
     (case checked_add32 address n of
        Some e \<Rightarrow> if e \<le> address_limit then Inr e else Inl ExtentRange
      | None \<Rightarrow> Inl ExtentRange)"

definition physical :: "u64 \<Rightarrow> object_error + u32" where
  "physical v =
     (if v < 2 ^ 32 \<and> (ucast v :: u32) < address_limit then Inr (ucast v) else Inl AddressRange)"

text \<open>The addend is an \<open>i64\<close>; a sum outside \<open>i64\<close> is outside the address space as well.\<close>

definition adjusted :: "u32 \<Rightarrow> int \<Rightarrow> object_error + u32" where
  "adjusted address delta =
     (let v = uint address + delta
      in if 0 \<le> v \<and> v < uint address_limit then Inr (word_of_int v) else Inl AddendRange)"

fun add_offset :: "location \<Rightarrow> u32 \<Rightarrow> object_error + location" where
  "add_offset (SectionLocation s offset) delta =
     bind_result (extent_end offset delta) (\<lambda>e. Inr (SectionLocation s e))"
| "add_offset (AbsoluteLocation address) delta =
     bind_result (extent_end address delta) (\<lambda>e. Inr (AbsoluteLocation e))"
| "add_offset (FrameLocation _ _) delta = Inl StaticNeedsFrame"

definition slice_get :: "'a list \<Rightarrow> nat \<Rightarrow> 'a option" where
  "slice_get xs i = (if i < length xs then Some (xs ! i) else None)"

fun resolve_location :: "location \<Rightarrow> u32 list \<Rightarrow> object_error + u32" where
  "resolve_location (SectionLocation s offset) bases =
     bind_result (ok_or MissingSectionBase (slice_get bases (unat s))) (\<lambda>base. extent_end base offset)"
| "resolve_location (AbsoluteLocation v) bases = Inr v"
| "resolve_location (FrameLocation _ _) bases = Inl FrameNeedsInvocation"

section \<open>Verification\<close>

definition verify_section :: "nat \<times> object_section \<Rightarrow> unit \<Rightarrow> object_error + unit" where
  "verify_section = (\<lambda>(index, s) _.
     let initialized = length (section_bytes s) + unat (section_zero_fill s)
     in bind_result
          (check (\<not> (unat (section_number s) \<noteq> index \<or> \<not> is_power_of_two32 (section_alignment s) \<or>
             2 < section_alignment s \<or> address_limit < section_size s \<or>
             unat (section_size s) < initialized \<or>
             fixed_address s = None \<and> initialized \<noteq> unat (section_size s))) InvalidSection) (\<lambda>_.
        bind_result
          (check (\<not> (section_executable s \<and>
             (section_alignment s \<noteq> 2 \<or> length (section_bytes s) mod 2 \<noteq> 0 \<or> section_zero_fill s \<noteq> 0)))
             InvalidCodeExtent) (\<lambda>_.
          case fixed_address s of
            None \<Rightarrow> Inr ()
          | Some address \<Rightarrow> bind_result (extent_end address (section_size s)) (\<lambda>_. Inr ()))))"

fun check_location :: "object_section list \<Rightarrow> location \<Rightarrow> u32 \<Rightarrow> object_error + unit" where
  "check_location sections (SectionLocation s offset) n =
     bind_result (ok_or MissingSection (slice_get sections (unat s))) (\<lambda>sec.
       bind_result (extent_end offset n) (\<lambda>e.
         check (\<not> section_size sec < e) SymbolPastSection))"
| "check_location sections (AbsoluteLocation address) n =
     bind_result (extent_end address n) (\<lambda>_. Inr ())"
| "check_location sections (FrameLocation _ _) n = Inr ()"

definition vec_len :: "'a list \<Rightarrow> u32" where
  "vec_len xs = of_nat (length xs)"

definition check_entry :: "native_object \<Rightarrow> object_error + unit" where
  "check_entry obj =
     (case object_entry obj of
        SectionLocation s offset \<Rightarrow>
          check
            (case slice_get (object_sections obj) (unat s) of
               None \<Rightarrow> False
             | Some sec \<Rightarrow> section_executable sec \<and> offset < vec_len (section_bytes sec) \<and> offset AND 1 = 0)
            EntryNotInCode
      | _ \<Rightarrow> Inl EntryNotSection)"

definition occupy_byte ::
  "section_id \<times> u32 \<Rightarrow> (section_id \<times> u32) set \<Rightarrow> object_error + (section_id \<times> u32) set" where
  "occupy_byte b occupied =
     (if b \<in> occupied then Inl OverlappingRelocations else Inr (insert b occupied))"

definition reloc_sites :: "relocation \<Rightarrow> (section_id \<times> u32) list" where
  "reloc_sites r =
     map (\<lambda>k. (reloc_section r, reloc_offset r + of_nat k)) [0..<unat (reloc_width r)]"

definition check_target :: "object_section list \<Rightarrow> relocation_target \<Rightarrow> object_error + unit" where
  "check_target sections t =
     (case t of
        ImageEnd \<Rightarrow> Inr ()
      | LocationTarget (FrameLocation _ _) \<Rightarrow> Inl RelocationTargetsFrame
      | LocationTarget l \<Rightarrow> check_location sections l 0)"

definition verify_relocation ::
  "object_section list \<Rightarrow> relocation \<Rightarrow> (section_id \<times> u32) set \<Rightarrow> object_error + (section_id \<times> u32) set"
where
  "verify_relocation sections r occupied =
     bind_result (ok_or MissingRelocationSource (slice_get sections (unat (reloc_section r)))) (\<lambda>sec.
       bind_result (check (reloc_width r \<in> {1, 2, 4}) InvalidRelocation) (\<lambda>_.
         bind_result (extent_end (reloc_offset r) (reloc_width r)) (\<lambda>e.
           bind_result
             (check (\<not> (vec_len (section_bytes sec) < e \<or>
                (case byte_index r of None \<Rightarrow> False | Some i \<Rightarrow> 4 \<le> i \<or> reloc_width r \<noteq> 1)))
                InvalidRelocation) (\<lambda>_.
             bind_result (for_each occupy_byte (reloc_sites r) occupied) (\<lambda>occupied.
               bind_result (check_target sections (reloc_target r)) (\<lambda>_. Inr occupied))))))"

definition verify_symbol :: "object_section list \<Rightarrow> object_symbol \<Rightarrow> unit \<Rightarrow> object_error + unit" where
  "verify_symbol sections symbol = (\<lambda>_.
     bind_result (check_location sections (symbol_location symbol) (symbol_size symbol)) (\<lambda>_.
       case Option.bind (symbol_array symbol) array_backing of
         None \<Rightarrow> Inr ()
       | Some backing \<Rightarrow> check_location sections backing 0))"

definition verify_object :: "native_object \<Rightarrow> object_error + unit" where
  "verify_object obj =
     (let sections = object_sections obj
      in bind_result (for_each verify_section (enumerate 0 sections) ()) (\<lambda>_.
           bind_result (check_entry obj) (\<lambda>_.
             bind_result (for_each (verify_relocation sections) (object_relocations obj) {}) (\<lambda>_.
               for_each (verify_symbol sections) (object_symbols obj) ()))))"

section \<open>Linking\<close>

text \<open>\<open>copy_from_slice\<close> and an indexed store: a panic outside the vector.\<close>

definition store_bytes :: "nat \<Rightarrow> nat \<Rightarrow> bytes \<Rightarrow> bytes list \<Rightarrow> object_error + bytes list" where
  "store_bytes index start new payloads =
     (if index < length payloads \<and> start + length new \<le> length (payloads ! index)
      then Inr (payloads[index := splice start new (payloads ! index)])
      else Inl Panic)"

definition target_base :: "u32 list \<Rightarrow> u32 option \<Rightarrow> relocation_target \<Rightarrow> object_error + u32" where
  "target_base bases image_end t =
     (case t of
        LocationTarget l \<Rightarrow> resolve_location l bases
      | ImageEnd \<Rightarrow> ok_or ImageEndNeedsBare image_end)"

text \<open>The bytes a relocation stores for its value.\<close>

definition relocated_bytes :: "relocation \<Rightarrow> u32 \<Rightarrow> object_error + bytes" where
  "relocated_bytes r v =
     (case byte_index r of
        Some i \<Rightarrow> Inr [ucast (drop_bit (8 * unat i) v)]
      | None \<Rightarrow>
          (let width = unat (reloc_width r)
           in if width < 4 \<and> push_bit (8 * width) 1 \<le> v then Inl ValueTooWide
              else Inr (drop (4 - width) (be_long v))))"

definition relocation_value :: "u32 list \<Rightarrow> u32 option \<Rightarrow> relocation \<Rightarrow> object_error + u32" where
  "relocation_value bases image_end r =
     bind_result (target_base bases image_end (reloc_target r)) (\<lambda>base. adjusted base (reloc_addend r))"

definition apply_relocation ::
  "u32 list \<Rightarrow> u32 option \<Rightarrow> relocation \<Rightarrow> bytes list \<Rightarrow> object_error + bytes list" where
  "apply_relocation bases image_end r payloads =
     bind_result (relocation_value bases image_end r) (\<lambda>v.
       bind_result (relocated_bytes r v) (\<lambda>new.
         store_bytes (unat (reloc_section r)) (unat (reloc_offset r)) new payloads))"

definition valid_base :: "object_section \<Rightarrow> u32 \<Rightarrow> bool" where
  "valid_base s address =
     (\<not> ((case fixed_address s of None \<Rightarrow> False | Some fixed \<Rightarrow> fixed \<noteq> address) \<or>
         fixed_address s = None \<and> address mod section_alignment s \<noteq> 0))"

definition place_payload ::
  "(object_section \<times> u32) \<times> bytes \<Rightarrow> segment list \<times> zero_fill list \<Rightarrow>
     object_error + segment list \<times> zero_fill list"
where
  "place_payload = (\<lambda>((s, address), payload) (segs, zeros).
     bind_result (extent_end address (section_size s)) (\<lambda>_.
       bind_result (check (valid_base s address) InvalidSectionBase) (\<lambda>_.
         Inr
           (if payload \<noteq> []
            then segs @ [\<lparr>segment_address = address, segment_bytes = payload,
              segment_writable = section_writable s, segment_executable = section_executable s\<rparr>]
            else segs,
            if section_zero_fill s \<noteq> 0
            then zeros @ [\<lparr>zero_address = address + vec_len payload,
              zero_size = section_zero_fill s, zero_writable = section_writable s\<rparr>]
            else zeros))))"

definition link_location :: "u32 list \<Rightarrow> location \<Rightarrow> object_error + symbol_location" where
  "link_location bases l =
     (case l of
        FrameLocation routine offset \<Rightarrow> Inr (SymbolFrame routine offset)
      | _ \<Rightarrow> bind_result (resolve_location l bases) (\<lambda>a. Inr (SymbolAbsolute a)))"

definition link_array :: "u32 list \<Rightarrow> array_info option \<Rightarrow> object_error + image_array_info option" where
  "link_array bases info =
     (case info of
        None \<Rightarrow> Inr None
      | Some a \<Rightarrow>
          bind_result
            (case array_backing a of
               None \<Rightarrow> Inr None
             | Some l \<Rightarrow> bind_result (resolve_location l bases) (\<lambda>b. Inr (Some b))) (\<lambda>backing.
            Inr (Some \<lparr>image_element_width = element_width a, image_stride = array_stride a,
              image_count = array_count a, image_descriptor = array_descriptor a,
              backing_address = backing\<rparr>)))"

definition linked_alignment :: "symbol_location \<Rightarrow> u32 \<Rightarrow> u32" where
  "linked_alignment l alignment =
     (case l of SymbolAbsolute a \<Rightarrow> if a AND 1 \<noteq> 0 then 1 else alignment | _ \<Rightarrow> alignment)"

definition link_symbol ::
  "u32 list \<Rightarrow> object_symbol \<Rightarrow> image_symbol list \<Rightarrow> object_error + image_symbol list" where
  "link_symbol bases symbol symbols =
     bind_result (link_location bases (symbol_location symbol)) (\<lambda>l.
       bind_result (link_array bases (symbol_array symbol)) (\<lambda>array.
         Inr (symbols @ [\<lparr>image_symbol_id = symbol_number symbol, image_symbol_name = symbol_name symbol,
           image_symbol_location = l, image_symbol_size = symbol_size symbol,
           image_symbol_alignment = linked_alignment l (symbol_alignment symbol),
           image_symbol_ty = symbol_ty symbol, image_symbol_array = array\<rparr>])))"

definition image_result :: "image_error + 'a \<Rightarrow> object_error + 'a" where
  "image_result r = (case r of Inl e \<Rightarrow> Inl (ImageError e) | Inr v \<Rightarrow> Inr v)"

definition link_sections :: "native_object \<Rightarrow> u32 list \<Rightarrow> u32 option \<Rightarrow> object_error + native_image" where
  "link_sections obj bases image_end =
     bind_result (verify_object obj) (\<lambda>_.
       bind_result (check (length bases = length (object_sections obj)) BaseCountMismatch) (\<lambda>_.
         bind_result
           (for_each (apply_relocation bases image_end) (object_relocations obj)
              (map section_bytes (object_sections obj))) (\<lambda>payloads.
           bind_result (resolve_location (object_entry obj) bases) (\<lambda>pc.
             bind_result
               (for_each place_payload (zip (zip (object_sections obj) bases) payloads) ([], []))
               (\<lambda>(segs, zeros).
               bind_result (for_each (link_symbol bases) (object_symbols obj) []) (\<lambda>symbols.
                 let image = \<lparr>image_layout = for_target Motorola68000, image_entry = pc,
                   segments = segs, zero_fills = zeros, image_symbols = symbols\<rparr>
                 in bind_result (image_result (verify_image image)) (\<lambda>_. Inr image)))))))"

definition place_section :: "object_section \<Rightarrow> u32 \<times> u32 list \<Rightarrow> object_error + u32 \<times> u32 list" where
  "place_section s = (\<lambda>(cursor, bases).
     case fixed_address s of
       Some address \<Rightarrow> Inr (cursor, bases @ [address])
     | None \<Rightarrow>
         bind_result (extent_end cursor (section_alignment s - 1)) (\<lambda>e.
           let start = e AND NOT (section_alignment s - 1)
           in bind_result (extent_end start (section_size s)) (\<lambda>cursor.
                Inr (cursor, bases @ [start]))))"

definition link_bases :: "native_object \<Rightarrow> u32 \<Rightarrow> object_error + u32 \<times> u32 list" where
  "link_bases obj origin =
     bind_result (verify_object obj) (\<lambda>_.
       bind_result (check (\<not> (origin AND 1 \<noteq> 0 \<or> address_limit \<le> origin)) BadOrigin) (\<lambda>_.
         for_each place_section (object_sections obj) (origin, [])))"

definition link_object :: "native_object \<Rightarrow> u32 \<Rightarrow> object_error + native_image" where
  "link_object obj origin =
     bind_result (link_bases obj origin) (\<lambda>(cursor, bases). link_sections obj bases (Some cursor))"

section \<open>What verification establishes\<close>

lemma slice_get_Some [simp]: "slice_get xs i = Some x \<longleftrightarrow> i < length xs \<and> xs ! i = x"
  by (auto simp: slice_get_def)

lemma extent_end_Inr: "extent_end a n = Inr e \<longleftrightarrow> unat a + unat n \<le> 2 ^ 24 \<and> e = a + n"
proof -
  have "extent_end a n = Inr e \<longleftrightarrow> checked_end a n = Inr e"
    by (auto simp: extent_end_def checked_end_def split: option.splits)
  then show ?thesis by (simp only: checked_end_Inr)
qed

lemma adjusted_Inr: "adjusted a d = Inr v \<longleftrightarrow> uint v = uint a + d \<and> uint v < 2 ^ 24"
proof -
  define k where "k = uint a + d"
  have limit: "uint address_limit = 2 ^ 24" by (simp add: address_limit_def)
  have "uint (word_of_int k :: u32) = k" if "0 \<le> k" "k < 2 ^ 24"
    using that by (simp add: unsigned_of_int take_bit_int_eq_self)
  moreover have "0 \<le> uint v" "word_of_int (uint v) = v" by simp_all
  ultimately have "(if 0 \<le> k \<and> k < 2 ^ 24 then Inr (word_of_int k) else Inl AddendRange) = Inr v \<longleftrightarrow>
      uint v = k \<and> uint v < 2 ^ 24" by auto
  then show ?thesis by (simp only: adjusted_def Let_def limit k_def)
qed

definition section_ok :: "nat \<Rightarrow> object_section \<Rightarrow> bool" where
  "section_ok i s \<longleftrightarrow> unat (section_number s) = i \<and> section_alignment s \<in> {1, 2} \<and>
     unat (section_size s) \<le> 2 ^ 24 \<and>
     length (section_bytes s) + unat (section_zero_fill s) \<le> unat (section_size s) \<and>
     (fixed_address s = None \<longrightarrow>
        length (section_bytes s) + unat (section_zero_fill s) = unat (section_size s)) \<and>
     (section_executable s \<longrightarrow> section_alignment s = 2 \<and> even (length (section_bytes s)) \<and>
        section_zero_fill s = 0) \<and>
     (\<forall>a. fixed_address s = Some a \<longrightarrow> unat a + unat (section_size s) \<le> 2 ^ 24)"

lemma section_ok_alignment: "section_ok i s \<Longrightarrow> section_alignment s \<in> {1, 2}"
  by (simp only: section_ok_def)

lemma small_power_of_two: "is_power_of_two32 a \<and> \<not> 2 < a \<longleftrightarrow> a \<in> {1, 2}"
proof
  assume a: "is_power_of_two32 a \<and> \<not> 2 < a"
  then have "unat a \<le> 2" "unat a \<noteq> 0"
    by (auto simp: word_le_nat_alt not_less is_power_of_two32_def unat_eq_0)
  then have "unat a = 1 \<or> unat a = 2" by auto
  then show "a \<in> {1, 2}" by (auto simp: word_unat_eq_iff)
next
  assume "a \<in> {1, 2}"
  then show "is_power_of_two32 a \<and> \<not> 2 < a" by (auto simp: is_power_of_two32_def)
qed

lemma verify_section_Inr: "verify_section (i, s) () = Inr () \<longleftrightarrow> section_ok i s"
proof -
  have "address_limit < section_size s \<longleftrightarrow> \<not> unat (section_size s) \<le> 2 ^ 24"
    by (simp add: word_less_nat_alt unat_address_limit not_le)
  with small_power_of_two [of "section_alignment s"] show ?thesis
    by (auto simp: verify_section_def section_ok_def Let_def extent_end_Inr even_iff_mod_2_eq_zero
        not_less split: option.splits)
qed

lemma verify_sections_Inr:
  "for_each verify_section (enumerate 0 xs) () = Inr () \<longleftrightarrow> (\<forall>i < length xs. section_ok i (xs ! i))"
proof -
  have "set (enumerate 0 xs) = {(i, xs ! i) | i. i < length xs}"
    by (auto simp: in_set_enumerate_eq)
  then show ?thesis by (auto simp: for_each_unit verify_section_Inr)
qed

lemma occupy_bytes:
  "for_each occupy_byte bs occupied = Inr occupied' \<longleftrightarrow>
     distinct bs \<and> set bs \<inter> occupied = {} \<and> occupied' = occupied \<union> set bs"
  by (induction bs arbitrary: occupied) (auto simp: occupy_byte_def)

definition relocation_ok :: "object_section list \<Rightarrow> relocation \<Rightarrow> bool" where
  "relocation_ok sections r \<longleftrightarrow> unat (reloc_section r) < length sections \<and> reloc_width r \<in> {1, 2, 4} \<and>
     unat (reloc_offset r) + unat (reloc_width r) \<le> 2 ^ 24 \<and>
     unat (reloc_offset r) + unat (reloc_width r) \<le>
       unat (vec_len (section_bytes (sections ! unat (reloc_section r)))) \<and>
     (\<forall>i. byte_index r = Some i \<longrightarrow> i < 4 \<and> reloc_width r = 1) \<and>
     check_target sections (reloc_target r) = Inr ()"

lemma verify_relocation_Inr:
  "verify_relocation sections r occupied = Inr occupied' \<longleftrightarrow>
     relocation_ok sections r \<and> distinct (reloc_sites r) \<and> set (reloc_sites r) \<inter> occupied = {} \<and>
     occupied' = occupied \<union> set (reloc_sites r)"
proof -
  have "(vec_len bs < reloc_offset r + reloc_width r) \<longleftrightarrow>
      \<not> unat (reloc_offset r) + unat (reloc_width r) \<le> unat (vec_len bs)"
    if "unat (reloc_offset r) + unat (reloc_width r) \<le> 2 ^ 24" for bs :: bytes
    using that by (auto simp: word_less_nat_alt unat_end)
  then show ?thesis
    by (auto simp: verify_relocation_def relocation_ok_def occupy_bytes extent_end_Inr not_le
        split: option.splits)
qed

definition all_sites :: "relocation list \<Rightarrow> (section_id \<times> u32) list" where
  "all_sites rs = concat (map reloc_sites rs)"

lemma all_sites_simps [simp]: "all_sites [] = []" "all_sites (r # rs) = reloc_sites r @ all_sites rs"
  by (simp_all add: all_sites_def)

lemma verify_relocations_Inr:
  "for_each (verify_relocation sections) rs occupied = Inr occupied' \<longleftrightarrow>
     (\<forall>r \<in> set rs. relocation_ok sections r) \<and> distinct (all_sites rs) \<and>
     set (all_sites rs) \<inter> occupied = {} \<and> occupied' = occupied \<union> set (all_sites rs)"
  by (induction rs arbitrary: occupied) (auto simp: verify_relocation_Inr)

lemma verify_object_facts:
  assumes "verify_object obj = Inr ()"
  shows "\<And>i. i < length (object_sections obj) \<Longrightarrow> section_ok i (object_sections obj ! i)"
    and "\<And>r. r \<in> set (object_relocations obj) \<Longrightarrow> relocation_ok (object_sections obj) r"
    and "distinct (all_sites (object_relocations obj))"
    and "check_entry obj = Inr ()"
    and "\<And>s. s \<in> set (object_symbols obj) \<Longrightarrow> verify_symbol (object_sections obj) s () = Inr ()"
proof -
  from assms have
    s: "for_each verify_section (enumerate 0 (object_sections obj)) () = Inr ()"
    and r: "\<exists>occupied. for_each (verify_relocation (object_sections obj)) (object_relocations obj) {} = Inr occupied"
    and y: "for_each (verify_symbol (object_sections obj)) (object_symbols obj) () = Inr ()"
    and e: "check_entry obj = Inr ()"
    by (auto simp: verify_object_def Let_def)
  show "\<And>i. i < length (object_sections obj) \<Longrightarrow> section_ok i (object_sections obj ! i)"
    using s unfolding verify_sections_Inr by blast
  show "\<And>r. r \<in> set (object_relocations obj) \<Longrightarrow> relocation_ok (object_sections obj) r"
    and "distinct (all_sites (object_relocations obj))"
    using r unfolding verify_relocations_Inr by blast+
  show "check_entry obj = Inr ()" by (rule e)
  show "\<And>s. s \<in> set (object_symbols obj) \<Longrightarrow> verify_symbol (object_sections obj) s () = Inr ()"
    using y unfolding for_each_unit by blast
qed

text \<open>The bytes of a verified section are counted exactly by a 32-bit length.\<close>

lemma section_ok_length:
  "section_ok i s \<Longrightarrow> unat (vec_len (section_bytes s)) = length (section_bytes s)"
  by (auto simp: section_ok_def vec_len_def unsigned_of_nat take_bit_eq_mod)

text \<open>A relocation covers the bytes of its site.\<close>

definition covers :: "relocation \<Rightarrow> nat \<Rightarrow> nat \<Rightarrow> bool" where
  "covers r i k \<longleftrightarrow> unat (reloc_section r) = i \<and> unat (reloc_offset r) \<le> k \<and>
     k < unat (reloc_offset r) + unat (reloc_width r)"

lemma covers_site:
  assumes "covers r i k"
  shows "(of_nat i, of_nat k) \<in> set (reloc_sites r)"
proof -
  define d where "d = k - unat (reloc_offset r)"
  have k: "k = unat (reloc_offset r) + d" "d < unat (reloc_width r)"
    using assms by (auto simp: covers_def d_def)
  have "of_nat i = reloc_section r" using assms by (auto simp: covers_def)
  with k show ?thesis by (auto simp: reloc_sites_def)
qed

lemma covers_unique:
  assumes "distinct (all_sites (r # rs))" and "covers r i k" and "q \<in> set rs"
  shows "\<not> covers q i k"
proof
  assume "covers q i k"
  then have "(of_nat i, of_nat k) \<in> set (all_sites rs)"
    using assms(3) covers_site [of q i k] by (auto simp: all_sites_def)
  with covers_site [OF assms(2)] assms(1) show False by auto
qed

section \<open>Patched bytes\<close>

lemma length_be_long [simp]: "length (be_long v) = 4"
  by (simp add: be_long_def)

definition width_ok :: "relocation \<Rightarrow> bool" where
  "width_ok r \<longleftrightarrow> reloc_width r \<in> {1, 2, 4} \<and> (byte_index r \<noteq> None \<longrightarrow> reloc_width r = 1)"

lemma relocation_ok_width: "relocation_ok sections r \<Longrightarrow> width_ok r"
  by (auto simp: relocation_ok_def width_ok_def)

lemma relocated_bytes_length:
  "width_ok r \<Longrightarrow> relocated_bytes r v = Inr new \<Longrightarrow> length new = unat (reloc_width r)"
  by (auto simp: relocated_bytes_def width_ok_def Let_def split: option.splits if_splits)

text \<open>The bytes stored for a value read back as the value, or as the byte of it that was asked for.\<close>

lemma be_long_map: "be_long v = map (\<lambda>i. nth_byte (3 - i) v) [0..<4]"
  by (simp add: be_long_def upt_rec)

lemma be_value_be_long: "be_value (drop (4 - n) (be_long v)) = unat v mod 256 ^ n" if "n \<le> 4"
proof -
  have "drop (4 - n) (be_long v) = map (\<lambda>i. nth_byte (n - i - 1) v) [0..<n]"
  proof (rule nth_equalityI)
    fix i assume "i < length (drop (4 - n) (be_long v))"
    then have i: "i < n" "0 + (4 - n + i) < 4" "3 - (4 - n + i) = n - i - 1" using that by simp_all
    have "drop (4 - n) (be_long v) ! i = nth_byte (3 - (4 - n + i)) v"
      unfolding be_long_map using i(2) by (simp add: nth_upt [OF i(2)])
    then show "drop (4 - n) (be_long v) ! i = map (\<lambda>i. nth_byte (n - i - 1) v) [0..<n] ! i"
      using i by simp
  qed (use that in simp)
  then show ?thesis by (simp only: be_value_nth_bytes)
qed

lemma relocated_bytes_value:
  assumes "width_ok r" and "relocated_bytes r v = Inr new"
  shows "byte_index r = Some i \<Longrightarrow> new = [nth_byte (unat i) v]"
    and "byte_index r = None \<Longrightarrow> be_value new = unat v"
proof -
  show "new = [nth_byte (unat i) v]" if "byte_index r = Some i"
    using assms that by (auto simp: relocated_bytes_def nth_byte_def mult.commute)
  show "be_value new = unat v" if n: "byte_index r = None"
  proof -
    define w where "w = unat (reloc_width r)"
    have w: "w \<in> {1, 2, 4}" using assms(1) by (auto simp: width_ok_def w_def)
    from assms(2) n have new: "new = drop (4 - w) (be_long v)"
      and fits: "\<not> (w < 4 \<and> push_bit (8 * w) 1 \<le> v)"
      by (auto simp: relocated_bytes_def Let_def w_def split: if_splits)
    have "unat v < 256 ^ w"
    proof (cases "w < 4")
      case True
      with fits have "unat v < unat (push_bit (8 * w) 1 :: u32)" by (simp add: word_less_nat_alt not_le)
      moreover have "unat (push_bit (8 * w) 1 :: u32) = 256 ^ w"
        using True w by auto
      ultimately show ?thesis by simp
    next
      case False
      with w have "w = 4" by auto
      then show ?thesis using unsigned_less [where 'a = nat, of v] by simp
    qed
    moreover have "w \<le> 4" using w by auto
    ultimately show ?thesis unfolding new by (simp add: be_value_be_long)
  qed
qed

text \<open>One relocation changes exactly the bytes it covers.\<close>

lemma apply_relocation_effect:
  assumes "apply_relocation bases ie r ps = Inr ps'" and "width_ok r"
  shows "length ps' = length ps" and "\<And>i. length (ps' ! i) = length (ps ! i)"
    and "\<And>i k. i < length ps \<Longrightarrow> k < length (ps ! i) \<Longrightarrow> \<not> covers r i k \<Longrightarrow> ps' ! i ! k = ps ! i ! k"
    and "\<exists>v new. relocation_value bases ie r = Inr v \<and> relocated_bytes r v = Inr new \<and>
      (\<forall>i k. i < length ps \<longrightarrow> k < length (ps ! i) \<longrightarrow> covers r i k \<longrightarrow>
         ps' ! i ! k = new ! (k - unat (reloc_offset r)))"
proof -
  from assms(1) obtain v new where v: "relocation_value bases ie r = Inr v"
    and new: "relocated_bytes r v = Inr new"
    and st: "store_bytes (unat (reloc_section r)) (unat (reloc_offset r)) new ps = Inr ps'"
    by (auto simp: apply_relocation_def)
  let ?s = "unat (reloc_section r)" and ?o = "unat (reloc_offset r)"
  from st have ps': "ps' = ps[?s := splice ?o new (ps ! ?s)]"
    and fit: "?s < length ps" "?o + length new \<le> length (ps ! ?s)"
    by (auto simp: store_bytes_def split: if_splits)
  have len: "length new = unat (reloc_width r)" by (rule relocated_bytes_length [OF assms(2) new])
  show "length ps' = length ps" by (simp add: ps')
  show "length (ps' ! i) = length (ps ! i)" for i
    using fit by (cases "i = ?s") (simp_all add: ps')
  have nth: "ps' ! i ! k = (if covers r i k then new ! (k - ?o) else ps ! i ! k)"
    if "i < length ps" "k < length (ps ! i)" for i k
    using fit that len by (cases "i = ?s") (auto simp: ps' nth_splice covers_def)
  then show "\<And>i k. i < length ps \<Longrightarrow> k < length (ps ! i) \<Longrightarrow> \<not> covers r i k \<Longrightarrow> ps' ! i ! k = ps ! i ! k"
    by simp
  show "\<exists>v new. relocation_value bases ie r = Inr v \<and> relocated_bytes r v = Inr new \<and>
      (\<forall>i k. i < length ps \<longrightarrow> k < length (ps ! i) \<longrightarrow> covers r i k \<longrightarrow> ps' ! i ! k = new ! (k - ?o))"
    using v new nth by (intro exI conjI) auto
qed

lemma apply_relocations_effect:
  assumes "for_each (apply_relocation bases ie) rs ps = Inr ps'" and "\<forall>r \<in> set rs. width_ok r"
  shows "length ps' = length ps \<and> (\<forall>i. length (ps' ! i) = length (ps ! i)) \<and>
    (\<forall>i < length ps. \<forall>k < length (ps ! i). (\<forall>r \<in> set rs. \<not> covers r i k) \<longrightarrow> ps' ! i ! k = ps ! i ! k)"
  using assms
proof (induction rs arbitrary: ps)
  case Nil
  then show ?case by simp
next
  case (Cons r rs)
  then obtain qs where q: "apply_relocation bases ie r ps = Inr qs"
    and rest: "for_each (apply_relocation bases ie) rs qs = Inr ps'" by auto
  have w: "width_ok r" using Cons.prems(2) by simp
  note eff = apply_relocation_effect [OF q w]
  have IH: "length ps' = length qs" "\<And>i. length (ps' ! i) = length (qs ! i)"
    "\<And>i k. i < length qs \<Longrightarrow> k < length (qs ! i) \<Longrightarrow> \<forall>r \<in> set rs. \<not> covers r i k \<Longrightarrow>
       ps' ! i ! k = qs ! i ! k"
    using Cons.IH [OF rest] Cons.prems(2) by auto
  show ?case
    using IH eff(1,2,3) by auto
qed

lemma apply_relocations_site:
  assumes "for_each (apply_relocation bases ie) rs ps = Inr ps'" and "\<forall>r \<in> set rs. width_ok r"
    and "distinct (all_sites rs)" and "r \<in> set rs"
  shows "\<exists>v new. relocation_value bases ie r = Inr v \<and> relocated_bytes r v = Inr new \<and>
    (\<forall>i k. i < length ps \<longrightarrow> k < length (ps ! i) \<longrightarrow> covers r i k \<longrightarrow>
       ps' ! i ! k = new ! (k - unat (reloc_offset r)))"
  using assms
proof (induction rs arbitrary: ps)
  case Nil
  then show ?case by simp
next
  case (Cons q rs)
  then obtain qs where q: "apply_relocation bases ie q ps = Inr qs"
    and rest: "for_each (apply_relocation bases ie) rs qs = Inr ps'" by auto
  have w: "width_ok q" "\<forall>r \<in> set rs. width_ok r" using Cons.prems(2) by simp_all
  note eff = apply_relocation_effect [OF q w(1)]
  show ?case
  proof (cases "r \<in> set rs")
    case True
    have d: "distinct (all_sites rs)" using Cons.prems(3) by simp
    show ?thesis using Cons.IH [OF rest w(2) d True] eff(1,2) by simp
  next
    case False
    with Cons.prems(4) have r: "r = q" by simp
    from eff(4) obtain v new where v: "relocation_value bases ie q = Inr v" "relocated_bytes q v = Inr new"
      and nth: "\<And>i k. i < length ps \<Longrightarrow> k < length (ps ! i) \<Longrightarrow> covers q i k \<Longrightarrow>
         qs ! i ! k = new ! (k - unat (reloc_offset q))" by blast
    have "ps' ! i ! k = new ! (k - unat (reloc_offset q))"
      if "i < length ps" "k < length (ps ! i)" "covers q i k" for i k
    proof -
      have "\<forall>r \<in> set rs. \<not> covers r i k"
        using covers_unique [OF Cons.prems(3) that(3)] by blast
      with apply_relocations_effect [OF rest w(2)] eff(1,2) that(1,2)
      have "ps' ! i ! k = qs ! i ! k" by simp
      with nth [OF that] show ?thesis by simp
    qed
    with v r show ?thesis by blast
  qed
qed

section \<open>Reading the image\<close>

definition in_segment :: "u32 \<Rightarrow> segment \<Rightarrow> bool" where
  "in_segment a s \<longleftrightarrow> segment_address s \<le> a \<and> unat a - unat (segment_address s) < length (segment_bytes s)"

definition image_byte :: "native_image \<Rightarrow> u32 \<Rightarrow> u8 option" where
  "image_byte img a =
     map_option (\<lambda>s. segment_bytes s ! (unat a - unat (segment_address s)))
       (find (in_segment a) (segments img))"

lemma find_only:
  assumes "sorted_wrt (\<lambda>s t. \<not> (P s \<and> P t)) xs" and "x \<in> set xs" and "P x"
  shows "find P xs = Some x"
  using assms by (induction xs) auto

definition placed_segment :: "object_section \<Rightarrow> u32 \<Rightarrow> bytes \<Rightarrow> segment" where
  "placed_segment s address bs =
     \<lparr>segment_address = address, segment_bytes = bs,
      segment_writable = section_writable s, segment_executable = section_executable s\<rparr>"

definition placed_zeros :: "object_section \<Rightarrow> u32 \<Rightarrow> bytes \<Rightarrow> zero_fill list" where
  "placed_zeros s address bs =
     (if section_zero_fill s = 0 then []
      else [\<lparr>zero_address = address + vec_len bs, zero_size = section_zero_fill s,
        zero_writable = section_writable s\<rparr>])"

lemma place_payload_Inr:
  "place_payload ((s, a), p) (segs, zeros) = Inr r \<longleftrightarrow>
     unat a + unat (section_size s) \<le> 2 ^ 24 \<and>
     valid_base s a \<and>
     r = (segs @ (if p = [] then [] else [placed_segment s a p]), zeros @ placed_zeros s a p)"
  by (auto simp: place_payload_def extent_end_Inr placed_segment_def placed_zeros_def)

lemma place_payloads:
  assumes "for_each place_payload zs (segs, zeros) = Inr (segs', zeros')"
  shows "set segs \<subseteq> set segs' \<and>
    (\<forall>s a p. ((s, a), p) \<in> set zs \<longrightarrow> p \<noteq> [] \<longrightarrow> placed_segment s a p \<in> set segs') \<and>
    (\<forall>s a p. ((s, a), p) \<in> set zs \<longrightarrow> unat a + unat (section_size s) \<le> 2 ^ 24)"
  using assms
proof (induction zs arbitrary: segs zeros)
  case Nil
  then show ?case by simp
next
  case (Cons z zs)
  obtain s a p where z: "z = ((s, a), p)" by (metis prod.exhaust)
  from Cons.prems obtain r where r: "place_payload ((s, a), p) (segs, zeros) = Inr r"
    and rest: "for_each place_payload zs r = Inr (segs', zeros')" by (auto simp: z)
  from r have n: "unat a + unat (section_size s) \<le> 2 ^ 24"
    and r': "r = (segs @ (if p = [] then [] else [placed_segment s a p]), zeros @ placed_zeros s a p)"
    unfolding place_payload_Inr by blast+
  from Cons.IH [OF rest [unfolded r']] n show ?case unfolding z by auto
qed

lemma verified_segments:
  assumes "verify_image img = Inr ()" and "s \<in> set (segments img)" and "in_segment a s"
  shows "find (in_segment a) (segments img) = Some s"
proof (rule find_only [where P = "in_segment a", OF _ assms(2,3)])
  define ext where "ext = map (\<lambda>s. (segment_address s, of_nat (length (segment_bytes s)) :: u32,
    segment_executable s)) (segments img)"
  from assms(1) have short: "\<And>s. s \<in> set (segments img) \<Longrightarrow> length (segment_bytes s) < 2 ^ 32"
    and v: "verify_region_extents (image_entry img) ext (zero_fills img) = Inr ()"
    by (auto simp: verify_image_def verify_regions_def segment_extents ext_def)
  from v have ok: "\<forall>e \<in> set ext. segment_ok e" and "pairwise_disjoint (extent_ranges ext (zero_fills img))"
    unfolding verify_region_extents_Inr by blast+
  then have "sorted_wrt (\<lambda>s t. disjoint_ranges
      (segment_address s, segment_address s + of_nat (length (segment_bytes s)))
      (segment_address t, segment_address t + of_nat (length (segment_bytes t)))) (segments img)"
    by (simp add: pairwise_disjoint_def extent_ranges_def ext_def sorted_wrt_append sorted_wrt_map)
  then show "sorted_wrt (\<lambda>s t. \<not> (in_segment a s \<and> in_segment a t)) (segments img)"
  proof (rule sorted_wrt_mono_rel [rotated])
    fix s t assume s: "s \<in> set (segments img)" and t: "t \<in> set (segments img)"
      and d: "disjoint_ranges (segment_address s, segment_address s + of_nat (length (segment_bytes s)))
        (segment_address t, segment_address t + of_nat (length (segment_bytes t)))"
    have len: "unat (of_nat (length (segment_bytes u)) :: u32) = length (segment_bytes u)"
      "unat (segment_address u + of_nat (length (segment_bytes u))) =
         unat (segment_address u) + length (segment_bytes u)" if "u \<in> set (segments img)" for u
    proof -
      show l: "unat (of_nat (length (segment_bytes u)) :: u32) = length (segment_bytes u)"
        using short [OF that] by (simp add: unsigned_of_nat take_bit_eq_mod)
      have "segment_ok (segment_address u, of_nat (length (segment_bytes u)), segment_executable u)"
        using ok that by (simp add: ext_def)
      then show "unat (segment_address u + of_nat (length (segment_bytes u))) =
          unat (segment_address u) + length (segment_bytes u)"
        using unat_end [of "segment_address u" "of_nat (length (segment_bytes u))"] l
        by (simp add: segment_ok_def)
    qed
    show "\<not> (in_segment a s \<and> in_segment a t)"
      using d len(2) [OF s] len(2) [OF t]
      by (auto simp: disjoint_ranges_def in_segment_def word_le_nat_alt)
  qed
qed

section \<open>The bare layout\<close>

lemma unat_and_not_1: "unat (a AND NOT 1) = 2 * (unat a div 2)" for a :: u32
proof -
  have "a AND NOT 1 = 2 * (a div 2)"
    using unset_bit_0 [of a] by (simp add: unset_bit_eq_and_not)
  moreover have "2 * (unat a div 2) < 2 ^ 32" using unsigned_less [where 'a = nat, of a] by simp
  ultimately show ?thesis by (simp add: unat_word_ariths unat_div_distrib)
qed

lemma align_up:
  assumes "alignment \<in> {1, 2}" and "extent_end c (alignment - 1) = Inr e"
  shows "unat c \<le> unat (e AND NOT (alignment - 1))" and "unat (e AND NOT (alignment - 1)) mod unat alignment = 0"
proof -
  from assms(2) have e: "unat e = unat c + unat (alignment - 1)"
    by (auto simp: extent_end_Inr unat_end)
  show "unat c \<le> unat (e AND NOT (alignment - 1))"
    "unat (e AND NOT (alignment - 1)) mod unat alignment = 0"
    using assms(1) e by (auto simp: unat_and_not_1 [simplified])
qed

definition layout_ok :: "object_section list \<Rightarrow> nat \<Rightarrow> nat \<Rightarrow> u32 list \<Rightarrow> bool" where
  "layout_ok sections low high bases \<longleftrightarrow>
     length bases = length sections \<and> low \<le> high \<and>
     (\<forall>i < length sections. \<forall>a. fixed_address (sections ! i) = Some a \<longrightarrow> bases ! i = a) \<and>
     (\<forall>i < length sections. fixed_address (sections ! i) = None \<longrightarrow>
        unat (bases ! i) mod unat (section_alignment (sections ! i)) = 0 \<and> low \<le> unat (bases ! i) \<and>
        unat (bases ! i) + unat (section_size (sections ! i)) \<le> high) \<and>
     (\<forall>i < length sections. \<forall>j < i. fixed_address (sections ! i) = None \<longrightarrow>
        fixed_address (sections ! j) = None \<longrightarrow>
        unat (bases ! j) + unat (section_size (sections ! j)) \<le> unat (bases ! i))"

lemma layout_ok_fixed:
  "fixed_address s = Some a \<Longrightarrow> layout_ok ss low high bs \<Longrightarrow> layout_ok (s # ss) low high (a # bs)"
  by (auto simp: layout_ok_def less_Suc_eq_0_disj)

lemma layout_ok_movable:
  assumes "layout_ok ss mid high bs" and "fixed_address s = None" and "low \<le> unat start"
    and "unat start mod unat (section_alignment s) = 0" and "unat start + unat (section_size s) = mid"
  shows "layout_ok (s # ss) low high (start # bs)"
proof -
  note L = assms(1) [unfolded layout_ok_def]
  have ge: "mid \<le> unat (bs ! i)" "unat (bs ! i) mod unat (section_alignment (ss ! i)) = 0"
    "unat (bs ! i) + unat (section_size (ss ! i)) \<le> high"
    if "i < length ss" "fixed_address (ss ! i) = None" for i
    using L that by blast+
  have low: "low \<le> mid" "mid \<le> high" using L assms(3,5) by auto
  show ?thesis unfolding layout_ok_def
  proof (intro conjI allI impI)
    show "length (start # bs) = length (s # ss)" "low \<le> high" using L low by auto
  next
    fix i a assume "i < length (s # ss)" "fixed_address ((s # ss) ! i) = Some a"
    then show "(start # bs) ! i = a" using L assms(2) by (cases i) auto
  next
    fix i assume "i < length (s # ss)" "fixed_address ((s # ss) ! i) = None"
    then show "unat ((start # bs) ! i) mod unat (section_alignment ((s # ss) ! i)) = 0"
      using ge assms(4) by (cases i) simp_all
  next
    fix i assume "i < length (s # ss)" "fixed_address ((s # ss) ! i) = None"
    then show "low \<le> unat ((start # bs) ! i)"
      using ge low assms(3) by (cases i) (auto intro: order_trans)
  next
    fix i assume "i < length (s # ss)" "fixed_address ((s # ss) ! i) = None"
    then show "unat ((start # bs) ! i) + unat (section_size ((s # ss) ! i)) \<le> high"
      using ge low assms(5) by (cases i) simp_all
  next
    fix i j assume "i < length (s # ss)" "j < i" "fixed_address ((s # ss) ! i) = None"
      "fixed_address ((s # ss) ! j) = None"
    then show "unat ((start # bs) ! j) + unat (section_size ((s # ss) ! j)) \<le> unat ((start # bs) ! i)"
      using L ge assms(5) by (cases i; cases j) auto
  qed
qed

lemma place_section_eq:
  "place_section s (cursor, bases) =
     (case fixed_address s of
        Some address \<Rightarrow> Inr (cursor, bases @ [address])
      | None \<Rightarrow>
          bind_result (extent_end cursor (section_alignment s - 1)) (\<lambda>e.
            let start = e AND NOT (section_alignment s - 1)
            in bind_result (extent_end start (section_size s)) (\<lambda>cursor. Inr (cursor, bases @ [start]))))"
  by (simp add: place_section_def)

lemma place_sections:
  assumes "for_each place_section ss (c, bs) = Inr (c', bs')"
    and "\<forall>s \<in> set ss. section_alignment s \<in> {1, 2}"
  shows "\<exists>new. bs' = bs @ new \<and> layout_ok ss (unat c) (unat c') new \<and> (unat c \<le> 2 ^ 24 \<longrightarrow> unat c' \<le> 2 ^ 24)"
  using assms
proof (induction ss arbitrary: c bs)
  case Nil
  then show ?case by (simp add: layout_ok_def)
next
  case (Cons s ss)
  have al: "\<forall>s \<in> set ss. section_alignment s \<in> {1, 2}" "section_alignment s \<in> {1, 2}"
    using Cons.prems(2) by auto
  show ?case
  proof (cases "fixed_address s")
    case (Some a)
    then have rest: "for_each place_section ss (c, bs @ [a]) = Inr (c', bs')"
      using Cons.prems(1) by (simp add: place_section_eq)
    from Cons.IH [OF rest al(1)] layout_ok_fixed [OF Some] show ?thesis by fastforce
  next
    case None
    from Cons.prems(1) None obtain e c1 where e: "extent_end c (section_alignment s - 1) = Inr e"
      and c1: "extent_end (e AND NOT (section_alignment s - 1)) (section_size s) = Inr c1"
      and rest: "for_each place_section ss (c1, bs @ [e AND NOT (section_alignment s - 1)]) = Inr (c', bs')"
      by (auto simp: place_section_eq Let_def)
    define start where "start = e AND NOT (section_alignment s - 1)"
    note up = align_up [OF al(2) e, folded start_def]
    from c1 have n: "unat start + unat (section_size s) = unat c1" "unat c1 \<le> 2 ^ 24"
      by (auto simp: extent_end_Inr unat_end start_def)
    from Cons.IH [OF rest al(1)] obtain new where
      "bs' = bs @ (start # new)" "layout_ok ss (unat c1) (unat c') new" "unat c' \<le> 2 ^ 24"
      using n(2) by (auto simp: start_def)
    with layout_ok_movable [OF _ None up n(1)] show ?thesis by blast
  qed
qed

section \<open>No panic\<close>

definition no_panic :: "object_error + 'a \<Rightarrow> bool" where
  "no_panic r \<longleftrightarrow> r \<noteq> Inl Panic"

lemma panics_simps [simp]:
  "no_panic (Inr x)" "no_panic (Inl e) \<longleftrightarrow> e \<noteq> Panic"
  "no_panic (check b e) \<longleftrightarrow> b \<or> e \<noteq> Panic"
  "no_panic (ok_or e v) \<longleftrightarrow> v \<noteq> None \<or> e \<noteq> Panic"
  by (auto simp: no_panic_def result_errors)

lemma panics_bind:
  "no_panic r \<Longrightarrow> (\<And>x. r = Inr x \<Longrightarrow> no_panic (f x)) \<Longrightarrow> no_panic (bind_result r f)"
  by (auto simp: no_panic_def result_errors)

lemma panics_for_each:
  assumes "\<And>x s. x \<in> set xs \<Longrightarrow> I s \<Longrightarrow> no_panic (f x s)" and "I s"
    and "\<And>x s t. x \<in> set xs \<Longrightarrow> I s \<Longrightarrow> f x s = Inr t \<Longrightarrow> I t"
  shows "no_panic (for_each f xs s)"
proof (rule ccontr)
  assume "\<not> ?thesis"
  then have "for_each f xs s = Inl Panic" by (simp add: no_panic_def)
  from for_each_error [OF this, of I] assms show False by (auto simp: no_panic_def)
qed

lemma panics_extent_end [simp]: "no_panic (extent_end a n)"
  by (auto simp: extent_end_def split: option.splits)

lemma panics_resolve [simp]: "no_panic (resolve_location l bases)"
  by (cases l) (auto intro!: panics_bind)

lemma panics_check_location [simp]: "no_panic (check_location sections l n)"
  by (cases l) (auto intro!: panics_bind)

lemma panics_check_target [simp]: "no_panic (check_target sections t)"
  by (auto simp: check_target_def simp del: check_location.simps
      split: relocation_target.splits location.splits)

lemma panics_occupy [simp]: "no_panic (for_each occupy_byte bs occupied)"
  by (rule panics_for_each [where I = "\<lambda>_. True"]) (auto simp: occupy_byte_def)

lemma panics_verify_section [simp]: "no_panic (verify_section p u)"
  by (auto simp: verify_section_def Let_def intro!: panics_bind split: prod.splits option.splits)

lemma panics_verify_relocation [simp]: "no_panic (verify_relocation sections r occupied)"
  unfolding verify_relocation_def by (intro panics_bind) simp_all

lemma panics_verify_symbol [simp]: "no_panic (verify_symbol sections y u)"
  unfolding verify_symbol_def by (intro panics_bind) (simp_all split: option.split)

lemma panics_check_entry [simp]: "no_panic (check_entry obj)"
  by (simp add: check_entry_def split: location.split)

lemma panics_verify_object [simp]: "no_panic (verify_object obj)"
  unfolding verify_object_def Let_def
  by (intro panics_bind panics_for_each [where I = "\<lambda>_. True"]) simp_all

lemma panics_place_payload [simp]: "no_panic (place_payload z st)"
proof -
  obtain s a p segs zeros where "z = ((s, a), p)" "st = (segs, zeros)" by (metis prod.exhaust)
  then show ?thesis unfolding place_payload_def by (auto intro!: panics_bind)
qed

lemma panics_link_location [simp]: "no_panic (link_location bases l)"
  by (cases l) (auto simp: link_location_def simp del: resolve_location.simps intro!: panics_bind)

lemma panics_link_array [simp]: "no_panic (link_array bases a)"
  by (auto simp: link_array_def intro!: panics_bind split: option.split)

lemma panics_link_symbol [simp]: "no_panic (link_symbol bases y st)"
  unfolding link_symbol_def by (intro panics_bind) simp_all

lemma panics_relocated_bytes [simp]: "no_panic (relocated_bytes r v)"
  by (simp add: relocated_bytes_def Let_def split: option.split)

lemma panics_relocation_value [simp]: "no_panic (relocation_value bases ie r)"
  by (auto simp: relocation_value_def target_base_def adjusted_def Let_def
      intro!: panics_bind split: relocation_target.split)

text \<open>The vectors being patched keep the lengths of the sections, so every store fits.\<close>

definition same_lengths :: "object_section list \<Rightarrow> bytes list \<Rightarrow> bool" where
  "same_lengths sections ps \<longleftrightarrow> length ps = length sections \<and>
     (\<forall>i < length sections. length (ps ! i) = length (section_bytes (sections ! i)))"

lemma apply_relocation_keeps:
  assumes "same_lengths sections ps" and "apply_relocation bases ie r ps = Inr ps'" and "width_ok r"
  shows "same_lengths sections ps'"
  using assms apply_relocation_effect(1,2) [OF assms(2,3)] by (simp add: same_lengths_def)

lemma panics_apply_relocation:
  assumes "same_lengths sections ps" and "relocation_ok sections r"
    and "\<And>i. i < length sections \<Longrightarrow> section_ok i (sections ! i)"
  shows "no_panic (apply_relocation bases ie r ps)"
  unfolding apply_relocation_def
proof (intro panics_bind)
  fix v new assume new: "relocated_bytes r v = Inr new"
  let ?s = "unat (reloc_section r)"
  have s: "?s < length sections" using assms(2) by (simp add: relocation_ok_def)
  have "length new = unat (reloc_width r)"
    by (rule relocated_bytes_length [OF relocation_ok_width [OF assms(2)] new])
  then have "unat (reloc_offset r) + length new \<le> length (section_bytes (sections ! ?s))"
    using assms(2) section_ok_length [OF assms(3) [OF s]] by (simp add: relocation_ok_def)
  then show "no_panic (store_bytes ?s (unat (reloc_offset r)) new ps)"
    using assms(1) s by (simp add: store_bytes_def same_lengths_def)
qed simp_all

lemma initial_lengths: "same_lengths sections (map section_bytes sections)"
  by (simp add: same_lengths_def)

lemma panics_apply_relocations:
  assumes "verify_object obj = Inr ()"
  shows "no_panic (for_each (apply_relocation bases ie) (object_relocations obj)
    (map section_bytes (object_sections obj)))"
proof (rule panics_for_each [where I = "same_lengths (object_sections obj)", OF _ initial_lengths])
  note ok = verify_object_facts(1,2) [OF assms]
  fix r ps assume r: "r \<in> set (object_relocations obj)" and ps: "same_lengths (object_sections obj) ps"
  show "no_panic (apply_relocation bases ie r ps)"
    by (rule panics_apply_relocation [OF ps ok(2) [OF r] ok(1)])
  show "same_lengths (object_sections obj) ps'" if "apply_relocation bases ie r ps = Inr ps'" for ps'
    by (rule apply_relocation_keeps [OF ps that relocation_ok_width [OF ok(2) [OF r]]])
qed

lemma panics_place_payloads: "no_panic (for_each place_payload zs st)"
  by (rule panics_for_each [where I = "\<lambda>_. True"]) simp_all

lemma panics_link_symbols: "no_panic (for_each (link_symbol bases) ys st)"
  by (rule panics_for_each [where I = "\<lambda>_. True"]) simp_all

lemma panics_image_result: "no_panic (image_result r)"
  by (simp add: image_result_def split: sum.split)

lemma panics_link_sections: "no_panic (link_sections obj bases ie)"
  unfolding link_sections_def Let_def
  by (auto intro!: panics_bind panics_apply_relocations panics_place_payloads panics_link_symbols
      panics_image_result split: prod.splits)

section \<open>A linked example\<close>

text \<open>A jump through a relocated longword to the second byte after a data section's start.\<close>

definition sample_object :: native_object where
  "sample_object =
     \<lparr>object_entry = SectionLocation 0 0,
      object_sections =
        [\<lparr>section_number = 0, section_bytes = [0x4e, 0xf9, 0, 0, 0, 0, 0x4e, 0x75], section_zero_fill = 0,
          section_size = 8, section_alignment = 2, section_writable = False, section_executable = True,
          fixed_address = None\<rparr>,
         \<lparr>section_number = 1, section_bytes = [1, 2, 3], section_zero_fill = 2,
          section_size = 5, section_alignment = 1, section_writable = True, section_executable = False,
          fixed_address = None\<rparr>],
      object_relocations =
        [\<lparr>reloc_section = 0, reloc_offset = 2, reloc_width = 4, byte_index = None,
          reloc_target = LocationTarget (SectionLocation 1 2), reloc_addend = -1\<rparr>],
      object_symbols =
        [\<lparr>symbol_number = DataSymbol (DataGlobal 7), symbol_name = ''table'',
          symbol_location = SectionLocation 1 1, symbol_size = 2, symbol_alignment = 2, symbol_ty = None,
          symbol_array = None\<rparr>]\<rparr>"

definition sample_image :: native_image where
  "sample_image =
     \<lparr>image_layout = motorola_68000, image_entry = 0x1000,
      segments =
        [\<lparr>segment_address = 0x1000, segment_bytes = [0x4e, 0xf9, 0, 0, 0x10, 9, 0x4e, 0x75],
          segment_writable = False, segment_executable = True\<rparr>,
         \<lparr>segment_address = 0x1008, segment_bytes = [1, 2, 3],
          segment_writable = True, segment_executable = False\<rparr>],
      zero_fills = [\<lparr>zero_address = 0x100b, zero_size = 2, zero_writable = True\<rparr>],
      image_symbols =
        [\<lparr>image_symbol_id = DataSymbol (DataGlobal 7), image_symbol_name = ''table'',
          image_symbol_location = SymbolAbsolute 0x1009, image_symbol_size = 2,
          image_symbol_alignment = 1, image_symbol_ty = None, image_symbol_array = None\<rparr>]\<rparr>"

lemma sample_bases: "link_bases sample_object 0x1000 = Inr (0x100d, [0x1000, 0x1008])"
  by code_simp

lemma sample_links: "link_sections sample_object [0x1000, 0x1008] (Some 0x100d) = Inr sample_image"
  by code_simp

section \<open>Properties\<close>

text \<open>C20: linking never panics. Whatever the object, the origin and the section bases, the linker
  returns an image or one of its errors: after \<open>verify\<close> has accepted the object, no index or slice of
  the patching loop is out of bounds.\<close>

theorem link_never_panics:
  "link_object obj origin \<noteq> Inl Panic \<and> link_sections obj bases image_end \<noteq> Inl Panic"
proof -
  have "no_panic (place_section s st)" for s st
    by (auto simp: place_section_def Let_def intro!: panics_bind split: prod.splits option.splits)
  then have "no_panic (link_object obj origin)"
    unfolding link_object_def link_bases_def
    by (auto intro!: panics_bind panics_link_sections panics_for_each [where I = "\<lambda>_. True"]
        split: prod.splits)
  with panics_link_sections [of obj bases image_end] show ?thesis by (simp add: no_panic_def)
qed

lemma image_result_Inr [simp]: "image_result r = Inr x \<longleftrightarrow> r = Inr x"
  by (auto simp: image_result_def split: sum.splits)

lemma link_sections_facts:
  assumes "link_sections obj bases ie = Inr img"
  obtains ps where
    "verify_object obj = Inr ()" "length bases = length (object_sections obj)"
    "for_each (apply_relocation bases ie) (object_relocations obj) (map section_bytes (object_sections obj)) = Inr ps"
    "for_each place_payload (zip (zip (object_sections obj) bases) ps) ([], []) = Inr (segments img, zero_fills img)"
    "verify_image img = Inr ()" "resolve_location (object_entry obj) bases = Inr (image_entry img)"
proof -
  from assms obtain ps pc segs zeros symbols where
    v: "verify_object obj = Inr ()" and l: "length bases = length (object_sections obj)"
    and ps: "for_each (apply_relocation bases ie) (object_relocations obj)
      (map section_bytes (object_sections obj)) = Inr ps"
    and pc: "resolve_location (object_entry obj) bases = Inr pc"
    and z: "for_each place_payload (zip (zip (object_sections obj) bases) ps) ([], []) = Inr (segs, zeros)"
    and img: "verify_image \<lparr>image_layout = for_target Motorola68000, image_entry = pc, segments = segs,
         zero_fills = zeros, image_symbols = symbols\<rparr> = Inr ()"
      "\<lparr>image_layout = for_target Motorola68000, image_entry = pc, segments = segs,
         zero_fills = zeros, image_symbols = symbols\<rparr> = img"
    unfolding link_sections_def Let_def
    by (simp only: result_steps image_result_Inr) blast
  from img(2) have "segments img = segs" "zero_fills img = zeros" "image_entry img = pc" by auto
  with that [OF v l ps] z img pc show thesis by simp
qed

lemma linked_byte:
  assumes "link_sections obj bases ie = Inr img" and i: "i < length (object_sections obj)"
    and k: "k < length (section_bytes (object_sections obj ! i))"
    and ps: "for_each (apply_relocation bases ie) (object_relocations obj)
      (map section_bytes (object_sections obj)) = Inr ps"
  shows "image_byte img (bases ! i + of_nat k) = Some (ps ! i ! k)"
proof -
  let ?sections = "object_sections obj"
  from assms(1) obtain v: "verify_object obj = Inr ()" and lb: "length bases = length ?sections"
    and place: "for_each place_payload (zip (zip ?sections bases) ps) ([], []) =
      Inr (segments img, zero_fills img)" and vi: "verify_image img = Inr ()"
    using ps by (elim link_sections_facts) simp
  have "\<forall>r \<in> set (object_relocations obj). width_ok r"
    using verify_object_facts(2) [OF v] relocation_ok_width by blast
  note len = apply_relocations_effect [OF ps this]
  have lp: "length ps = length ?sections" "length (ps ! i) = length (section_bytes (?sections ! i))"
    using len i by simp_all
  let ?seg = "placed_segment (?sections ! i) (bases ! i) (ps ! i)"
  have "zip (zip ?sections bases) ps ! i = ((?sections ! i, bases ! i), ps ! i)"
    and "i < length (zip (zip ?sections bases) ps)"
    using i lb lp(1) by simp_all
  then have "((?sections ! i, bases ! i), ps ! i) \<in> set (zip (zip ?sections bases) ps)"
    by (metis nth_mem)
  moreover have "ps ! i \<noteq> []" using k lp(2) by auto
  ultimately have seg: "?seg \<in> set (segments img)" and
    fit: "unat (bases ! i) + unat (section_size (?sections ! i)) \<le> 2 ^ 24"
    using place_payloads [OF place] by blast+
  have "k \<le> unat (section_size (?sections ! i))"
    using verify_object_facts(1) [OF v i] k by (simp add: section_ok_def)
  then have a: "unat (bases ! i + of_nat k) = unat (bases ! i) + k"
    using fit by (simp add: unat_word_ariths unsigned_of_nat take_bit_eq_mod)
  have "in_segment (bases ! i + of_nat k) ?seg"
    using a k lp(2) by (simp add: in_segment_def placed_segment_def word_le_nat_alt)
  from verified_segments [OF vi seg this] show ?thesis
    by (simp add: image_byte_def a) (simp add: placed_segment_def)
qed

text \<open>C19: what linking stores. In a linked image every initialized byte of a section is found at the
  base of the section plus its offset. If a relocation covers the byte, its target resolves to an
  address in the 24-bit space, and the run of bytes it covers reads big-endian as that address, or is
  the byte of it the relocation selects; every byte no relocation covers is the section's own.\<close>

theorem link_sections_bytes:
  assumes "link_sections obj bases image_end = Inr img"
    and "i < length (object_sections obj)" and "k < length (section_bytes (object_sections obj ! i))"
  shows "(\<forall>r \<in> set (object_relocations obj). covers r i k \<longrightarrow>
       (\<exists>v new. relocation_value bases image_end r = Inr v \<and> length new = unat (reloc_width r) \<and>
          image_byte img (bases ! i + of_nat k) = Some (new ! (k - unat (reloc_offset r))) \<and>
          (case byte_index r of None \<Rightarrow> be_value new = unat v | Some j \<Rightarrow> new = [nth_byte (unat j) v]))) \<and>
     ((\<forall>r \<in> set (object_relocations obj). \<not> covers r i k) \<longrightarrow>
       image_byte img (bases ! i + of_nat k) = Some (section_bytes (object_sections obj ! i) ! k))"
proof -
  from assms(1) obtain ps where v: "verify_object obj = Inr ()"
    and ps: "for_each (apply_relocation bases image_end) (object_relocations obj)
      (map section_bytes (object_sections obj)) = Inr ps"
    by (elim link_sections_facts)
  have w: "\<forall>r \<in> set (object_relocations obj). width_ok r"
    using verify_object_facts(2) [OF v] relocation_ok_width by blast
  note byte = linked_byte [OF assms ps]
  have "\<exists>v new. relocation_value bases image_end r = Inr v \<and> length new = unat (reloc_width r) \<and>
      image_byte img (bases ! i + of_nat k) = Some (new ! (k - unat (reloc_offset r))) \<and>
      (case byte_index r of None \<Rightarrow> be_value new = unat v | Some j \<Rightarrow> new = [nth_byte (unat j) v])"
    if r: "r \<in> set (object_relocations obj)" and c: "covers r i k" for r
  proof -
    from apply_relocations_site [OF ps w verify_object_facts(3) [OF v] r] obtain v new where
      v: "relocation_value bases image_end r = Inr v" and new: "relocated_bytes r v = Inr new"
      and "ps ! i ! k = new ! (k - unat (reloc_offset r))"
      using assms(2,3) c by auto
    moreover have wr: "width_ok r" using w r by blast
    moreover have "length new = unat (reloc_width r)" by (rule relocated_bytes_length [OF wr new])
    ultimately show ?thesis
      using byte relocated_bytes_value [OF wr new] by (auto split: option.split)
  qed
  moreover have "ps ! i ! k = section_bytes (object_sections obj ! i) ! k"
    if "\<forall>r \<in> set (object_relocations obj). \<not> covers r i k"
    using apply_relocations_effect [OF ps w] assms(2,3) that by simp
  ultimately show ?thesis using byte by simp
qed

theorem link_sections_bytes_witness:
  "\<exists>v. relocation_value [0x1000, 0x1008] (Some 0x100d) (hd (object_relocations sample_object)) = Inr v \<and>
     image_byte sample_image 0x1005 = Some (ucast v)"
proof -
  have i: "0 < length (object_sections sample_object)"
    and k: "5 < length (section_bytes (object_sections sample_object ! 0))"
    and r: "hd (object_relocations sample_object) \<in> set (object_relocations sample_object)"
      "covers (hd (object_relocations sample_object)) 0 5"
      "byte_index (hd (object_relocations sample_object)) = None"
      "unat (reloc_width (hd (object_relocations sample_object))) = 4"
      "unat (reloc_offset (hd (object_relocations sample_object))) = 2"
    by (simp_all add: sample_object_def covers_def)
  from link_sections_bytes [OF sample_links i k, THEN conjunct1, THEN bspec, OF r(1)] r(2-) obtain v new where
    v: "relocation_value [0x1000, 0x1008] (Some 0x100d) (hd (object_relocations sample_object)) = Inr v"
    and new: "length new = 4" "be_value new = unat v" "image_byte sample_image 0x1005 = Some (new ! 3)"
    by auto
  have "v = 0x1009" using v by (simp add: relocation_value_def sample_object_def target_base_def
        extent_end_def checked_add32_def address_limit_def adjusted_def)
  moreover have "image_byte sample_image 0x1005 = Some 9" by code_simp
  ultimately show ?thesis using v by simp
qed

text \<open>C21: the bare layout. The bases \<open>link\<close> assigns put every fixed section at its address and every
  movable one at a multiple of its alignment between the origin and the returned end, in declaration
  order without overlap, and the end is within the 24-bit address space.\<close>

theorem link_bases_layout:
  assumes "link_bases obj origin = Inr (image_end, bases)"
  shows "layout_ok (object_sections obj) (unat origin) (unat image_end) bases \<and> unat image_end \<le> 2 ^ 24"
proof -
  let ?ss = "object_sections obj"
  from assms have v: "verify_object obj = Inr ()" and origin: "\<not> address_limit \<le> origin"
    and p: "for_each place_section ?ss (origin, []) = Inr (image_end, bases)"
    by (auto simp: link_bases_def)
  have "\<forall>s \<in> set ?ss. section_alignment s \<in> {1, 2}"
    unfolding all_set_conv_all_nth using section_ok_alignment [OF verify_object_facts(1) [OF v]] by blast
  from place_sections [OF p this] have "layout_ok ?ss (unat origin) (unat image_end) bases"
    and "unat origin \<le> 2 ^ 24 \<longrightarrow> unat image_end \<le> 2 ^ 24" by auto
  moreover have "unat origin \<le> 2 ^ 24"
    using origin by (simp add: word_le_nat_alt unat_address_limit)
  ultimately show ?thesis by blast
qed

theorem link_bases_layout_witness:
  "layout_ok (object_sections sample_object) 0x1000 0x100d [0x1000, 0x1008]"
  using link_bases_layout [OF sample_bases] by simp

end
