(* ===== verification/M68k_Hunk.thy ===== *)
theory M68k_Hunk
  imports M68k_Object "HOL-Library.AList"
begin

text \<open>
  Amiga executables (\<open>src/src/mir68k/hunk.rs\<close>): the entry thunk, the packing of an object into at most
  one code, one data and one zero-filled section, and the serialization into hunks. The map from input
  sections to packed locations is an association list updated by key; the relocation groups are an
  association list in ascending key order. An index outside a vector or an unreachable arm is \<open>HunkPanic\<close>.
\<close>

datatype hunk_error =
  HunkObject object_error
| ThunkNeedsMovableCode
| EntryNotAtCodeStart
| NotOneCodeSection
| FixedStorageInitialized
| UnmappedObject
| SourceNotMovable
| ImageEndUndefined
| UnsupportedRelocationTarget
| HunkAddendRange
| SitesMustBeLong
| AbsoluteTooWide
| SectionTooLarge
| HunkPanic

definition hunk_header :: u32 where "hunk_header = 1011"
definition hunk_code :: u32 where "hunk_code = 1001"
definition hunk_data :: u32 where "hunk_data = 1002"
definition hunk_bss :: u32 where "hunk_bss = 1003"
definition hunk_reloc32 :: u32 where "hunk_reloc32 = 1004"
definition hunk_end :: u32 where "hunk_end = 1010"

definition object_result :: "object_error + 'a \<Rightarrow> hunk_error + 'a" where
  "object_result r = (case r of Inl e \<Rightarrow> Inl (HunkObject e) | Inr v \<Rightarrow> Inr v)"

definition hunk_add :: "u32 \<Rightarrow> u32 \<Rightarrow> hunk_error + u32" where
  "hunk_add v n =
     (case checked_add32 v n of
        Some e \<Rightarrow> if e \<le> address_limit then Inr e else Inl SectionTooLarge
      | None \<Rightarrow> Inl SectionTooLarge)"

definition longwords :: "u32 \<Rightarrow> hunk_error + u32" where
  "longwords n = bind_result (hunk_add n 3) (\<lambda>v. Inr (v div 4))"

section \<open>The entry thunk\<close>

fun shift_location :: "section_id \<Rightarrow> location \<Rightarrow> hunk_error + location" where
  "shift_location code (SectionLocation s offset) =
     (if s = code then bind_result (hunk_add offset 6) (\<lambda>e. Inr (SectionLocation code e))
      else Inr (SectionLocation s offset))"
| "shift_location code l = Inr l"

definition shift_relocation :: "section_id \<Rightarrow> relocation \<Rightarrow> hunk_error + relocation" where
  "shift_relocation code r =
     bind_result
       (if reloc_section r = code then hunk_add (reloc_offset r) 6 else Inr (reloc_offset r)) (\<lambda>offset.
       bind_result
         (case reloc_target r of
            ImageEnd \<Rightarrow> Inr ImageEnd
          | LocationTarget l \<Rightarrow> bind_result (shift_location code l) (\<lambda>l. Inr (LocationTarget l))) (\<lambda>target.
         Inr (r\<lparr>reloc_offset := offset, reloc_target := target\<rparr>)))"

definition relocate_array ::
  "(location \<Rightarrow> hunk_error + location) \<Rightarrow> array_info option \<Rightarrow> hunk_error + array_info option" where
  "relocate_array move info =
     (case info of
        None \<Rightarrow> Inr None
      | Some a \<Rightarrow>
          (case array_backing a of
             None \<Rightarrow> Inr (Some a)
           | Some l \<Rightarrow> bind_result (move l) (\<lambda>l. Inr (Some (a\<lparr>array_backing := Some l\<rparr>)))))"

definition relocate_symbol ::
  "(location \<Rightarrow> hunk_error + location) \<Rightarrow> object_symbol \<Rightarrow> hunk_error + object_symbol" where
  "relocate_symbol move symbol =
     bind_result (move (symbol_location symbol)) (\<lambda>l.
       bind_result (relocate_array move (symbol_array symbol)) (\<lambda>array.
         Inr (symbol\<lparr>symbol_location := l, symbol_array := array\<rparr>)))"

definition thunk_bytes :: bytes where
  "thunk_bytes = [0x4e, 0xf9, 0, 0, 0, 0]"

definition entry_thunk :: "native_object \<Rightarrow> hunk_error + native_object" where
  "entry_thunk obj =
     bind_result (object_result (verify_object obj)) (\<lambda>_.
       case object_entry obj of
         SectionLocation code offset \<Rightarrow>
           bind_result (ok_or HunkPanic (slice_get (object_sections obj) (unat code))) (\<lambda>s.
             bind_result (check (fixed_address s = None) ThunkNeedsMovableCode) (\<lambda>_.
               bind_result (hunk_add (section_size s) 6) (\<lambda>n.
                 bind_result (map_result (shift_relocation code) (object_relocations obj)) (\<lambda>relocs.
                   bind_result (map_result (relocate_symbol (shift_location code)) (object_symbols obj)) (\<lambda>symbols.
                     bind_result (shift_location code (object_entry obj)) (\<lambda>target.
                       let output = \<lparr>object_entry = SectionLocation code 0,
                         object_sections = (object_sections obj)
                           [unat code := s\<lparr>section_size := n, section_bytes := thunk_bytes @ section_bytes s\<rparr>],
                         object_relocations = relocs @
                           [\<lparr>reloc_section = code, reloc_offset = 2, reloc_width = 4, byte_index = None,
                             reloc_target = LocationTarget target, reloc_addend = 0\<rparr>],
                         object_symbols = symbols\<rparr>
                       in bind_result (object_result (verify_object output)) (\<lambda>_. Inr output)))))))
       | _ \<Rightarrow> Inl HunkPanic)"

section \<open>Packing\<close>

type_synonym mappings = "(section_id \<times> location) list"

definition source_kind :: "relocation list \<Rightarrow> object_section \<Rightarrow> u32" where
  "source_kind relocs s =
     (if section_executable s then hunk_code
      else if (\<exists>b \<in> set (section_bytes s). b \<noteq> 0) \<or> (\<exists>r \<in> set relocs. reloc_section r = section_number s)
      then hunk_data
      else hunk_bss)"

definition resize_bytes :: "nat \<Rightarrow> bytes \<Rightarrow> bytes" where
  "resize_bytes n bs = take n bs @ replicate (n - length bs) 0"

definition append_source ::
  "u32 \<Rightarrow> object_section \<Rightarrow> object_section \<times> mappings \<Rightarrow> hunk_error + object_section \<times> mappings" where
  "append_source kind source = (\<lambda>(target, maps).
     bind_result (hunk_add (section_size target) (section_alignment source - 1)) (\<lambda>e.
       let offset = e AND NOT (section_alignment source - 1)
       in bind_result (hunk_add offset (section_size source)) (\<lambda>n.
            let maps' = AList.update (section_number source)
              (SectionLocation (section_number target) offset) maps
            in if kind \<noteq> hunk_bss
               then if unat offset + length (section_bytes source) \<le> unat n
                    then Inr (target\<lparr>section_size := n, section_bytes :=
                           splice (unat offset) (section_bytes source)
                             (resize_bytes (unat n) (section_bytes target))\<rparr>, maps')
                    else Inl HunkPanic
               else Inr (target\<lparr>section_size := n\<rparr>, maps'))))"

definition pack_source ::
  "u32 \<Rightarrow> relocation list \<Rightarrow> object_section \<Rightarrow> object_section \<times> mappings \<Rightarrow>
     hunk_error + object_section \<times> mappings" where
  "pack_source kind relocs source = (\<lambda>(target, maps).
     case fixed_address source of
       Some address \<Rightarrow>
         if section_bytes source \<noteq> [] \<or> section_zero_fill source \<noteq> 0
         then Inl FixedStorageInitialized
         else Inr (target, AList.update (section_number source) (AbsoluteLocation address) maps)
     | None \<Rightarrow>
         if source_kind relocs source \<noteq> kind then Inr (target, maps)
         else append_source kind source (target, maps))"

definition empty_section :: "u32 \<Rightarrow> section_id \<Rightarrow> object_section" where
  "empty_section kind number =
     \<lparr>section_number = number, section_bytes = [], section_zero_fill = 0, section_size = 0,
      section_alignment = 2, section_writable = kind \<noteq> hunk_code,
      section_executable = (kind = hunk_code), fixed_address = None\<rparr>"

fun maps_into :: "section_id \<Rightarrow> location \<Rightarrow> bool" where
  "maps_into number (SectionLocation s _) \<longleftrightarrow> s = number"
| "maps_into number _ \<longleftrightarrow> False"

definition pack_kind ::
  "native_object \<Rightarrow> u32 \<Rightarrow> object_section list \<times> mappings \<Rightarrow> hunk_error + object_section list \<times> mappings"
where
  "pack_kind input kind = (\<lambda>(sections, maps).
     let number = vec_len sections
     in bind_result
          (for_each (pack_source kind (object_relocations input)) (object_sections input)
             (empty_section kind number, maps)) (\<lambda>(target, maps).
          let target = if kind = hunk_bss then target\<lparr>section_zero_fill := section_size target\<rparr> else target
          in Inr (if kind = hunk_code \<or> (\<exists>l \<in> set (map snd maps). maps_into number l)
                  then sections @ [target] else sections, maps)))"

definition locate :: "mappings \<Rightarrow> location \<Rightarrow> hunk_error + location" where
  "locate maps l =
     (case l of
        SectionLocation s offset \<Rightarrow>
          (case map_of maps s of
             None \<Rightarrow> Inl UnmappedObject
           | Some (SectionLocation t base) \<Rightarrow>
               bind_result (hunk_add base offset) (\<lambda>e. Inr (SectionLocation t e))
           | Some (AbsoluteLocation base) \<Rightarrow>
               bind_result (hunk_add base offset) (\<lambda>e. Inr (AbsoluteLocation e))
           | Some (FrameLocation _ _) \<Rightarrow> Inl HunkPanic)
      | _ \<Rightarrow> Inr l)"

definition pack_relocation :: "mappings \<Rightarrow> relocation \<Rightarrow> hunk_error + relocation" where
  "pack_relocation maps r =
     bind_result (locate maps (SectionLocation (reloc_section r) (reloc_offset r))) (\<lambda>l.
       case l of
         SectionLocation s offset \<Rightarrow>
           (case reloc_target r of
              LocationTarget t \<Rightarrow> bind_result (locate maps t) (\<lambda>t.
                Inr (r\<lparr>reloc_section := s, reloc_offset := offset, reloc_target := LocationTarget t\<rparr>))
            | ImageEnd \<Rightarrow> Inl ImageEndUndefined)
       | _ \<Rightarrow> Inl SourceNotMovable)"

definition pack_object :: "native_object \<Rightarrow> hunk_error + native_object" where
  "pack_object input =
     bind_result (object_result (verify_object input)) (\<lambda>_.
       case object_entry input of
         SectionLocation code offset \<Rightarrow>
           bind_result (check (offset = 0) EntryNotAtCodeStart) (\<lambda>_.
             bind_result (check (length (filter section_executable (object_sections input)) = 1) NotOneCodeSection) (\<lambda>_.
               bind_result (ok_or HunkPanic (slice_get (object_sections input) (unat code))) (\<lambda>s.
                 bind_result (check (fixed_address s = None) NotOneCodeSection) (\<lambda>_.
                   bind_result (for_each (pack_kind input) [hunk_code, hunk_data, hunk_bss] ([], []))
                     (\<lambda>(sections, maps).
                     bind_result (map_result (pack_relocation maps) (object_relocations input)) (\<lambda>relocs.
                       bind_result (map_result (relocate_symbol (locate maps)) (object_symbols input)) (\<lambda>symbols.
                         let output = \<lparr>object_entry = SectionLocation 0 0, object_sections = sections,
                           object_relocations = relocs, object_symbols = symbols\<rparr>
                         in bind_result (object_result (verify_object output)) (\<lambda>_. Inr output))))))))
       | _ \<Rightarrow> Inl EntryNotAtCodeStart)"

section \<open>Serialization\<close>

type_synonym groups = "((section_id \<times> section_id) \<times> u32 list) list"

text \<open>\<open>entry(k).or_default().push(v)\<close> on an ordered map.\<close>

fun push_entry :: "'k::linorder \<Rightarrow> 'v \<Rightarrow> ('k \<times> 'v list) list \<Rightarrow> ('k \<times> 'v list) list" where
  "push_entry k v [] = [(k, [v])]"
| "push_entry k v ((l, vs) # m) =
     (if k < l then (k, [v]) # (l, vs) # m
      else if k = l then (l, vs @ [v]) # m
      else (l, vs) # push_entry k v m)"

definition hunk_target :: "relocation_target \<Rightarrow> hunk_error + u32 \<times> section_id option" where
  "hunk_target t =
     (case t of
        LocationTarget (SectionLocation s offset) \<Rightarrow> Inr (offset, Some s)
      | LocationTarget (AbsoluteLocation address) \<Rightarrow> Inr (address, None)
      | _ \<Rightarrow> Inl UnsupportedRelocationTarget)"

definition hunk_value :: "u32 \<Rightarrow> int \<Rightarrow> hunk_error + u32" where
  "hunk_value base delta =
     (let v = uint base + delta
      in if 0 \<le> v \<and> v < uint address_limit then Inr (word_of_int v) else Inl HunkAddendRange)"

definition hunk_group :: "relocation \<Rightarrow> section_id option \<Rightarrow> groups \<Rightarrow> hunk_error + groups" where
  "hunk_group r target groups =
     (case target of
        None \<Rightarrow> Inr groups
      | Some t \<Rightarrow>
          if reloc_width r \<noteq> 4 \<or> byte_index r \<noteq> None \<or> reloc_offset r AND 1 \<noteq> 0
          then Inl SitesMustBeLong
          else Inr (push_entry (reloc_section r, t) (reloc_offset r) groups))"

definition hunk_bytes :: "relocation \<Rightarrow> u32 \<Rightarrow> hunk_error + bytes" where
  "hunk_bytes r v =
     (case byte_index r of
        Some i \<Rightarrow> Inr [ucast (drop_bit (8 * unat i) v)]
      | None \<Rightarrow>
          (let width = unat (reloc_width r)
           in if width < 4 \<and> push_bit (8 * width) 1 \<le> v then Inl AbsoluteTooWide
              else Inr (drop (4 - width) (be_long v))))"

definition hunk_store :: "nat \<Rightarrow> nat \<Rightarrow> bytes \<Rightarrow> bytes list \<Rightarrow> hunk_error + bytes list" where
  "hunk_store index start new payloads =
     (if index < length payloads \<and> start + length new \<le> length (payloads ! index)
      then Inr (payloads[index := splice start new (payloads ! index)])
      else Inl HunkPanic)"

definition hunk_relocation :: "relocation \<Rightarrow> bytes list \<times> groups \<Rightarrow> hunk_error + bytes list \<times> groups" where
  "hunk_relocation r = (\<lambda>(payloads, groups).
     bind_result (hunk_target (reloc_target r)) (\<lambda>(base, target).
       bind_result (hunk_value base (reloc_addend r)) (\<lambda>v.
         bind_result (hunk_group r target groups) (\<lambda>groups.
           bind_result (hunk_bytes r v) (\<lambda>new.
             bind_result (hunk_store (unat (reloc_section r)) (unat (reloc_offset r)) new payloads) (\<lambda>payloads.
               Inr (payloads, groups)))))))"

function chunks :: "nat \<Rightarrow> 'a list \<Rightarrow> 'a list list" where
  "chunks n xs = (if n = 0 \<or> xs = [] then [] else take n xs # chunks n (drop n xs))"
  by auto
termination by (relation "measure (\<lambda>(n, xs). length xs)") auto

declare chunks.simps [simp del]

text \<open>One \<open>RELOC32\<close> record, then all records of a section: its groups in key order, each sorted and
  split into records of at most 65535 offsets.\<close>

definition reloc_record :: "section_id \<Rightarrow> u32 list \<Rightarrow> bytes" where
  "reloc_record target chunk =
     be_long hunk_reloc32 @ be_long (vec_len chunk) @ be_long target @ concat (map be_long chunk) @ be_long 0"

definition group_records :: "(section_id \<times> section_id) \<times> u32 list \<Rightarrow> bytes" where
  "group_records = (\<lambda>((source, target), offsets).
     concat (map (reloc_record target) (chunks 65535 (sort offsets))))"

definition section_kind :: "object_section \<Rightarrow> u32" where
  "section_kind s =
     (if section_executable s then hunk_code else if section_bytes s = [] then hunk_bss else hunk_data)"

definition serialize_section :: "groups \<Rightarrow> object_section \<times> bytes \<Rightarrow> bytes \<Rightarrow> hunk_error + bytes" where
  "serialize_section groups = (\<lambda>(s, bs) output.
     bind_result (longwords (section_size s)) (\<lambda>words.
       Inr (output @ be_long (section_kind s) @ be_long words @
            (if section_kind s \<noteq> hunk_bss then resize_bytes (unat (words * 4)) bs else []) @
            concat (map group_records (filter (\<lambda>g. fst (fst g) = section_number s) groups)) @
            be_long hunk_end)))"

definition serialize_size :: "object_section \<Rightarrow> bytes \<Rightarrow> hunk_error + bytes" where
  "serialize_size s output = bind_result (longwords (section_size s)) (\<lambda>w. Inr (output @ be_long w))"

definition serialize_object :: "native_object \<Rightarrow> hunk_error + bytes" where
  "serialize_object obj =
     (let sections = object_sections obj
      in bind_result
           (for_each hunk_relocation (object_relocations obj) (map section_bytes sections, []))
           (\<lambda>(payloads, groups).
           bind_result
             (for_each serialize_size sections
                (concat (map be_long [hunk_header, 0, vec_len sections, 0, vec_len sections - 1])))
             (\<lambda>output. for_each (serialize_section groups) (zip sections payloads) output)))"

record executable =
  executable_bytes :: bytes
  executable_object :: native_object

definition emit_executable :: "native_object \<Rightarrow> hunk_error + executable" where
  "emit_executable obj =
     bind_result (pack_object obj) (\<lambda>packed.
       bind_result (serialize_object packed) (\<lambda>bs.
         Inr \<lparr>executable_bytes = bs, executable_object = packed\<rparr>))"

end
