(* ===== verification/Hunk_Loader.thy ===== *)
theory Hunk_Loader
  imports M68k_Hunk
begin

text \<open>
  What an Amiga executable means: a loader that reads the hunks of \<open>M68k_Hunk\<close> back and adds the base of the
  target hunk to every relocated longword, as the AmigaDOS manual cited in \<open>src/src/mir68k/hunk.rs\<close>
  describes. It is a specification, not code of the repository. The main result: loading the file the
  compiler writes gives the memory that \<open>link_sections\<close> computes for the same bases. The reader is given
  as much fuel as the file has bytes; every record it reads consumes at least four.
\<close>

section \<open>Reading\<close>

definition read_long :: "bytes \<Rightarrow> (u32 \<times> bytes) option" where
  "read_long bs = (if length bs < 4 then None else Some (of_nat (be_value (take 4 bs)), drop 4 bs))"

fun read_longs :: "nat \<Rightarrow> bytes \<Rightarrow> (u32 list \<times> bytes) option" where
  "read_longs 0 bs = Some ([], bs)"
| "read_longs (Suc n) bs =
     (case read_long bs of
        None \<Rightarrow> None
      | Some (v, rest) \<Rightarrow> map_option (\<lambda>(vs, rest). (v # vs, rest)) (read_longs n rest))"

type_synonym fixups = "(section_id \<times> u32) list"

fun read_groups :: "nat \<Rightarrow> bytes \<Rightarrow> (fixups \<times> bytes) option" where
  "read_groups 0 bs = None"
| "read_groups (Suc fuel) bs =
     (case read_long bs of
        None \<Rightarrow> None
      | Some (n, bs) \<Rightarrow>
          if n = 0 then Some ([], bs)
          else
            (case read_long bs of
               None \<Rightarrow> None
             | Some (target, bs) \<Rightarrow>
                 (case read_longs (unat n) bs of
                    None \<Rightarrow> None
                  | Some (offsets, bs) \<Rightarrow>
                      map_option (\<lambda>(fs, rest). (map (Pair target) offsets @ fs, rest)) (read_groups fuel bs))))"

fun read_records :: "nat \<Rightarrow> bytes \<Rightarrow> (fixups \<times> bytes) option" where
  "read_records 0 bs = None"
| "read_records (Suc fuel) bs =
     (case read_long bs of
        None \<Rightarrow> None
      | Some (kind, bs) \<Rightarrow>
          if kind = hunk_end then Some ([], bs)
          else if kind = hunk_reloc32
          then (case read_groups fuel bs of
                  None \<Rightarrow> None
                | Some (fs, bs) \<Rightarrow> map_option (\<lambda>(gs, rest). (fs @ gs, rest)) (read_records fuel bs))
          else None)"

text \<open>A hunk of \<open>n\<close> longwords: its initial memory and its fixups.\<close>

definition read_hunk :: "nat \<Rightarrow> bytes \<Rightarrow> ((bytes \<times> fixups) \<times> bytes) option" where
  "read_hunk fuel bs =
     (case read_longs 2 bs of
        Some ([kind, words], bs) \<Rightarrow>
          let n = unat words * 4
          in if kind = hunk_bss
             then map_option (\<lambda>(fs, rest). ((replicate n 0, fs), rest)) (read_records fuel bs)
             else if (kind = hunk_code \<or> kind = hunk_data) \<and> n \<le> length bs
             then map_option (\<lambda>(fs, rest). ((take n bs, fs), rest)) (read_records fuel (drop n bs))
             else None
      | _ \<Rightarrow> None)"

fun read_hunks :: "nat \<Rightarrow> nat \<Rightarrow> bytes \<Rightarrow> (bytes \<times> fixups) list option" where
  "read_hunks fuel 0 bs = (if bs = [] then Some [] else None)"
| "read_hunks fuel (Suc n) bs =
     (case read_hunk fuel bs of
        None \<Rightarrow> None
      | Some (h, bs) \<Rightarrow> map_option (Cons h) (read_hunks fuel n bs))"

section \<open>Loading\<close>

text \<open>The longword at an offset, and the addition of a base to it.\<close>

definition long_at :: "nat \<Rightarrow> bytes \<Rightarrow> u32" where
  "long_at off bs = of_nat (be_value (take 4 (drop off bs)))"

definition add_base :: "u32 list \<Rightarrow> section_id \<times> u32 \<Rightarrow> bytes \<Rightarrow> bytes" where
  "add_base bases = (\<lambda>(target, off) bs.
     splice (unat off) (be_long (long_at (unat off) bs + bases ! unat target)) bs)"

definition load_hunks :: "bytes \<Rightarrow> u32 list \<Rightarrow> bytes list option" where
  "load_hunks file bases =
     (case read_longs 5 file of
        Some ([hdr, names, n, lo, hi], file) \<Rightarrow>
          if hdr = hunk_header \<and> names = 0 \<and> lo = 0 \<and> hi = n - 1
          then (case read_longs (unat n) file of
                  None \<Rightarrow> None
                | Some (sizes, file) \<Rightarrow>
                    (case read_hunks (length file) (unat n) file of
                       None \<Rightarrow> None
                     | Some hunks \<Rightarrow>
                         if list_all2 (\<lambda>w h. length (fst h) = unat w * 4) sizes hunks
                         then Some (map (\<lambda>(m, fs). fold (add_base bases) fs m) hunks)
                         else None))
          else None
      | _ \<Rightarrow> None)"

section \<open>Longwords read back\<close>

lemma be_long_value: "of_nat (be_value (be_long v)) = v"
  using be_value_be_long [of 4 v] by (simp add: mod_less [OF unsigned_less [where 'a = nat, of v, simplified]])

lemma read_long_be_long [simp]: "read_long (be_long v @ rest) = Some (v, rest)"
  by (simp add: read_long_def be_long_value)

lemma read_longs_be_longs: "read_longs (length vs) (concat (map be_long vs) @ rest) = Some (vs, rest)"
  by (induction vs) simp_all

lemma length_be_longs [simp]: "length (concat (map be_long vs)) = 4 * length vs"
  by (induction vs) simp_all

section \<open>Chunks\<close>

lemma concat_chunks: "0 < n \<Longrightarrow> concat (chunks n xs) = xs"
  by (induction n xs rule: chunks.induct) (subst chunks.simps, simp)

lemma chunks_length: "0 < n \<Longrightarrow> c \<in> set (chunks n xs) \<Longrightarrow> c \<noteq> [] \<and> length c \<le> n"
proof (induction n xs rule: chunks.induct)
  case (1 n xs)
  show ?case
  proof (cases "xs = []")
    case True
    then show ?thesis using 1(3) by (simp add: chunks.simps)
  next
    case False
    then have "c = take n xs \<or> c \<in> set (chunks n (drop n xs))"
      using 1(2,3) by (subst (asm) chunks.simps) simp
    then show ?thesis using 1(1,2) False by auto
  qed
qed

section \<open>Records read back\<close>

lemma read_groups_record:
  assumes "c \<noteq> []" and "length c < 2 ^ 32" and "2 \<le> fuel"
  shows "read_groups fuel (be_long (vec_len c) @ be_long t @ concat (map be_long c) @ be_long 0 @ rest) =
    Some (map (Pair t) c, rest)"
proof -
  obtain f where f: "fuel = Suc (Suc f)" using assms(3) by (metis Suc_le_D numeral_2_eq_2 Suc_le_mono)
  have n: "unat (vec_len c) = length c" using assms(2) by (simp add: vec_len_def unsigned_of_nat take_bit_eq_mod)
  then have "vec_len c \<noteq> 0" using assms(1) by (metis length_0_conv unsigned_0)
  then show ?thesis
    unfolding f by (simp add: n read_longs_be_longs del: append_assoc add: append.assoc)
qed

lemma read_records_end [simp]:
  "0 < fuel \<Longrightarrow> read_records fuel (be_long hunk_end @ rest) = Some ([], rest)"
  by (cases fuel) simp_all

lemma kinds_distinct [simp]:
  "hunk_reloc32 \<noteq> hunk_end" "hunk_code \<noteq> hunk_bss" "hunk_data \<noteq> hunk_bss" "hunk_code \<noteq> hunk_data"
  by (simp_all add: hunk_reloc32_def hunk_end_def hunk_code_def hunk_bss_def hunk_data_def)

lemma read_records_records:
  assumes "\<forall>(t, c) \<in> set tcs. c \<noteq> [] \<and> length c < 2 ^ 32" and "length tcs + 2 \<le> fuel"
  shows "read_records fuel (concat (map (\<lambda>(t, c). reloc_record t c) tcs) @ be_long hunk_end @ rest) =
    Some (concat (map (\<lambda>(t, c). map (Pair t) c) tcs), rest)"
  using assms
proof (induction tcs arbitrary: fuel)
  case Nil
  then show ?case by simp
next
  case (Cons tc tcs)
  obtain t c where tc: "tc = (t, c)" by (cases tc)
  obtain f where f: "fuel = Suc f" using Cons.prems(2) by (cases fuel) auto
  have "read_records f (concat (map (\<lambda>(t, c). reloc_record t c) tcs) @ be_long hunk_end @ rest) =
      Some (concat (map (\<lambda>(t, c). map (Pair t) c) tcs), rest)"
    by (rule Cons.IH) (use Cons.prems f in auto)
  moreover have "read_groups f (be_long (vec_len c) @ be_long t @ concat (map be_long c) @ be_long 0 @ r) =
      Some (map (Pair t) c, r)" for r
    by (rule read_groups_record) (use Cons.prems f tc in auto)
  ultimately show ?case by (simp add: f tc reloc_record_def)
qed

text \<open>The records of a list of groups, one per chunk, and the fixups they stand for.\<close>

definition group_chunks :: "groups \<Rightarrow> (section_id \<times> u32 list) list" where
  "group_chunks gs =
     concat (map (\<lambda>((s, t), offsets). map (Pair t) (chunks 65535 (sort offsets))) gs)"

definition group_fixups :: "groups \<Rightarrow> fixups" where
  "group_fixups gs = concat (map (\<lambda>((s, t), offsets). map (Pair t) (sort offsets)) gs)"

lemma group_records_chunks:
  "concat (map group_records gs) = concat (map (\<lambda>(t, c). reloc_record t c) (group_chunks gs))"
  by (induction gs) (auto simp: group_records_def group_chunks_def o_def)

lemma group_chunks_fixups: "concat (map (\<lambda>(t, c). map (Pair t) c) (group_chunks gs)) = group_fixups gs"
proof -
  have "concat (map (map (Pair t)) cs) = map (Pair t) (concat cs)" for t :: section_id and cs :: "u32 list list"
    by (simp add: map_concat)
  then show ?thesis
    by (induction gs) (auto simp: group_chunks_def group_fixups_def o_def concat_chunks)
qed

lemma group_chunks_ok: "\<forall>(t, c) \<in> set (group_chunks gs). c \<noteq> [] \<and> length c < 2 ^ 32"
  using chunks_length [of 65535] by (fastforce simp: group_chunks_def dest!: chunks_length [of 65535, rotated])

lemma group_records_length: "length (group_chunks gs) \<le> length (concat (map group_records gs))"
proof -
  have "length tcs \<le> length (concat (map (\<lambda>(t, c). reloc_record t c) tcs))" for tcs
    by (induction tcs) (auto simp: reloc_record_def split: prod.splits)
  then show ?thesis unfolding group_records_chunks .
qed

lemma read_groups_of_section:
  assumes "length (concat (map group_records gs)) + 2 \<le> fuel"
  shows "read_records fuel (concat (map group_records gs) @ be_long hunk_end @ rest) =
    Some (group_fixups gs, rest)"
proof -
  have "length (group_chunks gs) + 2 \<le> fuel" using assms group_records_length [of gs] by simp
  from read_records_records [OF group_chunks_ok this] show ?thesis
    by (simp only: group_records_chunks group_chunks_fixups)
qed

section \<open>Hunks read back\<close>

definition section_groups :: "groups \<Rightarrow> object_section \<Rightarrow> groups" where
  "section_groups groups s = filter (\<lambda>g. fst (fst g) = section_number s) groups"

definition section_words :: "object_section \<Rightarrow> u32" where
  "section_words s = (section_size s + 3) div 4"

definition section_block :: "groups \<Rightarrow> object_section \<Rightarrow> bytes \<Rightarrow> bytes" where
  "section_block groups s bs =
     be_long (section_kind s) @ be_long (section_words s) @
     (if section_kind s \<noteq> hunk_bss then resize_bytes (unat (section_words s * 4)) bs else []) @
     concat (map group_records (section_groups groups s)) @ be_long hunk_end"

lemma hunk_add_Inr: "hunk_add a n = Inr e \<longleftrightarrow> unat a + unat n \<le> 2 ^ 24 \<and> e = a + n"
proof -
  have "hunk_add a n = Inr e \<longleftrightarrow> checked_end a n = Inr e"
    by (auto simp: hunk_add_def checked_end_def split: option.splits)
  then show ?thesis by (simp only: checked_end_Inr)
qed

lemma longwords_Inr:
  "longwords n = Inr w \<longleftrightarrow> unat n + 3 \<le> 2 ^ 24 \<and> w = (n + 3) div 4"
  by (auto simp: longwords_def hunk_add_Inr)

lemma section_words_unat:
  assumes "unat (section_size s) + 3 \<le> 2 ^ 24"
  shows "unat (section_words s) = (unat (section_size s) + 3) div 4"
    and "unat (section_words s * 4) = unat (section_words s) * 4"
    and "unat (section_size s) \<le> unat (section_words s) * 4"
proof -
  show w: "unat (section_words s) = (unat (section_size s) + 3) div 4"
    using assms unat_end [of "section_size s" 3] by (simp add: section_words_def unat_div_distrib)
  then show "unat (section_words s * 4) = unat (section_words s) * 4"
    using assms by (simp add: unat_word_ariths)
  show "unat (section_size s) \<le> unat (section_words s) * 4" unfolding w by simp
qed

lemma serialize_sizes:
  "for_each serialize_size ss out = Inr out' \<longleftrightarrow>
     (\<forall>s \<in> set ss. unat (section_size s) + 3 \<le> 2 ^ 24) \<and>
     out' = out @ concat (map (be_long \<circ> section_words) ss)"
  by (induction ss arbitrary: out)
    (auto simp: serialize_size_def longwords_Inr section_words_def)

lemma serialize_sections:
  "for_each (serialize_section groups) zs out = Inr out' \<longleftrightarrow>
     (\<forall>(s, bs) \<in> set zs. unat (section_size s) + 3 \<le> 2 ^ 24) \<and>
     out' = out @ concat (map (\<lambda>(s, bs). section_block groups s bs) zs)"
  by (induction zs arbitrary: out)
    (auto simp: serialize_section_def longwords_Inr section_words_def section_block_def section_groups_def)

definition hunk_memory :: "object_section \<Rightarrow> bytes \<Rightarrow> bytes" where
  "hunk_memory s bs = resize_bytes (unat (section_words s) * 4) bs"

lemma length_resize [simp]: "length (resize_bytes n bs) = n"
  by (simp add: resize_bytes_def)

lemma nth_resize: "k < n \<Longrightarrow> resize_bytes n bs ! k = (if k < length bs then bs ! k else 0)"
  by (auto simp: resize_bytes_def nth_append)

lemma section_kind_cases:
  "section_kind s = hunk_bss \<and> section_bytes s = [] \<or> section_kind s = hunk_code \<or> section_kind s = hunk_data"
  by (auto simp: section_kind_def)

lemma read_hunk_block:
  assumes "unat (section_size s) + 3 \<le> 2 ^ 24" and "length bs = length (section_bytes s)"
    and "length (section_block groups s bs) \<le> fuel"
  shows "read_hunk fuel (section_block groups s bs @ rest) =
    Some ((hunk_memory s bs, group_fixups (section_groups groups s)), rest)"
proof -
  note w = section_words_unat(2) [OF assms(1)]
  have fuel: "length (concat (map group_records (section_groups groups s))) + 2 \<le> fuel"
    using assms(3) by (simp add: section_block_def)
  note records = read_groups_of_section [OF fuel]
  have two: "read_longs 2 (be_long a @ be_long b @ r) = Some ([a, b], r)" for a b r
    by (simp add: numeral_eq_Suc)
  consider "section_kind s = hunk_bss" "bs = []" | "section_kind s \<in> {hunk_code, hunk_data}"
    using section_kind_cases [of s] assms(2) by auto
  then show ?thesis
  proof cases
    case 1
    then show ?thesis
      by (simp add: read_hunk_def section_block_def two records hunk_memory_def resize_bytes_def)
  next
    case 2
    then have "section_kind s \<noteq> hunk_bss" by auto
    with 2 show ?thesis
      by (simp add: read_hunk_def section_block_def two records hunk_memory_def w Let_def)
  qed
qed

lemma read_hunks_blocks:
  assumes "\<forall>(s, bs) \<in> set zs. unat (section_size s) + 3 \<le> 2 ^ 24 \<and> length bs = length (section_bytes s)"
    and "length (concat (map (\<lambda>(s, bs). section_block groups s bs) zs)) \<le> fuel"
  shows "read_hunks fuel (length zs) (concat (map (\<lambda>(s, bs). section_block groups s bs) zs)) =
    Some (map (\<lambda>(s, bs). (hunk_memory s bs, group_fixups (section_groups groups s))) zs)"
  using assms
proof (induction zs)
  case Nil
  then show ?case by simp
next
  case (Cons z zs)
  obtain s bs where z: "z = (s, bs)" by (cases z)
  have "read_hunk fuel (section_block groups s bs @ r) =
      Some ((hunk_memory s bs, group_fixups (section_groups groups s)), r)" for r
    by (rule read_hunk_block) (use Cons.prems z in auto)
  with Cons z show ?case by simp
qed

text \<open>The whole file read back: the memory and fixups of each section.\<close>

lemma load_serialized:
  assumes sizes: "\<forall>s \<in> set (object_sections obj). unat (section_size s) + 3 \<le> 2 ^ 24"
    and lens: "list_all2 (\<lambda>s bs. length bs = length (section_bytes s)) (object_sections obj) payloads"
    and relocs: "for_each hunk_relocation (object_relocations obj)
      (map section_bytes (object_sections obj), []) = Inr (payloads, groups)"
    and whole: "serialize_object obj = Inr file" and n: "length (object_sections obj) < 2 ^ 32"
  shows "load_hunks file bases =
    Some (map (\<lambda>(s, bs). fold (add_base bases) (group_fixups (section_groups groups s)) (hunk_memory s bs))
      (zip (object_sections obj) payloads))"
proof -
  let ?ss = "object_sections obj" and ?zs = "zip (object_sections obj) payloads"
  let ?n = "vec_len ?ss :: u32"
  let ?blocks = "concat (map (\<lambda>(s, bs). section_block groups s bs) ?zs)"
  have zs: "\<forall>(s, bs) \<in> set ?zs. unat (section_size s) + 3 \<le> 2 ^ 24 \<and> length bs = length (section_bytes s)"
    using sizes lens by (auto simp: list_all2_iff dest: set_zip_leftD)
  have whole': "file = concat (map be_long [hunk_header, 0, ?n, 0, ?n - 1]) @
      concat (map be_long (map section_words ?ss)) @ ?blocks"
    using whole relocs unfolding serialize_object_def Let_def
    by (auto simp: serialize_sizes serialize_sections)
  have un: "unat ?n = length ?ss" using n by (simp add: vec_len_def unsigned_of_nat take_bit_eq_mod)
  have hd5: "read_longs 5 (concat (map be_long [a, b, c, d, e]) @ r) = Some ([a, b, c, d, e], r)"
    for a b c d e r by (simp add: numeral_eq_Suc)
  have sizes5: "read_longs (unat ?n) (concat (map be_long (map section_words ?ss)) @ r) =
      Some (map section_words ?ss, r)" for r
    using read_longs_be_longs [of "map section_words ?ss" r] by (simp add: un)
  have lz: "length ?zs = length ?ss" using lens by (simp add: list_all2_lengthD)
  have hunks: "read_hunks (length ?blocks) (unat ?n) ?blocks =
      Some (map (\<lambda>(s, bs). (hunk_memory s bs, group_fixups (section_groups groups s))) ?zs)"
    using read_hunks_blocks [OF zs order_refl] by (simp only: un lz)
  have "list_all2 (\<lambda>w h. length (fst h) = unat w * 4) (map section_words ?ss)
      (map (\<lambda>(s, bs). (hunk_memory s bs, group_fixups (section_groups groups s))) ?zs)"
    using lz by (auto simp: list_all2_conv_all_nth hunk_memory_def)
  then show ?thesis
    unfolding load_hunks_def whole' hd5
    by (simp only: option.case list.case prod.case sizes5 hunks if_True simp_thms refl) (auto simp: o_def split_def)
qed

section \<open>Fixups\<close>

text \<open>The source section, target section and offset of every entry of the groups.\<close>

definition group_sites :: "groups \<Rightarrow> (section_id \<times> section_id \<times> u32) list" where
  "group_sites gs = concat (map (\<lambda>((s, t), offsets). map (\<lambda>off. (s, t, off)) offsets) gs)"

definition group_pairs :: "groups \<Rightarrow> (section_id \<times> u32) list" where
  "group_pairs gs = concat (map (\<lambda>((s, t), offsets). map (Pair s) offsets) gs)"

lemma group_lists_simps [simp]:
  "group_sites [] = []" "group_pairs [] = []"
  "group_sites (((s, t), offsets) # gs) = map (\<lambda>off. (s, t, off)) offsets @ group_sites gs"
  "group_pairs (((s, t), offsets) # gs) = map (Pair s) offsets @ group_pairs gs"
  by (simp_all add: group_sites_def group_pairs_def)

lemma set_group_pairs: "set (group_pairs gs) = (\<lambda>(s, t, off). (s, off)) ` set (group_sites gs)"
proof (induction gs)
  case Nil
  then show ?case by simp
next
  case (Cons g gs)
  obtain s' t' offs where g: "g = ((s', t'), offs)" by (metis prod.exhaust)
  show ?case unfolding g using Cons by (simp add: image_Un image_image)
qed

lemma set_push_sites: "set (group_sites (push_entry (s, t) off gs)) = insert (s, t, off) (set (group_sites gs))"
  by (induction gs) (auto split: if_splits)

lemma set_push_pairs: "set (group_pairs (push_entry (s, t) off gs)) = insert (s, off) (set (group_pairs gs))"
  by (induction gs) (auto split: if_splits)

lemma distinct_push_pairs:
  "distinct (group_pairs (push_entry (s, t) off gs)) \<longleftrightarrow>
     (s, off) \<notin> set (group_pairs gs) \<and> distinct (group_pairs gs)"
proof (induction gs)
  case Nil
  then show ?case by simp
next
  case (Cons g gs)
  obtain s' t' offs where g: "g = ((s', t'), offs)" by (metis prod.exhaust)
  show ?case
    using Cons by (auto simp: g set_push_pairs distinct_map inj_on_def)
qed

text \<open>The fixups of one section: each offset once, and the targets the groups give it.\<close>

lemma section_fixups:
  assumes "distinct (group_pairs gs)"
  shows "distinct (map snd (group_fixups (section_groups gs s)))"
    and "set (group_fixups (section_groups gs s)) =
      {(t, off). (section_number s, t, off) \<in> set (group_sites gs)}"
proof -
  show "set (group_fixups (section_groups gs s)) =
      {(t, off). (section_number s, t, off) \<in> set (group_sites gs)}"
    by (induction gs) (auto simp: group_fixups_def section_groups_def)
  have "distinct (map snd (group_fixups (section_groups gs s))) \<and>
      set (map snd (group_fixups (section_groups gs s))) =
        {off. (section_number s, off) \<in> set (group_pairs gs)}"
    using assms
  proof (induction gs)
    case Nil
    then show ?case by (simp add: group_fixups_def section_groups_def)
  next
    case (Cons g gs)
    obtain s' t' offs where g: "g = ((s', t'), offs)" by (metis prod.exhaust)
    let ?fix = "\<lambda>gs. group_fixups (section_groups gs s)"
    have step: "?fix (g # gs) = (if s' = section_number s then map (Pair t') (sort offs) else []) @ ?fix gs"
      by (simp add: g group_fixups_def section_groups_def)
    have IH: "distinct (map snd (?fix gs))"
      "set (map snd (?fix gs)) = {off. (section_number s, off) \<in> set (group_pairs gs)}"
      using Cons g by simp_all
    have d: "distinct offs" "\<And>off. off \<in> set offs \<Longrightarrow> (s', off) \<notin> set (group_pairs gs)"
      using Cons.prems g by (auto simp: distinct_map)
    have "map snd (?fix (g # gs)) = (if s' = section_number s then sort offs else []) @ map snd (?fix gs)"
      unfolding step by (simp add: o_def)
    with IH d show ?case by (auto simp: g)
  qed
  then show "distinct (map snd (group_fixups (section_groups gs s)))" by blast
qed

text \<open>Adding a base to one longword, and to longwords that do not overlap.\<close>

lemma add_base_effect:
  assumes "unat off + 4 \<le> length bs"
  shows "length (add_base bases (t, off) bs) = length bs"
    and "k < length bs \<Longrightarrow> add_base bases (t, off) bs ! k =
      (if unat off \<le> k \<and> k < unat off + 4
       then be_long (long_at (unat off) bs + bases ! unat t) ! (k - unat off) else bs ! k)"
  using assms by (simp_all add: add_base_def nth_splice)

definition separate :: "fixups \<Rightarrow> bool" where
  "separate fs \<longleftrightarrow> sorted_wrt (\<lambda>f g. unat (snd f) + 4 \<le> unat (snd g) \<or> unat (snd g) + 4 \<le> unat (snd f)) fs"

lemma long_at_cong:
  assumes "length bs = length cs" and "unat off + 4 \<le> length bs"
    and "\<And>k. unat off \<le> k \<Longrightarrow> k < unat off + 4 \<Longrightarrow> bs ! k = cs ! k"
  shows "long_at (unat off) bs = long_at (unat off) cs"
proof -
  have "take 4 (drop (unat off) bs) = take 4 (drop (unat off) cs)"
    using assms by (intro nth_equalityI) auto
  then show ?thesis by (simp add: long_at_def)
qed

lemma add_bases_effect:
  assumes "separate fs" and "\<forall>(t, off) \<in> set fs. unat off + 4 \<le> length bs"
  shows "length (fold (add_base bases) fs bs) = length bs \<and>
    (\<forall>k < length bs. (\<forall>(t, off) \<in> set fs. \<not> (unat off \<le> k \<and> k < unat off + 4)) \<longrightarrow>
       fold (add_base bases) fs bs ! k = bs ! k) \<and>
    (\<forall>(t, off) \<in> set fs. \<forall>k. unat off \<le> k \<and> k < unat off + 4 \<longrightarrow>
       fold (add_base bases) fs bs ! k = be_long (long_at (unat off) bs + bases ! unat t) ! (k - unat off))"
  using assms
proof (induction fs arbitrary: bs)
  case Nil
  then show ?case by simp
next
  case (Cons f fs)
  obtain t off where f: "f = (t, off)" by (cases f)
  let ?bs = "add_base bases (t, off) bs"
  have fit: "unat off + 4 \<le> length bs" using Cons.prems(2) f by simp
  note eff = add_base_effect [OF fit, where bases = bases and t = t]
  have sep: "separate fs"
    and apart: "\<And>t' off'. (t', off') \<in> set fs \<Longrightarrow> unat off + 4 \<le> unat off' \<or> unat off' + 4 \<le> unat off"
    using Cons.prems(1) f by (auto simp: separate_def)
  have fits: "\<forall>(t, off) \<in> set fs. unat off + 4 \<le> length ?bs" using Cons.prems(2) eff(1) by auto
  note IH = Cons.IH [OF sep fits]
  have len: "length (fold (add_base bases) fs ?bs) = length bs" using IH eff(1) by simp
  have other: "fold (add_base bases) fs ?bs ! k = ?bs ! k"
    if "k < length bs" "\<forall>(t, off) \<in> set fs. \<not> (unat off \<le> k \<and> k < unat off + 4)" for k
    using IH eff(1) that by simp
  have same: "long_at (unat off') ?bs = long_at (unat off') bs" if "(t', off') \<in> set fs" for t' off'
  proof (rule long_at_cong)
    show "length ?bs = length bs" by (rule eff(1))
    show "unat off' + 4 \<le> length ?bs" using fits that by auto
    fix k assume k: "unat off' \<le> k" "k < unat off' + 4"
    with \<open>unat off' + 4 \<le> length ?bs\<close> apart [OF that] eff show "?bs ! k = bs ! k" by auto
  qed
  have tail: "fold (add_base bases) fs ?bs ! k =
      be_long (long_at (unat off') bs + bases ! unat t') ! (k - unat off')"
    if "(t', off') \<in> set fs" "unat off' \<le> k \<and> k < unat off' + 4" for t' off' k
  proof -
    have "\<forall>(t, off) \<in> set fs. \<forall>k. unat off \<le> k \<and> k < unat off + 4 \<longrightarrow>
        fold (add_base bases) fs ?bs ! k = be_long (long_at (unat off) ?bs + bases ! unat t) ! (k - unat off)"
      using IH by blast
    from bspec [OF this that(1)] that same [OF that(1)] show ?thesis by simp
  qed
  have head: "fold (add_base bases) fs ?bs ! k = be_long (long_at (unat off) bs + bases ! unat t) ! (k - unat off)"
    if "unat off \<le> k \<and> k < unat off + 4" for k
  proof -
    have "\<forall>(t', off') \<in> set fs. \<not> (unat off' \<le> k \<and> k < unat off' + 4)" using apart that by fastforce
    with other [of k] that fit eff(2) [of k] show ?thesis by simp
  qed
  show ?case
    using len other eff(2) tail head by (auto simp: f)
qed

section \<open>Serialization as linking at address zero\<close>

fun target_section :: "relocation_target \<Rightarrow> section_id option" where
  "target_section (LocationTarget (SectionLocation t _)) = Some t"
| "target_section _ = None"

lemma hunk_relocation_links_at_zero:
  assumes ok: "relocation_ok ss r" and h: "hunk_relocation r (ps, gs) = Inr (ps', gs')"
  shows "apply_relocation (replicate (length ss) 0) None r ps = Inr ps'"
    and "hunk_group r (target_section (reloc_target r)) gs = Inr gs'"
proof -
  from h obtain base target v new where t: "hunk_target (reloc_target r) = Inr (base, target)"
    and v: "hunk_value base (reloc_addend r) = Inr v" and g: "hunk_group r target gs = Inr gs'"
    and new: "hunk_bytes r v = Inr new"
    and st: "hunk_store (unat (reloc_section r)) (unat (reloc_offset r)) new ps = Inr ps'"
    unfolding hunk_relocation_def by (simp only: result_steps) blast
  have "adjusted base (reloc_addend r) = Inr v"
    using v by (auto simp: hunk_value_def adjusted_def Let_def split: if_splits)
  moreover have "relocated_bytes r v = Inr new"
    using new by (auto simp: hunk_bytes_def relocated_bytes_def Let_def split: option.splits if_splits)
  moreover have "store_bytes (unat (reloc_section r)) (unat (reloc_offset r)) new ps = Inr ps'"
    using st by (auto simp: hunk_store_def store_bytes_def split: if_splits)
  moreover have "target_base (replicate (length ss) 0) None (reloc_target r) = Inr base \<and>
      target = target_section (reloc_target r)"
  proof (cases "reloc_target r")
    case ImageEnd
    with t show ?thesis by (simp add: hunk_target_def)
  next
    case (LocationTarget l)
    with t ok show ?thesis
      by (cases l) (auto simp: hunk_target_def target_base_def relocation_ok_def check_target_def
          extent_end_Inr)
  qed
  ultimately show "apply_relocation (replicate (length ss) 0) None r ps = Inr ps'"
    "hunk_group r (target_section (reloc_target r)) gs = Inr gs'"
    using g by (simp_all add: apply_relocation_def relocation_value_def)
qed

lemma hunk_group_effect:
  assumes "hunk_group r target gs = Inr gs'"
  shows "set (group_sites gs') =
      {(reloc_section r, t, reloc_offset r) | t. target = Some t} \<union> set (group_sites gs)"
    and "target = None \<Longrightarrow> gs' = gs"
    and "target = Some t \<Longrightarrow> gs' = push_entry (reloc_section r, t) (reloc_offset r) gs \<and>
      reloc_width r = 4 \<and> byte_index r = None"
  using assms by (auto simp: hunk_group_def set_push_sites split: option.splits if_splits)

text \<open>Every movable relocation has a full-width site.\<close>

definition movable_long :: "relocation \<Rightarrow> bool" where
  "movable_long r \<longleftrightarrow> (target_section (reloc_target r) \<noteq> None \<longrightarrow> reloc_width r = 4 \<and> byte_index r = None)"

definition movable_sites :: "relocation list \<Rightarrow> (section_id \<times> section_id \<times> u32) set" where
  "movable_sites rs =
     {(reloc_section r, t, reloc_offset r) | r t. r \<in> set rs \<and> target_section (reloc_target r) = Some t}"

lemma reloc_site_first: "reloc_width r \<noteq> 0 \<Longrightarrow> (reloc_section r, reloc_offset r) \<in> set (reloc_sites r)"
  using unat_gt_0 [of "reloc_width r"] by (force simp: reloc_sites_def image_iff intro!: bexI [of _ 0])

lemma hunk_relocations_effect:
  assumes "for_each hunk_relocation rs (ps, gs) = Inr (ps', gs')" and "\<forall>r \<in> set rs. relocation_ok ss r"
    and "distinct (all_sites rs)" and "set (group_pairs gs) \<inter> set (all_sites rs) = {}"
    and "distinct (group_pairs gs)"
  shows "for_each (apply_relocation (replicate (length ss) 0) None) rs ps = Inr ps' \<and>
    set (group_sites gs') = movable_sites rs \<union> set (group_sites gs) \<and>
    distinct (group_pairs gs') \<and> (\<forall>r \<in> set rs. movable_long r)"
  using assms
proof (induction rs arbitrary: ps gs)
  case Nil
  then show ?case by (simp add: movable_sites_def)
next
  case (Cons r rs)
  obtain ps1 gs1 where one: "hunk_relocation r (ps, gs) = Inr (ps1, gs1)"
    and rest: "for_each hunk_relocation rs (ps1, gs1) = Inr (ps', gs')"
    using Cons.prems(1) by auto
  have ok: "relocation_ok ss r" using Cons.prems(2) by simp
  note zero = hunk_relocation_links_at_zero [OF ok one]
  note eff = hunk_group_effect [OF zero(2)]
  have w: "reloc_width r \<noteq> 0" using ok by (auto simp: relocation_ok_def)
  have pairs: "set (group_pairs gs1) \<inter> set (all_sites rs) = {} \<and> distinct (group_pairs gs1)"
  proof (cases "target_section (reloc_target r)")
    case None
    with eff(2) Cons.prems show ?thesis by auto
  next
    case (Some t)
    from eff(3) [OF Some] have gs1: "gs1 = push_entry (reloc_section r, t) (reloc_offset r) gs" by blast
    from reloc_site_first [OF w] Cons.prems(3,4,5) show ?thesis
      unfolding gs1 distinct_push_pairs set_push_pairs by auto
  qed
  have "movable_long r" using eff(3) by (auto simp: movable_long_def)
  moreover have "movable_sites (r # rs) =
      {(reloc_section r, t, reloc_offset r) | t. target_section (reloc_target r) = Some t} \<union> movable_sites rs"
    by (auto simp: movable_sites_def)
  moreover have "for_each (apply_relocation (replicate (length ss) 0) None) rs ps1 = Inr ps' \<and>
    set (group_sites gs') = movable_sites rs \<union> set (group_sites gs1) \<and>
    distinct (group_pairs gs') \<and> (\<forall>r \<in> set rs. movable_long r)"
    by (rule Cons.IH [OF rest]) (use Cons.prems pairs in auto)
  ultimately show ?case using zero(1) eff(1) by auto
qed

lemma covers_same:
  assumes "distinct (all_sites rs)" and "r \<in> set rs" and "q \<in> set rs" and "covers r i k" and "covers q i k"
  shows "r = q"
  using assms
proof (induction rs)
  case Nil
  then show ?case by simp
next
  case (Cons p rs)
  have d: "distinct (all_sites rs)" using Cons.prems(1) by simp
  show ?case
    using Cons.IH [OF d] Cons.prems covers_unique [OF Cons.prems(1), of i k] by auto
qed

section \<open>Loading is linking\<close>

lemma sorted_wrt_distinct:
  assumes "distinct (map f xs)" and "\<And>x y. x \<in> set xs \<Longrightarrow> y \<in> set xs \<Longrightarrow> f x \<noteq> f y \<Longrightarrow> P x y"
  shows "sorted_wrt P xs"
  using assms by (induction xs) force+

lemma relocated_long:
  assumes "reloc_width r = 4" and "byte_index r = None" and "relocated_bytes r v = Inr new"
  shows "new = be_long v"
  using assms by (simp add: relocated_bytes_def)

lemma uint_word_of: "uint v = k \<Longrightarrow> v = word_of_int k" for v :: u32
  by auto

lemma movable_value:
  assumes "target_section (reloc_target r) = Some t"
    and "relocation_value (replicate n 0) None r = Inr v" and "relocation_value bases ie r = Inr w"
  shows "w = v + bases ! unat t"
proof -
  from assms(1) obtain off where t: "reloc_target r = LocationTarget (SectionLocation t off)"
    by (cases "reloc_target r" rule: target_section.cases) auto
  from assms(2) t have v: "uint v = uint off + reloc_addend r"
    by (auto simp: relocation_value_def target_base_def extent_end_Inr adjusted_Inr)
  from assms(3) t have w: "uint w = uint (bases ! unat t + off) + reloc_addend r"
    by (auto simp: relocation_value_def target_base_def extent_end_Inr adjusted_Inr)
  show ?thesis unfolding uint_word_of [OF v] uint_word_of [OF w] by simp
qed

lemma fixed_value:
  assumes "target_section (reloc_target r) = None" and "relocation_value as None r = Inr v"
    and "relocation_value bs None r = Inr w"
  shows "w = v"
proof -
  have "uint w = uint v"
    using assms by (cases "reloc_target r" rule: target_section.cases)
      (auto simp: relocation_value_def target_base_def adjusted_Inr)
  then show ?thesis by (metis word_of_int_uint)
qed

lemma loaded_section:
  fixes ss rs bases ps0 psB gs i
  defines "s \<equiv> ss ! i"
  defines "fs \<equiv> group_fixups (section_groups gs s)"
  assumes ok: "section_ok i s" and rok: "\<forall>r \<in> set rs. relocation_ok ss r" and d: "distinct (all_sites rs)"
    and zero: "for_each (apply_relocation (replicate (length ss) 0) None) rs (map section_bytes ss) = Inr ps0"
    and link: "for_each (apply_relocation bases None) rs (map section_bytes ss) = Inr psB"
    and sites: "set (group_sites gs) = movable_sites rs" and pairs: "distinct (group_pairs gs)"
    and long: "\<forall>r \<in> set rs. movable_long r"
    and i: "i < length ss" and small: "unat (section_size s) + 3 \<le> 2 ^ 24"
  shows "length (fold (add_base bases) fs (hunk_memory s (ps0 ! i))) = unat (section_words s) * 4"
    and "k < unat (section_words s) * 4 \<Longrightarrow>
      fold (add_base bases) fs (hunk_memory s (ps0 ! i)) ! k =
        (if k < length (section_bytes s) then psB ! i ! k else 0)"
proof -
  let ?m = "hunk_memory s (ps0 ! i)"
  have w: "\<forall>r \<in> set rs. width_ok r" using rok relocation_ok_width by blast
  note e0 = apply_relocations_effect [OF zero w] and eB = apply_relocations_effect [OF link w]
  have len0: "length (ps0 ! i) = length (section_bytes s)" using e0 i by (simp add: s_def)
  have room: "length (section_bytes s) \<le> unat (section_words s) * 4"
    using ok section_words_unat(3) [OF small] by (simp add: section_ok_def)
  have lenm: "length ?m = unat (section_words s) * 4" by (simp add: hunk_memory_def)
  have m: "?m ! k = (if k < length (section_bytes s) then ps0 ! i ! k else 0)"
    if "k < unat (section_words s) * 4" for k
    using that by (simp add: hunk_memory_def nth_resize len0)
  have fix_iff: "(t, off) \<in> set fs \<longleftrightarrow> (\<exists>r \<in> set rs. unat (reloc_section r) = i \<and>
      target_section (reloc_target r) = Some t \<and> reloc_offset r = off)" for t off
  proof -
    have "unat (section_number s) = i" using ok by (simp add: section_ok_def)
    then have "unat (reloc_section r) = i \<longleftrightarrow> section_number s = reloc_section r" for r
      by (auto simp: word_unat_eq_iff)
    then show ?thesis
      unfolding fs_def section_fixups(2) [OF pairs] sites by (auto simp: movable_sites_def)
  qed
  have site: "unat (reloc_offset r) + unat (reloc_width r) \<le> length (section_bytes s)"
    if "r \<in> set rs" "unat (reloc_section r) = i" for r
    using rok that section_ok_length [OF ok] by (auto simp: relocation_ok_def s_def)
  have fix_reloc: "\<exists>r \<in> set rs. unat (reloc_section r) = i \<and> target_section (reloc_target r) = Some t \<and>
      reloc_offset r = off \<and> reloc_width r = 4 \<and> byte_index r = None \<and>
      unat off + 4 \<le> length (section_bytes s)" if "(t, off) \<in> set fs" for t off
  proof -
    from that fix_iff obtain r where r: "r \<in> set rs" "unat (reloc_section r) = i"
      "target_section (reloc_target r) = Some t" "reloc_offset r = off" by blast
    with long have "reloc_width r = 4" "byte_index r = None" by (auto simp: movable_long_def)
    with r site [OF r(1,2)] show ?thesis by auto
  qed
  have fit: "\<forall>(t, off) \<in> set fs. unat off + 4 \<le> length ?m"
    using fix_reloc room lenm by fastforce
  have "separate fs" unfolding separate_def
  proof (rule sorted_wrt_distinct [where f = snd])
    show "distinct (map snd fs)" unfolding fs_def by (rule section_fixups(1) [OF pairs])
    fix f g assume f: "f \<in> set fs" and g: "g \<in> set fs" and "snd f \<noteq> snd g"
    obtain t1 o1 t2 o2 where fg: "f = (t1, o1)" "g = (t2, o2)" by (cases f; cases g) auto
    with f g fix_reloc [of t1 o1] fix_reloc [of t2 o2] obtain r q where
      r: "r \<in> set rs" "unat (reloc_section r) = i" "reloc_offset r = o1" "reloc_width r = 4" and
      q: "q \<in> set rs" "unat (reloc_section q) = i" "reloc_offset q = o2" "reloc_width q = 4" by auto
    have ne: "r \<noteq> q" using \<open>snd f \<noteq> snd g\<close> fg r q by auto
    show "unat (snd f) + 4 \<le> unat (snd g) \<or> unat (snd g) + 4 \<le> unat (snd f)"
    proof (rule ccontr)
      assume "\<not> ?thesis"
      then have "covers r i (max (unat o1) (unat o2))" "covers q i (max (unat o1) (unat o2))"
        using r q fg by (auto simp: covers_def)
      with covers_same [OF d r(1) q(1)] ne show False by blast
    qed
  qed
  note eff = add_bases_effect [OF this fit, of bases]
  show "length (fold (add_base bases) fs ?m) = unat (section_words s) * 4" using eff lenm by simp
  assume k: "k < unat (section_words s) * 4"
  show "fold (add_base bases) fs ?m ! k = (if k < length (section_bytes s) then psB ! i ! k else 0)"
  proof (cases "\<exists>(t, off) \<in> set fs. unat off \<le> k \<and> k < unat off + 4")
    case True
    then obtain t off where f: "(t, off) \<in> set fs" "unat off \<le> k" "k < unat off + 4" by blast
    from fix_reloc [OF f(1)] obtain r where r: "r \<in> set rs" "unat (reloc_section r) = i"
      "target_section (reloc_target r) = Some t" "reloc_offset r = off" "reloc_width r = 4"
      "byte_index r = None" "unat off + 4 \<le> length (section_bytes s)" by blast
    have cov: "covers r i j" if "unat off \<le> j" "j < unat off + 4" for j
      using that r by (simp add: covers_def)
    from apply_relocations_site [OF zero w d r(1)] obtain v new where
      v: "relocation_value (replicate (length ss) 0) None r = Inr v" "relocated_bytes r v = Inr new"
      and n0: "\<And>j. j < length (section_bytes s) \<Longrightarrow> covers r i j \<Longrightarrow> ps0 ! i ! j = new ! (j - unat off)"
      using i r(4) by (auto simp: s_def)
    from apply_relocations_site [OF link w d r(1)] obtain v' new' where
      v': "relocation_value bases None r = Inr v'" "relocated_bytes r v' = Inr new'"
      and nB: "\<And>j. j < length (section_bytes s) \<Longrightarrow> covers r i j \<Longrightarrow> psB ! i ! j = new' ! (j - unat off)"
      using i r(4) by (auto simp: s_def)
    note nv = relocated_long [OF r(5,6) v(2)] relocated_long [OF r(5,6) v'(2)]
    have "take 4 (drop (unat off) ?m) = be_long v"
    proof (rule nth_equalityI)
      show "length (take 4 (drop (unat off) ?m)) = length (be_long v)" using r(7) room lenm by simp
      fix j assume "j < length (take 4 (drop (unat off) ?m))"
      then have j: "j < 4" by simp
      with r(7) room lenm have "take 4 (drop (unat off) ?m) ! j = ?m ! (unat off + j)" by simp
      also have "\<dots> = ps0 ! i ! (unat off + j)" using m [of "unat off + j"] r(7) room j by simp
      also have "\<dots> = be_long v ! j" using n0 [of "unat off + j"] cov [of "unat off + j"] j r(7) nv(1) by simp
      finally show "take 4 (drop (unat off) ?m) ! j = be_long v ! j" .
    qed
    then have "long_at (unat off) ?m = v" by (simp add: long_at_def be_long_value)
    with movable_value [OF r(3) v(1) v'(1)] have "long_at (unat off) ?m + bases ! unat t = v'" by simp
    moreover have "fold (add_base bases) fs ?m ! k =
        be_long (long_at (unat off) ?m + bases ! unat t) ! (k - unat off)"
      using eff f by blast
    moreover have "k < length (section_bytes s)" using f r(7) by simp
    ultimately show ?thesis using nB [of k] cov f nv(2) by simp
  next
    case False
    then have keep: "fold (add_base bases) fs ?m ! k = ?m ! k" using eff k lenm by auto
    show ?thesis
    proof (cases "k < length (section_bytes s)")
      case False
      with keep m [OF k] show ?thesis by simp
    next
      case True
      have "ps0 ! i ! k = psB ! i ! k"
      proof (cases "\<exists>r \<in> set rs. covers r i k")
        case False
        with e0 eB i True show ?thesis by (simp add: s_def)
      next
        case c: True
        then obtain r where r: "r \<in> set rs" "covers r i k" by blast
        have none: "target_section (reloc_target r) = None"
        proof (rule ccontr)
          assume "target_section (reloc_target r) \<noteq> None"
          then obtain t where t: "target_section (reloc_target r) = Some t" by blast
          with long r(1) have "reloc_width r = 4" by (auto simp: movable_long_def)
          moreover have "(t, reloc_offset r) \<in> set fs" using fix_iff r t by (auto simp: covers_def)
          ultimately show False using \<open>\<not> (\<exists>(t, off) \<in> set fs. unat off \<le> k \<and> k < unat off + 4)\<close> r(2)
            by (auto simp: covers_def)
        qed
        from apply_relocations_site [OF zero w d r(1)] obtain v new where
          v: "relocation_value (replicate (length ss) 0) None r = Inr v" "relocated_bytes r v = Inr new"
          and n0: "ps0 ! i ! k = new ! (k - unat (reloc_offset r))"
          using i r(2) True by (auto simp: s_def)
        from apply_relocations_site [OF link w d r(1)] obtain v' new' where
          v': "relocation_value bases None r = Inr v'" "relocated_bytes r v' = Inr new'"
          and nB: "psB ! i ! k = new' ! (k - unat (reloc_offset r))"
          using i r(2) True by (auto simp: s_def)
        from fixed_value [OF none v(1) v'(1)] v(2) v'(2) n0 nB show ?thesis by simp
      qed
      with keep m [OF k] True show ?thesis by simp
    qed
  qed
qed

text \<open>A packed object has at most three sections.\<close>

lemma pack_kind_count:
  "pack_kind input kind (ss, maps) = Inr (ss', maps') \<Longrightarrow> length ss' \<le> Suc (length ss)"
  by (auto simp: pack_kind_def Let_def split: if_splits prod.splits)

lemma object_result_Inr [simp]: "object_result r = Inr x \<longleftrightarrow> r = Inr x"
  by (auto simp: object_result_def split: sum.splits)

lemma pack_section_count:
  assumes "pack_object obj = Inr p"
  shows "length (object_sections p) \<le> 3"
proof -
  obtain code offset where e: "object_entry obj = SectionLocation code offset"
    using assms by (cases "object_entry obj") (auto simp: pack_object_def)
  from assms obtain ss maps where
    k: "for_each (pack_kind obj) [hunk_code, hunk_data, hunk_bss] ([], []) = Inr (ss, maps)"
    and p: "object_sections p = ss"
    unfolding pack_object_def e location.case Let_def
    by (simp only: result_steps object_result_Inr) auto
  from k obtain s1 m1 s2 m2 where
    "pack_kind obj hunk_code ([], []) = Inr (s1, m1)" "pack_kind obj hunk_data (s1, m1) = Inr (s2, m2)"
    "pack_kind obj hunk_bss (s2, m2) = Inr (ss, maps)" by auto
  from this [THEN pack_kind_count] show ?thesis using p by simp
qed

section \<open>Properties\<close>

text \<open>C18: the executable means what the linker computes. Loading the written file at any hunk bases for
  which \<open>link_sections\<close> accepts the packed object gives one memory block per section, of the section's
  size rounded up to longwords, whose initialized bytes are exactly those of the linked image at the
  section's base and whose other bytes are zero.\<close>

theorem hunk_load_equals_link:
  assumes emit: "emit_executable obj = Inr x"
    and link: "link_sections (executable_object x) bases None = Inr img"
  shows "\<exists>mems. load_hunks (executable_bytes x) bases = Some mems \<and>
    length mems = length (object_sections (executable_object x)) \<and>
    (\<forall>i < length mems.
       length (mems ! i) = (unat (section_size (object_sections (executable_object x) ! i)) + 3) div 4 * 4 \<and>
       (\<forall>k < length (mems ! i).
          if k < length (section_bytes (object_sections (executable_object x) ! i))
          then image_byte img (bases ! i + of_nat k) = Some (mems ! i ! k)
          else mems ! i ! k = 0))"
proof -
  define p where "p = executable_object x"
  let ?ss = "object_sections p" and ?rs = "object_relocations p"
  from emit have whole: "serialize_object p = Inr (executable_bytes x)"
    by (auto simp: emit_executable_def p_def)
  from emit have "pack_object obj = Inr p" by (auto simp: emit_executable_def p_def)
  then have count: "length ?ss < 2 ^ 32" using pack_section_count by fastforce
  from link obtain psB where v: "verify_object p = Inr ()"
    and psB: "for_each (apply_relocation bases None) ?rs (map section_bytes ?ss) = Inr psB"
    unfolding p_def by (elim link_sections_facts)
  note facts = verify_object_facts [OF v]
  from whole obtain ps0 gs where h: "for_each hunk_relocation ?rs (map section_bytes ?ss, []) = Inr (ps0, gs)"
    unfolding serialize_object_def Let_def by (simp only: result_steps) blast
  from whole have small: "\<forall>s \<in> set ?ss. unat (section_size s) + 3 \<le> 2 ^ 24"
    unfolding serialize_object_def Let_def
    by (simp only: result_steps serialize_sizes) blast
  have rok: "\<forall>r \<in> set ?rs. relocation_ok ?ss r" using facts(2) by blast
  have z: "for_each (apply_relocation (replicate (length ?ss) 0) None) ?rs (map section_bytes ?ss) = Inr ps0"
    and gs: "set (group_sites gs) = movable_sites ?rs" "distinct (group_pairs gs)"
    and long: "\<forall>r \<in> set ?rs. movable_long r"
    using hunk_relocations_effect [OF h rok facts(3)] by simp_all
  have "\<forall>r \<in> set ?rs. width_ok r" using rok relocation_ok_width by blast
  note e0 = apply_relocations_effect [OF z this]
  have lens: "list_all2 (\<lambda>s bs. length bs = length (section_bytes s)) ?ss ps0"
    using e0 by (simp add: list_all2_conv_all_nth)
  define mems where "mems = map (\<lambda>(s, bs). fold (add_base bases)
    (group_fixups (section_groups gs s)) (hunk_memory s bs)) (zip ?ss ps0)"
  have load: "load_hunks (executable_bytes x) bases = Some mems"
    unfolding mems_def by (rule load_serialized [OF small lens h whole count])
  have lm: "length mems = length ?ss" using lens by (simp add: mems_def list_all2_lengthD)
  have "length (mems ! i) = (unat (section_size (?ss ! i)) + 3) div 4 * 4 \<and>
      (\<forall>k < length (mems ! i). if k < length (section_bytes (?ss ! i))
         then image_byte img (bases ! i + of_nat k) = Some (mems ! i ! k) else mems ! i ! k = 0)"
    if i: "i < length ?ss" for i
  proof -
    have sm: "unat (section_size (?ss ! i)) + 3 \<le> 2 ^ 24" using small i by simp
    have mi: "mems ! i = fold (add_base bases) (group_fixups (section_groups gs (?ss ! i)))
        (hunk_memory (?ss ! i) (ps0 ! i))"
      using i lm lens by (simp add: mems_def list_all2_lengthD)
    note sec = loaded_section [OF facts(1) [OF i] rok facts(3) z psB gs long i sm]
    have len: "length (mems ! i) = unat (section_words (?ss ! i)) * 4" unfolding mi by (rule sec(1))
    have byte: "mems ! i ! k = (if k < length (section_bytes (?ss ! i)) then psB ! i ! k else 0)"
      if "k < length (mems ! i)" for k
      using sec(2) [of k] that len unfolding mi by simp
    have "image_byte img (bases ! i + of_nat k) = Some (psB ! i ! k)"
      if "k < length (section_bytes (?ss ! i))" for k
      by (rule linked_byte [OF link [folded p_def] i that psB])
    with byte len section_words_unat(1) [OF sm] show ?thesis by simp
  qed
  with load lm show ?thesis unfolding p_def by (intro exI [of _ mems]) simp
qed

text \<open>The linked example of \<open>M68k_Object\<close>, packed: its code, and its data with the zero tail written out.\<close>

definition sample_packed :: native_object where
  "sample_packed = sample_object\<lparr>object_sections :=
     [hd (object_sections sample_object),
      \<lparr>section_number = 1, section_bytes = [1, 2, 3, 0, 0], section_zero_fill = 0,
       section_size = 5, section_alignment = 2, section_writable = True, section_executable = False,
       fixed_address = None\<rparr>]\<rparr>"

definition sample_loaded :: native_image where
  "sample_loaded =
     (case link_sections sample_packed [0x1000, 0x2000] None of Inr img \<Rightarrow> img | Inl _ \<Rightarrow> sample_image)"

lemma sample_packs: "pack_object sample_object = Inr sample_packed"
  by code_simp

lemma sample_emits: "\<exists>x. emit_executable sample_object = Inr x \<and> executable_object x = sample_packed"
proof -
  have h: "for_each hunk_relocation (object_relocations sample_packed)
      (map section_bytes (object_sections sample_packed), []) =
    Inr ([[0x4e, 0xf9, 0, 0, 0, 1, 0x4e, 0x75], [1, 2, 3, 0, 0]], [((0, 1), [2])])"
    by code_simp
  have small: "\<forall>s \<in> set (object_sections sample_packed). unat (section_size s) + 3 \<le> 2 ^ 24"
    by (simp add: sample_packed_def sample_object_def)
  have "\<exists>bs. serialize_object sample_packed = Inr bs"
    unfolding serialize_object_def Let_def h bind_result_simps prod.case
    using small by (auto simp only: bind_result_eq_Inr serialize_sizes serialize_sections dest!: set_zip_leftD)
  then show ?thesis by (auto simp: emit_executable_def sample_packs)
qed

theorem hunk_load_equals_link_witness:
  "\<exists>x mems. emit_executable sample_object = Inr x \<and>
     load_hunks (executable_bytes x) [0x1000, 0x2000] = Some mems \<and>
     mems ! 0 ! 4 = 0x20 \<and> mems ! 0 ! 5 = 1"
proof -
  obtain x where x: "emit_executable sample_object = Inr x" "executable_object x = sample_packed"
    using sample_emits by blast
  have img: "link_sections sample_packed [0x1000, 0x2000] None = Inr sample_loaded"
    "image_byte sample_loaded 0x1004 = Some 0x20" "image_byte sample_loaded 0x1005 = Some 1"
    by code_simp+
  from hunk_load_equals_link [OF x(1), unfolded x(2), OF img(1)] obtain mems where
    m: "load_hunks (executable_bytes x) [0x1000, 0x2000] = Some mems"
      "length mems = length (object_sections sample_packed)"
    and all: "\<And>i. i < length mems \<Longrightarrow>
       length (mems ! i) = (unat (section_size (object_sections sample_packed ! i)) + 3) div 4 * 4 \<and>
       (\<forall>k < length (mems ! i).
          if k < length (section_bytes (object_sections sample_packed ! i))
          then image_byte sample_loaded ([0x1000, 0x2000] ! i + of_nat k) = Some (mems ! i ! k)
          else mems ! i ! k = 0)"
    by blast
  have z: "0 < length mems" using m(2) by (simp add: sample_packed_def)
  have s: "section_size (object_sections sample_packed ! 0) = 8"
    "length (section_bytes (object_sections sample_packed ! 0)) = 8"
    by (simp_all add: sample_packed_def sample_object_def)
  have "image_byte sample_loaded ([0x1000, 0x2000] ! 0 + of_nat k) = Some (mems ! 0 ! k)" if "k < 8" for k
    using all [OF z] s that by (auto split: if_splits)
  from this [of 4] this [of 5] have "image_byte sample_loaded 0x1004 = Some (mems ! 0 ! 4)"
    "image_byte sample_loaded 0x1005 = Some (mems ! 0 ! 5)" by simp_all
  with img x(1) m(1) show ?thesis by auto
qed

end
