(* ===== verification/Mir68k_Ir.thy ===== *)
theory Mir68k_Ir
  imports M68k_Machine Nir_Ir "HOL-Library.Finite_Map"
begin

text \<open>
  The typed MIR of the MC68000 backend (\<open>src/src/mir68k/mod.rs\<close>) and the values its operations read
  (\<open>src/src/mir68k/analysis.rs\<close>). Constructors that NIR or the machine also has carry the prefix \<open>Mir\<close>. A
  \<open>BTreeMap\<close> that the code grows key by key is a finite map. Lemmas: the counted uses are the occurrences
  of temporaries among the values.
\<close>

section \<open>Data\<close>

text \<open>Parts of the NIR interface the backend copies (\<open>src/src/nir/ir.rs\<close>).\<close>

record nir_array_global_fact =
  elem_size :: byte_size
  array_length :: "u32 option"
  pointer_backed :: bool
  address_initializer :: "address_value option"

datatype nir_routine_placement =
  Relocatable | CurrentLocation | AbsolutePlacement address_value

record nir_routine_entry =
  source_span :: "span option"
  program_entry :: bool
  external_entry :: bool
  external_symbol :: "runtime_symbol_id option"
  entry_placement :: nir_routine_placement

datatype nir_runtime_target = RuntimeAbsolute address_value | RuntimeRoutine routine_id

datatype mir_placement =
  Allocate
| AbsoluteData address_value
| Alias mir68k_data_id byte_offset

datatype mir_relocation_target =
  RelocData nir_storage_id
| RelocCode routine_id
| RelocArrayBacking symbol_id
| RelocAbsolute address_value
| RelocImageEnd

record mir_relocation =
  mir_reloc_offset :: byte_offset
  mir_byte_index :: "u8 option"
  mir_reloc_width :: byte_size
  mir_reloc_space :: address_space_id
  mir_reloc_target :: mir_relocation_target
  mir_reloc_addend :: int

record mir_data =
  data_id :: mir68k_data_id
  data_placement :: mir_placement
  data_size :: byte_size
  data_zero_fill :: byte_size
  data_mutable :: bool
  data_ty :: "nir_type option"
  data_array :: "nir_array_global_fact option"
  data_name :: string
  data_bytes :: bytes
  data_alignment :: byte_size
  data_relocations :: "mir_relocation list"

record mir_runtime_binding =
  binding_symbol :: runtime_symbol_id
  binding_target :: "nir_runtime_target option"

section \<open>Frames and calls\<close>

datatype frame_object_owner = ParamOwner param_id | LocalOwner local_id

record frame_object =
  frame_object_number :: frame_object_id
  frame_owner :: frame_object_owner
  frame_object_size :: byte_size
  frame_object_alignment :: byte_size
  frame_offset :: i32
  frame_mutable :: bool
  frame_addressable :: bool

datatype abi_home =
  StackArgument byte_offset byte_size
| DataRegisterHome u8
| AddressRegisterHome u8

record parameter_plan =
  plan_param :: param_id
  plan_incoming :: abi_home
  plan_frame_object :: "frame_object_id option"

record outgoing_area =
  outgoing_offset :: i32
  outgoing_size :: byte_size

record frame_plan =
  frame_objects :: "frame_object list"
  frame_parameters :: "parameter_plan list"
  automatic_bytes :: byte_size
  saved_register_bytes :: byte_size
  spill_bytes :: byte_size
  frame_outgoing :: outgoing_area
  frame_extent :: byte_size

type_synonym activation_id = u64

record activation_address =
  activation :: activation_id
  activation_object :: frame_object_id

definition address_in :: "frame_plan \<Rightarrow> activation_id \<Rightarrow> frame_object_id \<Rightarrow> activation_address option" where
  "address_in plan a obj =
     (if \<exists>candidate \<in> set (frame_objects plan). frame_object_number candidate = obj
      then Some \<lparr>activation = a, activation_object = obj\<rparr> else None)"

datatype mir_register = DRegister u8 | ARegister u8

record parameter_copy =
  copy_source :: abi_home
  copy_destination :: frame_object_id

record prologue_plan =
  prologue_frame_pointer :: mir_register
  link_bytes :: byte_size
  saved_registers :: "mir_register list"
  parameter_copies :: "parameter_copy list"

record epilogue_plan =
  epilogue_frame_pointer :: mir_register
  unlink_bytes :: byte_size
  restored_registers :: "mir_register list"

record call_plan =
  call_convention :: nir_call_convention
  call_arguments :: "abi_home list"
  call_result_home :: "abi_home option"
  outgoing_bytes :: byte_size
  net_stack_delta :: i32

section \<open>Values, operations and blocks\<close>

datatype mir_value =
  MirU8 u8
| MirU16 u16
| MirU32 u32
| MirNull byte_size
| MirAddressValue address_value byte_size
| MirStaticAddress symbol_id byte_size
| MirTemp temp_id byte_size
| MirParam param_id
| MirGlobalAddress symbol_id byte_size
| MirRoutineAddress routine_id byte_size

datatype mir_external_address = ExternalAbsolute address_value | ExternalGlobal symbol_id

datatype mir_address_base =
  StaticBase nir_storage_id
| AutomaticFrameBase frame_object_id
| ParameterBase param_id
| ExternalBase mir_external_address
| IndirectBase mir_value

record mir_index =
  index_value :: mir_value
  index_stride :: byte_size

datatype mir_address_mode =
  StaticMode | AutomaticFrameMode | ParameterMode | ExternalMode | AddressIndirectMode | IndexedMode

record alignment_proof =
  proof_routine :: routine_id
  proof_block :: block_id
  proof_value :: nir_value

record mir_address =
  address_base :: mir_address_base
  base_alignment :: "byte_size option"
  alignment_proof :: "alignment_proof option"
  address_displacement :: byte_offset
  address_index :: "mir_index option"
  address_mode :: mir_address_mode

definition naturally_aligned :: "mir_address \<Rightarrow> byte_size \<Rightarrow> bool" where
  "naturally_aligned a w \<longleftrightarrow>
     w = 1 \<or>
     (case base_alignment a of None \<Rightarrow> False | Some b \<Rightarrow> 2 \<le> b) \<and>
     address_displacement a AND 1 = 0 \<and>
     (case address_index a of None \<Rightarrow> True | Some i \<Rightarrow> index_stride i AND 1 = 0)"

datatype mir_access =
  ByteAccess
| NativeAlignedWord
| BytewisePackedOddWord endian
| BytesAccess byte_size

datatype mir_call_target =
  DirectCall routine_id
| BuiltinCall string
| RuntimeCall runtime_symbol_id
| IndirectCall mir_value byte_size

datatype mir_op =
  MirFault runtime_fault
| MirLoad temp_id byte_size mir_address mir_access bool
| MirStore mir_address mir_value byte_size mir_access bool
| MirAddressOf temp_id mir_address byte_size
| MirCopy mir_address mir_address byte_size bool bool bool
| MirUnary temp_id byte_size nir_unary_op mir_value
| MirCast temp_id byte_size bool byte_size nir_cast_kind mir_value
| MirPointerOffset temp_id byte_size mir_value mir_value bool
| MirBinary temp_id byte_size bool nir_binary_op mir_value mir_value
| MirCompare temp_id byte_size bool nir_compare_op mir_value mir_value
| MirCall mir_call_target "signature_id option" "mir_value list" "(temp_id \<times> byte_size) option" call_plan

record mir_edge =
  mir_edge_target :: block_id
  mir_edge_args :: "mir_value list"

datatype mir_terminator =
  MirFallthrough
| MirGoto mir_edge
| MirBranch mir_value mir_edge mir_edge
| MirReturn "mir_value option" byte_size
| MirExit

record mir_block =
  mir_block_id :: block_id
  mir_block_params :: "(temp_id \<times> nir_type) list"
  mir_ops :: "mir_op list"
  mir_terminator :: mir_terminator

record mir_routine =
  routine_entry :: nir_routine_entry
  routine_signature :: nir_callable_signature
  result_home :: "abi_home option"
  routine_params :: "(param_id \<times> nir_type) list"
  param_names :: "(param_id \<times> string) list"
  routine_temps :: "(temp_id \<times> nir_type) list"
  routine_locals :: "(local_id \<times> string \<times> nir_type) list"
  routine_number :: routine_id
  routine_name :: string
  routine_convention :: nir_call_convention
  routine_frame :: frame_plan
  prologue :: prologue_plan
  epilogue :: epilogue_plan
  routine_blocks :: "mir_block list"

record mir_program =
  program_layout :: target_layout
  program_start :: "routine_id option"
  program_endian :: endian
  architectural_address_bits :: u8
  data_pointer_width :: byte_size
  code_pointer_width :: byte_size
  program_data :: "mir_data list"
  runtime_bindings :: "mir_runtime_binding list"
  program_routines :: "mir_routine list"

fun relocation_target_of :: "nir_data_address_target \<Rightarrow> mir_relocation_target" where
  "relocation_target_of (DataStorage storage) = RelocData storage"
| "relocation_target_of (DataRoutine routine) = RelocCode routine"
| "relocation_target_of (DataAbsolute address) = RelocAbsolute address"

section \<open>Values read\<close>

definition address_values :: "mir_address \<Rightarrow> mir_value list" where
  "address_values a =
     (case address_base a of IndirectBase v \<Rightarrow> [v] | _ \<Rightarrow> []) @
     (case address_index a of None \<Rightarrow> [] | Some i \<Rightarrow> [index_value i])"

fun op_values :: "mir_op \<Rightarrow> mir_value list" where
  "op_values (MirLoad _ _ a _ _) = address_values a"
| "op_values (MirAddressOf _ a _) = address_values a"
| "op_values (MirStore a v _ _ _) = address_values a @ [v]"
| "op_values (MirCopy destination source _ _ _ _) = address_values destination @ address_values source"
| "op_values (MirUnary _ _ _ v) = [v]"
| "op_values (MirCast _ _ _ _ _ v) = [v]"
| "op_values (MirPointerOffset _ _ base offset _) = [base, offset]"
| "op_values (MirBinary _ _ _ _ left right) = [left, right]"
| "op_values (MirCompare _ _ _ _ left right) = [left, right]"
| "op_values (MirCall target _ args _ _) =
     args @ (case target of IndirectCall v _ \<Rightarrow> [v] | _ \<Rightarrow> [])"
| "op_values (MirFault _) = []"

fun mir_edges :: "mir_terminator \<Rightarrow> mir_edge list" where
  "mir_edges (MirGoto edge) = [edge]"
| "mir_edges (MirBranch _ then_edge else_edge) = [then_edge, else_edge]"
| "mir_edges _ = []"

definition term_values :: "mir_terminator \<Rightarrow> mir_value list" where
  "term_values t =
     concat (map mir_edge_args (mir_edges t)) @
     (case t of MirBranch c _ _ \<Rightarrow> [c] | MirReturn (Some v) _ \<Rightarrow> [v] | _ \<Rightarrow> [])"

text \<open>The result of an operation (\<open>src/src/mir68k/verify.rs\<close>).\<close>

fun op_result :: "mir_op \<Rightarrow> (temp_id \<times> byte_size) option" where
  "op_result (MirLoad dest w _ _ _) = Some (dest, w)"
| "op_result (MirAddressOf dest _ w) = Some (dest, w)"
| "op_result (MirUnary dest w _ _) = Some (dest, w)"
| "op_result (MirBinary dest w _ _ _ _) = Some (dest, w)"
| "op_result (MirPointerOffset dest w _ _ _) = Some (dest, w)"
| "op_result (MirCast dest _ _ to _ _) = Some (dest, to)"
| "op_result (MirCompare dest _ _ _ _ _) = Some (dest, 1)"
| "op_result (MirCall _ _ _ result _) = result"
| "op_result (MirFault _) = None"
| "op_result (MirStore _ _ _ _ _) = None"
| "op_result (MirCopy _ _ _ _ _ _) = None"

fun value_temps :: "mir_value \<Rightarrow> temp_id list" where
  "value_temps (MirTemp t _) = [t]"
| "value_temps _ = []"

definition block_values :: "mir_block \<Rightarrow> mir_value list" where
  "block_values b = concat (map op_values (mir_ops b)) @ term_values (mir_terminator b)"

definition count_use :: "mir_value \<Rightarrow> (temp_id, nat) fmap \<Rightarrow> (temp_id, nat) fmap" where
  "count_use v m =
     (case v of
        MirTemp t _ \<Rightarrow> fmupd t (Suc (case fmlookup m t of None \<Rightarrow> 0 | Some n \<Rightarrow> n)) m
      | _ \<Rightarrow> m)"

definition use_counts :: "mir_routine \<Rightarrow> (temp_id, nat) fmap" where
  "use_counts r = fold (\<lambda>b. fold count_use (block_values b)) (routine_blocks r) fmempty"

text \<open>A comparison whose only use is the branch that ends the block.\<close>

definition branch_compare :: "mir_block \<Rightarrow> (temp_id, nat) fmap \<Rightarrow> mir_op option" where
  "branch_compare b counts =
     (if mir_ops b = [] then None
      else
        (case last (mir_ops b) of
           MirCompare dest w s c left right \<Rightarrow>
             (case mir_terminator b of
                MirBranch (MirTemp t _) _ _ \<Rightarrow>
                  if t = dest \<and> fmlookup counts t = Some 1
                  then Some (MirCompare dest w s c left right) else None
              | _ \<Rightarrow> None)
         | _ \<Rightarrow> None))"

definition routine_values :: "mir_routine \<Rightarrow> mir_value list" where
  "routine_values r = concat (map block_values (routine_blocks r))"

abbreviation count_of :: "(temp_id, nat) fmap \<Rightarrow> temp_id \<Rightarrow> nat" where
  "count_of m t \<equiv> (case fmlookup m t of None \<Rightarrow> 0 | Some n \<Rightarrow> n)"

lemma count_use_step:
  "count_of (count_use v m) t = count_of m t + count_list (value_temps v) t"
  "fmlookup (count_use v m) t = None \<longleftrightarrow> fmlookup m t = None \<and> t \<notin> set (value_temps v)"
  by (cases v; simp add: count_use_def)+

lemma fold_count_use:
  "count_of (fold count_use vs m) t = count_of m t + count_list (concat (map value_temps vs)) t"
  by (induction vs arbitrary: m) (simp_all add: count_use_step)

lemma fmlookup_count_use:
  "fmlookup (fold count_use vs m) t = None \<longleftrightarrow>
     fmlookup m t = None \<and> t \<notin> set (concat (map value_temps vs))"
  by (induction vs arbitrary: m) (simp_all add: count_use_step)

lemma use_counts_fold: "use_counts r = fold count_use (routine_values r) fmempty"
proof -
  have "fold (\<lambda>b. fold count_use (block_values b)) bs m = fold count_use (concat (map block_values bs)) m"
    for bs m by (induction bs arbitrary: m) auto
  then show ?thesis by (simp add: use_counts_def routine_values_def)
qed

lemma use_counts_lookup:
  "(case fmlookup (use_counts r) t of None \<Rightarrow> 0 | Some n \<Rightarrow> n) =
     count_list (concat (map value_temps (routine_values r))) t"
  "fmlookup (use_counts r) t = None \<longleftrightarrow> t \<notin> set (concat (map value_temps (routine_values r)))"
  by (simp_all add: use_counts_fold fold_count_use fmlookup_count_use)

end
