(* ===== verification/Mir68k_Cfg.thy ===== *)
theory Mir68k_Cfg
  imports Mir68k_Ir Dataflow Dominance_Correct Set_Map
begin

text \<open>
  The control-flow graph the MC68000 register allocator builds (\<open>Cfg\<close> in
  \<open>src/src/mir68k/allocation.rs\<close>): the adjacency of the block list, the depth-first visit on an explicit
  stack, and the restriction to reachable blocks. The stack is a list with its top in front.
  Lemmas: the visit ends and numbers exactly the reachable blocks; the interpretation of the locale
  \<open>flow_graph\<close> on the result, so that the shared analyses apply to it.
\<close>

datatype allocation_error =
  NoRoutineEntry
| MissingEdgeTarget
| UndefinedNativeValue
| UndominatedUse temp_id
| InvalidAssignment
| InterferingAssignment
| AllocationPanic

record mir68k_cfg =
  mcfg_entry :: block_id
  mcfg_blocks :: "(block_id, mir_block) fmap"
  mcfg_nodes :: "block_id set"
  mcfg_predecessors :: "(block_id, block_id set) fmap"
  mcfg_successors :: "(block_id, block_id set) fmap"
  mcfg_reachable :: "block_id set"
  mcfg_postorder :: "block_id list"
  mcfg_reverse_postorder :: "block_id list"

section \<open>Adjacency\<close>

type_synonym adjacency = "(block_id, block_id set) fmap \<times> (block_id, block_id set) fmap"

definition connect_edge :: "block_id \<Rightarrow> mir_edge \<Rightarrow> adjacency \<Rightarrow> allocation_error + adjacency" where
  "connect_edge from edge maps =
     (let (preds, succs) = maps in
      bind_result (ok_or MissingEdgeTarget (fmlookup preds (mir_edge_target edge))) (\<lambda>incoming.
      bind_result (ok_or AllocationPanic (fmlookup succs from)) (\<lambda>outgoing.
        Inr (fmupd (mir_edge_target edge) (insert from incoming) preds,
             fmupd from (insert (mir_edge_target edge) outgoing) succs))))"

definition connect_mir_block :: "mir_block \<Rightarrow> adjacency \<Rightarrow> allocation_error + adjacency" where
  "connect_mir_block b = for_each (connect_edge (mir_block_id b)) (mir_edges (mir_terminator b))"

definition collect_blocks :: "mir_block list \<Rightarrow> (block_id, mir_block) fmap" where
  "collect_blocks bs = fold (\<lambda>b. fmupd (mir_block_id b) b) bs fmempty"

definition empty_adjacency :: "mir_block list \<Rightarrow> (block_id, block_id set) fmap" where
  "empty_adjacency bs = fold (\<lambda>b. fmupd (mir_block_id b) {}) bs fmempty"

section \<open>The depth-first visit\<close>

type_synonym visit_state = "(block_id \<times> bool) list \<times> block_id set \<times> block_id list"

definition visit_step :: "(block_id, block_id set) fmap \<Rightarrow> visit_state \<Rightarrow> visit_state" where
  "visit_step succs st =
     (case st of
        ([], reached, post) \<Rightarrow> ([], reached, post)
      | ((b, visited) # pending, reached, post) \<Rightarrow>
          if visited then (pending, reached, post @ [b])
          else if b \<in> reached then (pending, reached, post)
          else (map (\<lambda>n. (n, False)) (sorted_list_of_set (set_at succs b)) @ (b, True) # pending,
                insert b reached, post))"

definition depth_first :: "(block_id, block_id set) fmap \<Rightarrow> block_id \<Rightarrow> visit_state option" where
  "depth_first succs e =
     while_option (\<lambda>(pending, _, _). pending \<noteq> []) (visit_step succs) ([(e, False)], {}, [])"

section \<open>The graph\<close>

definition retain_reachable :: "block_id \<Rightarrow> mir_block list \<Rightarrow> adjacency \<Rightarrow> visit_state \<Rightarrow> mir68k_cfg" where
  "retain_reachable e bs maps st =
     (let (preds, succs) = maps; (_, reached, post) = st
      in \<lparr>mcfg_entry = e,
          mcfg_blocks = collect_blocks bs,
          mcfg_nodes = {b \<in> mir_block_id ` set bs. b \<in> reached},
          mcfg_predecessors =
            fmmap (\<lambda>incoming. {m \<in> incoming. m \<in> reached}) (fmfilter (\<lambda>b. b \<in> reached) preds),
          mcfg_successors = fmfilter (\<lambda>b. b \<in> reached) succs,
          mcfg_reachable = reached,
          mcfg_postorder = post,
          mcfg_reverse_postorder = rev post\<rparr>)"

definition mir_cfg_new :: "mir_routine \<Rightarrow> (allocation_error + mir68k_cfg) option" where
  "mir_cfg_new r =
     (case routine_blocks r of
        [] \<Rightarrow> Some (Inl NoRoutineEntry)
      | b # _ \<Rightarrow>
          (case for_each connect_mir_block (routine_blocks r)
                  (empty_adjacency (routine_blocks r), empty_adjacency (routine_blocks r)) of
             Inl e \<Rightarrow> Some (Inl e)
           | Inr maps \<Rightarrow>
               map_option (\<lambda>st. Inr (retain_reachable (mir_block_id b) (routine_blocks r) maps st))
                 (depth_first (snd maps) (mir_block_id b))))"

text \<open>The graph as the shared analyses see it. A block is looked up by number; every number the code
  looks up is present (\<open>mir_cfg_block\<close>).\<close>

definition mir_graph :: "mir68k_cfg \<Rightarrow> block_id dataflow_graph" where
  "mir_graph cfg =
     \<lparr>entry = Some (mcfg_entry cfg), nodes = mcfg_nodes cfg,
      predecessors = set_at (mcfg_predecessors cfg), successors = set_at (mcfg_successors cfg),
      reachable = mcfg_reachable cfg, postorder = mcfg_postorder cfg,
      reverse_postorder = mcfg_reverse_postorder cfg\<rparr>"

definition cfg_block :: "mir68k_cfg \<Rightarrow> block_id \<Rightarrow> mir_block" where
  "cfg_block cfg b = the (fmlookup (mcfg_blocks cfg) b)"

section \<open>Lemmas\<close>

definition mir_block_edges :: "mir_block list \<Rightarrow> (block_id \<times> block_id) set" where
  "mir_block_edges bs =
     {(mir_block_id b, mir_edge_target edge) | b edge. b \<in> set bs \<and> edge \<in> set (mir_edges (mir_terminator b))}"

lemma fmlookup_empty_adjacency:
  "fmlookup (empty_adjacency bs) k = (if k \<in> mir_block_id ` set bs then Some {} else None)"
proof -
  have "fmlookup (fold (\<lambda>b. fmupd (mir_block_id b) {}) bs m) k =
      (if k \<in> mir_block_id ` set bs then Some {} else fmlookup m k)" for m :: "(block_id, block_id set) fmap"
    by (induction bs arbitrary: m) auto
  then show ?thesis by (simp add: empty_adjacency_def)
qed

lemma set_at_empty_adjacency [simp]: "set_at (empty_adjacency bs) k = {}"
  by (simp add: set_at_def fmlookup_empty_adjacency)

lemma fmlookup_collect_blocks:
  "fmlookup (collect_blocks bs) k = None \<longleftrightarrow> k \<notin> mir_block_id ` set bs"
  "fmlookup (collect_blocks bs) k = Some b \<Longrightarrow> b \<in> set bs \<and> mir_block_id b = k"
  "distinct (map mir_block_id bs) \<Longrightarrow> b \<in> set bs \<Longrightarrow>
     fmlookup (collect_blocks bs) (mir_block_id b) = Some b"
proof -
  let ?f = "\<lambda>bs m. fold (\<lambda>b. fmupd (mir_block_id b) b) bs m"
  have "fmlookup (?f bs m) k = None \<longleftrightarrow> fmlookup m k = None \<and> k \<notin> mir_block_id ` set bs" for m
    by (induction bs arbitrary: m) auto
  then show "fmlookup (collect_blocks bs) k = None \<longleftrightarrow> k \<notin> mir_block_id ` set bs"
    by (simp add: collect_blocks_def)
  have "fmlookup (?f bs m) k = Some b \<Longrightarrow> fmlookup m k = Some b \<or> b \<in> set bs \<and> mir_block_id b = k" for m
  proof (induction bs arbitrary: m)
    case (Cons c bs)
    from Cons.IH [of "fmupd (mir_block_id c) c m"] Cons.prems show ?case by (auto split: if_splits)
  qed simp
  then show "fmlookup (collect_blocks bs) k = Some b \<Longrightarrow> b \<in> set bs \<and> mir_block_id b = k"
    by (simp add: collect_blocks_def) fastforce
  have out: "k \<notin> mir_block_id ` set bs \<Longrightarrow> fmlookup (?f bs m) k = fmlookup m k" for k bs m
    by (induction bs arbitrary: m) auto
  have "distinct (map mir_block_id bs) \<Longrightarrow> b \<in> set bs \<Longrightarrow> fmlookup (?f bs m) (mir_block_id b) = Some b" for m
    by (induction bs arbitrary: m) (auto simp: out)
  then show "distinct (map mir_block_id bs) \<Longrightarrow> b \<in> set bs \<Longrightarrow>
      fmlookup (collect_blocks bs) (mir_block_id b) = Some b"
    by (simp add: collect_blocks_def)
qed

text \<open>Connecting edges whose ends are keys of both maps.\<close>

definition keyed :: "block_id set \<Rightarrow> adjacency \<Rightarrow> bool" where
  "keyed ids maps \<longleftrightarrow>
     (\<forall>k. (fmlookup (fst maps) k = None \<longleftrightarrow> k \<notin> ids) \<and> (fmlookup (snd maps) k = None \<longleftrightarrow> k \<notin> ids))"

definition adds_edges :: "(block_id \<times> block_id) set \<Rightarrow> adjacency \<Rightarrow> adjacency \<Rightarrow> bool" where
  "adds_edges E maps maps' \<longleftrightarrow>
     (\<forall>m n. (m \<in> set_at (fst maps') n \<longleftrightarrow> m \<in> set_at (fst maps) n \<or> (m, n) \<in> E) \<and>
            (n \<in> set_at (snd maps') m \<longleftrightarrow> n \<in> set_at (snd maps) m \<or> (m, n) \<in> E))"

lemma adds_edges_trans: "adds_edges E a b \<Longrightarrow> adds_edges F b c \<Longrightarrow> adds_edges (E \<union> F) a c"
  by (simp add: adds_edges_def)

lemma adds_edges_insert: "adds_edges {(m, n)} maps (insert_at n m (fst maps), insert_at m n (snd maps))"
  by (auto simp: adds_edges_def)

lemma connect_edge_eq:
  assumes "keyed ids maps" "from \<in> ids"
  shows "connect_edge from edge maps =
    (if mir_edge_target edge \<in> ids
     then Inr (insert_at (mir_edge_target edge) from (fst maps), insert_at from (mir_edge_target edge) (snd maps))
     else Inl MissingEdgeTarget)"
proof -
  obtain preds succs where maps: "maps = (preds, succs)" by (cases maps)
  obtain out where "fmlookup succs from = Some out" using assms by (fastforce simp: keyed_def maps)
  then show ?thesis
    using assms(1)
    by (cases "fmlookup preds (mir_edge_target edge)")
      (auto simp: connect_edge_def keyed_def maps insert_at_def set_at_def dest: spec [of _ "mir_edge_target edge"])
qed

lemma keyed_insert_at:
  "keyed ids (p, s) \<Longrightarrow> t \<in> ids \<Longrightarrow> from \<in> ids \<Longrightarrow> keyed ids (insert_at t from p, insert_at from t s)"
  by (auto simp: keyed_def insert_at_def)

lemma connect_edges:
  assumes "from \<in> ids"
  shows "keyed ids maps \<Longrightarrow>
    (if mir_edge_target ` set es \<subseteq> ids
     then \<exists>maps'. for_each (connect_edge from) es maps = Inr maps' \<and> keyed ids maps' \<and>
        adds_edges ((\<lambda>edge. (from, mir_edge_target edge)) ` set es) maps maps'
     else for_each (connect_edge from) es maps = Inl MissingEdgeTarget)"
proof (induction es arbitrary: maps)
  case Nil
  then show ?case by (simp add: adds_edges_def)
next
  case (Cons e es)
  let ?m = "(insert_at (mir_edge_target e) from (fst maps), insert_at from (mir_edge_target e) (snd maps))"
  let ?E = "\<lambda>es. (\<lambda>edge. (from, mir_edge_target edge)) ` set es"
  show ?case
  proof (cases "mir_edge_target e \<in> ids")
    case True
    have k: "keyed ids ?m" using True Cons.prems assms by (intro keyed_insert_at) auto
    have first: "connect_edge from e maps = Inr ?m"
      using True by (simp add: connect_edge_eq [OF Cons.prems assms])
    show ?thesis
    proof (cases "mir_edge_target ` set es \<subseteq> ids")
      case rest: True
      then obtain maps' where m: "for_each (connect_edge from) es ?m = Inr maps'" "keyed ids maps'"
        "adds_edges (?E es) ?m maps'"
        using Cons.IH [OF k] by auto
      have "adds_edges ({(from, mir_edge_target e)} \<union> ?E es) maps maps'"
        using adds_edges_insert m(3) by (rule adds_edges_trans)
      with m(1,2) True rest first show ?thesis by simp
    next
      case False
      with Cons.IH [OF k] first True show ?thesis by simp
    qed
  next
    case False
    then show ?thesis by (simp add: connect_edge_eq [OF Cons.prems assms])
  qed
qed

lemma connect_blocks:
  "mir_block_id ` set bs \<subseteq> ids \<Longrightarrow> keyed ids maps \<Longrightarrow>
    (if snd ` mir_block_edges bs \<subseteq> ids
     then \<exists>maps'. for_each connect_mir_block bs maps = Inr maps' \<and> keyed ids maps' \<and>
        adds_edges (mir_block_edges bs) maps maps'
     else for_each connect_mir_block bs maps = Inl MissingEdgeTarget)"
proof (induction bs arbitrary: maps)
  case Nil
  then show ?case by (simp add: adds_edges_def mir_block_edges_def)
next
  case (Cons b bs)
  let ?es = "mir_edges (mir_terminator b)"
  have split: "mir_block_edges (b # bs) =
      (\<lambda>edge. (mir_block_id b, mir_edge_target edge)) ` set ?es \<union> mir_block_edges bs"
    by (auto simp: mir_block_edges_def)
  have b: "mir_block_id b \<in> ids" and bs: "mir_block_id ` set bs \<subseteq> ids" using Cons.prems(1) by auto
  note edges_b = connect_edges [OF b Cons.prems(2), of ?es]
  show ?case
  proof (cases "mir_edge_target ` set ?es \<subseteq> ids")
    case True
    then obtain maps' where m: "for_each (connect_edge (mir_block_id b)) ?es maps = Inr maps'"
      "keyed ids maps'" "adds_edges ((\<lambda>edge. (mir_block_id b, mir_edge_target edge)) ` set ?es) maps maps'"
      using edges_b by auto
    have sub: "snd ` mir_block_edges (b # bs) \<subseteq> ids \<longleftrightarrow> snd ` mir_block_edges bs \<subseteq> ids"
      using True unfolding split by auto
    show ?thesis
    proof (cases "snd ` mir_block_edges bs \<subseteq> ids")
      case True
      then obtain maps'' where m': "for_each connect_mir_block bs maps' = Inr maps''" "keyed ids maps''"
        "adds_edges (mir_block_edges bs) maps' maps''"
        using Cons.IH [OF bs m(2)] by auto
      have "adds_edges (mir_block_edges (b # bs)) maps maps''"
        using m(3) m'(3) unfolding split by (rule adds_edges_trans)
      with m(1) m'(1,2) True sub show ?thesis by (simp add: connect_mir_block_def)
    next
      case False
      with Cons.IH [OF bs m(2)] m(1) sub show ?thesis by (simp add: connect_mir_block_def)
    qed
  next
    case False
    then have "\<not> snd ` mir_block_edges (b # bs) \<subseteq> ids"
      unfolding split by (simp add: image_Un image_image)
    with False edges_b show ?thesis by (simp add: connect_mir_block_def)
  qed
qed

text \<open>The visit. A node marked \<open>True\<close> on the stack has been reached and waits for its number; every reached
  node has its successors reached or on the stack.\<close>

fun waiting :: "(block_id \<times> bool) list \<Rightarrow> block_id list" where
  "waiting [] = []"
| "waiting ((b, visited) # pending) = (if visited then b # waiting pending else waiting pending)"

fun todo :: "(block_id \<times> bool) list \<Rightarrow> block_id set" where
  "todo [] = {}"
| "todo ((b, visited) # pending) = (if visited then todo pending else insert b (todo pending))"

lemma pushed_unvisited [simp]:
  "waiting (map (\<lambda>n. (n, False)) ns @ pending) = waiting pending"
  "todo (map (\<lambda>n. (n, False)) ns @ pending) = set ns \<union> todo pending"
  by (induction ns) auto

definition visit_inv :: "(block_id, block_id set) fmap \<Rightarrow> block_id \<Rightarrow> visit_state \<Rightarrow> bool" where
  "visit_inv succs e st \<longleftrightarrow>
     (case st of (pending, reached, post) \<Rightarrow>
        distinct (post @ waiting pending) \<and>
        set (post @ waiting pending) = reached \<and>
        reached \<union> todo pending \<subseteq> (map_edges succs)\<^sup>* `` {e} \<and>
        (\<forall>m \<in> reached. set_at succs m \<subseteq> reached \<union> todo pending) \<and>
        e \<in> reached \<union> todo pending)"

lemma visit_inv_initial: "visit_inv succs e ([(e, False)], {}, [])"
  by (auto simp: visit_inv_def)

lemma visit_inv_step:
  assumes fin: "\<And>m. finite (set_at succs m)" and inv: "visit_inv succs e (p # pending, reached, post)"
  shows "visit_inv succs e (visit_step succs (p # pending, reached, post))"
proof -
  obtain b v where p: "p = (b, v)" by (cases p)
  consider (numbered) "v" | (known) "\<not> v" "b \<in> reached" | (new) "\<not> v" "b \<notin> reached" by blast
  then show ?thesis
  proof cases
    case numbered
    with inv show ?thesis by (auto simp: visit_inv_def visit_step_def p)
  next
    case known
    with inv show ?thesis by (auto simp: visit_inv_def visit_step_def p)
  next
    case new
    let ?kids = "sorted_list_of_set (set_at succs b)"
    have step: "visit_step succs (p # pending, reached, post) =
        (map (\<lambda>n. (n, False)) ?kids @ (b, True) # pending, insert b reached, post)"
      using new by (simp add: visit_step_def p)
    have b: "(e, b) \<in> (map_edges succs)\<^sup>*" using inv new by (auto simp: visit_inv_def p)
    then have "set_at succs b \<subseteq> (map_edges succs)\<^sup>* `` {e}"
      by (auto simp: map_edges_def intro: rtrancl_into_rtrancl)
    with inv new b show ?thesis
      unfolding step visit_inv_def by (auto simp: p fin)
  qed
qed

lemma depth_first_returns:
  assumes fin: "\<And>m. finite (set_at succs m)" and nodes: "finite N" "e \<in> N" "\<And>m. set_at succs m \<subseteq> N"
  shows "\<exists>reached post. depth_first succs e = Some ([], reached, post) \<and>
     reached = (map_edges succs)\<^sup>* `` {e} \<and> set post = reached \<and> distinct post"
proof -
  let ?R = "(map_edges succs)\<^sup>* `` {e}"
  have in_N: "?R \<subseteq> N"
  proof
    fix n assume "n \<in> ?R"
    then have "(e, n) \<in> (map_edges succs)\<^sup>*" by simp
    then show "n \<in> N" by (induction rule: rtrancl_induct) (use nodes in \<open>auto simp: map_edges_def\<close>)
  qed
  let ?r = "inv_image (less_than <*lex*> less_than)
    (\<lambda>(pending, reached, post). (card (N - reached), length pending)) :: (visit_state \<times> visit_state) set"
  have ends: "\<exists>st. depth_first succs e = Some st"
    unfolding depth_first_def
  proof (rule wf_rel_while_option_Some [where P = "visit_inv succs e" and R = ?r])
    show "wf ?r" by (intro wf_inv_image wf_lex_prod) auto
    show "visit_inv succs e ([(e, False)], {}, [])" by (rule visit_inv_initial)
    fix st :: visit_state
    assume st: "visit_inv succs e st \<and> (case st of (pending, _, _) \<Rightarrow> pending \<noteq> [])"
    obtain pending reached post where s: "st = (pending, reached, post)" by (cases st)
    with st obtain b v rest where pending: "pending = (b, v) # rest" by (cases pending) auto
    show "visit_inv succs e (visit_step succs st)"
      using visit_inv_step [OF fin] st by (simp add: s pending)
    show "(visit_step succs st, st) \<in> ?r"
    proof (cases "v \<or> b \<in> reached")
      case True
      then show ?thesis by (auto simp: visit_step_def s pending)
    next
      case False
      then have "b \<in> N" using st in_N by (auto simp: visit_inv_def s pending)
      then have "card (N - insert b reached) < card (N - reached)"
        using False nodes(1) by (intro psubset_card_mono) auto
      with False show ?thesis by (simp add: visit_step_def s pending)
    qed
  qed
  then obtain pending reached post where d: "depth_first succs e = Some (pending, reached, post)"
    by (metis prod_cases3)
  have "visit_inv succs e (pending, reached, post)"
    by (rule while_option_rule [OF _ d [unfolded depth_first_def], where P = "visit_inv succs e"])
      (use visit_inv_step [OF fin] visit_inv_initial in \<open>auto simp: neq_Nil_conv\<close>)
  moreover have "pending = []" using while_option_stop [OF d [unfolded depth_first_def]] by simp
  ultimately have inv: "distinct post" "set post = reached" "reached \<subseteq> ?R" "e \<in> reached"
    "\<forall>m \<in> reached. set_at succs m \<subseteq> reached"
    by (auto simp: visit_inv_def)
  have "n \<in> reached" if "(e, n) \<in> (map_edges succs)\<^sup>*" for n
    using that inv(4,5) by (induction rule: rtrancl_induct) (auto simp: map_edges_def)
  with inv d \<open>pending = []\<close> show ?thesis by blast
qed

text \<open>The graph that is built, and when.\<close>

lemma keyed_empty: "keyed (mir_block_id ` set bs) (empty_adjacency bs, empty_adjacency bs)"
  by (simp add: keyed_def fmlookup_empty_adjacency)

lemma mir_cfg_built:
  assumes bs: "routine_blocks r = b # bs"
    and targets: "snd ` mir_block_edges (routine_blocks r) \<subseteq> mir_block_id ` set (routine_blocks r)"
  obtains preds succs post where
    "mir_cfg_new r = Some (Inr (retain_reachable (mir_block_id b) (routine_blocks r) (preds, succs)
       ([], (mir_block_edges (routine_blocks r))\<^sup>* `` {mir_block_id b}, post)))"
    and "\<And>m n. m \<in> set_at preds n \<longleftrightarrow> (m, n) \<in> mir_block_edges (routine_blocks r)"
    and "\<And>m n. n \<in> set_at succs m \<longleftrightarrow> (m, n) \<in> mir_block_edges (routine_blocks r)"
    and "set post = (mir_block_edges (routine_blocks r))\<^sup>* `` {mir_block_id b}" "distinct post"
proof -
  let ?bs = "routine_blocks r" and ?E = "mir_block_edges (routine_blocks r)"
  let ?m = "(empty_adjacency ?bs, empty_adjacency ?bs)"
  obtain preds succs where m: "for_each connect_mir_block ?bs ?m = Inr (preds, succs)"
    "adds_edges ?E ?m (preds, succs)"
    using connect_blocks [OF subset_refl keyed_empty, of ?bs] targets by (auto simp only: if_True split_paired_Ex)
  have adj: "m \<in> set_at preds n \<longleftrightarrow> (m, n) \<in> ?E" "n \<in> set_at succs m \<longleftrightarrow> (m, n) \<in> ?E" for m n
    using m(2) by (simp_all add: adds_edges_def)
  have E: "map_edges succs = ?E" by (auto simp: map_edges_def adj)
  have sub: "set_at succs m \<subseteq> mir_block_id ` set ?bs" for m
  proof
    fix n assume "n \<in> set_at succs m"
    then have "n \<in> snd ` ?E" unfolding adj by (metis image_eqI snd_conv)
    then show "n \<in> mir_block_id ` set ?bs" using targets by blast
  qed
  have fin: "finite (set_at succs m)" for m
    using sub by (rule finite_subset) simp
  obtain post where d: "depth_first succs (mir_block_id b) = Some ([], ?E\<^sup>* `` {mir_block_id b}, post)"
    "set post = ?E\<^sup>* `` {mir_block_id b}" "distinct post"
    using depth_first_returns [where succs = succs and N = "mir_block_id ` set ?bs" and e = "mir_block_id b",
        OF fin _ _ sub] bs unfolding E by auto
  have "mir_cfg_new r = Some (Inr (retain_reachable (mir_block_id b) ?bs (preds, succs)
      ([], ?E\<^sup>* `` {mir_block_id b}, post)))"
    by (simp only: mir_cfg_new_def m(1) [unfolded bs] d(1) [unfolded bs] bs list.case sum.case snd_conv
        option.map)
  with that adj d(2,3) show thesis by blast
qed

lemma mir_cfg_missing:
  assumes "routine_blocks r = b # bs"
    and "\<not> snd ` mir_block_edges (routine_blocks r) \<subseteq> mir_block_id ` set (routine_blocks r)"
  shows "mir_cfg_new r = Some (Inl MissingEdgeTarget)"
  using connect_blocks [OF subset_refl keyed_empty, of "routine_blocks r"] assms
  by (simp add: mir_cfg_new_def)

lemma mir_cfg_cases:
  assumes "mir_cfg_new r = Some (Inr cfg)"
  shows "\<exists>b bs. routine_blocks r = b # bs"
    and "snd ` mir_block_edges (routine_blocks r) \<subseteq> mir_block_id ` set (routine_blocks r)"
proof -
  show "\<exists>b bs. routine_blocks r = b # bs"
    using assms by (auto simp: mir_cfg_new_def split: list.splits)
  then show "snd ` mir_block_edges (routine_blocks r) \<subseteq> mir_block_id ` set (routine_blocks r)"
    using assms mir_cfg_missing by fastforce
qed

lemma mir_cfg_facts:
  assumes "mir_cfg_new r = Some (Inr cfg)"
  defines "E \<equiv> mir_block_edges (routine_blocks r)"
  shows "mcfg_blocks cfg = collect_blocks (routine_blocks r)"
    and "mcfg_entry cfg = mir_block_id (hd (routine_blocks r))"
    and "mcfg_nodes cfg = mcfg_reachable cfg"
    and "mcfg_reachable cfg = E\<^sup>* `` {mcfg_entry cfg}"
    and "mcfg_reachable cfg \<subseteq> mir_block_id ` set (routine_blocks r)"
    and "m \<in> set_at (mcfg_predecessors cfg) n \<longleftrightarrow>
           m \<in> mcfg_reachable cfg \<and> n \<in> mcfg_reachable cfg \<and> (m, n) \<in> E"
    and "n \<in> set_at (mcfg_successors cfg) m \<longleftrightarrow> m \<in> mcfg_reachable cfg \<and> (m, n) \<in> E"
    and "set (mcfg_postorder cfg) = mcfg_reachable cfg" "distinct (mcfg_postorder cfg)"
    and "mcfg_reverse_postorder cfg = rev (mcfg_postorder cfg)"
proof -
  let ?bs = "routine_blocks r"
  obtain b bs where bs: "?bs = b # bs" using mir_cfg_cases(1) [OF assms(1)] by blast
  note targets = mir_cfg_cases(2) [OF assms(1)]
  obtain preds succs post where
    built: "mir_cfg_new r =
      Some (Inr (retain_reachable (mir_block_id b) ?bs (preds, succs) ([], E\<^sup>* `` {mir_block_id b}, post)))"
    and adj: "\<And>m n. m \<in> set_at preds n \<longleftrightarrow> (m, n) \<in> E" "\<And>m n. n \<in> set_at succs m \<longleftrightarrow> (m, n) \<in> E"
    and post: "set post = E\<^sup>* `` {mir_block_id b}" "distinct post"
    unfolding E_def by (rule mir_cfg_built [OF bs targets]) blast
  have cfg: "cfg = retain_reachable (mir_block_id b) ?bs (preds, succs) ([], E\<^sup>* `` {mir_block_id b}, post)"
    using built assms(1) by simp
  have sub: "E\<^sup>* `` {mir_block_id b} \<subseteq> mir_block_id ` set ?bs"
  proof
    fix n assume "n \<in> E\<^sup>* `` {mir_block_id b}"
    then have "(mir_block_id b, n) \<in> E\<^sup>*" by simp
    then show "n \<in> mir_block_id ` set ?bs"
    proof (induction rule: rtrancl_induct)
      case base
      then show ?case by (simp add: bs)
    next
      case (step m n)
      then have "n \<in> snd ` E" by (metis image_eqI snd_conv)
      with targets show ?case by (auto simp only: E_def)
    qed
  qed
  show "mcfg_blocks cfg = collect_blocks ?bs" "mcfg_entry cfg = mir_block_id (hd ?bs)"
    "mcfg_reachable cfg = E\<^sup>* `` {mcfg_entry cfg}" "mcfg_reachable cfg \<subseteq> mir_block_id ` set ?bs"
    "mcfg_nodes cfg = mcfg_reachable cfg"
    "set (mcfg_postorder cfg) = mcfg_reachable cfg" "distinct (mcfg_postorder cfg)"
    "mcfg_reverse_postorder cfg = rev (mcfg_postorder cfg)"
    using sub post by (auto simp: cfg retain_reachable_def bs)
  let ?R = "mcfg_reachable cfg"
  have maps: "mcfg_predecessors cfg = fmmap (\<lambda>s. {m \<in> s. m \<in> ?R}) (fmfilter (\<lambda>b. b \<in> ?R) preds)"
    "mcfg_successors cfg = fmfilter (\<lambda>b. b \<in> ?R) succs"
    by (simp_all add: cfg retain_reachable_def)
  have "set_at (fmmap (\<lambda>s. {m \<in> s. m \<in> R}) (fmfilter (\<lambda>b. b \<in> R) preds)) n =
      {m \<in> set_at preds n. m \<in> R \<and> n \<in> R}" for R
    by (cases "fmlookup preds n") (auto simp: set_at_def)
  then show "m \<in> set_at (mcfg_predecessors cfg) n \<longleftrightarrow> m \<in> ?R \<and> n \<in> ?R \<and> (m, n) \<in> E"
    by (auto simp only: maps adj mem_Collect_eq)
  have "set_at (fmfilter (\<lambda>b. b \<in> R) succs) m = {n \<in> set_at succs m. m \<in> R}" for R
    by (auto simp: set_at_def)
  then show "n \<in> set_at (mcfg_successors cfg) m \<longleftrightarrow> m \<in> ?R \<and> (m, n) \<in> E"
    by (auto simp only: maps adj mem_Collect_eq)
qed

lemma mir_graph_sel [simp]:
  "entry (mir_graph cfg) = Some (mcfg_entry cfg)" "nodes (mir_graph cfg) = mcfg_nodes cfg"
  "reachable (mir_graph cfg) = mcfg_reachable cfg"
  "successors (mir_graph cfg) = set_at (mcfg_successors cfg)"
  "predecessors (mir_graph cfg) = set_at (mcfg_predecessors cfg)"
  by (simp_all add: mir_graph_def)

lemma mir_flow_graph:
  assumes r: "mir_cfg_new r = Some (Inr cfg)"
  shows "flow_graph (mir_graph cfg)"
proof
  let ?G = "mir_graph cfg" and ?E = "mir_block_edges (routine_blocks r)" and ?R = "mcfg_reachable cfg"
  note f = mir_cfg_facts [OF r]
  have closed: "n \<in> ?R" if "m \<in> ?R" "(m, n) \<in> ?E" for m n
    using that unfolding f(4) by (auto intro: rtrancl_into_rtrancl)
  show "finite (nodes ?G)" using f(5) by (simp add: f(3) finite_subset)
  show "entry ?G = Some e \<Longrightarrow> e \<in> nodes ?G" for e using f(4) by (auto simp: f(3))
  show "successors ?G n \<subseteq> nodes ?G" "predecessors ?G n \<subseteq> nodes ?G"
    "m \<in> predecessors ?G n \<longleftrightarrow> n \<in> successors ?G m" for m n
    using closed by (auto simp: f(3,6,7))
  have "(mcfg_entry cfg, n) \<in> (edges ?G)\<^sup>*" if "(mcfg_entry cfg, n) \<in> ?E\<^sup>*" for n
    using that
  proof (induction rule: rtrancl_induct)
    case (step m n)
    then have "m \<in> ?R" by (simp add: f(4))
    with step have "(m, n) \<in> edges ?G" by (simp add: edges_def f(7))
    with step.IH show ?case by (rule rtrancl_into_rtrancl)
  qed simp
  moreover have "(mcfg_entry cfg, n) \<in> ?E\<^sup>*" if "(mcfg_entry cfg, n) \<in> (edges ?G)\<^sup>*" for n
    by (rule rtrancl_mono [THEN subsetD, OF _ that]) (auto simp: edges_def f(7))
  ultimately show "n \<in> reachable ?G \<longleftrightarrow> (\<exists>e. entry ?G = Some e \<and> (e, n) \<in> (edges ?G)\<^sup>*)" for n
    by (auto simp: f(4))
  show "set (postorder ?G) = reachable ?G" "distinct (postorder ?G)"
    "reverse_postorder ?G = rev (postorder ?G)"
    using f(8-10) by (simp_all add: mir_graph_def)
qed

lemma cfg_block_at:
  assumes r: "mir_cfg_new r = Some (Inr cfg)"
  shows "n \<in> mir_block_id ` set (routine_blocks r) \<Longrightarrow>
      cfg_block cfg n \<in> set (routine_blocks r) \<and> mir_block_id (cfg_block cfg n) = n"
    and "distinct (map mir_block_id (routine_blocks r)) \<Longrightarrow> b \<in> set (routine_blocks r) \<Longrightarrow>
      cfg_block cfg (mir_block_id b) = b"
proof -
  show "cfg_block cfg n \<in> set (routine_blocks r) \<and> mir_block_id (cfg_block cfg n) = n"
    if "n \<in> mir_block_id ` set (routine_blocks r)"
  proof (cases "fmlookup (collect_blocks (routine_blocks r)) n")
    case None
    with that show ?thesis by (simp add: fmlookup_collect_blocks(1))
  next
    case (Some b)
    from fmlookup_collect_blocks(2) [OF this] Some show ?thesis
      by (simp add: cfg_block_def mir_cfg_facts(1) [OF r])
  qed
  show "distinct (map mir_block_id (routine_blocks r)) \<Longrightarrow> b \<in> set (routine_blocks r) \<Longrightarrow>
      cfg_block cfg (mir_block_id b) = b"
    by (simp add: cfg_block_def mir_cfg_facts(1) [OF r] fmlookup_collect_blocks(3))
qed

end
