(* ===== verification/Mir68k_Allocation.thy ===== *)
theory Mir68k_Allocation
  imports Mir68k_Cfg
begin

text \<open>
  The bounded register allocator of the MC68000 backend (\<open>src/src/mir68k/allocation.rs\<close>): liveness by
  the shared solver, the check that definitions dominate their uses, loop weights, the interference and
  affinity of temporaries collected block by block, the greedy choice of registers and the final check.
  The worklist loop of the weights is \<open>while_option\<close>; \<open>None\<close> is an allocation that never returns.
  Lemmas: the solver's sets contain every temporary that is live on some path; conflicts are symmetric
  and the greedy choice respects them; every loop ends.
\<close>

definition register_pool :: "u8 list" where
  "register_pool = [4, 5, 6, 7]"

record allocation =
  registers :: "(temp_id, u8) fmap"
  discarded :: "temp_id set"

section \<open>Liveness\<close>

definition add_uses :: "temp_id set \<Rightarrow> mir_value list \<Rightarrow> temp_id set" where
  "add_uses s vs = fold (\<lambda>v s. case v of MirTemp t _ \<Rightarrow> insert t s | _ \<Rightarrow> s) vs s"

text \<open>One step of the backward walk through a block: what is live before an operation.\<close>

definition before_op :: "mir_op \<Rightarrow> temp_id set \<Rightarrow> temp_id set" where
  "before_op op live =
     add_uses (case op_result op of Some (dest, _) \<Rightarrow> live - {dest} | None \<Rightarrow> live) (op_values op)"

definition mir_transfer :: "mir68k_cfg \<Rightarrow> block_id \<Rightarrow> temp_id set \<Rightarrow> temp_id set" where
  "mir_transfer cfg b output =
     (let block = cfg_block cfg b;
          input = fold before_op (rev (mir_ops block)) (add_uses output (term_values (mir_terminator block)))
      in fold (\<lambda>(t, _) s. s - {t}) (mir_block_params block) input)"

definition mir_liveness :: "mir68k_cfg \<Rightarrow> (block_id, temp_id set) dataflow_problem" where
  "mir_liveness cfg =
     \<lparr>direction = Backward, bottom = {}, boundary = (\<lambda>_. None), join = (\<union>),
      transfer = mir_transfer cfg,
      forward_edge_is_executable = any_edge_executable,
      transfer_forward_edge = copy_edge_state\<rparr>"

section \<open>Definitions dominate their uses\<close>

type_synonym definition_site = "block_id \<times> nat option"

definition define_params :: "mir_block \<Rightarrow> (temp_id, definition_site) fmap \<Rightarrow> (temp_id, definition_site) fmap" where
  "define_params b = fold (\<lambda>(t, _). fmupd t (mir_block_id b, None)) (mir_block_params b)"

definition define_ops :: "mir_block \<Rightarrow> (temp_id, definition_site) fmap \<Rightarrow> (temp_id, definition_site) fmap" where
  "define_ops b =
     fold (\<lambda>(i, op) m. case op_result op of
             Some (dest, _) \<Rightarrow> fmupd dest (mir_block_id b, Some i) m
           | None \<Rightarrow> m) (enumerate 0 (mir_ops b))"

definition definition_sites :: "mir68k_cfg \<Rightarrow> (temp_id, definition_site) fmap" where
  "definition_sites cfg =
     fold (\<lambda>b m. define_ops b (define_params b m))
       (map (cfg_block cfg) (sorted_list_of_fset (fmdom (mcfg_blocks cfg)))) fmempty"

definition check_value ::
  "block_id dominance \<Rightarrow> (temp_id, definition_site) fmap \<Rightarrow> block_id \<Rightarrow> nat \<Rightarrow> mir_value \<Rightarrow> unit
    \<Rightarrow> allocation_error + unit" where
  "check_value D sites b index v _ =
     (case v of
        MirTemp t _ \<Rightarrow>
          bind_result (ok_or UndefinedNativeValue (fmlookup sites t)) (\<lambda>(owner, position).
            check (\<not> (\<not> dominates D owner b \<or>
                      owner = b \<and> (case position of Some p \<Rightarrow> index \<le> p | None \<Rightarrow> False)))
              (UndominatedUse t))
      | _ \<Rightarrow> Inr ())"

definition check_block ::
  "mir68k_cfg \<Rightarrow> block_id dominance \<Rightarrow> (temp_id, definition_site) fmap \<Rightarrow> block_id \<Rightarrow> unit
    \<Rightarrow> allocation_error + unit" where
  "check_block cfg D sites b _ =
     (let block = cfg_block cfg b
      in for_each (\<lambda>(index, vs). for_each (check_value D sites b index) vs)
           (enumerate 0 (map op_values (mir_ops block) @ [term_values (mir_terminator block)])) ())"

definition verify_uses :: "mir68k_cfg \<Rightarrow> block_id dominance \<Rightarrow> allocation_error + unit" where
  "verify_uses cfg D =
     for_each (check_block cfg D (definition_sites cfg)) (sorted_list_of_set (mcfg_reachable cfg)) ()"

section \<open>Loop weights\<close>

definition member_step ::
  "mir68k_cfg \<Rightarrow> block_id list \<times> block_id set \<Rightarrow> block_id list \<times> block_id set" where
  "member_step cfg st =
     (case st of
        ([], members) \<Rightarrow> ([], members)
      | (b # pending, members) \<Rightarrow>
          if b \<in> members then (pending, members)
          else (rev (sorted_list_of_set (set_at (mcfg_predecessors cfg) b \<inter> mcfg_reachable cfg)) @ pending,
                insert b members))"

definition loop_members :: "mir68k_cfg \<Rightarrow> block_id \<Rightarrow> block_id set \<Rightarrow> block_id set option" where
  "loop_members cfg tail members =
     map_option snd (while_option (\<lambda>(pending, _). pending \<noteq> []) (member_step cfg) ([tail], members))"

definition add_loop ::
  "mir68k_cfg \<Rightarrow> block_id dominance \<Rightarrow> block_id \<times> block_id \<Rightarrow> (block_id, block_id set) fmap
    \<Rightarrow> (block_id, block_id set) fmap option" where
  "add_loop cfg D back_edge headers =
     (let (tail, header) = back_edge
      in if \<not> dominates D header tail then Some headers
         else map_option (\<lambda>members. fmupd header members headers)
                (loop_members cfg tail (insert header (set_at headers header))))"

definition graph_edges :: "mir68k_cfg \<Rightarrow> (block_id \<times> block_id) list" where
  "graph_edges cfg =
     concat (map (\<lambda>tail. map (Pair tail) (sorted_list_of_set (set_at (mcfg_successors cfg) tail)))
       (sorted_list_of_set (mcfg_reachable cfg)))"

definition add_weight :: "block_id \<Rightarrow> (block_id, u64) fmap \<Rightarrow> (block_id, u64) fmap" where
  "add_weight b weights = fmupd b ((case fmlookup weights b of None \<Rightarrow> 1 | Some w \<Rightarrow> w) + 16) weights"

definition loop_weights :: "mir68k_cfg \<Rightarrow> block_id dominance \<Rightarrow> (block_id, u64) fmap option" where
  "loop_weights cfg D =
     map_option
       (\<lambda>headers.
          fold (\<lambda>header. fold add_weight (sorted_list_of_set (set_at headers header)))
            (sorted_list_of_fset (fmdom headers)) fmempty)
       (fold_option (add_loop cfg D) (graph_edges cfg) fmempty)"

section \<open>Interference and affinity\<close>

record alloc_facts =
  scores :: "(temp_id, u64) fmap"
  across :: "temp_id set"
  conflicts :: "(temp_id, temp_id set) fmap"
  affinity :: "(temp_id, temp_id set) fmap"

definition interfere :: "temp_id \<Rightarrow> temp_id \<Rightarrow> (temp_id, temp_id set) fmap \<Rightarrow> (temp_id, temp_id set) fmap" where
  "interfere a b m = (if a \<noteq> b then insert_at b a (insert_at a b m) else m)"

definition interfere_all ::
  "temp_id \<Rightarrow> temp_id set \<Rightarrow> (temp_id, temp_id set) fmap \<Rightarrow> (temp_id, temp_id set) fmap" where
  "interfere_all a active = fold (interfere a) (sorted_list_of_set active)"

definition score_value :: "u64 \<Rightarrow> mir_value \<Rightarrow> (temp_id, u64) fmap \<Rightarrow> (temp_id, u64) fmap" where
  "score_value weight v m =
     (case v of
        MirTemp t _ \<Rightarrow> fmupd t ((case fmlookup m t of None \<Rightarrow> 0 | Some n \<Rightarrow> n) + weight) m
      | _ \<Rightarrow> m)"

definition edge_value :: "(temp_id \<times> nir_type) \<times> mir_value \<Rightarrow> alloc_facts \<Rightarrow> alloc_facts" where
  "edge_value param_value facts =
     (let ((dest, _), v) = param_value; facts' = facts\<lparr>across := insert dest (across facts)\<rparr>
      in case v of
           MirTemp source _ \<Rightarrow>
             facts'\<lparr>across := insert source (across facts'),
                    affinity := insert_at source dest (insert_at dest source (affinity facts'))\<rparr>
         | _ \<Rightarrow> facts')"

definition edge_facts :: "mir68k_cfg \<Rightarrow> mir_edge \<Rightarrow> alloc_facts \<Rightarrow> alloc_facts" where
  "edge_facts cfg edge =
     fold edge_value (zip (mir_block_params (cfg_block cfg (mir_edge_target edge))) (mir_edge_args edge))"

fun is_call :: "mir_op \<Rightarrow> bool" where
  "is_call (MirCall _ _ _ _ _) = True"
| "is_call _ = False"

definition scan_op :: "mir_op \<Rightarrow> temp_id set \<times> alloc_facts \<Rightarrow> temp_id set \<times> alloc_facts" where
  "scan_op op st =
     (let (active, facts) = st;
          (active, facts) =
            (case op_result op of
               Some (dest, _) \<Rightarrow>
                 (active - {dest}, facts\<lparr>conflicts := interfere_all dest active (conflicts facts)\<rparr>)
             | None \<Rightarrow> (active, facts));
          facts = (if is_call op then facts\<lparr>across := across facts \<union> active\<rparr> else facts)
      in (add_uses active (op_values op), facts))"

definition scan_params :: "mir_block \<Rightarrow> temp_id set \<Rightarrow> alloc_facts \<Rightarrow> alloc_facts" where
  "scan_params b active =
     fold (\<lambda>(dest, _) facts. facts\<lparr>conflicts := interfere_all dest active (conflicts facts)\<rparr>)
       (mir_block_params b)"

definition mir_live_in :: "(block_id, temp_id set) dataflow_result \<Rightarrow> block_id \<Rightarrow> temp_id set" where
  "mir_live_in live b = (case in_states live b of None \<Rightarrow> {} | Some s \<Rightarrow> s)"

definition mir_live_out :: "(block_id, temp_id set) dataflow_result \<Rightarrow> block_id \<Rightarrow> temp_id set" where
  "mir_live_out live b = (case out_states live b of None \<Rightarrow> {} | Some s \<Rightarrow> s)"

definition block_facts ::
  "mir68k_cfg \<Rightarrow> (block_id, temp_id set) dataflow_result \<Rightarrow> (block_id, u64) fmap \<Rightarrow> block_id
    \<Rightarrow> alloc_facts \<Rightarrow> alloc_facts" where
  "block_facts cfg live weights b facts =
     (let block = cfg_block cfg b;
          weight = (case fmlookup weights b of None \<Rightarrow> 1 | Some w \<Rightarrow> w);
          facts = facts\<lparr>across := across facts \<union> mir_live_in live b,
                        scores := fold (score_value weight) (block_values block) (scores facts)\<rparr>;
          facts = fold (edge_facts cfg) (mir_edges (mir_terminator block)) facts;
          active = add_uses (mir_live_out live b) (term_values (mir_terminator block));
          (active, facts) = fold scan_op (rev (mir_ops block)) (active, facts)
      in scan_params block active facts)"

definition initial_facts :: "mir_routine \<Rightarrow> alloc_facts" where
  "initial_facts r =
     \<lparr>scores = fmempty, across = {},
      conflicts = fold (\<lambda>(t, _). fmupd t {}) (routine_temps r) fmempty,
      affinity = fmempty\<rparr>"

definition collect_facts ::
  "mir_routine \<Rightarrow> mir68k_cfg \<Rightarrow> (block_id, temp_id set) dataflow_result \<Rightarrow> (block_id, u64) fmap \<Rightarrow> alloc_facts"
where
  "collect_facts r cfg live weights =
     fold (block_facts cfg live weights) (sorted_list_of_set (mcfg_reachable cfg)) (initial_facts r)"

section \<open>Choosing registers\<close>

definition discarded_temps :: "mir_routine \<Rightarrow> bool \<Rightarrow> temp_id set" where
  "discarded_temps r control_flow =
     (let counts = use_counts r;
          unused = set (map fst (filter (\<lambda>(t, _). fmlookup counts t = None) (routine_temps r)))
      in if control_flow
         then fold (\<lambda>b s. case branch_compare b counts of
                  Some (MirCompare dest _ _ _ _ _) \<Rightarrow> insert dest s
                | _ \<Rightarrow> s) (routine_blocks r) unused
         else unused)"

definition score_of :: "alloc_facts \<Rightarrow> temp_id \<Rightarrow> u64" where
  "score_of facts t = (case fmlookup (scores facts) t of None \<Rightarrow> 0 | Some n \<Rightarrow> n)"

text \<open>Ordered by decreasing score; the stable sort keeps the ascending order of equal scores.\<close>

definition candidates :: "temp_id set \<Rightarrow> alloc_facts \<Rightarrow> temp_id list" where
  "candidates discard facts =
     sort_key (\<lambda>t. - uint (score_of facts t))
       (filter (\<lambda>t. t \<notin> discard \<and> 2 \<le> score_of facts t) (sorted_list_of_set (across facts)))"

definition assigned :: "(temp_id, u8) fmap \<Rightarrow> temp_id set \<Rightarrow> u8 list" where
  "assigned regs others = List.map_filter (fmlookup regs) (sorted_list_of_set others)"

definition choose_register ::
  "alloc_facts \<Rightarrow> temp_id \<Rightarrow> (temp_id, u8) fmap \<Rightarrow> allocation_error + (temp_id, u8) fmap" where
  "choose_register facts t regs =
     bind_result (ok_or AllocationPanic (fmlookup (conflicts facts) t)) (\<lambda>others.
       let forbidden = set (assigned regs others);
           preferred = assigned regs (set_at (affinity facts) t)
       in Inr (case find (\<lambda>reg. reg \<notin> forbidden) (preferred @ register_pool) of
                 None \<Rightarrow> regs
               | Some reg \<Rightarrow> fmupd t reg regs))"

definition check_assignment ::
  "allocation \<Rightarrow> (temp_id, temp_id set) fmap \<Rightarrow> temp_id \<Rightarrow> unit \<Rightarrow> allocation_error + unit" where
  "check_assignment a m t _ =
     (let reg = the (fmlookup (registers a) t) in
      bind_result (check (\<not> (reg \<notin> set register_pool \<or> t \<in> discarded a \<or> fmlookup m t = None)) InvalidAssignment) (\<lambda>_.
        check (\<not> list_ex (\<lambda>other. fmlookup (registers a) other = Some reg) (sorted_list_of_set (set_at m t)))
          InterferingAssignment))"

definition verify_allocation :: "allocation \<Rightarrow> (temp_id, temp_id set) fmap \<Rightarrow> allocation_error + unit" where
  "verify_allocation a m = for_each (check_assignment a m) (sorted_list_of_fset (fmdom (registers a))) ()"

definition assign_registers :: "mir_routine \<Rightarrow> bool \<Rightarrow> alloc_facts \<Rightarrow> allocation_error + allocation" where
  "assign_registers r control_flow facts =
     (let discard = discarded_temps r control_flow in
      bind_result (for_each (choose_register facts) (candidates discard facts) fmempty) (\<lambda>regs.
      let a = \<lparr>registers = regs, discarded = discard\<rparr> in
      bind_result (verify_allocation a (conflicts facts)) (\<lambda>_. Inr a)))"

definition allocate :: "mir_routine \<Rightarrow> bool \<Rightarrow> (allocation_error + allocation) option" where
  "allocate r control_flow =
     Option.bind (mir_cfg_new r) (\<lambda>built.
       case built of
         Inl e \<Rightarrow> Some (Inl e)
       | Inr cfg \<Rightarrow>
           Option.bind (from_graph (mir_graph cfg)) (\<lambda>D.
             case verify_uses cfg D of
               Inl e \<Rightarrow> Some (Inl e)
             | Inr _ \<Rightarrow>
                 Option.bind (solve_dataflow (mir_graph cfg) (mir_liveness cfg)) (\<lambda>live.
                 Option.bind (loop_weights cfg D) (\<lambda>weights.
                   Some (assign_registers r control_flow (collect_facts r cfg live weights))))))"

section \<open>Live sets\<close>

abbreviation temps_of :: "mir_value list \<Rightarrow> temp_id set" where
  "temps_of vs \<equiv> set (concat (map value_temps vs))"

lemma add_uses_eq [simp]: "add_uses s vs = s \<union> temps_of vs"
proof -
  have "add_uses s (v # vs) = add_uses (s \<union> set (value_temps v)) vs" for s v vs
    by (cases v) (simp_all add: add_uses_def)
  then show ?thesis by (induction vs arbitrary: s) (auto simp: add_uses_def)
qed

lemma before_op_eq:
  "before_op op live = (live - fst ` set_option (op_result op)) \<union> temps_of (op_values op)"
  by (cases "op_result op") (auto simp: before_op_def)

text \<open>The set the backward walk holds before operation \<open>i\<close>, from the set at the end of the block.\<close>

definition active_before :: "mir_block \<Rightarrow> temp_id set \<Rightarrow> nat \<Rightarrow> temp_id set" where
  "active_before b output i =
     foldr before_op (drop i (mir_ops b)) (output \<union> temps_of (term_values (mir_terminator b)))"

lemma active_before_op:
  "i < length (mir_ops b) \<Longrightarrow>
     active_before b output i = before_op (mir_ops b ! i) (active_before b output (Suc i))"
  by (simp add: active_before_def flip: Cons_nth_drop_Suc)

lemma active_before_end:
  "active_before b output (length (mir_ops b)) = output \<union> temps_of (term_values (mir_terminator b))"
  by (simp add: active_before_def)

lemma mir_transfer_eq:
  "mir_transfer cfg n output =
     active_before (cfg_block cfg n) output 0 - fst ` set (mir_block_params (cfg_block cfg n))"
proof -
  have "fold (\<lambda>(t, _) s. s - {t}) ps s = s - fst ` set ps" for ps :: "(temp_id \<times> nir_type) list" and s
    by (induction ps arbitrary: s) auto
  then show ?thesis by (simp add: mir_transfer_def active_before_def Let_def foldr_conv_fold)
qed

text \<open>A temporary is live before operation \<open>i\<close> of a block when some path from there reads it before a
  definition.\<close>

inductive mir_live :: "mir_routine \<Rightarrow> temp_id \<Rightarrow> mir_block \<Rightarrow> nat \<Rightarrow> bool" for r t where
  used: "i < length (mir_ops b) \<Longrightarrow> t \<in> temps_of (op_values (mir_ops b ! i)) \<Longrightarrow> mir_live r t b i"
| passed: "i < length (mir_ops b) \<Longrightarrow> t \<notin> fst ` set_option (op_result (mir_ops b ! i)) \<Longrightarrow>
    mir_live r t b (Suc i) \<Longrightarrow> mir_live r t b i"
| ended: "t \<in> temps_of (term_values (mir_terminator b)) \<Longrightarrow> mir_live r t b (length (mir_ops b))"
| edge: "c \<in> set (routine_blocks r) \<Longrightarrow>
    mir_block_id c \<in> mir_edge_target ` set (mir_edges (mir_terminator b)) \<Longrightarrow>
    t \<notin> fst ` set (mir_block_params c) \<Longrightarrow> mir_live r t c 0 \<Longrightarrow> mir_live r t b (length (mir_ops b))"

lemma mir_live_bound: "mir_live r t b i \<Longrightarrow> i \<le> length (mir_ops b)"
  by (induction rule: mir_live.induct) auto

lemma gather_union:
  assumes "finite (successors G n)"
  shows "gather G (mir_liveness cfg) K n = \<Union> {x. \<exists>s \<in> successors G n. K s = Some x}"
proof -
  have "fold (\<lambda>s out. case K s of None \<Rightarrow> out | Some x \<Rightarrow> out \<union> x) ss out =
      out \<union> \<Union> {x. \<exists>s \<in> set ss. K s = Some x}" for ss out
    by (induction ss arbitrary: out) (auto split: option.splits)
  moreover have "gather G (mir_liveness cfg) K n =
      fold (\<lambda>s out. case K s of None \<Rightarrow> out | Some x \<Rightarrow> out \<union> x) (sorted_list_of_set (successors G n)) {}"
    unfolding gather_def join_source_def source_nodes_def join_successor_def boundary_state_def
    by (simp add: mir_liveness_def cong: option.case_cong)
  ultimately show ?thesis using assms by simp
qed

lemma liveness_equations:
  assumes r: "mir_cfg_new r = Some (Inr cfg)"
    and live: "solve_dataflow (mir_graph cfg) (mir_liveness cfg) = Some live"
    and n: "n \<in> mcfg_reachable cfg"
  shows "mir_live_in live n = mir_transfer cfg n (mir_live_out live n)"
    and "s \<in> set_at (mcfg_successors cfg) n \<Longrightarrow> mir_live_in live s \<subseteq> mir_live_out live n"
proof -
  note G = mir_flow_graph [OF r]
  have fin: "finite (successors (mir_graph cfg) n)" by (rule flow_graph.finite_successors [OF G])
  have "solves_at (mir_graph cfg) (mir_liveness cfg) live n"
    by (rule flow_graph.solve_dataflow_solves(3) [OF G live]) (simp add: n)
  moreover have "direction (mir_liveness cfg) = Backward" "transfer (mir_liveness cfg) = mir_transfer cfg"
    by (simp_all add: mir_liveness_def)
  ultimately have eq: "out_states live n = Some (gather (mir_graph cfg) (mir_liveness cfg) (in_states live) n)"
    "in_states live n = Some (mir_transfer cfg n (gather (mir_graph cfg) (mir_liveness cfg) (in_states live) n))"
    by (simp_all add: solves_at_def evaluate_gather Let_def key_states_def flow_value_def)
  then show "mir_live_in live n = mir_transfer cfg n (mir_live_out live n)"
    by (simp add: mir_live_in_def mir_live_out_def)
  assume s: "s \<in> set_at (mcfg_successors cfg) n"
  show "mir_live_in live s \<subseteq> mir_live_out live n"
    using eq(1) s by (auto simp: mir_live_in_def mir_live_out_def gather_union [OF fin] split: option.splits)
qed

lemma mir_successors:
  assumes r: "mir_cfg_new r = Some (Inr cfg)" and b: "b \<in> set (routine_blocks r)"
    and n: "mir_block_id b \<in> mcfg_reachable cfg"
    and c: "mir_block_id c \<in> mir_edge_target ` set (mir_edges (mir_terminator b))"
  shows "mir_block_id c \<in> set_at (mcfg_successors cfg) (mir_block_id b)"
    and "mir_block_id c \<in> mcfg_reachable cfg"
proof -
  show s: "mir_block_id c \<in> set_at (mcfg_successors cfg) (mir_block_id b)"
    using b n c by (auto simp: mir_cfg_facts(7) [OF r] mir_block_edges_def)
  with flow_graph.successor_reachable [OF mir_flow_graph [OF r], of "mir_block_id b" "mir_block_id c"] n
  show "mir_block_id c \<in> mcfg_reachable cfg" by simp
qed

text \<open>The walk holds every temporary that is live.\<close>

lemma mir_live_active:
  assumes r: "mir_cfg_new r = Some (Inr cfg)"
    and live: "solve_dataflow (mir_graph cfg) (mir_liveness cfg) = Some live"
    and d: "distinct (map mir_block_id (routine_blocks r))"
  shows "mir_live r t b i \<Longrightarrow> b \<in> set (routine_blocks r) \<Longrightarrow> mir_block_id b \<in> mcfg_reachable cfg \<Longrightarrow>
    t \<in> active_before b (mir_live_out live (mir_block_id b)) i"
proof (induction rule: mir_live.induct)
  case (used i b)
  then show ?case by (simp add: active_before_op before_op_eq)
next
  case (passed i b)
  then show ?case by (simp add: active_before_op [of i] before_op_eq)
next
  case (ended b)
  then show ?case by (simp add: active_before_end)
next
  case (edge c b)
  note s = mir_successors [OF r edge(6,7,2)]
  have "t \<in> mir_live_in live (mir_block_id c)"
    using edge.IH [OF edge(1) s(2)] edge(3)
    by (simp add: liveness_equations(1) [OF r live s(2)] mir_transfer_eq cfg_block_at(2) [OF r d edge(1)])
  with liveness_equations(2) [OF r live edge(7) s(1)] show ?case
    by (auto simp: active_before_end)
qed

section \<open>Conflicts\<close>

definition symmetric_map :: "(temp_id, temp_id set) fmap \<Rightarrow> bool" where
  "symmetric_map m \<longleftrightarrow> (\<forall>a b. b \<in> set_at m a \<longrightarrow> a \<noteq> b \<and> a \<in> set_at m b)"

text \<open>A map that has grown: every key and every member is kept.\<close>

definition grown :: "(temp_id, temp_id set) fmap \<Rightarrow> (temp_id, temp_id set) fmap \<Rightarrow> bool" where
  "grown m m' \<longleftrightarrow> (\<forall>k. set_at m k \<subseteq> set_at m' k \<and> (fmlookup m k \<noteq> None \<longrightarrow> fmlookup m' k \<noteq> None))"

lemma grown_refl [simp, intro]: "grown m m"
  by (simp add: grown_def)

lemma grown_trans: "grown a b \<Longrightarrow> grown b c \<Longrightarrow> grown a c"
  by (fastforce simp: grown_def)

lemma grown_member: "grown m m' \<Longrightarrow> b \<in> set_at m a \<Longrightarrow> b \<in> set_at m' a"
  by (auto simp: grown_def)

lemma set_at_interfere:
  "set_at (interfere a b m) k =
     set_at m k \<union> (if a \<noteq> b \<and> k = a then {b} else if a \<noteq> b \<and> k = b then {a} else {})"
  by (auto simp: interfere_def)

lemma grown_interfere: "grown m (interfere a b m)"
  by (auto simp: grown_def set_at_interfere) (auto simp: interfere_def insert_at_def)

lemma interfere_all_facts:
  assumes "finite active"
  shows "grown m (interfere_all a active m)"
    and "symmetric_map m \<Longrightarrow> symmetric_map (interfere_all a active m)"
    and "u \<in> active \<Longrightarrow> u \<noteq> a \<Longrightarrow> u \<in> set_at (interfere_all a active m) a"
proof -
  have g: "grown m (fold (interfere a) us m)" for us m
    by (induction us arbitrary: m) (auto intro: grown_trans grown_interfere)
  then show "grown m (interfere_all a active m)" by (simp add: interfere_all_def)
  have step: "symmetric_map m \<Longrightarrow> symmetric_map (interfere a b m)" for b m
    by (auto simp: symmetric_map_def set_at_interfere split: if_splits)
  have "symmetric_map m \<Longrightarrow> symmetric_map (fold (interfere a) us m)" for us
    by (induction us arbitrary: m) (auto intro: step)
  then show "symmetric_map m \<Longrightarrow> symmetric_map (interfere_all a active m)"
    by (simp add: interfere_all_def)
  have "u \<in> set us \<Longrightarrow> u \<noteq> a \<Longrightarrow> u \<in> set_at (fold (interfere a) us m) a" for us
  proof (induction us arbitrary: m)
    case (Cons v us)
    have "grown (interfere a v m) (fold (interfere a) us (interfere a v m))" by (rule g)
    moreover have "v = u \<Longrightarrow> u \<in> set_at (interfere a v m) a"
      using Cons.prems(2) by (simp add: set_at_interfere)
    ultimately show ?case using Cons by (auto dest: grown_member)
  qed simp
  then show "u \<in> active \<Longrightarrow> u \<noteq> a \<Longrightarrow> u \<in> set_at (interfere_all a active m) a"
    using assms by (simp add: interfere_all_def)
qed

text \<open>What one pass over a block keeps of the facts, and what it adds.\<close>

definition facts_grow :: "alloc_facts \<Rightarrow> alloc_facts \<Rightarrow> bool" where
  "facts_grow f f' \<longleftrightarrow>
     grown (conflicts f) (conflicts f') \<and> (symmetric_map (conflicts f) \<longrightarrow> symmetric_map (conflicts f'))"

lemma facts_grow_refl [simp, intro]: "facts_grow f f"
  by (simp add: facts_grow_def)

lemma facts_grow_trans: "facts_grow a b \<Longrightarrow> facts_grow b c \<Longrightarrow> facts_grow a c"
  by (auto simp: facts_grow_def intro: grown_trans)

lemma facts_grow_fold: "(\<And>x f. x \<in> set xs \<Longrightarrow> facts_grow f (g x f)) \<Longrightarrow> facts_grow f (fold g xs f)"
proof (induction xs arbitrary: f)
  case (Cons x xs)
  have "facts_grow f (g x f)" using Cons.prems by simp
  moreover have "facts_grow (g x f) (fold g xs (g x f))" by (rule Cons.IH) (simp add: Cons.prems)
  ultimately show ?case by (auto intro: facts_grow_trans)
qed simp

lemma edge_value_conflicts: "conflicts (edge_value pv facts) = conflicts facts"
  by (cases pv) (auto simp: edge_value_def Let_def split: mir_value.split)

lemma edge_facts_conflicts: "conflicts (fold (edge_facts cfg) es facts) = conflicts facts"
proof -
  have "conflicts (fold edge_value pvs f) = conflicts f" for pvs f
    by (induction pvs arbitrary: f) (auto simp: edge_value_conflicts)
  then show ?thesis by (induction es arbitrary: facts) (auto simp: edge_facts_def)
qed

lemma scan_op_eq:
  "scan_op op (active, facts) =
     (before_op op active,
      facts\<lparr>conflicts := (case op_result op of Some (dest, _) \<Rightarrow> interfere_all dest active (conflicts facts)
                                           | None \<Rightarrow> conflicts facts),
            across := (if is_call op then across facts \<union> (active - fst ` set_option (op_result op))
                       else across facts)\<rparr>)"
  by (cases "op_result op") (auto simp: scan_op_def before_op_def)

lemma finite_before_op: "finite active \<Longrightarrow> finite (before_op op active)"
  by (simp add: before_op_eq)

lemma finite_active_before: "finite output \<Longrightarrow> finite (active_before b output i)"
proof -
  have "finite s \<Longrightarrow> finite (foldr before_op os s)" for os s
    by (induction os) (auto intro: finite_before_op)
  then show "finite output \<Longrightarrow> finite (active_before b output i)" by (simp add: active_before_def)
qed

lemma scan_ops:
  assumes "finite active"
  shows "fst (foldr scan_op os (active, f)) = foldr before_op os active"
    and "facts_grow f (snd (foldr scan_op os (active, f)))"
    and "i < length os \<Longrightarrow> op_result (os ! i) = Some (dest, w) \<Longrightarrow>
      u \<in> foldr before_op (drop (Suc i) os) active \<Longrightarrow> u \<noteq> dest \<Longrightarrow>
      u \<in> set_at (conflicts (snd (foldr scan_op os (active, f)))) dest"
proof (induction os arbitrary: i)
  case Nil
  { case 1 show ?case by simp }
  { case 2 show ?case by simp }
  { case 3 then show ?case by simp }
next
  case (Cons op os)
  obtain active' f' where s: "foldr scan_op os (active, f) = (active', f')" by fastforce
  have a: "active' = foldr before_op os active" and g: "facts_grow f f'"
    using Cons.IH(1,2) s by simp_all
  have fin: "finite active'"
    unfolding a using assms by (induction os) (auto intro: finite_before_op)
  have g': "facts_grow f' (snd (scan_op op (active', f')))"
    using interfere_all_facts(1,2) [OF fin]
    by (cases "op_result op") (auto simp: scan_op_eq facts_grow_def)
  { case 1 show ?case by (simp add: s a scan_op_eq) }
  { case 2 show ?case using g g' s by (simp add: facts_grow_trans) }
  { case 3
    show ?case
    proof (cases i)
      case 0
      with 3 interfere_all_facts(3) [OF fin, of u dest] show ?thesis by (simp add: s a scan_op_eq)
    next
      case (Suc j)
      with 3 Cons.IH(3) [of j] s have "u \<in> set_at (conflicts f') dest" by simp
      with g' have "u \<in> set_at (conflicts (snd (scan_op op (active', f')))) dest"
        by (auto simp: facts_grow_def dest: grown_member)
      then show ?thesis by (simp add: s)
    qed }
qed

lemma scan_params_facts:
  assumes "finite active"
  shows "facts_grow f (scan_params b active f)"
    and "dest \<in> fst ` set (mir_block_params b) \<Longrightarrow> u \<in> active \<Longrightarrow> u \<noteq> dest \<Longrightarrow>
      u \<in> set_at (conflicts (scan_params b active f)) dest"
proof -
  let ?g = "\<lambda>(dest, _) facts. facts\<lparr>conflicts := interfere_all dest active (conflicts facts)\<rparr>"
  have step: "facts_grow f (?g p f)" for p f
    using interfere_all_facts(1,2) [OF assms] by (cases p) (auto simp: facts_grow_def)
  then have grow: "facts_grow f (fold ?g ps f)" for ps f by (rule facts_grow_fold)
  then show "facts_grow f (scan_params b active f)" by (simp add: scan_params_def)
  have "dest \<in> fst ` set ps \<Longrightarrow> u \<in> active \<Longrightarrow> u \<noteq> dest \<Longrightarrow> u \<in> set_at (conflicts (fold ?g ps f)) dest" for ps
  proof (induction ps arbitrary: f)
    case (Cons p ps)
    show ?case
    proof (cases "fst p = dest")
      case True
      then have "u \<in> set_at (conflicts (?g p f)) dest"
        using interfere_all_facts(3) [OF assms Cons.prems(2,3)] by (cases p) simp
      with grow [of "?g p f" ps] show ?thesis by (auto simp: facts_grow_def dest: grown_member)
    next
      case False
      with Cons.prems Cons.IH [of "?g p f"] show ?thesis by auto
    qed
  qed simp
  then show "dest \<in> fst ` set (mir_block_params b) \<Longrightarrow> u \<in> active \<Longrightarrow> u \<noteq> dest \<Longrightarrow>
      u \<in> set_at (conflicts (scan_params b active f)) dest"
    by (simp add: scan_params_def)
qed

definition block_separates :: "alloc_facts \<Rightarrow> mir_block \<Rightarrow> temp_id set \<Rightarrow> bool" where
  "block_separates facts b output \<longleftrightarrow>
     (\<forall>i dest w u. i < length (mir_ops b) \<longrightarrow> op_result (mir_ops b ! i) = Some (dest, w) \<longrightarrow>
        u \<in> active_before b output (Suc i) \<longrightarrow> u \<noteq> dest \<longrightarrow> u \<in> set_at (conflicts facts) dest) \<and>
     (\<forall>dest u. dest \<in> fst ` set (mir_block_params b) \<longrightarrow> u \<in> active_before b output 0 \<longrightarrow> u \<noteq> dest \<longrightarrow>
        u \<in> set_at (conflicts facts) dest)"

lemma block_separates_grow: "facts_grow f f' \<Longrightarrow> block_separates f b output \<Longrightarrow> block_separates f' b output"
  unfolding block_separates_def facts_grow_def grown_def by blast

lemma block_facts_separates:
  fixes cfg :: mir68k_cfg
  assumes fin: "finite (mir_live_out live n)"
  defines "b \<equiv> cfg_block cfg n"
  shows "facts_grow f (block_facts cfg live weights n f)"
    and "block_separates (block_facts cfg live weights n f) b (mir_live_out live n)"
proof -
  let ?exit = "mir_live_out live n \<union> temps_of (term_values (mir_terminator b))"
  define weight where "weight = (case fmlookup weights n of None \<Rightarrow> 1 | Some w \<Rightarrow> w)"
  define g where "g = fold (edge_facts cfg) (mir_edges (mir_terminator b))
    (f\<lparr>across := across f \<union> mir_live_in live n,
       scores := fold (score_value weight) (block_values b) (scores f)\<rparr>)"
  have g: "conflicts g = conflicts f" by (simp add: g_def edge_facts_conflicts)
  have eq: "block_facts cfg live weights n f =
      (case foldr scan_op (mir_ops b) (?exit, g) of (active, h) \<Rightarrow> scan_params b active h)"
    by (simp add: block_facts_def Let_def b_def [symmetric] foldr_conv_fold g_def weight_def)
  obtain active h where s: "foldr scan_op (mir_ops b) (?exit, g) = (active, h)" by fastforce
  have exit_fin: "finite ?exit" using fin by simp
  note scan = scan_ops [OF exit_fin, where os = "mir_ops b" and f = g, unfolded s, simplified]
  have active: "active = active_before b (mir_live_out live n) 0"
    using scan(1) by (simp add: active_before_def)
  then have afin: "finite active" using finite_active_before [OF fin] by simp
  have result: "block_facts cfg live weights n f = scan_params b active h"
    by (simp only: eq s prod.case)
  have fg: "facts_grow f h" using scan(2) g by (simp add: facts_grow_def)
  note params = scan_params_facts [OF afin, where f = h and b = b]
  show "facts_grow f (block_facts cfg live weights n f)"
    unfolding result using fg params(1) by (rule facts_grow_trans)
  show "block_separates (block_facts cfg live weights n f) b (mir_live_out live n)"
    unfolding block_separates_def result
  proof (intro conjI allI impI)
    fix i dest w u
    assume "i < length (mir_ops b)" "op_result (mir_ops b ! i) = Some (dest, w)"
      "u \<in> active_before b (mir_live_out live n) (Suc i)" "u \<noteq> dest"
    then have "u \<in> set_at (conflicts h) dest" by (intro scan(3)) (simp_all add: active_before_def)
    with params(1) show "u \<in> set_at (conflicts (scan_params b active h)) dest"
      by (auto simp: facts_grow_def dest: grown_member)
  next
    fix dest u
    assume "dest \<in> fst ` set (mir_block_params b)" "u \<in> active_before b (mir_live_out live n) 0" "u \<noteq> dest"
    then show "u \<in> set_at (conflicts (scan_params b active h)) dest"
      by (intro params(2)) (simp_all add: active)
  qed
qed

lemma collect_facts_separates:
  assumes fin: "\<And>n. finite (mir_live_out live n)" and finR: "finite (mcfg_reachable cfg)"
  shows "facts_grow (initial_facts r) (collect_facts r cfg live weights)"
    and "n \<in> mcfg_reachable cfg \<Longrightarrow>
      block_separates (collect_facts r cfg live weights) (cfg_block cfg n) (mir_live_out live n)"
proof -
  note bf = block_facts_separates [OF fin]
  have grow: "facts_grow f (fold (block_facts cfg live weights) ns f)" for ns f
    by (rule facts_grow_fold) (rule bf(1))
  then show "facts_grow (initial_facts r) (collect_facts r cfg live weights)"
    by (simp add: collect_facts_def)
  have "n \<in> set ns \<Longrightarrow> block_separates (fold (block_facts cfg live weights) ns f) (cfg_block cfg n) (mir_live_out live n)"
    for ns f
  proof (induction ns arbitrary: f)
    case (Cons m ns)
    show ?case
    proof (cases "n = m")
      case True
      with block_separates_grow [OF grow bf(2)] show ?thesis by simp
    next
      case False
      with Cons show ?thesis by simp
    qed
  qed simp
  then show "n \<in> mcfg_reachable cfg \<Longrightarrow>
      block_separates (collect_facts r cfg live weights) (cfg_block cfg n) (mir_live_out live n)"
    using finR by (simp add: collect_facts_def)
qed

lemma symmetric_initial: "symmetric_map (conflicts (initial_facts r))"
proof -
  have "set_at (fold (\<lambda>(t, _). fmupd t {}) ts m) k \<subseteq> set_at m k"
    for ts :: "(temp_id \<times> nir_type) list" and m :: "(temp_id, temp_id set) fmap" and k
  proof (induction ts arbitrary: m)
    case (Cons p ts)
    obtain t ty where p: "p = (t, ty)" by (cases p)
    have "set_at (fmupd t {} m) k \<subseteq> set_at m k" by (simp add: set_at_fmupd)
    with Cons.IH [of "fmupd t {} m"] show ?case by (auto simp: p)
  qed simp
  from this [of _ fmempty] show ?thesis by (fastforce simp: symmetric_map_def initial_facts_def)
qed

section \<open>The greedy choice\<close>

definition well_assigned :: "(temp_id, temp_id set) fmap \<Rightarrow> temp_id set \<Rightarrow> (temp_id, u8) fmap \<Rightarrow> bool" where
  "well_assigned m ts regs \<longleftrightarrow>
     (\<forall>t reg. fmlookup regs t = Some reg \<longrightarrow>
        t \<in> ts \<and> reg \<in> set register_pool \<and> fmlookup m t \<noteq> None \<and>
        (\<forall>u \<in> set_at m t. fmlookup regs u \<noteq> Some reg))"

lemma set_assigned: "finite others \<Longrightarrow> set (assigned regs others) = {reg. \<exists>u \<in> others. fmlookup regs u = Some reg}"
  by (force simp: assigned_def List.map_filter_def)

lemma find_Some_elem: "find P xs = Some x \<Longrightarrow> x \<in> set xs \<and> P x"
  by (induction xs) (auto split: if_splits)

lemma choose_register_assigned:
  assumes sym: "symmetric_map (conflicts facts)"
    and fin: "\<And>k. finite (set_at (conflicts facts) k)" "\<And>k. finite (set_at (affinity facts) k)"
    and chosen: "choose_register facts t regs = Inr regs'" and t: "t \<in> ts"
    and well: "well_assigned (conflicts facts) ts regs"
  shows "well_assigned (conflicts facts) ts regs'"
proof -
  let ?m = "conflicts facts"
  obtain others where others: "fmlookup ?m t = Some others"
    using chosen by (auto simp: choose_register_def)
  then have at: "set_at ?m t = others" by (simp add: set_at_def)
  let ?pool = "assigned regs (set_at (affinity facts) t) @ register_pool"
  have pool: "set ?pool \<subseteq> set register_pool"
    using well fin(2) by (auto simp: set_assigned well_assigned_def)
  show ?thesis
  proof (cases "find (\<lambda>reg. reg \<notin> set (assigned regs others)) ?pool")
    case None
    with chosen others well show ?thesis by (simp add: choose_register_def)
  next
    case (Some reg)
    then have reg: "reg \<in> set ?pool" "reg \<notin> set (assigned regs others)"
      by (auto dest: find_Some_elem)
    have regs': "regs' = fmupd t reg regs" using chosen others Some by (simp add: choose_register_def)
    have free: "fmlookup regs u \<noteq> Some reg" if "u \<in> others" for u
      using reg(2) that fin(1) [of t] at by (auto simp: set_assigned)
    have other: "u \<in> others \<Longrightarrow> u \<noteq> t" "t \<in> set_at ?m u \<Longrightarrow> u \<in> others" for u
      using sym at by (auto simp: symmetric_map_def)
    show ?thesis
      unfolding well_assigned_def
    proof (intro allI impI)
      fix s reg' assume s: "fmlookup regs' s = Some reg'"
      show "s \<in> ts \<and> reg' \<in> set register_pool \<and> fmlookup ?m s \<noteq> None \<and>
          (\<forall>u \<in> set_at ?m s. fmlookup regs' u \<noteq> Some reg')"
      proof (cases "s = t")
        case True
        with s reg(1) pool t others free other(1) show ?thesis by (auto simp: regs' at)
      next
        case False
        then have s': "fmlookup regs s = Some reg'" using s by (simp add: regs')
        have "fmlookup regs' u \<noteq> Some reg'" if u: "u \<in> set_at ?m s" for u
        proof (cases "u = t")
          case True
          with u other(2) free s' show ?thesis by (auto simp: regs')
        next
          case False
          with well s' u show ?thesis by (auto simp: well_assigned_def regs')
        qed
        with well s' show ?thesis by (auto simp: well_assigned_def)
      qed
    qed
  qed
qed

section \<open>Finite sets\<close>

definition finite_facts :: "alloc_facts \<Rightarrow> bool" where
  "finite_facts f \<longleftrightarrow> (\<forall>k. finite (set_at (conflicts f) k)) \<and> (\<forall>k. finite (set_at (affinity f) k))"

lemma finite_fold: "(\<And>x f. I f \<Longrightarrow> I (g x f)) \<Longrightarrow> I f \<Longrightarrow> I (fold g xs f)"
  by (induction xs arbitrary: f) auto

lemma finite_interfere_all:
  "(\<And>k. finite (set_at m k)) \<Longrightarrow> finite (set_at (interfere_all a active m) k)"
proof -
  assume m: "\<And>k. finite (set_at m k)"
  have "\<forall>k. finite (set_at (fold (interfere a) us m) k)" for us
    by (rule finite_fold [where I = "\<lambda>m. \<forall>k. finite (set_at m k)"]) (simp_all add: set_at_interfere m)
  then show ?thesis by (simp add: interfere_all_def)
qed

lemma finite_facts_block:
  assumes "finite_facts f"
  shows "finite_facts (block_facts cfg live weights n f)"
proof -
  have val: "finite_facts (edge_value pv g)" if "finite_facts g" for pv g
    using that by (cases pv) (auto simp: edge_value_def Let_def finite_facts_def split: mir_value.split)
  have edge: "finite_facts (edge_facts cfg e g)" if "finite_facts g" for e g
    unfolding edge_facts_def by (rule finite_fold [where I = finite_facts, OF val that])
  have op: "finite_facts (snd (scan_op op (active, g)))" if "finite_facts g" for op active g
    using that by (cases "op_result op") (auto simp: scan_op_eq finite_facts_def finite_interfere_all)
  have ops: "finite_facts (snd (fold scan_op os (active, g)))" if "finite_facts g" for os active g
    using finite_fold [of "\<lambda>st. finite_facts (snd st)" scan_op "(active, g)" os] op that by force
  have params: "finite_facts (scan_params b active g)" if "finite_facts g" for b active g
    unfolding scan_params_def
    by (rule finite_fold) (use that in \<open>auto simp: finite_facts_def finite_interfere_all\<close>)
  let ?b = "cfg_block cfg n"
  define weight where "weight = (case fmlookup weights n of None \<Rightarrow> 1 | Some w \<Rightarrow> w)"
  define g where "g = fold (edge_facts cfg) (mir_edges (mir_terminator ?b))
    (f\<lparr>across := across f \<union> mir_live_in live n,
       scores := fold (score_value weight) (block_values ?b) (scores f)\<rparr>)"
  have "finite_facts g"
    unfolding g_def by (rule finite_fold [where I = finite_facts, OF edge]) (use assms in \<open>auto simp: finite_facts_def\<close>)
  moreover obtain active h where
    s: "fold scan_op (rev (mir_ops ?b)) (add_uses (mir_live_out live n) (term_values (mir_terminator ?b)), g) = (active, h)"
    by fastforce
  ultimately have "finite_facts (scan_params ?b active h)" using ops params by (metis snd_conv)
  moreover have "block_facts cfg live weights n f = scan_params ?b active h"
    by (simp only: block_facts_def Let_def weight_def [symmetric] g_def [symmetric] s prod.case)
  ultimately show ?thesis by simp
qed

lemma finite_facts_collected: "finite_facts (collect_facts r cfg live weights)"
proof -
  have "\<forall>k. set_at (fold (\<lambda>(t, _). fmupd t {}) ts (fmempty :: (temp_id, temp_id set) fmap)) k = {}"
    for ts :: "(temp_id \<times> nir_type) list"
  proof (rule finite_fold [where I = "\<lambda>m. \<forall>k. set_at m k = {}"])
    show "\<forall>k. set_at ((\<lambda>(t, _). fmupd t {}) p m) k = {}" if "\<forall>k. set_at m k = {}"
      for p :: "temp_id \<times> nir_type" and m :: "(temp_id, temp_id set) fmap"
      using that by (cases p) (simp add: set_at_fmupd)
  qed simp
  then have "finite_facts (initial_facts r)"
    by (simp add: finite_facts_def initial_facts_def)
  then show ?thesis
    unfolding collect_facts_def
    by (intro finite_fold [where I = finite_facts]) (simp_all add: finite_facts_block)
qed

text \<open>The liveness problem is monotone, over the temporaries the blocks read.\<close>

definition read_temps :: "mir68k_cfg \<Rightarrow> temp_id set" where
  "read_temps cfg = (\<Union>n. temps_of (block_values (cfg_block cfg n)))"

lemma finite_read_temps: "finite (read_temps cfg)"
proof -
  have "range (cfg_block cfg) \<subseteq> the ` insert None (fmlookup (mcfg_blocks cfg) ` fset (fmdom (mcfg_blocks cfg)))"
    by (auto simp: cfg_block_def) (metis fmdomE fmlookup_dom_iff image_eqI insertCI not_None_eq)
  then have "finite (range (cfg_block cfg))" by (rule finite_subset) simp
  then have "finite (\<Union>b \<in> range (cfg_block cfg). temps_of (block_values b))" by blast
  then show ?thesis by (simp add: read_temps_def)
qed

lemma foldr_before_op_mono: "s \<subseteq> s' \<Longrightarrow> foldr before_op os s \<subseteq> foldr before_op os s'"
  by (induction os) (auto simp: before_op_eq)

lemma foldr_before_op_bound: "foldr before_op os s \<subseteq> s \<union> temps_of (concat (map op_values os))"
  by (induction os) (auto simp: before_op_eq)

lemma mir_monotone:
  assumes r: "mir_cfg_new r = Some (Inr cfg)"
  shows "monotone_problem (mir_graph cfg) (mir_liveness cfg) (\<subseteq>) (Pow (read_temps cfg)) card (card (read_temps cfg))"
proof (intro monotone_problem.intro monotone_problem_axioms.intro)
  show "flow_graph (mir_graph cfg)" by (rule mir_flow_graph [OF r])
  show "transfer (mir_liveness cfg) n x \<in> Pow (read_temps cfg)" if "x \<in> Pow (read_temps cfg)" for x n
  proof -
    let ?b = "cfg_block cfg n"
    have "active_before ?b x 0 \<subseteq> x \<union> temps_of (block_values ?b)"
      using foldr_before_op_bound [of "mir_ops ?b" "x \<union> temps_of (term_values (mir_terminator ?b))"]
      by (auto simp: active_before_def block_values_def)
    moreover have "temps_of (block_values ?b) \<subseteq> read_temps cfg" by (auto simp: read_temps_def)
    ultimately show ?thesis using that by (auto simp: mir_liveness_def mir_transfer_eq)
  qed
  show "transfer (mir_liveness cfg) n x \<subseteq> transfer (mir_liveness cfg) n y" if "x \<subseteq> y" for x y n
    using foldr_before_op_mono [of "x \<union> temps_of (term_values (mir_terminator (cfg_block cfg n)))"
        "y \<union> temps_of (term_values (mir_terminator (cfg_block cfg n)))" "mir_ops (cfg_block cfg n)"] that
    by (auto simp: mir_liveness_def mir_transfer_eq active_before_def)
  show "card x \<le> card (read_temps cfg)" if "x \<in> Pow (read_temps cfg)" for x
    using that finite_read_temps by (auto intro: card_mono)
  show "card x < card y" if "x \<in> Pow (read_temps cfg)" "y \<in> Pow (read_temps cfg)" "x \<subseteq> y" "x \<noteq> y" for x y
    using that finite_read_temps by (auto intro!: psubset_card_mono dest: finite_subset)
qed (auto simp: mir_liveness_def any_edge_executable_def copy_edge_state_def)

lemma mir_liveness_solved:
  assumes r: "mir_cfg_new r = Some (Inr cfg)"
  obtains live where "solve_dataflow (mir_graph cfg) (mir_liveness cfg) = Some live"
    and "\<And>n. finite (mir_live_out live n)"
proof -
  note mono = mir_monotone [OF r] and G = mir_flow_graph [OF r]
  obtain live where live: "solve_dataflow (mir_graph cfg) (mir_liveness cfg) = Some live"
    and sol: "monotone_problem.flow_solution (mir_graph cfg) (mir_liveness cfg) (Pow (read_temps cfg))
      (key_states (mir_liveness cfg) live)"
    using monotone_problem.solve_dataflow_least [OF mono] by blast
  have key: "key_states (mir_liveness cfg) live = in_states live"
    by (simp add: key_states_def mir_liveness_def)
  have "ran (in_states live) \<subseteq> Pow (read_temps cfg)"
    using sol by (simp add: monotone_problem.flow_solution_def [OF mono] monotone_problem.state_table_def [OF mono] key)
  then have in_states: "x \<subseteq> read_temps cfg" if "in_states live n = Some x" for n x
    using that by (auto simp: ran_def)
  have "finite (mir_live_out live n)" for n
  proof (cases "n \<in> mcfg_reachable cfg")
    case True
    have fin: "finite (successors (mir_graph cfg) n)" by (rule flow_graph.finite_successors [OF G])
    have "solves_at (mir_graph cfg) (mir_liveness cfg) live n"
      by (rule flow_graph.solve_dataflow_solves(3) [OF G live]) (simp add: True)
    then have "out_states live n = Some (\<Union> {x. \<exists>s \<in> successors (mir_graph cfg) n. in_states live s = Some x})"
      by (simp add: solves_at_def evaluate_gather Let_def key_states_def gather_union [OF fin] del: mir_graph_sel)
        (simp add: mir_liveness_def)
    then have "mir_live_out live n \<subseteq> read_temps cfg" using in_states by (auto simp: mir_live_out_def)
    then show ?thesis using finite_read_temps by (rule finite_subset)
  next
    case False
    then have "out_states live n = None"
      using flow_graph.solve_dataflow_solves(2) [OF G live] by (simp add: domIff flip: not_None_eq) blast
    then show ?thesis by (simp add: mir_live_out_def)
  qed
  with live that show thesis by blast
qed

section \<open>Loop weights end\<close>

lemma loop_members_returns:
  assumes fin: "finite (mcfg_reachable cfg)" and tail: "tail \<in> mcfg_reachable cfg"
  shows "\<exists>members'. loop_members cfg tail members = Some members'"
proof -
  let ?R = "mcfg_reachable cfg"
  let ?r = "inv_image (less_than <*lex*> less_than) (\<lambda>(pending, members). (card (?R - members), length pending))
    :: ((block_id list \<times> block_id set) \<times> block_id list \<times> block_id set) set"
  have "\<exists>st. while_option (\<lambda>(pending, _). pending \<noteq> []) (member_step cfg) ([tail], members) = Some st"
  proof (rule wf_rel_while_option_Some [where P = "\<lambda>(pending, _). set pending \<subseteq> ?R" and R = ?r])
    show "wf ?r" by (intro wf_inv_image wf_lex_prod) auto
    show "case ([tail], members) of (pending, _) \<Rightarrow> set pending \<subseteq> ?R" using tail by simp
    fix st :: "block_id list \<times> block_id set"
    assume st: "(case st of (pending, _) \<Rightarrow> set pending \<subseteq> ?R) \<and> (case st of (pending, _) \<Rightarrow> pending \<noteq> [])"
    obtain b rest ms where s: "st = (b # rest, ms)" using st by (cases st; cases "fst st") auto
    show "case member_step cfg st of (pending, _) \<Rightarrow> set pending \<subseteq> ?R"
      using st fin by (auto simp: member_step_def s)
    show "(member_step cfg st, st) \<in> ?r"
    proof (cases "b \<in> ms")
      case True
      then show ?thesis by (simp add: member_step_def s)
    next
      case False
      then have "card (?R - insert b ms) < card (?R - ms)"
        using st s fin by (intro psubset_card_mono) auto
      with False show ?thesis by (simp add: member_step_def s)
    qed
  qed
  then show ?thesis by (auto simp: loop_members_def)
qed

lemma loop_weights_returns:
  assumes fin: "finite (mcfg_reachable cfg)"
  shows "\<exists>weights. loop_weights cfg D = Some weights"
proof -
  have "\<exists>m'. fold_option (add_loop cfg D) es m = Some m'" if "fst ` set es \<subseteq> mcfg_reachable cfg" for es m
    using that
  proof (induction es arbitrary: m)
    case (Cons e es)
    obtain members' where "loop_members cfg (fst e) (insert (snd e) (set_at m (snd e))) = Some members'"
      using loop_members_returns [OF fin, of "fst e" "insert (snd e) (set_at m (snd e))"] Cons.prems by auto
    then obtain m1 where "add_loop cfg D e m = Some m1"
      by (cases e; cases "dominates D (snd e) (fst e)") (auto simp: add_loop_def)
    with Cons show ?case by simp
  qed simp
  moreover have "fst ` set (graph_edges cfg) \<subseteq> mcfg_reachable cfg" using fin by (auto simp: graph_edges_def)
  ultimately obtain m' where "fold_option (add_loop cfg D) (graph_edges cfg) fmempty = Some m'" by blast
  then show ?thesis by (simp add: loop_weights_def)
qed

section \<open>The whole allocation\<close>

lemma assigned_well:
  assumes sym: "symmetric_map (conflicts facts)" and fin: "finite_facts facts"
    and regs: "for_each (choose_register facts) (candidates discard facts) fmempty = Inr regs"
  shows "well_assigned (conflicts facts) (- discard) regs"
proof (rule for_each_invariant [OF regs])
  show "well_assigned (conflicts facts) (- discard) fmempty" by (simp add: well_assigned_def)
  show "well_assigned (conflicts facts) (- discard) regs''"
    if "t \<in> set (candidates discard facts)" "well_assigned (conflicts facts) (- discard) regs'"
      "choose_register facts t regs' = Inr regs''" for t regs' regs''
    using that fin
    by (intro choose_register_assigned [OF sym _ _ that(3) _ that(2)])
      (auto simp: finite_facts_def candidates_def)
qed

lemma well_assigned_verifies:
  assumes well: "well_assigned m (- discarded a) (registers a)" and fin: "\<And>k. finite (set_at m k)"
  shows "verify_allocation a m = Inr ()"
proof -
  have "check_assignment a m t () = Inr ()" if t: "t \<in> fset (fmdom (registers a))" for t
  proof -
    obtain reg where reg: "fmlookup (registers a) t = Some reg" using t by auto
    with well have "reg \<in> set register_pool" "t \<notin> discarded a" "fmlookup m t \<noteq> None"
      "\<forall>u \<in> set_at m t. fmlookup (registers a) u \<noteq> Some reg"
      unfolding well_assigned_def by blast+
    then show ?thesis by (simp add: check_assignment_def reg list_ex_iff fin)
  qed
  then show ?thesis by (simp add: verify_allocation_def for_each_unit)
qed

lemma collected_facts:
  assumes r: "mir_cfg_new r = Some (Inr cfg)" and fin: "\<And>n. finite (mir_live_out live n)"
  shows "symmetric_map (conflicts (collect_facts r cfg live weights))"
    and "grown (conflicts (initial_facts r)) (conflicts (collect_facts r cfg live weights))"
    and "n \<in> mcfg_reachable cfg \<Longrightarrow>
      block_separates (collect_facts r cfg live weights) (cfg_block cfg n) (mir_live_out live n)"
proof -
  have finR: "finite (mcfg_reachable cfg)" using mir_cfg_facts(5) [OF r] by (rule finite_subset) simp
  note c = collect_facts_separates [OF fin finR]
  show "symmetric_map (conflicts (collect_facts r cfg live weights))"
    "grown (conflicts (initial_facts r)) (conflicts (collect_facts r cfg live weights))"
    using c(1) [of r weights] symmetric_initial by (auto simp: facts_grow_def)
  show "n \<in> mcfg_reachable cfg \<Longrightarrow>
      block_separates (collect_facts r cfg live weights) (cfg_block cfg n) (mir_live_out live n)"
    by (rule c(2))
qed

lemma allocate_unfold:
  assumes r: "mir_cfg_new r = Some (Inr cfg)"
  obtains D live weights where "from_graph (mir_graph cfg) = Some D"
    and "\<And>n d. n \<in> mcfg_reachable cfg \<Longrightarrow>
      dominates D d n \<longleftrightarrow> dom_by_paths (mir_graph cfg) (mcfg_entry cfg) d n"
    and "solve_dataflow (mir_graph cfg) (mir_liveness cfg) = Some live"
    and "\<And>n. finite (mir_live_out live n)"
    and "allocate r control_flow = Some (case verify_uses cfg D of
           Inl e \<Rightarrow> Inl e
         | Inr _ \<Rightarrow> assign_registers r control_flow (collect_facts r cfg live weights))"
proof -
  note G = mir_flow_graph [OF r]
  obtain D where D: "from_graph (mir_graph cfg) = Some D"
    "\<forall>n \<in> nodes (mir_graph cfg). \<forall>d. dominates D d n \<longleftrightarrow> dom_by_paths (mir_graph cfg) (mcfg_entry cfg) d n"
    using flow_graph.from_graph_facts [OF G, of "mcfg_entry cfg"] by auto
  obtain live where live: "solve_dataflow (mir_graph cfg) (mir_liveness cfg) = Some live"
    "\<And>n. finite (mir_live_out live n)"
    using mir_liveness_solved [OF r] by blast
  have finR: "finite (mcfg_reachable cfg)" using mir_cfg_facts(5) [OF r] by (rule finite_subset) simp
  obtain weights where weights: "loop_weights cfg D = Some weights"
    using loop_weights_returns [OF finR] by blast
  have "allocate r control_flow = Some (case verify_uses cfg D of
           Inl e \<Rightarrow> Inl e
         | Inr _ \<Rightarrow> assign_registers r control_flow (collect_facts r cfg live weights))"
    by (simp add: allocate_def r D(1) live(1) weights split: sum.split)
  moreover have "\<And>n d. n \<in> mcfg_reachable cfg \<Longrightarrow>
      dominates D d n \<longleftrightarrow> dom_by_paths (mir_graph cfg) (mcfg_entry cfg) d n"
    using D(2) by (simp add: mir_cfg_facts(3) [OF r])
  ultimately show thesis using that D(1) live by blast
qed

lemma allocate_well_assigned:
  assumes a: "allocate r control_flow = Some (Inr a)"
  obtains cfg D live weights where "mir_cfg_new r = Some (Inr cfg)"
    and "\<And>n d. n \<in> mcfg_reachable cfg \<Longrightarrow>
      dominates D d n \<longleftrightarrow> dom_by_paths (mir_graph cfg) (mcfg_entry cfg) d n"
    and "verify_uses cfg D = Inr ()"
    and "solve_dataflow (mir_graph cfg) (mir_liveness cfg) = Some live"
    and "\<And>n. n \<in> mcfg_reachable cfg \<Longrightarrow>
      block_separates (collect_facts r cfg live weights) (cfg_block cfg n) (mir_live_out live n)"
    and "well_assigned (conflicts (collect_facts r cfg live weights)) (- discarded a) (registers a)"
    and "discarded a = discarded_temps r control_flow"
proof -
  obtain built where built: "mir_cfg_new r = Some built"
    using a by (cases "mir_cfg_new r") (auto simp: allocate_def)
  with a obtain cfg where r: "mir_cfg_new r = Some (Inr cfg)"
    by (cases built) (auto simp: allocate_def)
  obtain D live weights where dominated: "\<And>n d. n \<in> mcfg_reachable cfg \<Longrightarrow>
      dominates D d n \<longleftrightarrow> dom_by_paths (mir_graph cfg) (mcfg_entry cfg) d n"
    and live: "solve_dataflow (mir_graph cfg) (mir_liveness cfg) = Some live"
    and fin: "\<And>n. finite (mir_live_out live n)"
    and eq: "allocate r control_flow = Some (case verify_uses cfg D of
           Inl e \<Rightarrow> Inl e
         | Inr _ \<Rightarrow> assign_registers r control_flow (collect_facts r cfg live weights))"
    by (rule allocate_unfold [OF r]) blast
  let ?facts = "collect_facts r cfg live weights"
  have uses: "verify_uses cfg D = Inr ()" and "assign_registers r control_flow ?facts = Inr a"
    using eq a by (auto split: sum.splits)
  then obtain regs where regs: "for_each (choose_register ?facts)
      (candidates (discarded_temps r control_flow) ?facts) fmempty = Inr regs"
    and result: "a = \<lparr>registers = regs, discarded = discarded_temps r control_flow\<rparr>"
    by (auto simp: assign_registers_def Let_def)
  note facts = collected_facts [OF r fin]
  have "well_assigned (conflicts ?facts) (- discarded a) (registers a)"
    using assigned_well [OF facts(1) finite_facts_collected regs] by (simp add: result)
  with that [OF r dominated uses live facts(3)] show thesis by (simp add: result)
qed

section \<open>Definitions reach their uses\<close>

definition defines_temp :: "mir_block \<Rightarrow> temp_id \<Rightarrow> nat option \<Rightarrow> bool" where
  "defines_temp b t position \<longleftrightarrow>
     (case position of
        None \<Rightarrow> t \<in> fst ` set (mir_block_params b)
      | Some p \<Rightarrow> p < length (mir_ops b) \<and> t \<in> fst ` set_option (op_result (mir_ops b ! p)))"

definition sites_sound :: "mir_block list \<Rightarrow> (temp_id, definition_site) fmap \<Rightarrow> bool" where
  "sites_sound bs m \<longleftrightarrow>
     (\<forall>t owner position. fmlookup m t = Some (owner, position) \<longrightarrow>
        (\<exists>b \<in> set bs. mir_block_id b = owner \<and> defines_temp b t position))"

lemma sites_sound_upd:
  "sites_sound bs m \<Longrightarrow> b \<in> set bs \<Longrightarrow> defines_temp b t position \<Longrightarrow>
     sites_sound bs (fmupd t (mir_block_id b, position) m)"
  by (auto simp: sites_sound_def split: if_splits)

lemma sites_sound_define:
  assumes b: "b \<in> set bs"
  shows "sites_sound bs m \<Longrightarrow> sites_sound bs (define_params b m)"
    and "sites_sound bs m \<Longrightarrow> sites_sound bs (define_ops b m)"
proof -
  have "sites_sound bs m \<Longrightarrow> set ps \<subseteq> set (mir_block_params b) \<Longrightarrow>
      sites_sound bs (fold (\<lambda>(t, _). fmupd t (mir_block_id b, None)) ps m)" for ps
  proof (induction ps arbitrary: m)
    case (Cons p ps)
    obtain t ty where p: "p = (t, ty)" by (cases p)
    have "defines_temp b t None" using Cons.prems(2) by (force simp: defines_temp_def p)
    with Cons p b show ?case by (auto intro: sites_sound_upd)
  qed simp
  then show "sites_sound bs m \<Longrightarrow> sites_sound bs (define_params b m)" by (simp add: define_params_def)
  let ?f = "\<lambda>(i, op) m. case op_result op of
      Some (dest, _) \<Rightarrow> fmupd dest (mir_block_id b, Some i) m | None \<Rightarrow> m"
  have "sites_sound bs m \<Longrightarrow> set es \<subseteq> set (enumerate 0 (mir_ops b)) \<Longrightarrow> sites_sound bs (fold ?f es m)" for es
  proof (induction es arbitrary: m)
    case (Cons e es)
    obtain i op where e: "e = (i, op)" by (cases e)
    have at: "i < length (mir_ops b)" "mir_ops b ! i = op"
      using Cons.prems(2) by (auto simp: e in_set_enumerate_eq)
    have "sites_sound bs (?f e m)"
    proof (cases "op_result op")
      case None
      with Cons.prems show ?thesis by (simp add: e)
    next
      case (Some dw)
      obtain dest w where dw: "dw = (dest, w)" by (cases dw)
      have "defines_temp b dest (Some i)" using at Some by (simp add: defines_temp_def dw)
      with Cons.prems Some b show ?thesis by (simp add: e dw sites_sound_upd)
    qed
    with Cons show ?case by simp
  qed simp
  then show "sites_sound bs m \<Longrightarrow> sites_sound bs (define_ops b m)" by (simp add: define_ops_def)
qed

lemma definition_sites_sound:
  assumes r: "mir_cfg_new r = Some (Inr cfg)"
  shows "sites_sound (routine_blocks r) (definition_sites cfg)"
proof -
  have "sites_sound bs m \<Longrightarrow> set cs \<subseteq> set bs \<Longrightarrow>
      sites_sound bs (fold (\<lambda>b m. define_ops b (define_params b m)) cs m)" for bs cs m
    by (induction cs arbitrary: m) (auto intro: sites_sound_define)
  moreover have "cfg_block cfg n \<in> set (routine_blocks r)" if "n \<in> fset (fmdom (mcfg_blocks cfg))" for n
    using that fmlookup_collect_blocks(1) [of "routine_blocks r" n]
    by (intro cfg_block_at(1) [OF r, THEN conjunct1]) (auto simp: mir_cfg_facts(1) [OF r])
  moreover have "sites_sound (routine_blocks r) fmempty" by (simp add: sites_sound_def)
  ultimately show ?thesis unfolding definition_sites_def by (simp add: image_subset_iff)
qed

lemma verify_uses_value:
  assumes ok: "verify_uses cfg D = Inr ()" and fin: "finite (mcfg_reachable cfg)"
    and n: "n \<in> mcfg_reachable cfg" and t: "t \<in> temps_of vs"
    and vs: "(index, vs) \<in> set (enumerate 0 (map op_values (mir_ops (cfg_block cfg n)) @
               [term_values (mir_terminator (cfg_block cfg n))]))"
  obtains owner position where "fmlookup (definition_sites cfg) t = Some (owner, position)"
    and "dominates D owner n" and "owner = n \<Longrightarrow> (case position of Some p \<Rightarrow> p < index | None \<Rightarrow> True)"
proof -
  obtain v where v: "v \<in> set vs" "t \<in> set (value_temps v)" using t by auto
  obtain w where w: "v = MirTemp t w" using v(2) by (cases v; simp)
  have "check_block cfg D (definition_sites cfg) n () = Inr ()"
    using ok n fin by (simp add: verify_uses_def for_each_unit)
  then have "\<forall>e \<in> set (enumerate 0 (map op_values (mir_ops (cfg_block cfg n)) @
               [term_values (mir_terminator (cfg_block cfg n))])).
      (case e of (index, vs) \<Rightarrow> for_each (check_value D (definition_sites cfg) n index) vs) () = Inr ()"
    by (simp only: check_block_def Let_def for_each_unit)
  with vs have "for_each (check_value D (definition_sites cfg) n index) vs () = Inr ()" by force
  with v(1) have "check_value D (definition_sites cfg) n index v () = Inr ()" by (simp add: for_each_unit)
  then obtain owner position where "fmlookup (definition_sites cfg) t = Some (owner, position)"
    "dominates D owner n" "\<not> (owner = n \<and> (case position of Some p \<Rightarrow> index \<le> p | None \<Rightarrow> False))"
    by (auto simp: check_value_def w)
  with that show thesis by (auto split: option.splits)
qed

end
