(* ===== verification/Mir68k_Allocation_Correct.thy ===== *)
theory Mir68k_Allocation_Correct
  imports Mir68k_Allocation
begin

text \<open>
  What the register allocator promises (\<open>src/src/mir68k/allocation.rs\<close>): it always returns, never fails
  its own final check, assigns only pool registers, keeps simultaneously live temporaries apart, and
  accepts only routines in which every read comes after a definition. The sample routine the witnesses
  run on keeps two bytes across a call.
\<close>

section \<open>A sample routine\<close>

definition alloc_address :: "u32 \<Rightarrow> mir_address" where
  "alloc_address n =
     \<lparr>address_base = ExternalBase (ExternalGlobal 0), base_alignment = None, alignment_proof = None,
      address_displacement = n, address_index = None, address_mode = ExternalMode\<rparr>"

definition alloc_call :: mir_op where
  "alloc_call = MirCall (DirectCall 1) None [] None
     \<lparr>call_convention = TargetInternal, call_arguments = [], call_result_home = None, outgoing_bytes = 0,
      net_stack_delta = 0\<rparr>"

definition alloc_block :: mir_block where
  "alloc_block =
     \<lparr>mir_block_id = BlockId 0, mir_block_params = [],
      mir_ops =
        [MirLoad (TempId 0) 1 (alloc_address 0) ByteAccess False,
         MirLoad (TempId 1) 1 (alloc_address 1) ByteAccess False,
         alloc_call,
         MirBinary (TempId 2) 1 False Add (MirTemp (TempId 0) 1) (MirTemp (TempId 1) 1),
         MirBinary (TempId 3) 1 False Sub (MirTemp (TempId 0) 1) (MirTemp (TempId 1) 1),
         MirStore (alloc_address 2) (MirTemp (TempId 2) 1) 1 ByteAccess False,
         MirStore (alloc_address 3) (MirTemp (TempId 3) 1) 1 ByteAccess False],
      mir_terminator = MirReturn None 0\<rparr>"

definition alloc_routine :: mir_routine where
  "alloc_routine =
     \<lparr>routine_entry =
        \<lparr>source_span = None, program_entry = True, external_entry = False, external_symbol = None,
         entry_placement = Relocatable\<rparr>,
      routine_signature =
        \<lparr>signature_identity = 0, signature_params = [], signature_variadic = None, signature_result = None,
         signature_kind = Proc, signature_convention = TargetInternal\<rparr>,
      result_home = None, routine_params = [], param_names = [],
      routine_temps = map (\<lambda>n. (TempId n, condition_type)) [0, 1, 2, 3],
      routine_locals = [], routine_number = 0, routine_name = ''Main'',
      routine_convention = TargetInternal,
      routine_frame =
        \<lparr>frame_objects = [], frame_parameters = [], automatic_bytes = 0, saved_register_bytes = 0,
         spill_bytes = 0, frame_outgoing = \<lparr>outgoing_offset = 0, outgoing_size = 0\<rparr>, frame_extent = 0\<rparr>,
      prologue =
        \<lparr>prologue_frame_pointer = ARegister 5, link_bytes = 0, saved_registers = [], parameter_copies = []\<rparr>,
      epilogue = \<lparr>epilogue_frame_pointer = ARegister 5, unlink_bytes = 0, restored_registers = []\<rparr>,
      routine_blocks = [alloc_block]\<rparr>"

text \<open>The allocator's answer on the sample, computed.\<close>

lemma alloc_sample:
  obtains a where "allocate alloc_routine False = Some (Inr a)"
    and "fmlookup (registers a) (TempId 0) = Some 4" "fmlookup (registers a) (TempId 1) = Some 5"
proof -
  have "map_option (map_sum id (\<lambda>a. map (fmlookup (registers a)) [TempId 0, TempId 1]))
      (allocate alloc_routine False) = Some (Inr [Some 4, Some 5])"
    by code_simp
  then obtain res where res: "allocate alloc_routine False = Some res"
    "map_sum id (\<lambda>a. map (fmlookup (registers a)) [TempId 0, TempId 1]) res = Inr [Some 4, Some 5]"
    by auto
  then obtain a where "res = Inr a" by (cases res) auto
  with res that show thesis by auto
qed

lemma alloc_blocks: "routine_blocks alloc_routine = [alloc_block]"
  by (simp add: alloc_routine_def)

lemma alloc_graph: "map_option (map_sum id mcfg_reachable) (mir_cfg_new alloc_routine) = Some (Inr {BlockId 0})"
  by code_simp

section \<open>The graph\<close>

text \<open>C26: building the control-flow graph always returns. It reports a missing entry exactly for a
  routine without blocks and a missing edge target exactly when a terminator names a block that does not
  exist; otherwise the graph's reachable blocks are those on a path of edges from the first block, its
  adjacency is the edges between them, and the postorder lists each of them once.\<close>

theorem mir_cfg_new_exact:
  "\<exists>built. mir_cfg_new r = Some built \<and>
     (built = Inl NoRoutineEntry \<longleftrightarrow> routine_blocks r = []) \<and>
     (built = Inl MissingEdgeTarget \<longleftrightarrow>
        (\<exists>b \<in> set (routine_blocks r). \<exists>edge \<in> set (mir_edges (mir_terminator b)).
           mir_edge_target edge \<notin> mir_block_id ` set (routine_blocks r))) \<and>
     (built \<noteq> Inl NoRoutineEntry \<and> built \<noteq> Inl MissingEdgeTarget \<longleftrightarrow> (\<exists>cfg. built = Inr cfg)) \<and>
     (\<forall>cfg. built = Inr cfg \<longrightarrow>
        mcfg_entry cfg = mir_block_id (hd (routine_blocks r)) \<and>
        mcfg_reachable cfg = (mir_block_edges (routine_blocks r))\<^sup>* `` {mcfg_entry cfg} \<and>
        (\<forall>m n. n \<in> successors (mir_graph cfg) m \<longleftrightarrow>
           m \<in> mcfg_reachable cfg \<and> (m, n) \<in> mir_block_edges (routine_blocks r)) \<and>
        (\<forall>m n. m \<in> predecessors (mir_graph cfg) n \<longleftrightarrow> n \<in> successors (mir_graph cfg) m) \<and>
        set (mcfg_postorder cfg) = mcfg_reachable cfg \<and> distinct (mcfg_postorder cfg))"
proof -
  have dangling: "(\<exists>b \<in> set (routine_blocks r). \<exists>edge \<in> set (mir_edges (mir_terminator b)).
      mir_edge_target edge \<notin> mir_block_id ` set (routine_blocks r)) \<longleftrightarrow>
      \<not> snd ` mir_block_edges (routine_blocks r) \<subseteq> mir_block_id ` set (routine_blocks r)"
  proof -
    have "snd ` mir_block_edges (routine_blocks r) =
        (\<Union>b \<in> set (routine_blocks r). mir_edge_target ` set (mir_edges (mir_terminator b)))"
      by (force simp: mir_block_edges_def)
    then show ?thesis by (simp only: UN_subset_iff image_subset_iff not_le) blast
  qed
  have exact: "mcfg_entry cfg = mir_block_id (hd (routine_blocks r)) \<and>
        mcfg_reachable cfg = (mir_block_edges (routine_blocks r))\<^sup>* `` {mcfg_entry cfg} \<and>
        (\<forall>m n. n \<in> successors (mir_graph cfg) m \<longleftrightarrow>
           m \<in> mcfg_reachable cfg \<and> (m, n) \<in> mir_block_edges (routine_blocks r)) \<and>
        (\<forall>m n. m \<in> predecessors (mir_graph cfg) n \<longleftrightarrow> n \<in> successors (mir_graph cfg) m) \<and>
        set (mcfg_postorder cfg) = mcfg_reachable cfg \<and> distinct (mcfg_postorder cfg)"
    if "mir_cfg_new r = Some (Inr cfg)" for cfg
    using mir_cfg_facts [OF that] flow_graph.predecessors_iff [OF mir_flow_graph [OF that]] by simp
  show ?thesis
  proof (cases "routine_blocks r")
    case Nil
    then show ?thesis by (simp add: mir_cfg_new_def)
  next
    case (Cons b bs)
    show ?thesis
    proof (cases "snd ` mir_block_edges (routine_blocks r) \<subseteq> mir_block_id ` set (routine_blocks r)")
      case True
      obtain cfg where built: "mir_cfg_new r = Some (Inr cfg)"
        by (rule mir_cfg_built [OF Cons True]) blast
      with exact [OF built] True Cons show ?thesis unfolding dangling by simp
    next
      case False
      with mir_cfg_missing [OF Cons False] Cons show ?thesis unfolding dangling by simp
    qed
  qed
qed

theorem mir_cfg_new_exact_witness:
  "\<exists>cfg. mir_cfg_new alloc_routine = Some (Inr cfg) \<and> set (mcfg_postorder cfg) = {BlockId 0}"
proof -
  obtain built where built: "mir_cfg_new alloc_routine = Some built"
    "map_sum id mcfg_reachable built = Inr {BlockId 0}"
    using alloc_graph by auto
  then obtain cfg where "built = Inr cfg" by (cases built) auto
  with built mir_cfg_new_exact [of alloc_routine] show ?thesis by auto
qed
section \<open>Termination and errors\<close>

lemma mir_cfg_outcomes:
  "\<exists>built. mir_cfg_new r = Some built \<and>
     (built = Inl NoRoutineEntry \<or> built = Inl MissingEdgeTarget \<or> (\<exists>cfg. built = Inr cfg))"
proof (cases "routine_blocks r")
  case Nil
  then show ?thesis by (simp add: mir_cfg_new_def)
next
  case (Cons b bs)
  show ?thesis
  proof (cases "snd ` mir_block_edges (routine_blocks r) \<subseteq> mir_block_id ` set (routine_blocks r)")
    case True
    show ?thesis by (rule mir_cfg_built [OF Cons True]) blast
  next
    case False
    with mir_cfg_missing [OF Cons False] show ?thesis by simp
  qed
qed

lemma for_each_unit_error: "for_each f xs () = Inl e \<Longrightarrow> \<exists>x \<in> set xs. f x () = Inl e"
  using for_each_error [where I = "\<lambda>_. True"] by force

lemma verify_uses_error:
  assumes "verify_uses cfg D = Inl e"
  shows "e = UndefinedNativeValue \<or> e \<in> range UndominatedUse"
proof -
  from for_each_unit_error [OF assms [unfolded verify_uses_def]]
  obtain n where n: "check_block cfg D (definition_sites cfg) n () = Inl e" by blast
  from for_each_unit_error [OF n [unfolded check_block_def Let_def]]
  obtain index vs where vs: "for_each (check_value D (definition_sites cfg) n index) vs () = Inl e"
    by (auto split: prod.splits)
  from for_each_unit_error [OF vs]
  obtain v where v: "check_value D (definition_sites cfg) n index v () = Inl e" by blast
  obtain t w where "v = MirTemp t w" using v by (cases v) (simp_all add: check_value_def)
  with v show ?thesis
    by (cases "fmlookup (definition_sites cfg) t") (auto simp: check_value_def check_eq_Inl split: prod.splits)
qed

definition scores_in :: "temp_id set \<Rightarrow> alloc_facts \<Rightarrow> bool" where
  "scores_in ts f \<longleftrightarrow> (\<forall>t. fmlookup (scores f) t \<noteq> None \<longrightarrow> t \<in> ts)"

lemma fold_keeps: "(\<And>x f. g (h x f) = g f) \<Longrightarrow> g (fold h xs f) = g f"
  by (induction xs arbitrary: f) auto

lemma scores_kept:
  "scores (edge_facts cfg e f) = scores f"
  "scores (snd (scan_op op (active, f))) = scores f"
  "scores (scan_params b active f) = scores f"
proof -
  show "scores (edge_facts cfg e f) = scores f"
    unfolding edge_facts_def
    by (rule fold_keeps) (auto simp: edge_value_def Let_def split: prod.splits mir_value.splits)
  show "scores (snd (scan_op op (active, f))) = scores f" by (simp add: scan_op_eq)
  show "scores (scan_params b active f) = scores f"
    unfolding scan_params_def by (rule fold_keeps) auto
qed

lemma scores_in_block:
  assumes f: "scores_in ts f" and b: "temps_of (block_values (cfg_block cfg n)) \<subseteq> ts"
  shows "scores_in ts (block_facts cfg live weights n f)"
proof -
  let ?b = "cfg_block cfg n"
  define weight where "weight = (case fmlookup weights n of None \<Rightarrow> 1 | Some w \<Rightarrow> w)"
  define g where "g = fold (edge_facts cfg) (mir_edges (mir_terminator ?b))
    (f\<lparr>across := across f \<union> mir_live_in live n,
       scores := fold (score_value weight) (block_values ?b) (scores f)\<rparr>)"
  obtain active h where
    s: "fold scan_op (rev (mir_ops ?b)) (add_uses (mir_live_out live n) (term_values (mir_terminator ?b)), g) = (active, h)"
    by fastforce
  have "scores (snd (fold scan_op os st)) = scores (snd st)" for os st
    by (rule fold_keeps) (metis scores_kept(2) prod.collapse)
  then have "scores h = scores g" using s by (metis snd_conv)
  moreover have "scores g = fold (score_value weight) (block_values ?b) (scores f)"
    unfolding g_def by (subst fold_keeps [where g = scores]) (simp_all add: scores_kept)
  moreover have "block_facts cfg live weights n f = scan_params ?b active h"
    by (simp only: block_facts_def Let_def weight_def [symmetric] g_def [symmetric] s prod.case)
  ultimately have "scores (block_facts cfg live weights n f) = fold (score_value weight) (block_values ?b) (scores f)"
    by (simp add: scores_kept)
  moreover have "t \<in> ts" if "fmlookup (fold (score_value weight) vs m) t \<noteq> None"
    "\<forall>t. fmlookup m t \<noteq> None \<longrightarrow> t \<in> ts" "temps_of vs \<subseteq> ts" for vs m t
    using that
  proof (induction vs arbitrary: m)
    case (Cons v vs)
    have "\<forall>t. fmlookup (score_value weight v m) t \<noteq> None \<longrightarrow> t \<in> ts"
      using Cons.prems(2,3) by (cases v) (auto simp: score_value_def split: if_splits)
    with Cons show ?case by auto
  qed simp
  ultimately show ?thesis using f b by (auto simp only: scores_in_def)
qed

lemma collected_scores:
  assumes r: "mir_cfg_new r = Some (Inr cfg)"
  shows "scores_in (temps_of (routine_values r)) (collect_facts r cfg live weights)"
proof -
  let ?ts = "temps_of (routine_values r)"
  have step: "scores_in ?ts (block_facts cfg live weights n f)"
    if "scores_in ?ts f" "n \<in> mcfg_reachable cfg" for n f
  proof (rule scores_in_block [OF that(1)])
    have "cfg_block cfg n \<in> set (routine_blocks r)"
      using cfg_block_at(1) [OF r] mir_cfg_facts(5) [OF r] that(2) by blast
    then show "temps_of (block_values (cfg_block cfg n)) \<subseteq> ?ts" by (auto simp: routine_values_def)
  qed
  have "scores_in ?ts (fold (block_facts cfg live weights) ns f)"
    if "scores_in ?ts f" "set ns \<subseteq> mcfg_reachable cfg" for ns f
    using that
  proof (induction ns arbitrary: f)
    case (Cons n ns)
    have "scores_in ?ts (block_facts cfg live weights n f)" using Cons.prems by (intro step) auto
    from Cons.IH [OF this] Cons.prems(2) show ?case by simp
  qed simp
  moreover have "scores_in ?ts (initial_facts r)" by (simp add: scores_in_def initial_facts_def)
  moreover have "finite (mcfg_reachable cfg)" using mir_cfg_facts(5) [OF r] by (rule finite_subset) simp
  ultimately show ?thesis by (simp add: collect_facts_def)
qed

lemma declared_conflicts: "fst ` set (routine_temps r) \<subseteq> {t. fmlookup (conflicts (initial_facts r)) t \<noteq> None}"
proof -
  have "fmlookup m t \<noteq> None \<or> t \<in> fst ` set ts \<Longrightarrow> fmlookup (fold (\<lambda>(t, _). fmupd t {}) ts m) t \<noteq> None"
    for ts :: "(temp_id \<times> nir_type) list" and m :: "(temp_id, temp_id set) fmap" and t
    by (induction ts arbitrary: m) auto
  from this [of fmempty _ "routine_temps r"] show ?thesis by (auto simp: initial_facts_def)
qed

lemma assign_registers_outcomes:
  assumes sym: "symmetric_map (conflicts facts)" and fin: "finite_facts facts"
  shows "(\<exists>a. assign_registers r control_flow facts = Inr a) \<or>
    assign_registers r control_flow facts = Inl AllocationPanic \<and>
    (\<exists>t. fmlookup (scores facts) t \<noteq> None \<and> fmlookup (conflicts facts) t = None)"
proof (cases "for_each (choose_register facts) (candidates (discarded_temps r control_flow) facts) fmempty")
  case (Inl e)
  from for_each_error [OF this, of "\<lambda>_. True"] obtain t regs where
    t: "t \<in> set (candidates (discarded_temps r control_flow) facts)" "choose_register facts t regs = Inl e" by blast
  then have "e = AllocationPanic" "fmlookup (conflicts facts) t = None"
    by (auto simp: choose_register_def result_errors Let_def)
  moreover have "fmlookup (scores facts) t \<noteq> None"
    using t(1) by (auto simp: candidates_def score_of_def split: option.splits)
  ultimately show ?thesis using Inl by (auto simp: assign_registers_def Let_def)
next
  case (Inr regs)
  have "verify_allocation \<lparr>registers = regs, discarded = discarded_temps r control_flow\<rparr> (conflicts facts) = Inr ()"
    using assigned_well [OF sym fin Inr] fin by (intro well_assigned_verifies) (simp_all add: finite_facts_def)
  with Inr show ?thesis by (simp add: assign_registers_def Let_def)
qed

text \<open>C25: register allocation returns for every routine, and its error is one of these: the routine has
  no entry, it has a dangling edge, it reads a temporary that is not defined, or one whose definition does not
  dominate the read; or, only when the routine reads a temporary it does not declare, the panic of the look-up
  of that temporary's conflicts. Its own final check of the assignment never fails.\<close>

theorem allocate_returns:
  "\<exists>res. allocate r control_flow = Some res \<and>
    (case res of
       Inr a \<Rightarrow> True
     | Inl e \<Rightarrow>
         e \<in> {NoRoutineEntry, MissingEdgeTarget, UndefinedNativeValue} \<union> range UndominatedUse \<or>
         e = AllocationPanic \<and> (\<exists>t. t \<in> temps_of (routine_values r) - fst ` set (routine_temps r)))"
proof -
  obtain built where built: "mir_cfg_new r = Some built"
    "built = Inl NoRoutineEntry \<or> built = Inl MissingEdgeTarget \<or> (\<exists>cfg. built = Inr cfg)"
    using mir_cfg_outcomes by blast
  show ?thesis
  proof (cases built)
    case (Inl e)
    with built show ?thesis by (auto simp: allocate_def)
  next
    case (Inr cfg)
    then have r: "mir_cfg_new r = Some (Inr cfg)" using built by simp
    obtain D live weights where fin: "\<And>n. finite (mir_live_out live n)"
      and eq: "allocate r control_flow = Some (case verify_uses cfg D of
           Inl e \<Rightarrow> Inl e
         | Inr _ \<Rightarrow> assign_registers r control_flow (collect_facts r cfg live weights))"
      by (rule allocate_unfold [OF r]) blast
    let ?facts = "collect_facts r cfg live weights"
    show ?thesis
    proof (cases "verify_uses cfg D")
      case (Inl e)
      have "e \<in> {UndefinedNativeValue} \<union> range UndominatedUse"
        using verify_uses_error [OF Inl] by blast
      with Inl eq show ?thesis by auto
    next
      case (Inr u)
      note facts = collected_facts [OF r fin]
      have undeclared: "t \<in> temps_of (routine_values r) - fst ` set (routine_temps r)"
        if "fmlookup (scores ?facts) t \<noteq> None" "fmlookup (conflicts ?facts) t = None" for t
      proof -
        have "t \<in> temps_of (routine_values r)" using collected_scores [OF r] that(1) by (auto simp: scores_in_def)
        moreover have "fmlookup (conflicts (initial_facts r)) t = None"
          using facts(2) that(2) unfolding grown_def by blast
        ultimately show ?thesis using declared_conflicts by blast
      qed
      from assign_registers_outcomes [OF facts(1) finite_facts_collected] undeclared
      have "(\<exists>a. assign_registers r control_flow ?facts = Inr a) \<or>
          assign_registers r control_flow ?facts = Inl AllocationPanic \<and>
          (\<exists>t. t \<in> temps_of (routine_values r) - fst ` set (routine_temps r))" by blast
      moreover have "allocate r control_flow = Some (assign_registers r control_flow ?facts)" using Inr eq by simp
      ultimately show ?thesis by (elim disjE exE conjE) (simp_all, blast)
    qed
  qed
qed

theorem allocate_returns_witness: "\<exists>res. allocate alloc_routine True = Some res"
  using allocate_returns [of alloc_routine True] by blast

section \<open>Registers\<close>

text \<open>C23: an allocation uses only the registers D4 to D7, gives none to a discarded temporary, and never
  gives one register to two temporaries at odds: where an operation of a reachable block defines a
  temporary, no other temporary that some path still reads afterwards has its register; and where a block
  defines its parameters, no other temporary that is live in the block has the register of one of them.\<close>

theorem allocate_separates:
  assumes distinct: "distinct (map mir_block_id (routine_blocks r))"
    and a: "allocate r control_flow = Some (Inr a)"
    and b: "b \<in> set (routine_blocks r)"
    and reach: "(mir_block_id (hd (routine_blocks r)), mir_block_id b) \<in> (mir_block_edges (routine_blocks r))\<^sup>*"
    and u: "fmlookup (registers a) u = Some reg"
  shows "reg \<in> {4, 5, 6, 7} \<and> u \<notin> discarded a \<and>
    (\<forall>i dest w. i < length (mir_ops b) \<and> op_result (mir_ops b ! i) = Some (dest, w) \<and>
       mir_live r u b (Suc i) \<and> u \<noteq> dest \<longrightarrow> fmlookup (registers a) dest \<noteq> Some reg) \<and>
    (\<forall>dest. dest \<in> fst ` set (mir_block_params b) \<and> mir_live r u b 0 \<and> u \<noteq> dest \<longrightarrow>
       fmlookup (registers a) dest \<noteq> Some reg)"
proof -
  obtain cfg live weights where r: "mir_cfg_new r = Some (Inr cfg)"
    and live: "solve_dataflow (mir_graph cfg) (mir_liveness cfg) = Some live"
    and separates: "\<And>n. n \<in> mcfg_reachable cfg \<Longrightarrow>
      block_separates (collect_facts r cfg live weights) (cfg_block cfg n) (mir_live_out live n)"
    and well: "well_assigned (conflicts (collect_facts r cfg live weights)) (- discarded a) (registers a)"
    by (rule allocate_well_assigned [OF a]) blast
  have pool: "reg \<in> {4, 5, 6, 7}" "u \<notin> discarded a"
    using well u by (auto simp: well_assigned_def register_pool_def)
  have n: "mir_block_id b \<in> mcfg_reachable cfg"
    using reach by (simp add: mir_cfg_facts(2,4) [OF r])
  have block: "cfg_block cfg (mir_block_id b) = b" by (rule cfg_block_at(2) [OF r distinct b])
  note sep = separates [OF n, unfolded block block_separates_def]
  note active = mir_live_active [OF r live distinct _ b n]
  have apart: "fmlookup (registers a) dest \<noteq> Some reg"
    if "u \<in> set_at (conflicts (collect_facts r cfg live weights)) dest" for dest
    using well u that unfolding well_assigned_def by blast
  have ops: "fmlookup (registers a) dest \<noteq> Some reg"
    if "i < length (mir_ops b)" "op_result (mir_ops b ! i) = Some (dest, w)" "mir_live r u b (Suc i)" "u \<noteq> dest"
    for i dest w by (rule apart) (use sep active that in blast)
  have params: "fmlookup (registers a) dest \<noteq> Some reg"
    if "dest \<in> fst ` set (mir_block_params b)" "mir_live r u b 0" "u \<noteq> dest"
    for dest by (rule apart) (use sep active that in blast)
  show ?thesis using ops params by (intro conjI allI impI pool) (elim conjE, blast)+
qed

section \<open>Definitions\<close>

lemma mir_live_undefined:
  assumes r: "mir_cfg_new r = Some (Inr cfg)"
    and dominated: "\<And>n d. n \<in> mcfg_reachable cfg \<Longrightarrow>
      dominates D d n \<longleftrightarrow> dom_by_paths (mir_graph cfg) (mcfg_entry cfg) d n"
    and ok: "verify_uses cfg D = Inr ()"
    and distinct: "distinct (map mir_block_id (routine_blocks r))"
  shows "mir_live r t b i \<Longrightarrow> b \<in> set (routine_blocks r) \<Longrightarrow> mir_block_id b \<in> mcfg_reachable cfg \<Longrightarrow>
    root_path (mir_graph cfg) (mcfg_entry cfg) xs (mir_block_id b) \<Longrightarrow>
    (\<And>c p. c \<in> set (routine_blocks r) \<Longrightarrow> mir_block_id c \<in> set xs \<Longrightarrow> c \<noteq> b \<Longrightarrow> \<not> defines_temp c t p) \<Longrightarrow>
    \<not> defines_temp b t None \<Longrightarrow> (\<And>k. k < i \<Longrightarrow> \<not> defines_temp b t (Some k)) \<Longrightarrow> False"
proof (induction arbitrary: xs rule: mir_live.induct)
  have finR: "finite (mcfg_reachable cfg)" using mir_cfg_facts(5) [OF r] by (rule finite_subset) simp
  have read: False
    if b: "b \<in> set (routine_blocks r)" "mir_block_id b \<in> mcfg_reachable cfg"
      and path: "root_path (mir_graph cfg) (mcfg_entry cfg) xs (mir_block_id b)"
      and others: "\<And>c p. c \<in> set (routine_blocks r) \<Longrightarrow> mir_block_id c \<in> set xs \<Longrightarrow> c \<noteq> b \<Longrightarrow> \<not> defines_temp c t p"
      and free: "\<not> defines_temp b t None" "\<And>k. k < i \<Longrightarrow> \<not> defines_temp b t (Some k)"
      and i: "(i, vs) \<in> set (enumerate 0 (map op_values (mir_ops b) @ [term_values (mir_terminator b)]))"
      and t: "t \<in> temps_of vs" for b xs i vs
  proof -
    have block: "cfg_block cfg (mir_block_id b) = b" by (rule cfg_block_at(2) [OF r distinct b(1)])
    obtain owner position where site: "fmlookup (definition_sites cfg) t = Some (owner, position)"
      and dom: "dominates D owner (mir_block_id b)"
      and before: "owner = mir_block_id b \<Longrightarrow> (case position of Some p \<Rightarrow> p < i | None \<Rightarrow> True)"
      by (rule verify_uses_value [OF ok finR b(2) t]) (use i block in auto)
    obtain c where c: "c \<in> set (routine_blocks r)" "mir_block_id c = owner" "defines_temp c t position"
      using definition_sites_sound [OF r] site unfolding sites_sound_def by blast
    have "owner \<in> set xs" using dom path by (auto simp: dominated [OF b(2)] dom_by_paths_def)
    with others c have "c = b" by blast
    with c before free show False by (cases position) auto
  qed
  {
    case (used i b)
    then have "(i, op_values (mir_ops b ! i)) \<in>
        set (enumerate 0 (map op_values (mir_ops b) @ [term_values (mir_terminator b)]))"
      by (auto simp: in_set_enumerate_eq nth_append)
    from read [OF used(3-8) this used(2)] show ?case .
  next
    case (passed i b)
    show ?case
      by (rule passed.IH [OF passed(5-8)])
        (use passed(2,9,10) in \<open>auto simp: defines_temp_def less_Suc_eq\<close>)
  next
    case (ended b)
    have "(length (mir_ops b), term_values (mir_terminator b)) \<in>
        set (enumerate 0 (map op_values (mir_ops b) @ [term_values (mir_terminator b)]))"
      by (auto simp: in_set_enumerate_eq nth_append)
    from read [OF ended(2-7) this ended(1)] show ?case .
  next
    case (edge c b)
    note s = mir_successors [OF r edge(6,7,2)]
    have path: "root_path (mir_graph cfg) (mcfg_entry cfg) (mir_block_id c # xs) (mir_block_id c)"
      using edge(8) s(1) by (intro root_path.step) simp_all
    have b: "\<not> defines_temp b t p" for p
      using edge(10,11) by (cases p) (auto simp: defines_temp_def)
    show ?case
    proof (rule edge.IH [OF edge(1) s(2) path])
      show "\<not> defines_temp d t p"
        if "d \<in> set (routine_blocks r)" "mir_block_id d \<in> set (mir_block_id c # xs)" "d \<noteq> c" for d p
      proof (cases "d = b")
        case False
        have "mir_block_id d \<noteq> mir_block_id c"
          using that(1,3) edge(1) distinct by (auto simp: distinct_map inj_on_def)
        with that edge(9) False show ?thesis by auto
      qed (use b in simp)
      show "\<not> defines_temp c t None" using edge(3) by (simp add: defines_temp_def)
    qed simp
  }
qed

text \<open>C24: a routine is allocated only when every read of a temporary comes after its definition: on no
  path from the start of the routine is a temporary, other than a parameter of the entry block, read
  before it is defined.\<close>

theorem allocate_defined_before_use:
  assumes distinct: "distinct (map mir_block_id (routine_blocks r))"
    and a: "allocate r control_flow = Some (Inr a)"
    and t: "t \<notin> fst ` set (mir_block_params (hd (routine_blocks r)))"
  shows "\<not> mir_live r t (hd (routine_blocks r)) 0"
proof
  assume live: "mir_live r t (hd (routine_blocks r)) 0"
  obtain cfg D where r: "mir_cfg_new r = Some (Inr cfg)"
    and dominated: "\<And>n d. n \<in> mcfg_reachable cfg \<Longrightarrow>
      dominates D d n \<longleftrightarrow> dom_by_paths (mir_graph cfg) (mcfg_entry cfg) d n"
    and ok: "verify_uses cfg D = Inr ()"
    by (rule allocate_well_assigned [OF a]) blast
  let ?b = "hd (routine_blocks r)"
  have b: "?b \<in> set (routine_blocks r)" using mir_cfg_cases(1) [OF r] by auto
  have n: "mir_block_id ?b \<in> mcfg_reachable cfg" by (simp add: mir_cfg_facts(2,4) [OF r])
  have path: "root_path (mir_graph cfg) (mcfg_entry cfg) [mir_block_id ?b] (mir_block_id ?b)"
    using n by (intro root_path.start) (simp_all add: mir_cfg_facts(2,3) [OF r])
  have others: "\<not> defines_temp c t p" if "c \<in> set (routine_blocks r)" "mir_block_id c \<in> set [mir_block_id ?b]" "c \<noteq> ?b"
    for c p
    using that b distinct by (auto simp: distinct_map inj_on_def)
  have "\<not> defines_temp ?b t None" using t by (simp add: defines_temp_def)
  from mir_live_undefined [OF r dominated ok distinct live b n path others this] show False by simp
qed

theorem allocate_separates_witness:
  "\<exists>a. allocate alloc_routine False = Some (Inr a) \<and>
     fmlookup (registers a) (TempId 0) = Some 4 \<and> fmlookup (registers a) (TempId 1) \<noteq> Some 4"
proof -
  obtain a where a: "allocate alloc_routine False = Some (Inr a)" "fmlookup (registers a) (TempId 0) = Some 4"
    by (rule alloc_sample) blast
  have d: "distinct (map mir_block_id (routine_blocks alloc_routine))" by (simp add: alloc_blocks)
  have l3: "mir_live alloc_routine (TempId 0) alloc_block (Suc (Suc (Suc 0)))"
    by (rule mir_live.used) (simp_all add: alloc_block_def)
  have l2: "mir_live alloc_routine (TempId 0) alloc_block (Suc (Suc 0))"
    by (rule mir_live.passed [OF _ _ l3]) (simp_all add: alloc_block_def alloc_call_def)
  have op1: "Suc 0 < length (mir_ops alloc_block)" "op_result (mir_ops alloc_block ! Suc 0) = Some (TempId 1, 1)"
    by (simp_all add: alloc_block_def)
  have b: "alloc_block \<in> set (routine_blocks alloc_routine)" by (simp add: alloc_blocks)
  have reach: "(mir_block_id (hd (routine_blocks alloc_routine)), mir_block_id alloc_block) \<in>
      (mir_block_edges (routine_blocks alloc_routine))\<^sup>*"
    by (simp add: alloc_blocks)
  have "TempId 0 \<noteq> TempId 1" by simp
  with allocate_separates [OF d a(1) b reach a(2)] op1 l2
  have "fmlookup (registers a) (TempId 1) \<noteq> Some 4" by blast
  with a show ?thesis by blast
qed

theorem allocate_defined_before_use_witness: "\<not> mir_live alloc_routine (TempId 0) alloc_block 0"
proof -
  obtain a where a: "allocate alloc_routine False = Some (Inr a)" by (rule alloc_sample) blast
  have d: "distinct (map mir_block_id (routine_blocks alloc_routine))" by (simp add: alloc_blocks)
  have "TempId 0 \<notin> fst ` set (mir_block_params (hd (routine_blocks alloc_routine)))"
    by (simp add: alloc_blocks alloc_block_def)
  from allocate_defined_before_use [OF d a this] show ?thesis by (simp add: alloc_blocks)
qed

end
