(* ===== verification/O65_Profile.thy ===== *)
theory O65_Profile
  imports Prelude
begin

text \<open>
  Application contracts of the experimental o65 format (\<open>src/src/mir65816/o65/profile.rs\<close>): the sections,
  relocation encodings and targets, the callable contracts and their verification, and symbol names. A
  Rust \<open>String\<close> is the list of its UTF-8 bytes, so \<open>from_utf8\<close> is a test. Limits that the code compares
  with sizes are integers. Lemmas: the byte codes of sections and encodings round trip; the arguments
  of a verified contract are laid out in order without overlap.
\<close>

text \<open>The errors of the source are messages; an out-of-range index or slice panics, and so does a \<open>u32\<close> sum
  that overflows (the build with overflow checks).\<close>

datatype o65_error = Message string | O65Panic

definition add_u32 :: "u32 \<Rightarrow> u32 \<Rightarrow> o65_error + u32" where
  "add_u32 a b = ok_or O65Panic (checked_add32 a b)"

lemma add_u32_eq_Inr [simp, result_simps]:
  "add_u32 a b = Inr c \<longleftrightarrow> unat a + unat b < 2 ^ 32 \<and> c = a + b"
  by (auto simp: add_u32_def checked_add32_def)

lemma add_u32_eq_Inl: "add_u32 a b = Inl e \<longleftrightarrow> 2 ^ 32 \<le> unat a + unat b \<and> e = O65Panic"
  by (auto simp: add_u32_def checked_add32_def)

lemma add_u32_fits: "unat a + unat b < 2 ^ 32 \<Longrightarrow> add_u32 a b = Inr (a + b)"
  by simp

lemma unat_sum: "unat a + unat b < 2 ^ 32 \<Longrightarrow> unat (a + b) = unat a + unat b" for a b :: u32
  by (simp add: unat_word_ariths)

section \<open>Names and limits\<close>

definition ascii :: "string \<Rightarrow> bytes" where
  "ascii s = map of_char s"

definition overflow_name :: bytes where "overflow_name = ascii ''__a816_stack_overflow_v2''"
definition arithmetic_fault_name :: bytes where "arithmetic_fault_name = ascii ''__a816_arithmetic_fault_v2''"
definition entry_name :: bytes where "entry_name = ascii ''__a816_entry_v2''"
definition descriptor_name :: bytes where "descriptor_name = ascii ''__a816_o65_profile_v1''"
definition descriptor_v2_name :: bytes where "descriptor_v2_name = ascii ''__a816_o65_profile_v2''"
definition compact_descriptor_name :: bytes where
  "compact_descriptor_name = ascii ''__a816_o65_compact_v3''"
definition reserved_prefix :: bytes where "reserved_prefix = ascii ''__a816_o65_''"
definition abi_name :: bytes where "abi_name = ascii ''action65816.native.v2''"

definition limit24 :: u32 where "limit24 = 0x1000000"
definition max_items :: int where "max_items = 1000000"
definition max_file :: int where "max_file = 128 * 1024 * 1024"
definition max_string :: int where "max_string = 4096"

definition is_alphabetic :: "u8 \<Rightarrow> bool" where
  "is_alphabetic b \<longleftrightarrow> 0x41 \<le> b \<and> b \<le> 0x5A \<or> 0x61 \<le> b \<and> b \<le> 0x7A"

definition is_digit :: "u8 \<Rightarrow> bool" where
  "is_digit b \<longleftrightarrow> 0x30 \<le> b \<and> b \<le> 0x39"

definition valid_name :: "bytes \<Rightarrow> bool" where
  "valid_name s \<longleftrightarrow>
     s \<noteq> [] \<and> int (length s) \<le> max_string \<and>
     list_all (\<lambda>(i, b). b = 0x5F \<or> is_alphabetic b \<or> 0 < i \<and> is_digit b) (enumerate 0 s)"

text \<open>Well-formed UTF-8, as \<open>String::from_utf8\<close> checks it.\<close>

definition continuation :: "u8 \<Rightarrow> bool" where
  "continuation b \<longleftrightarrow> 0x80 \<le> b \<and> b \<le> 0xBF"

definition utf8_width :: "u8 \<Rightarrow> nat" where
  "utf8_width b =
     (if b < 0x80 then 1
      else if 0xC2 \<le> b \<and> b \<le> 0xDF then 2
      else if 0xE0 \<le> b \<and> b \<le> 0xEF then 3
      else if 0xF0 \<le> b \<and> b \<le> 0xF4 then 4
      else 0)"

definition utf8_second :: "u8 \<Rightarrow> u8 \<Rightarrow> bool" where
  "utf8_second a b \<longleftrightarrow>
     continuation b \<and>
     (a = 0xE0 \<longrightarrow> 0xA0 \<le> b) \<and> (a = 0xED \<longrightarrow> b \<le> 0x9F) \<and>
     (a = 0xF0 \<longrightarrow> 0x90 \<le> b) \<and> (a = 0xF4 \<longrightarrow> b \<le> 0x8F)"

fun utf8_valid :: "bytes \<Rightarrow> bool" where
  "utf8_valid [] = True"
| "utf8_valid (a # rest) =
     (if utf8_width a = 1 then utf8_valid rest
      else if utf8_width a = 2 then
        (case rest of b # rest' \<Rightarrow> utf8_second a b \<and> utf8_valid rest' | _ \<Rightarrow> False)
      else if utf8_width a = 3 then
        (case rest of b # c # rest' \<Rightarrow> utf8_second a b \<and> continuation c \<and> utf8_valid rest' | _ \<Rightarrow> False)
      else if utf8_width a = 4 then
        (case rest of
           b # c # d # rest' \<Rightarrow> utf8_second a b \<and> continuation c \<and> continuation d \<and> utf8_valid rest'
         | _ \<Rightarrow> False)
      else False)"

section \<open>Sections, encodings and relocations\<close>

datatype o65_section = TextSection | DataSection | BssSection

fun section_byte :: "o65_section \<Rightarrow> u8" where
  "section_byte TextSection = 2"
| "section_byte DataSection = 3"
| "section_byte BssSection = 4"

fun section_index :: "o65_section \<Rightarrow> nat" where
  "section_index TextSection = 0"
| "section_index DataSection = 1"
| "section_index BssSection = 2"

definition section_from_byte :: "u8 \<Rightarrow> o65_error + o65_section" where
  "section_from_byte v =
     (if v = 2 then Inr TextSection else if v = 3 then Inr DataSection else if v = 4 then Inr BssSection
      else Inl (Message ''invalid profile section''))"

record o65_location =
  location_section :: "o65_section option"
  location_offset :: u32

datatype o65_encoding = LowByte | HighByte | WordField | BankByte | LongField

fun encoding_byte :: "o65_encoding \<Rightarrow> u8" where
  "encoding_byte LowByte = 0x20"
| "encoding_byte HighByte = 0x40"
| "encoding_byte WordField = 0x80"
| "encoding_byte BankByte = 0xA0"
| "encoding_byte LongField = 0xC0"

fun o65_width :: "o65_encoding \<Rightarrow> u32" where
  "o65_width WordField = 2"
| "o65_width LongField = 3"
| "o65_width _ = 1"

definition encoding_from_byte :: "u8 \<Rightarrow> o65_error + o65_encoding" where
  "encoding_from_byte v =
     (if v = 0x20 then Inr LowByte else if v = 0x40 then Inr HighByte else if v = 0x80 then Inr WordField
      else if v = 0xA0 then Inr BankByte else if v = 0xC0 then Inr LongField
      else Inl (Message ''unsupported o65 relocation type''))"

datatype o65_reference = SectionRef o65_section | ImportRef u32

record o65_relocation =
  site_section :: o65_section
  site_offset :: u32
  site_encoding :: o65_encoding
  site_target :: o65_reference
  site_value :: u32
  zero_extend :: bool

section \<open>Contracts\<close>

record o65_argument =
  argument_offset :: u32
  argument_size :: u32
  argument_alignment :: u32

record o65_contract =
  contract_abi :: bytes
  contract_signature :: u32
  contract_arguments :: "o65_argument list"
  contract_result :: u8
  contract_incoming :: u32
  contract_stack_peak :: u16
  contract_irq_effect :: u8
  contract_kind :: u8
  contract_domains :: u8

definition overflow_contract :: o65_contract where
  "overflow_contract =
     \<lparr>contract_abi = abi_name, contract_signature = 0, contract_arguments = [], contract_result = 0,
      contract_incoming = 0, contract_stack_peak = 0, contract_irq_effect = 0, contract_kind = 1,
      contract_domains = 3\<rparr>"

definition arithmetic_fault_contract :: o65_contract where
  "arithmetic_fault_contract = overflow_contract\<lparr>contract_kind := 2\<rparr>"

definition check_argument :: "o65_argument \<Rightarrow> u32 \<Rightarrow> o65_error + u32" where
  "check_argument a next_free =
     (let size = argument_size a; alignment = argument_alignment a in
      bind_result (check (\<not> (\<not> (1 \<le> size \<and> size \<le> 4) \<or>
                             alignment \<notin> {1, 2} \<or>
                             size = 1 \<and> alignment \<noteq> 1 \<or>
                             size \<in> {2, 4} \<and> alignment \<noteq> 2 \<or>
                             map_option (\<lambda>n. n AND NOT (alignment - 1)) (checked_add32 next_free (alignment - 1))
                               \<noteq> Some (argument_offset a))) (Message ''invalid argument contract'')) (\<lambda>_.
        ok_or (Message ''argument overflow'') (checked_add32 (argument_offset a) size)))"

definition verify_contract :: "o65_contract \<Rightarrow> o65_error + unit" where
  "verify_contract c =
     bind_result (check (\<not> (contract_abi c \<noteq> abi_name \<or> contract_kind c > 2 \<or> contract_result c > 4 \<or>
                            contract_irq_effect c > 2 \<or> \<not> (1 \<le> contract_domains c \<and> contract_domains c \<le> 3)))
                   (Message ''invalid native import contract'')) (\<lambda>_.
       if contract_kind c \<noteq> 0 then
         check (c = (if contract_kind c = 1 then overflow_contract else arithmetic_fault_contract))
           (Message ''invalid raw terminal fault contract'')
       else
         bind_result (for_each check_argument (contract_arguments c) 0) (\<lambda>next_free.
         bind_result (check (\<not> (contract_incoming c \<noteq> next_free OR 1 \<or> contract_incoming c > 251))
                       (Message ''invalid incoming extent'')) (\<lambda>_.
           check (\<not> (contract_irq_effect c = 1 \<and> (contract_arguments c \<noteq> [] \<or> contract_result c \<noteq> 1) \<or>
                     contract_irq_effect c = 2 \<and>
                       (contract_result c \<noteq> 0 \<or> length (contract_arguments c) \<noteq> 1 \<or>
                        argument_size (contract_arguments c ! 0) \<noteq> 1)))
             (Message ''IRQ-state import has an incompatible signature''))))"

record o65_import =
  import_name :: bytes
  import_contract :: o65_contract

record o65_routine =
  routine_id :: u32
  routine_name :: bytes
  routine_offset :: u32
  routine_size :: u32
  routine_contract :: o65_contract
  routine_frame :: u16
  routine_spill :: u16
  routine_local_peak :: u32

record o65_object =
  object_kind :: u8
  object_id :: u32
  object_name :: bytes
  object_location :: o65_location
  object_size :: u32
  object_alignment :: u32
  object_mutable :: bool
  object_alias :: bool

record o65_profile =
  profile_version :: u16
  nmi_extra_stack :: u16
  profile_entry :: u32
  profile_routines :: "o65_routine list"
  profile_objects :: "o65_object list"
  profile_imports :: "o65_import list"
  profile_relocations :: "o65_relocation list"

section \<open>Lemmas\<close>

lemma section_byte_inverse [simp]: "section_from_byte (section_byte s) = Inr s"
  by (cases s) (simp_all add: section_from_byte_def)

lemma encoding_byte_inverse [simp]: "encoding_from_byte (encoding_byte e) = Inr e"
  by (cases e) (simp_all add: encoding_from_byte_def)

lemma section_byte_nonzero [simp]: "section_byte s \<noteq> 0"
  by (cases s) simp_all

text \<open>The arguments of a verified contract lie behind each other, up to the incoming extent.\<close>

lemma aligned_up:
  assumes "alignment \<in> {1, 2 :: u32}" and "checked_add32 n (alignment - 1) = Some m"
  shows "unat n \<le> unat (m AND NOT (alignment - 1))"
proof (cases "alignment = 1")
  case True
  then show ?thesis using assms(2) by (simp add: checked_add32_def split: if_splits)
next
  case False
  then have m: "unat m = unat n + 1" using assms by (auto dest: checked_add32_SomeD)
  have "(m AND NOT 1) OR (m AND 1) = m" "(m AND NOT 1) AND (m AND 1) = 0"
    by (rule bit_word_eqI; auto simp: bit_simps)+
  then have "(m AND NOT 1) + (m AND 1) = m"
    using word_plus_and_or [of "m AND NOT 1" "m AND 1"] by (simp only: add_0)
  then have "unat m = (unat (m AND NOT 1) + unat (m AND 1)) mod 2 ^ 32"
    using unat_word_ariths(1) [of "m AND NOT 1" "m AND 1"] by (simp only:) simp
  then have "unat m \<le> unat (m AND NOT 1) + unat (m AND 1)"
    by (rule ord_eq_le_trans) (rule mod_less_eq_dividend)
  moreover have "unat (m AND 1) \<le> 1"
    using word_and_le1 [of m 1] by (simp add: word_le_nat_alt)
  ultimately have "unat m \<le> unat (m AND NOT 1) + 1"
    by linarith
  moreover have "alignment - 1 = 1" using assms(1) False by auto
  ultimately show ?thesis using m by simp
qed

lemma arguments_in_order:
  assumes "for_each check_argument args n = Inr m"
  shows "unat n \<le> unat m \<and>
     (\<forall>a \<in> set args. unat n \<le> unat (argument_offset a) \<and>
        unat (argument_offset a) + unat (argument_size a) \<le> unat m) \<and>
     sorted_wrt (\<lambda>a b. unat (argument_offset a) + unat (argument_size a) \<le> unat (argument_offset b)) args"
  using assms
proof (induction args arbitrary: n)
  case Nil
  then show ?case by simp
next
  case (Cons a args)
  from Cons.prems obtain k where step: "check_argument a n = Inr k"
    and rest: "for_each check_argument args k = Inr m" by auto
  from step obtain x where
    x: "argument_alignment a \<in> {1, 2}" "checked_add32 n (argument_alignment a - 1) = Some x"
      "argument_offset a = x AND NOT (argument_alignment a - 1)"
    and k: "checked_add32 (argument_offset a) (argument_size a) = Some k"
    by (auto simp: check_argument_def Let_def)
  have "unat n \<le> unat (argument_offset a)" using aligned_up [OF x(1,2)] x(3) by simp
  moreover have "unat k = unat (argument_offset a) + unat (argument_size a)" by (rule checked_add32_SomeD [OF k])
  ultimately show ?case using Cons.IH [OF rest] by auto
qed

lemma verified_arguments:
  assumes "verify_contract c = Inr ()" and "contract_kind c = 0" and "a \<in> set (contract_arguments c)"
  shows "unat (argument_offset a) + unat (argument_size a) \<le> 251"
proof -
  from assms(1,2) obtain m where m: "for_each check_argument (contract_arguments c) 0 = Inr m"
    and extent: "contract_incoming c = m OR 1" "contract_incoming c \<le> 251"
    by (auto simp: verify_contract_def not_less)
  have "m AND contract_incoming c = m" unfolding extent(1) by (rule bit_word_eqI) (auto simp: bit_simps)
  then have "m \<le> contract_incoming c" by (metis word_and_le1)
  with extent(2) have "unat m \<le> 251" by (simp add: word_le_nat_alt)
  with arguments_in_order [OF m] assms(3) show ?thesis by force
qed

lemma valid_name_bytes:
  assumes "valid_name s"
  shows "s \<noteq> []" "int (length s) \<le> max_string" "0 \<notin> set s" "utf8_valid s"
proof -
  show "s \<noteq> []" "int (length s) \<le> max_string" using assms by (simp_all add: valid_name_def)
  have b: "b = 0x5F \<or> is_alphabetic b \<or> is_digit b" if elem: "b \<in> set s" for b
  proof -
    obtain i where "i < length s" "s ! i = b" using elem by (auto simp: in_set_conv_nth)
    then have "(i, b) \<in> set (enumerate 0 s)" by (simp add: in_set_enumerate_eq)
    with assms show ?thesis by (auto simp: valid_name_def list_all_iff)
  qed
  have small: "b < 0x80 \<and> b \<noteq> 0" if "b \<in> set s" for b
    using b [OF that] by (auto simp: is_alphabetic_def is_digit_def word_le_nat_alt word_less_nat_alt word_neq_0_conv)
  then show "0 \<notin> set s" by blast
  have "\<forall>b \<in> set s. b < 0x80 \<Longrightarrow> utf8_valid s" for s
    by (induction s) (auto simp: utf8_width_def)
  with small show "utf8_valid s" by blast
qed

end
