(* ===== verification/O65_Reader.thy ===== *)
theory O65_Reader
  imports O65_Profile
begin

text \<open>
  The byte reader and writer of the o65 format (\<open>Reader\<close> in \<open>src/src/mir65816/o65/read.rs\<close>, \<open>Writer\<close> in
  \<open>src/src/mir65816/o65/descriptor.rs\<close>). A reader is its unread input \<open>bytes[at..]\<close>, which is all its
  operations look at; a writer is the bytes written so far. Lemmas: \<open>reads p bs v\<close> (the reader \<open>p\<close> turns
  the bytes \<open>bs\<close> into \<open>v\<close> and leaves what follows them) and its rules, the base of the round trips.
\<close>

named_theorems reads \<open>readers of encoded values\<close>

type_synonym reader = bytes
type_synonym 'a reading = "reader \<Rightarrow> o65_error + 'a \<times> reader"

section \<open>Little-endian words\<close>

fun le_word :: "bytes \<Rightarrow> 'a::len word" where
  "le_word [] = 0"
| "le_word (b # bs) = ucast b + 256 * le_word bs"

definition word_bytes2 :: "u16 \<Rightarrow> bytes" where
  "word_bytes2 v = [nth_byte 0 v, nth_byte 1 v]"

definition word_bytes4 :: "u32 \<Rightarrow> bytes" where
  "word_bytes4 v = [nth_byte 0 v, nth_byte 1 v, nth_byte 2 v, nth_byte 3 v]"

lemma le_word_value: "le_word bs = of_nat (le_value bs)"
  by (induction bs) simp_all

lemma length_word_bytes [simp]: "length (word_bytes2 w) = 2" "length (word_bytes4 v) = 4"
  by (simp_all add: word_bytes2_def word_bytes4_def)

lemma le_word_bytes [simp]: "le_word (word_bytes2 w) = w" "le_word (word_bytes4 v) = v"
proof -
  have "word_bytes2 w = map (\<lambda>i. nth_byte i w) [0..<2]" "word_bytes4 v = map (\<lambda>i. nth_byte i v) [0..<4]"
    by (simp_all add: word_bytes2_def word_bytes4_def upt_rec numeral_eq_Suc)
  moreover have "unat w < 2 ^ 16" "unat v < 2 ^ 32"
    using unsigned_less [where 'a = nat, of w] unsigned_less [where 'a = nat, of v] by simp_all
  ultimately show "le_word (word_bytes2 w) = w" "le_word (word_bytes4 v) = v"
    by (simp_all add: le_word_value le_value_nth_bytes)
qed

section \<open>Reading\<close>

definition read_take :: "nat \<Rightarrow> bytes reading" where
  "read_take n r =
     (if n \<le> length r then Inr (take n r, drop n r) else Inl (Message ''truncated o65 input''))"

definition read_byte :: "u8 reading" where
  "read_byte r = bind_result (read_take 1 r) (\<lambda>(bs, r). Inr (bs ! 0, r))"

definition read_word :: "u16 reading" where
  "read_word r = bind_result (read_take 2 r) (\<lambda>(bs, r). Inr (le_word bs, r))"

definition read_u32 :: "u32 reading" where
  "read_u32 r = bind_result (read_take 4 r) (\<lambda>(bs, r). Inr (le_word bs, r))"

definition read_sized :: "bool \<Rightarrow> u32 reading" where
  "read_sized wide r =
     (if wide then read_u32 r else bind_result (read_word r) (\<lambda>(v, r). Inr (ucast v, r)))"

definition check_count :: "reader \<Rightarrow> nat \<Rightarrow> nat \<Rightarrow> o65_error + unit" where
  "check_count r n least =
     check (\<not> (int n > max_items \<or> n > length r div least))
       (Message ''o65 count exceeds remaining input or limit'')"

definition read_count :: "nat \<Rightarrow> nat reading" where
  "read_count least r =
     bind_result (read_u32 r) (\<lambda>(n, r).
     bind_result (check_count r (unat n) least) (\<lambda>_. Inr (unat n, r)))"

definition read_string :: "bytes reading" where
  "read_string r =
     bind_result (read_u32 r) (\<lambda>(n, r).
     bind_result (check (\<not> uint n > max_string) (Message ''o65 string limit'')) (\<lambda>_.
     bind_result (read_take (unat n) r) (\<lambda>(s, r).
     bind_result (check (utf8_valid s) (Message ''invalid descriptor UTF-8'')) (\<lambda>_. Inr (s, r)))))"

text \<open>The first NUL must be among the next \<open>MAX_STRING + 1\<close> bytes.\<close>

definition name_length :: "reader \<Rightarrow> nat option" where
  "name_length r =
     (let n = length (takeWhile (\<lambda>b. b \<noteq> 0) r)
      in if n < length r \<and> int n < max_string + 1 then Some n else None)"

definition read_name :: "bytes reading" where
  "read_name r =
     bind_result (ok_or (Message ''unterminated o65 name'') (name_length r)) (\<lambda>n.
     bind_result (read_take n r) (\<lambda>(s, r).
     bind_result (check (utf8_valid s) (Message ''invalid o65 symbol'')) (\<lambda>_.
     bind_result (read_byte r) (\<lambda>(_, r).
     bind_result (check (valid_name s) (Message ''invalid o65 symbol name'')) (\<lambda>_. Inr (s, r))))))"

definition read_boolean :: "bool reading" where
  "read_boolean r =
     bind_result (read_byte r) (\<lambda>(b, r).
       if b = 0 then Inr (False, r) else if b = 1 then Inr (True, r)
       else Inl (Message ''invalid boolean''))"

definition read_done :: "reader \<Rightarrow> o65_error + unit" where
  "read_done r = check (r = []) (Message ''trailing o65 bytes'')"

text \<open>A loop that reads a fixed number of items.\<close>

fun read_many :: "'a reading \<Rightarrow> nat \<Rightarrow> 'a list reading" where
  "read_many p 0 r = Inr ([], r)"
| "read_many p (Suc n) r =
     bind_result (p r) (\<lambda>(x, r). bind_result (read_many p n r) (\<lambda>(xs, r). Inr (x # xs, r)))"

definition read_counted :: "nat \<Rightarrow> 'a reading \<Rightarrow> 'a list reading" where
  "read_counted least p r = bind_result (read_count least r) (\<lambda>(n, r). read_many p n r)"

section \<open>Writing\<close>

definition write_count :: "nat \<Rightarrow> bytes \<Rightarrow> o65_error + bytes" where
  "write_count n w =
     bind_result (check (\<not> int n > max_items) (Message ''descriptor count limit''))
       (\<lambda>_. Inr (w @ word_bytes4 (of_nat n)))"

definition write_string :: "bytes \<Rightarrow> bytes \<Rightarrow> o65_error + bytes" where
  "write_string s w =
     bind_result (check (\<not> int (length s) > max_string) (Message ''descriptor string limit''))
       (\<lambda>_. Inr (w @ word_bytes4 (of_nat (length s)) @ s))"

section \<open>Readers of encoded values\<close>

definition reads :: "'a reading \<Rightarrow> bytes \<Rightarrow> 'a \<Rightarrow> bool" where
  "reads p bs v \<longleftrightarrow> (\<forall>rest. p (bs @ rest) = Inr (v, rest))"

lemma readsD: "reads p bs v \<Longrightarrow> p (bs @ rest) = Inr (v, rest)"
  by (simp add: reads_def)

lemma reads_bind:
  assumes "reads p bs x" "reads (q x) cs y"
  shows "reads (\<lambda>r. bind_result (p r) (\<lambda>(x, r). q x r)) (bs @ cs) y"
  using assms by (simp add: reads_def)

lemma reads_check:
  assumes "b" "reads p bs y"
  shows "reads (\<lambda>r. bind_result (check b e) (\<lambda>_. p r)) bs y"
  using assms by (simp add: reads_def)

lemma reads_return: "reads (\<lambda>r. Inr (v, r)) [] v"
  by (simp add: reads_def)

lemma reads_map: "reads p bs x \<Longrightarrow> reads (\<lambda>r. bind_result (p r) (\<lambda>(x, r). Inr (f x, r))) bs (f x)"
  by (simp add: reads_def)

lemma reads_take: "reads (read_take (length bs)) bs bs"
  by (simp add: reads_def read_take_def)

lemma reads_byte [reads]: "reads read_byte [b] b"
  by (simp add: reads_def read_byte_def read_take_def)

lemma reads_word [reads]: "reads read_word (word_bytes2 w) w"
  by (simp add: reads_def read_word_def read_take_def)

lemma reads_long [reads]: "reads read_u32 (word_bytes4 v) v"
  by (simp add: reads_def read_u32_def read_take_def)

lemma reads_sized [reads]: "reads (read_sized True) (word_bytes4 v) v"
  using reads_long by (simp add: reads_def read_sized_def)

lemma reads_boolean [reads]: "reads read_boolean [if b then 1 else 0] b"
  by (cases b) (simp_all add: reads_def read_boolean_def read_byte_def read_take_def)

lemma unat_of_nat_u32: "int n < 2 ^ 32 \<Longrightarrow> unat (of_nat n :: u32) = n"
  by (simp add: unsigned_of_nat take_bit_nat_eq_self)

lemma unat_of_nat_small: "int n \<le> max_items \<Longrightarrow> unat (of_nat n :: u32) = n"
  by (rule unat_of_nat_u32) (simp add: max_items_def)

lemma reads_string [reads]:
  assumes "int (length s) \<le> max_string" "utf8_valid s"
  shows "reads read_string (word_bytes4 (of_nat (length s)) @ s) s"
proof -
  have "unat (of_nat (length s) :: u32) = length s"
    using assms(1) by (intro unat_of_nat_u32) (simp add: max_string_def)
  moreover from this have "uint (of_nat (length s) :: u32) = int (length s)" by (simp add: uint_nat)
  ultimately show ?thesis
    using assms readsD [OF reads_long, of "of_nat (length s)"]
    by (simp add: reads_def read_string_def read_take_def)
qed

lemma reads_name [reads]:
  assumes "valid_name s"
  shows "reads read_name (s @ [0]) s"
proof -
  note s = valid_name_bytes [OF assms]
  have "takeWhile (\<lambda>b. b \<noteq> 0) (s @ 0 # rest) = s" for rest
    using s(3) by (subst takeWhile_append2) auto
  then have "name_length (s @ 0 # rest) = Some (length s)" for rest
    using s(2) by (simp add: name_length_def)
  then show ?thesis using assms s(4) by (simp add: reads_def read_name_def read_take_def read_byte_def)
qed

lemma reads_many:
  "(\<And>x. x \<in> set xs \<Longrightarrow> reads p (enc x) x) \<Longrightarrow> reads (read_many p (length xs)) (concat (map enc xs)) xs"
  by (induction xs) (simp_all add: reads_def)

lemma reads_counted:
  assumes items: "\<And>x. x \<in> set xs \<Longrightarrow> reads p (enc x) x \<and> least \<le> length (enc x)"
    and least: "0 < least" and limit: "int (length xs) \<le> max_items"
  shows "reads (read_counted least p) (word_bytes4 (of_nat (length xs)) @ concat (map enc xs)) xs"
proof -
  have "length xs * least \<le> length (concat (map enc xs))"
    using items by (induction xs) (auto intro: add_mono)
  then have "length xs \<le> length (concat (map enc xs) @ rest) div least" for rest
    using least by (simp add: less_eq_div_iff_mult_less_eq)
  then have "check_count (concat (map enc xs) @ rest) (length xs) least = Inr ()" for rest
    using limit by (simp add: check_count_def not_less)
  moreover have "reads (read_many p (length xs)) (concat (map enc xs)) xs"
    using items by (intro reads_many) blast
  ultimately show ?thesis
    using readsD [OF reads_long, of "of_nat (length xs)"] unat_of_nat_small [OF limit]
    by (simp add: reads_def read_counted_def read_count_def)
qed

end
