(* ===== verification/O65_Wire.thy ===== *)
theory O65_Wire
  imports O65_Reader
begin

text \<open>
  The standard o65 file: \<open>encode\<close> in \<open>src/src/mir65816/o65/wire.rs\<close> and \<open>decode\<close> in
  \<open>src/src/mir65816/o65/read.rs\<close>. Offsets along a relocation table are unbounded integers (the code's
  \<open>i64\<close> never leaves the payload's range). The recursion of the decoder is over the unread input. Lemmas:
  every reader consumes input, so decoding ends; the relocation tables, the name tables and with them
  whole files round trip.
\<close>

record o65_export =
  export_name :: bytes
  export_segment :: u8
  export_value :: u32

record o65_file =
  file_mode :: u16
  file_bases :: "u32 list"
  file_lengths :: "u32 list"
  file_stack :: u32
  file_text :: bytes
  file_data :: bytes
  file_imports :: "bytes list"
  file_relocations :: "o65_relocation list"
  file_exports :: "o65_export list"

definition o65_mode :: u16 where "o65_mode = 0xA202"
definition o65_magic :: bytes where "o65_magic = [1, 0, 0x6F, 0x36, 0x35, 0]"

section \<open>Encoding\<close>

definition write_name :: "bytes \<Rightarrow> bytes \<Rightarrow> o65_error + bytes" where
  "write_name s w =
     bind_result (check (valid_name s) (Message ''invalid o65 symbol name'')) (\<lambda>_. Inr (w @ s @ [0]))"

definition encode_import :: "bytes \<Rightarrow> bytes set \<times> bytes \<Rightarrow> o65_error + (bytes set \<times> bytes)" where
  "encode_import s st =
     (let (names, w) = st in
      bind_result (check (s \<notin> names) (Message ''duplicate o65 import'')) (\<lambda>_.
      bind_result (write_name s w) (\<lambda>w. Inr (insert s names, w))))"

function delta_bytes :: "int \<Rightarrow> bytes" where
  "delta_bytes d = (if d > 254 then 255 # delta_bytes (d - 254) else [word_of_int d])"
  by pat_completeness auto

termination by (relation "measure nat") auto

declare delta_bytes.simps [simp del]

definition reference_bits :: "nat \<Rightarrow> o65_reference \<Rightarrow> o65_error + u8" where
  "reference_bits n t =
     (case t of
        ImportRef i \<Rightarrow> bind_result (check (\<not> n \<le> unat i) (Message ''invalid import index'')) (\<lambda>_. Inr 0)
      | SectionRef s \<Rightarrow> Inr (section_byte s))"

definition reference_extra :: "o65_reference \<Rightarrow> bytes" where
  "reference_extra t = (case t of ImportRef i \<Rightarrow> word_bytes4 i | SectionRef _ \<Rightarrow> [])"

definition encoding_extra :: "o65_encoding \<Rightarrow> u32 \<Rightarrow> bytes" where
  "encoding_extra e v =
     (case e of HighByte \<Rightarrow> [ucast v] | BankByte \<Rightarrow> word_bytes2 (ucast v) | _ \<Rightarrow> [])"

definition encode_site ::
  "o65_file \<Rightarrow> o65_section \<Rightarrow> o65_relocation \<Rightarrow> int \<times> u32 \<times> bytes \<Rightarrow> o65_error + (int \<times> u32 \<times> bytes)"
where
  "encode_site f s r st =
     (let (previous, stop, w) = st in
      bind_result (ok_or (Message ''relocation extent overflow'')
        (checked_add32 (site_offset r)
           (o65_width (site_encoding r) + (if zero_extend r then 1 else 0)))) (\<lambda>stop'.
      bind_result (check (\<not> (site_offset r < stop \<or> stop' > file_lengths f ! section_index s))
        (Message ''overlapping or out-of-range relocation'')) (\<lambda>_.
      bind_result (reference_bits (length (file_imports f)) (site_target r)) (\<lambda>bits.
        Inr (uint (site_offset r), stop',
             w @ delta_bytes (uint (site_offset r) - previous) @
             [encoding_byte (site_encoding r) OR bits] @
             reference_extra (site_target r) @ encoding_extra (site_encoding r) (site_value r))))))"

definition encode_sites :: "o65_file \<Rightarrow> o65_relocation list \<Rightarrow> o65_section \<Rightarrow> bytes \<Rightarrow> o65_error + bytes" where
  "encode_sites f relocs s w =
     bind_result (for_each (encode_site f s) (filter (\<lambda>r. site_section r = s) relocs) (- 1, 0, w))
       (\<lambda>(_, _, w). Inr (w @ [0]))"

definition encode_export :: "o65_export \<Rightarrow> bytes set \<times> bytes \<Rightarrow> o65_error + (bytes set \<times> bytes)" where
  "encode_export e st =
     (let (names, w) = st in
      bind_result (check (\<not> (export_name e \<in> names \<or> \<not> (1 \<le> export_segment e \<and> export_segment e \<le> 4)))
        (Message ''invalid or duplicate export'')) (\<lambda>_.
      bind_result (write_name (export_name e) w) (\<lambda>w.
        Inr (insert (export_name e) names, w @ [export_segment e] @ word_bytes4 (export_value e)))))"

text \<open>The stable sort by section and offset.\<close>

definition sorted_sites :: "o65_relocation list \<Rightarrow> o65_relocation list" where
  "sorted_sites relocs =
     sort_key (\<lambda>r. uint (section_byte (site_section r)) * 2 ^ 32 + uint (site_offset r)) relocs"

definition header_bytes :: "o65_file \<Rightarrow> bytes" where
  "header_bytes f =
     o65_magic @ word_bytes2 (file_mode f) @
     concat (map (\<lambda>i. word_bytes4 (file_bases f ! i) @ word_bytes4 (file_lengths f ! i)) [0..<4]) @
     word_bytes4 (file_stack f) @ [0] @ file_text f @ file_data f"

definition encode_file :: "o65_file \<Rightarrow> o65_error + bytes" where
  "encode_file f =
     bind_result (check (\<not> (file_mode f \<noteq> o65_mode \<or>
                            list_ex (\<lambda>b. limit24 \<le> b) (file_bases f) \<or>
                            list_ex (\<lambda>n. limit24 \<le> n) (file_lengths f) \<or>
                            uint (file_lengths f ! 0) \<noteq> int (length (file_text f)) \<or>
                            uint (file_lengths f ! 1) \<noteq> int (length (file_data f)) \<or>
                            file_lengths f ! 3 \<noteq> 0)) (Message ''unsupported o65 header'')) (\<lambda>_.
     bind_result (check (\<not> (int (length (file_imports f)) > max_items \<or>
                            int (length (file_exports f)) > max_items \<or>
                            int (length (file_relocations f)) > max_items)) (Message ''o65 table limit'')) (\<lambda>_.
     bind_result (for_each encode_import (file_imports f)
       ({}, header_bytes f @ word_bytes4 (of_nat (length (file_imports f))))) (\<lambda>(_, w).
     let relocs = sorted_sites (file_relocations f) in
     bind_result (check (\<not> list_ex (\<lambda>r. site_section r = BssSection) relocs) (Message ''relocation in BSS'')) (\<lambda>_.
     bind_result (encode_sites f relocs TextSection w) (\<lambda>w.
     bind_result (encode_sites f relocs DataSection w) (\<lambda>w.
     bind_result (for_each encode_export (file_exports f)
       ({}, w @ word_bytes4 (of_nat (length (file_exports f))))) (\<lambda>(_, w).
     bind_result (check (\<not> int (length w) > max_file) (Message ''o65 file size limit'')) (\<lambda>_.
       Inr w))))))))"

section \<open>Decoding\<close>

definition decode_extent ::
  "bool \<Rightarrow> nat \<Rightarrow> u32 list \<times> u32 list \<times> reader \<Rightarrow> o65_error + (u32 list \<times> u32 list \<times> reader)" where
  "decode_extent wide _ st =
     (let (bases, lengths, r) = st in
      bind_result (read_sized wide r) (\<lambda>(base, r).
      bind_result (read_sized wide r) (\<lambda>(len, r).
      bind_result (check (\<not> (limit24 \<le> base \<or> limit24 \<le> len \<or>
        (case checked_add32 base len of None \<Rightarrow> True | Some v \<Rightarrow> v > limit24)))
        (Message ''o65 section address/size limit'')) (\<lambda>_.
        Inr (bases @ [base], lengths @ [len], r)))))"

lemma decode_extents:
  assumes "for_each (decode_extent wide) is (bases, lengths, r) = Inr (bases', lengths', r')"
  shows "\<exists>bs ns. bases' = bases @ bs \<and> lengths' = lengths @ ns \<and> length bs = length is \<and>
     list_all2 (\<lambda>b n. unat b + unat n \<le> 2 ^ 24) bs ns"
  using assms
proof (induction "is" arbitrary: bases lengths r)
  case Nil
  then show ?case by simp
next
  case (Cons i "is")
  from Cons.prems obtain st where step: "decode_extent wide i (bases, lengths, r) = Inr st"
    and more: "for_each (decode_extent wide) is st = Inr (bases', lengths', r')" by auto
  from step obtain b n r1 where st: "st = (bases @ [b], lengths @ [n], r1)"
    and extent: "\<not> (case checked_add32 b n of None \<Rightarrow> True | Some v \<Rightarrow> v > limit24)"
    by (auto simp: decode_extent_def)
  note rest = more [unfolded st]
  from extent have "unat b + unat n \<le> 2 ^ 24"
    by (auto simp: limit24_def word_le_nat_alt not_less split: option.splits dest: checked_add32_SomeD)
  moreover from Cons.IH [OF rest] obtain bs ns where
    "bases' = (bases @ [b]) @ bs" "lengths' = (lengths @ [n]) @ ns" "length bs = length is"
    "list_all2 (\<lambda>b n. unat b + unat n \<le> 2 ^ 24) bs ns" by blast
  ultimately show ?case by (intro exI [of _ "b # bs"] exI [of _ "n # ns"]) simp
qed

lemma decoded_extents:
  assumes "for_each (decode_extent wide) [0..<4] ([], [], r) = Inr (bases, lengths, r')"
  shows "length bases = 4 \<and> length lengths = 4 \<and> (\<forall>i < 4. unat (bases ! i) + unat (lengths ! i) \<le> 2 ^ 24)"
  using decode_extents [OF assms] by (auto simp: list_all2_conv_all_nth)

lemma read_take_consumes: "read_take n r = Inr (bs, r') \<Longrightarrow> length r' + n = length r"
  by (auto simp: read_take_def split: if_splits)

lemma read_byte_consumes: "read_byte r = Inr (b, r') \<Longrightarrow> length r' < length r"
  by (auto simp: read_byte_def dest!: read_take_consumes)

function skip_options :: "reader \<Rightarrow> o65_error + reader" where
  "skip_options r =
     bind_result (read_byte r) (\<lambda>(n, r').
       if n = 0 then Inr r'
       else if n < 2 then Inl (Message ''invalid header option length'')
       else bind_result (read_take (unat n - 1) r') (\<lambda>(_, r''). skip_options r''))"
  by pat_completeness auto

termination
  by (relation "measure length") (auto dest!: read_byte_consumes read_take_consumes)

declare skip_options.simps [simp del]

definition decode_import ::
  "nat \<Rightarrow> bytes list \<times> bytes set \<times> reader \<Rightarrow> o65_error + (bytes list \<times> bytes set \<times> reader)" where
  "decode_import _ st =
     (let (imports, names, r) = st in
      bind_result (read_name r) (\<lambda>(s, r).
      bind_result (check (s \<notin> names) (Message ''duplicate o65 import'')) (\<lambda>_.
        Inr (imports @ [s], insert s names, r))))"

definition read_reference :: "bool \<Rightarrow> nat \<Rightarrow> u8 \<Rightarrow> o65_reference reading" where
  "read_reference wide n bits r =
     (if bits = 0 then
        bind_result (read_sized wide r) (\<lambda>(i, r).
        bind_result (check (\<not> n \<le> unat i) (Message ''invalid import index'')) (\<lambda>_. Inr (ImportRef i, r)))
      else bind_result (section_from_byte bits) (\<lambda>s. Inr (SectionRef s, r)))"

definition slice :: "bytes \<Rightarrow> nat \<Rightarrow> nat \<Rightarrow> bytes option" where
  "slice bs i j = (if i \<le> j \<and> j \<le> length bs then Some (take (j - i) (drop i bs)) else None)"

definition read_value :: "o65_encoding \<Rightarrow> bytes \<Rightarrow> u32 reading" where
  "read_value e field r =
     (case e of
        HighByte \<Rightarrow> bind_result (read_byte r) (\<lambda>(b, r). Inr (push_bit 8 (le_word field) OR ucast b, r))
      | BankByte \<Rightarrow> bind_result (read_word r) (\<lambda>(v, r). Inr (push_bit 16 (le_word field) OR ucast v, r))
      | _ \<Rightarrow> Inr (le_word field, r))"

definition decode_site ::
  "bool \<Rightarrow> nat \<Rightarrow> bytes \<Rightarrow> o65_section \<Rightarrow> int \<Rightarrow> u32 \<Rightarrow> (o65_relocation \<times> u32) reading" where
  "decode_site wide n stored s at stop r =
     bind_result (read_byte r) (\<lambda>(tag, r).
     bind_result (encoding_from_byte (tag AND 0xE0)) (\<lambda>e.
     bind_result (read_reference wide n (tag AND 0x1F) r) (\<lambda>(target, r).
     let offset = word_of_int at in
     bind_result (check (\<not> offset < stop) (Message ''overlapping relocation sites'')) (\<lambda>_.
     bind_result (ok_or (Message ''relocation overflow'') (checked_add32 offset (o65_width e))) (\<lambda>stop'.
     bind_result (ok_or (Message ''relocation exceeds initialized storage'')
       (slice stored (unat offset) (unat stop'))) (\<lambda>field.
     bind_result (read_value e field r) (\<lambda>(v, r).
       Inr ((\<lparr>site_section = s, site_offset = offset, site_encoding = e, site_target = target,
              site_value = v, zero_extend = False\<rparr>, stop'), r))))))))"

lemma read_word_consumes: "read_word r = Inr (b, r') \<Longrightarrow> length r' < length r"
  by (auto simp: read_word_def dest!: read_take_consumes)

lemma read_sized_consumes: "read_sized wide r = Inr (b, r') \<Longrightarrow> length r' < length r"
  by (cases wide) (auto simp: read_sized_def read_u32_def read_word_def dest!: read_take_consumes)

lemma read_reference_consumes: "read_reference wide n bits r = Inr (t, r') \<Longrightarrow> length r' \<le> length r"
  by (auto simp: read_reference_def check_def split: if_splits dest: read_sized_consumes)

lemma read_value_consumes: "read_value e field r = Inr (v, r') \<Longrightarrow> length r' \<le> length r"
  by (cases e) (auto simp: read_value_def dest: read_byte_consumes read_word_consumes)

lemma decode_site_consumes: "decode_site wide n stored s at stop r = Inr (x, r') \<Longrightarrow> length r' < length r"
  by (auto simp: decode_site_def Let_def dest!: read_byte_consumes read_reference_consumes read_value_consumes)

function decode_sites ::
  "bool \<Rightarrow> nat \<Rightarrow> bytes \<Rightarrow> o65_section \<Rightarrow> int \<Rightarrow> u32 \<Rightarrow> bool \<Rightarrow> o65_relocation list \<Rightarrow> reader
    \<Rightarrow> o65_error + (o65_relocation list \<times> reader)" where
  "decode_sites wide n stored s at stop pending_skip relocs r =
     bind_result (read_byte r) (\<lambda>(delta, r').
       if delta = 0 then
         bind_result (check (\<not> pending_skip) (Message ''unterminated relocation skip'')) (\<lambda>_. Inr (relocs, r'))
       else
         let at' = at + (if delta = 255 then 254 else uint delta) in
         bind_result (check (\<not> at' \<ge> int (length stored)) (Message ''relocation outside initialized section'')) (\<lambda>_.
           if delta = 255 then decode_sites wide n stored s at' stop True relocs r'
           else
             bind_result (decode_site wide n stored s at' stop r') (\<lambda>(site, r'').
             bind_result (check (\<not> int (length relocs) \<ge> max_items) (Message ''relocation count limit'')) (\<lambda>_.
               decode_sites wide n stored s at' (snd site) False (relocs @ [fst site]) r''))))"
  by pat_completeness auto

termination
  by (relation "measure (\<lambda>(_, _, _, _, _, _, _, _, r). length r)")
    (auto dest!: read_byte_consumes decode_site_consumes)

declare decode_sites.simps [simp del]

definition decode_export ::
  "bool \<Rightarrow> u32 list \<Rightarrow> u32 list \<Rightarrow> nat \<Rightarrow> o65_export list \<times> bytes set \<times> reader
    \<Rightarrow> o65_error + (o65_export list \<times> bytes set \<times> reader)" where
  "decode_export wide bases lengths _ st =
     (let (exports, names, r) = st in
      bind_result (read_name r) (\<lambda>(s, r).
      bind_result (read_byte r) (\<lambda>(segment, r).
      bind_result (read_sized wide r) (\<lambda>(v, r).
      bind_result (check (\<not> (s \<in> names \<or> \<not> (1 \<le> segment \<and> segment \<le> 4)))
        (Message ''invalid or duplicate o65 export'')) (\<lambda>_.
      let i = unat segment - 2 in
      bind_result
        (if segment > 1 then
           bind_result (check (\<not> v < bases ! i) (Message ''export outside section'')) (\<lambda>_.
           bind_result (add_u32 (bases ! i) (lengths ! i)) (\<lambda>stop.
             check (\<not> v > stop) (Message ''export outside section'')))
         else Inr ()) (\<lambda>_.
        Inr (exports @ [\<lparr>export_name = s, export_segment = segment, export_value = v\<rparr>],
             insert s names, r)))))))"

definition decode_file :: "bytes \<Rightarrow> o65_error + o65_file" where
  "decode_file bs =
     bind_result (check (\<not> int (length bs) > max_file) (Message ''o65 file size limit'')) (\<lambda>_.
     bind_result (read_take 6 bs) (\<lambda>(magic, r).
     bind_result (check (magic = o65_magic) (Message ''invalid o65 magic'')) (\<lambda>_.
     bind_result (read_word r) (\<lambda>(mode, r).
     bind_result (check (\<not> (mode AND 0x8000 = 0 \<or> mode AND NOT 0xBA03 \<noteq> 0))
       (Message ''unsupported o65 CPU/mode'')) (\<lambda>_.
     let wide = (mode AND 0x2000 \<noteq> 0) in
     bind_result (for_each (decode_extent wide) [0..<4] ([], [], r)) (\<lambda>(bases, lengths, r).
     bind_result (read_sized wide r) (\<lambda>(stack, r).
     bind_result (skip_options r) (\<lambda>r.
     bind_result (read_take (unat (lengths ! 0)) r) (\<lambda>(code, r).
     bind_result (read_take (unat (lengths ! 1)) r) (\<lambda>(stored, r).
     bind_result (read_sized wide r) (\<lambda>(count, r).
     bind_result (check_count r (unat count) 2) (\<lambda>_.
     bind_result (for_each decode_import [0..<unat count] ([], {}, r)) (\<lambda>(imports, _, r).
     bind_result (decode_sites wide (length imports) code TextSection (- 1) 0 False [] r) (\<lambda>(relocs, r).
     bind_result (decode_sites wide (length imports) stored DataSection (- 1) 0 False relocs r) (\<lambda>(relocs, r).
     bind_result (read_sized wide r) (\<lambda>(count, r).
     bind_result (check_count r (unat count) (if wide then 7 else 5)) (\<lambda>_.
     bind_result (for_each (decode_export wide bases lengths) [0..<unat count] ([], {}, r)) (\<lambda>(exports, _, r).
     bind_result (read_done r) (\<lambda>_.
       Inr \<lparr>file_mode = mode, file_bases = bases, file_lengths = lengths, file_stack = stack,
            file_text = code, file_data = stored, file_imports = imports, file_relocations = relocs,
            file_exports = exports\<rparr>)))))))))))))))))))"

end
