(* ===== verification/O65_Roundtrip.thy ===== *)
theory O65_Roundtrip
  imports O65_Wire
begin

text \<open>
  The o65 file round trip: what \<open>decode\<close> (\<open>src/src/mir65816/o65/read.rs\<close>) reads from the bytes \<open>encode\<close>
  (\<open>src/src/mir65816/o65/wire.rs\<close>) writes. The name tables, the gaps of the relocation tables, one
  relocation site, a table and the file are treated in turn. The relocation records come back in the
  order of their sites, and the value of a site as the bytes that the file stores for it: in the section
  for the whole of a low, word or long field, in the section and the record for high and bank bytes.
\<close>

section \<open>Name tables\<close>

lemma encode_import_eq_Inr:
  "encode_import s (names, w) = Inr st \<longleftrightarrow>
     s \<notin> names \<and> valid_name s \<and> st = (insert s names, w @ s @ [0])"
  by (auto simp: encode_import_def write_name_def)

lemma for_each_encode_import:
  "for_each encode_import xs (names, w) = Inr (names', w') \<Longrightarrow>
     w' = w @ concat (map (\<lambda>s. s @ [0]) xs) \<and> (\<forall>s \<in> set xs. valid_name s) \<and> distinct xs \<and>
     set xs \<inter> names = {}"
proof (induction xs arbitrary: names w)
  case Nil
  then show ?case by simp
next
  case (Cons s xs)
  then have s: "s \<notin> names" "valid_name s"
    and rest: "for_each encode_import xs (insert s names, w @ s @ [0]) = Inr (names', w')"
    by (simp_all add: encode_import_eq_Inr)
  with Cons.IH [OF rest] show ?case by simp
qed

lemma for_each_decode_import:
  "length ks = length xs \<Longrightarrow> \<forall>s \<in> set xs. valid_name s \<Longrightarrow> distinct xs \<Longrightarrow> set xs \<inter> names = {} \<Longrightarrow>
     for_each decode_import ks (acc, names, concat (map (\<lambda>s. s @ [0]) xs) @ rest) =
     Inr (acc @ xs, names \<union> set xs, rest)"
proof (induction arbitrary: acc names rule: list_induct2)
  case Nil
  then show ?case by simp
next
  case (Cons k ks s xs)
  have "read_name (s @ [0] @ r) = Inr (s, r)" for r
    using readsD [OF reads_name [of s]] Cons.prems by simp
  then show ?case using Cons by (simp add: decode_import_def)
qed

definition export_bytes :: "o65_export \<Rightarrow> bytes" where
  "export_bytes e = export_name e @ [0] @ [export_segment e] @ word_bytes4 (export_value e)"

definition export_in_range :: "o65_file \<Rightarrow> o65_export \<Rightarrow> bool" where
  "export_in_range f e \<longleftrightarrow>
     (export_segment e > 1 \<longrightarrow>
        (let i = unat (export_segment e) - 2
         in file_bases f ! i \<le> export_value e \<and>
            unat (export_value e) \<le> unat (file_bases f ! i) + unat (file_lengths f ! i)))"

definition extents_fit :: "o65_file \<Rightarrow> bool" where
  "extents_fit f \<longleftrightarrow> (\<forall>i < 4. unat (file_bases f ! i) + unat (file_lengths f ! i) \<le> unat limit24)"

lemma encode_export_eq_Inr:
  "encode_export e (names, w) = Inr st \<longleftrightarrow>
     export_name e \<notin> names \<and> valid_name (export_name e) \<and> 1 \<le> export_segment e \<and> export_segment e \<le> 4 \<and>
     st = (insert (export_name e) names, w @ export_bytes e)"
  by (auto simp: encode_export_def write_name_def export_bytes_def)

lemma for_each_encode_export:
  "for_each encode_export xs (names, w) = Inr (names', w') \<Longrightarrow>
     w' = w @ concat (map export_bytes xs) \<and>
     (\<forall>e \<in> set xs. valid_name (export_name e) \<and> 1 \<le> export_segment e \<and> export_segment e \<le> 4) \<and>
     distinct (map export_name xs) \<and> export_name ` set xs \<inter> names = {}"
proof (induction xs arbitrary: names w)
  case Nil
  then show ?case by simp
next
  case (Cons e xs)
  then have e: "export_name e \<notin> names" "valid_name (export_name e)" "1 \<le> export_segment e" "export_segment e \<le> 4"
    and rest: "for_each encode_export xs (insert (export_name e) names, w @ export_bytes e) = Inr (names', w')"
    by (simp_all add: encode_export_eq_Inr)
  with Cons.IH [OF rest] show ?case by auto
qed

lemma for_each_decode_export:
  "length ks = length xs \<Longrightarrow> extents_fit f \<Longrightarrow>
     \<forall>e \<in> set xs. valid_name (export_name e) \<and> 1 \<le> export_segment e \<and> export_segment e \<le> 4 \<Longrightarrow>
     \<forall>e \<in> set xs. export_in_range f e \<Longrightarrow>
     distinct (map export_name xs) \<Longrightarrow> export_name ` set xs \<inter> names = {} \<Longrightarrow>
     for_each (decode_export True (file_bases f) (file_lengths f)) ks
       (exports, names, concat (map export_bytes xs) @ rest) =
     Inr (exports @ xs, names \<union> export_name ` set xs, rest)"
proof (induction arbitrary: exports names rule: list_induct2)
  case Nil
  then show ?case by simp
next
  case (Cons k ks e xs)
  have "read_name (export_name e @ 0 # r) = Inr (export_name e, r)" for r
    using readsD [OF reads_name [of "export_name e"], of r] Cons.prems by simp
  moreover have "read_sized True (word_bytes4 v @ r) = Inr (v, r)" for v r
    by (rule readsD [OF reads_sized])
  moreover have "read_byte (b # r) = Inr (b, r)" for b r
    using readsD [OF reads_byte] by simp
  moreover have "export_value e \<ge> file_bases f ! i \<and> unat (file_bases f ! i) + unat (file_lengths f ! i) < 2 ^ 32 \<and>
      export_value e \<le> file_bases f ! i + file_lengths f ! i"
    if i: "i = unat (export_segment e) - 2" and s: "export_segment e > 1" for i
  proof -
    have "unat (export_segment e) \<le> 4" using Cons.prems(2) by (simp add: word_le_nat_alt)
    then have "i < 4" using i by simp
    then have fits: "unat (file_bases f ! i) + unat (file_lengths f ! i) < 2 ^ 32"
      using Cons.prems(1) by (force simp: extents_fit_def limit24_def)
    have "export_in_range f e" using Cons.prems(3) by simp
    then show ?thesis using s fits
      by (simp add: export_in_range_def Let_def i word_le_nat_alt unat_sum)
  qed
  moreover have "\<lparr>export_name = export_name e, export_segment = export_segment e,
      export_value = export_value e\<rparr> = e" by simp
  ultimately have "decode_export True (file_bases f) (file_lengths f) k
      (exports, names, export_bytes e @ r) = Inr (exports @ [e], insert (export_name e) names, r)" for r
    using Cons.prems by (simp add: decode_export_def export_bytes_def Let_def not_less)
  then show ?case using Cons by simp
qed

section \<open>Relocation tables\<close>

text \<open>A gap: every skip byte stands for 254, the last byte for the rest.\<close>

lemma decode_gap:
  assumes "0 < d" "at + d < int (length stored)"
  shows "decode_sites wide n stored s at stop pending relocs (delta_bytes d @ rest) =
     bind_result (decode_site wide n stored s (at + d) stop rest) (\<lambda>(site, r).
     bind_result (check (\<not> int (length relocs) \<ge> max_items) (Message ''relocation count limit'')) (\<lambda>_.
       decode_sites wide n stored s (at + d) (snd site) False (relocs @ [fst site]) r))"
  using assms
proof (induction d arbitrary: at pending rule: delta_bytes.induct)
  case (1 d)
  show ?case
  proof (cases "d > 254")
    case True
    with 1 have "decode_sites wide n stored s at stop pending relocs (delta_bytes d @ rest) =
        decode_sites wide n stored s (at + 254) stop True relocs (delta_bytes (d - 254) @ rest)"
      by (simp add: delta_bytes.simps [of d] decode_sites.simps [of _ _ _ _ at] read_byte_def read_take_def Let_def)
    with 1 True show ?thesis by simp
  next
    case False
    then have "uint (word_of_int d :: u8) = d"
      using 1 by (simp add: uint_word_of_int)
    moreover from this have "(word_of_int d :: u8) \<noteq> 0" "(word_of_int d :: u8) \<noteq> 255"
      using 1 False by auto
    ultimately show ?thesis using 1 False
      by (simp add: delta_bytes.simps [of d] decode_sites.simps [of _ _ _ _ at] read_byte_def read_take_def Let_def)
  qed
qed

text \<open>What the file keeps of the value of a site.\<close>

definition kept_value :: "o65_encoding \<Rightarrow> bytes \<Rightarrow> u32 \<Rightarrow> u32" where
  "kept_value e field v =
     (case e of
        HighByte \<Rightarrow> push_bit 8 (le_word field) OR ucast (ucast v :: u8)
      | BankByte \<Rightarrow> push_bit 16 (le_word field) OR ucast (ucast v :: u16)
      | _ \<Rightarrow> le_word field)"

definition site_field :: "bytes \<Rightarrow> o65_relocation \<Rightarrow> bytes" where
  "site_field stored r =
     take (unat (o65_width (site_encoding r))) (drop (unat (site_offset r)) stored)"

definition read_site :: "bytes \<Rightarrow> o65_relocation \<Rightarrow> o65_relocation" where
  "read_site stored r =
     r\<lparr>site_value := kept_value (site_encoding r) (site_field stored r) (site_value r), zero_extend := False\<rparr>"

lemma read_site_eq:
  "read_site stored r =
     \<lparr>site_section = site_section r, site_offset = site_offset r, site_encoding = site_encoding r,
      site_target = site_target r,
      site_value = kept_value (site_encoding r) (site_field stored r) (site_value r), zero_extend = False\<rparr>"
  by (cases r) (simp add: read_site_def site_field_def)

definition site_bytes :: "o65_relocation \<Rightarrow> u8 \<Rightarrow> bytes" where
  "site_bytes r bits =
     [encoding_byte (site_encoding r) OR bits] @ reference_extra (site_target r) @
     encoding_extra (site_encoding r) (site_value r)"

lemma unat_width: "unat (o65_width e) \<le> 3"
  by (cases e) simp_all

lemma tag_parts:
  "reference_bits n t = Inr bits \<Longrightarrow>
     (encoding_byte e OR bits) AND 0xE0 = encoding_byte e \<and> (encoding_byte e OR bits) AND 0x1F = bits"
  by (cases e; cases t; (cases "case t of SectionRef s \<Rightarrow> s | _ \<Rightarrow> TextSection")?) (auto simp: reference_bits_def)

lemma reads_reference:
  assumes "reference_bits n t = Inr bits"
  shows "reads (read_reference True n bits) (reference_extra t) t"
proof (cases t)
  case (ImportRef i)
  with assms show ?thesis using readsD [OF reads_sized, of i]
    by (auto simp: reads_def reference_bits_def read_reference_def reference_extra_def)
next
  case (SectionRef s)
  with assms show ?thesis
    by (auto simp: reads_def reference_bits_def read_reference_def reference_extra_def)
qed

lemma reads_value:
  "reads (read_value e field) (encoding_extra e v) (kept_value e field v)"
  using readsD [OF reads_byte] readsD [OF reads_word]
  by (cases e) (simp_all add: reads_def read_value_def encoding_extra_def kept_value_def)

lemma decode_site_bytes:
  assumes "reference_bits n (site_target r) = Inr bits"
    and "site_section r = s" "uint (site_offset r) = at" "\<not> site_offset r < stop"
    and "unat (site_offset r) + unat (o65_width (site_encoding r)) \<le> length stored" "length stored < 2 ^ 31"
  shows "decode_site True n stored s at stop (site_bytes r bits @ rest) =
      Inr ((read_site stored r, site_offset r + o65_width (site_encoding r)), rest)"
    and "unat (site_offset r + o65_width (site_encoding r)) =
      unat (site_offset r) + unat (o65_width (site_encoding r))"
proof -
  let ?stop = "site_offset r + o65_width (site_encoding r)"
  have some: "checked_add32 (site_offset r) (o65_width (site_encoding r)) = Some ?stop"
    using assms(5,6) by (simp add: checked_add32_def)
  note stop = checked_add32_SomeD [OF some]
  have offset: "word_of_int at = site_offset r" using assms(3) by auto
  have field: "slice stored (unat (site_offset r)) (unat ?stop) = Some (site_field stored r)"
    using assms(5) by (simp add: slice_def stop site_field_def)
  have target: "read_reference True n bits (reference_extra (site_target r) @ x) = Inr (site_target r, x)" for x
    using readsD [OF reads_reference [OF assms(1)]] .
  have val: "read_value (site_encoding r) (site_field stored r)
      (encoding_extra (site_encoding r) (site_value r) @ x) =
      Inr (kept_value (site_encoding r) (site_field stored r) (site_value r), x)" for x
    by (rule readsD [OF reads_value])
  have head: "read_byte (b # x) = Inr (b, x)" for b x
    using readsD [OF reads_byte] by simp
  show "decode_site True n stored s at stop (site_bytes r bits @ rest) = Inr ((read_site stored r, ?stop), rest)"
    using assms(2,4) tag_parts [OF assms(1), of "site_encoding r"]
    by (simp add: decode_site_def site_bytes_def head target offset some field val read_site_eq Let_def)
  show "unat ?stop = unat (site_offset r) + unat (o65_width (site_encoding r))" by (rule stop)
qed

lemma encode_site_eq_Inr:
  "encode_site f s r (previous, stop, w) = Inr st \<longleftrightarrow>
     (\<exists>stop' bits.
        checked_add32 (site_offset r) (o65_width (site_encoding r) + (if zero_extend r then 1 else 0)) = Some stop' \<and>
        stop \<le> site_offset r \<and> stop' \<le> file_lengths f ! section_index s \<and>
        reference_bits (length (file_imports f)) (site_target r) = Inr bits \<and>
        st = (uint (site_offset r), stop',
              w @ delta_bytes (uint (site_offset r) - previous) @ site_bytes r bits))"
  by (auto simp: encode_site_def site_bytes_def not_less not_le)

lemma unat_padded_width:
  "unat (o65_width e + (if z then 1 else 0)) = unat (o65_width e) + (if z then 1 else 0)"
  by (cases e) simp_all

text \<open>
  A table. The encoder's end of the last site, padding included, is at or behind the decoder's; both
  start in front of the next site.
\<close>

lemma decode_sites_bytes:
  assumes "for_each (encode_site f s) sites (previous, stop, w) = Inr (previous', stop', w')"
    and "\<forall>r \<in> set sites. site_section r = s"
    and "unat (file_lengths f ! section_index s) = length stored" "length stored < 2 ^ 31"
    and "previous < uint stop \<or> previous = - 1" "behind \<le> stop"
    and "int (length relocs + length sites) \<le> max_items"
  shows "\<exists>table. w' = w @ table \<and>
     (\<forall>rest. decode_sites True (length (file_imports f)) stored s previous behind False relocs (table @ 0 # rest) =
        Inr (relocs @ map (read_site stored) sites, rest))"
  using assms(1,2,5,6,7)
proof (induction sites arbitrary: previous stop behind w relocs)
  case Nil
  then show ?case
    by (simp add: decode_sites.simps read_byte_def read_take_def)
next
  case (Cons r sites)
  let ?n = "length (file_imports f)" and ?at = "uint (site_offset r)"
  from Cons.prems(1) obtain next_stop bits where
    add: "checked_add32 (site_offset r) (o65_width (site_encoding r) + (if zero_extend r then 1 else 0)) = Some next_stop"
    and le: "stop \<le> site_offset r" "next_stop \<le> file_lengths f ! section_index s"
    and bits: "reference_bits ?n (site_target r) = Inr bits"
    and more: "for_each (encode_site f s) sites
      (?at, next_stop, w @ delta_bytes (?at - previous) @ site_bytes r bits) = Inr (previous', stop', w')"
    by (auto simp: encode_site_eq_Inr)
  have size: "unat next_stop = unat (site_offset r) + unat (o65_width (site_encoding r)) + (if zero_extend r then 1 else 0)"
    using checked_add32_SomeD [OF add] by (simp add: unat_padded_width)
  have fits: "unat next_stop \<le> length stored" using le(2) assms(3) by (simp add: word_le_nat_alt)
  have pos: "0 < unat (o65_width (site_encoding r))" by (cases "site_encoding r") simp_all
  let ?behind = "site_offset r + o65_width (site_encoding r)"
  have section_r: "site_section r = s" using Cons.prems(2) by simp
  have fresh: "\<not> site_offset r < behind" using le(1) Cons.prems(4) by auto
  have within: "unat (site_offset r) + unat (o65_width (site_encoding r)) \<le> length stored"
    using fits size by simp
  note site = decode_site_bytes [OF bits section_r refl fresh within assms(4)]
  have gap: "0 < ?at - previous" "previous + (?at - previous) < int (length stored)"
  proof -
    have "uint stop \<le> ?at" using le(1) by (simp add: word_le_def)
    with Cons.prems(3) have "previous < ?at"
    proof (elim disjE)
      assume "previous = - 1"
      moreover have "- 1 < (0 :: int)" by simp
      moreover have "0 \<le> ?at" by simp
      ultimately show "previous < ?at" by (simp only: order.strict_trans2)
    qed (rule order.strict_trans2)
    then show "0 < ?at - previous" by simp
    have "unat (site_offset r) < length stored" using within pos by simp
    then have "int (unat (site_offset r)) < int (length stored)" by (simp only: of_nat_less_iff)
    then show "previous + (?at - previous) < int (length stored)" by simp
  qed
  have ahead: "?at < uint next_stop" using size pos by (simp add: word_less_nat_alt flip: word_less_def)
  have covered: "?behind \<le> next_stop" using site(2) size by (simp add: word_le_nat_alt)
  have room: "int (length (relocs @ [read_site stored r]) + length sites) \<le> max_items"
    using Cons.prems(5) by simp
  have all_s: "\<forall>r \<in> set sites. site_section r = s" using Cons.prems(2) by simp
  from Cons.IH [OF more all_s disjI1 [OF ahead] covered room] obtain table where table:
    "w' = (w @ delta_bytes (?at - previous) @ site_bytes r bits) @ table"
    "\<And>rest. decode_sites True ?n stored s ?at ?behind False (relocs @ [read_site stored r]) (table @ 0 # rest) =
       Inr ((relocs @ [read_site stored r]) @ map (read_site stored) sites, rest)"
    by (elim exE conjE) (rule that, assumption, erule spec)
  have count: "\<not> int (length relocs) \<ge> max_items" using Cons.prems(5) by simp
  have "decode_sites True ?n stored s previous behind False relocs
      (delta_bytes (?at - previous) @ site_bytes r bits @ table @ 0 # rest) =
      Inr (relocs @ map (read_site stored) (r # sites), rest)" for rest
    unfolding decode_gap [OF gap] using site(1) [of "table @ 0 # rest"] table(2) [of rest] count by simp
  then show ?case using table(1)
    by (intro exI [of _ "delta_bytes (?at - previous) @ site_bytes r bits @ table"]) simp
qed

section \<open>Files\<close>

lemma upt4: "[0..<4] = [0, 1, 2, 3 :: nat]"
  by (simp add: upt_rec)

definition extent_bytes :: "u32 list \<Rightarrow> u32 list \<Rightarrow> bytes" where
  "extent_bytes bases sizes = concat (map (\<lambda>i. word_bytes4 (bases ! i) @ word_bytes4 (sizes ! i)) [0..<4])"

lemma decode_extent_bytes:
  assumes "unat b + unat n \<le> unat limit24" "b < limit24" "n < limit24"
  shows "decode_extent True i (bases, sizes, word_bytes4 b @ word_bytes4 n @ r) = Inr (bases @ [b], sizes @ [n], r)"
proof -
  have nat: "unat b + unat n \<le> 16777216" using assms(1) by (simp add: limit24_def)
  then have "checked_add32 b n = Some (b + n)" by (simp add: checked_add32_def)
  moreover have "\<not> b + n > limit24"
    using checked_add32_SomeD [OF calculation] nat by (simp add: word_less_nat_alt limit24_def)
  ultimately show ?thesis using assms(2,3)
    by (simp add: decode_extent_def readsD [OF reads_sized] not_le)
qed

lemma decode_extents_bytes:
  assumes "length bases = 4" "length sizes = 4"
    and "\<forall>i < 4. unat (bases ! i) + unat (sizes ! i) \<le> unat limit24 \<and> bases ! i < limit24 \<and> sizes ! i < limit24"
  shows "for_each (decode_extent True) [0..<4] ([], [], extent_bytes bases sizes @ r) = Inr (bases, sizes, r)"
proof -
  obtain b0 b1 b2 b3 where b: "bases = [b0, b1, b2, b3]"
    using assms(1) by (auto simp: numeral_eq_Suc length_Suc_conv)
  obtain n0 n1 n2 n3 where n: "sizes = [n0, n1, n2, n3]"
    using assms(2) by (auto simp: numeral_eq_Suc length_Suc_conv)
  have "unat b0 + unat n0 \<le> unat limit24 \<and> b0 < limit24 \<and> n0 < limit24"
    "unat b1 + unat n1 \<le> unat limit24 \<and> b1 < limit24 \<and> n1 < limit24"
    "unat b2 + unat n2 \<le> unat limit24 \<and> b2 < limit24 \<and> n2 < limit24"
    "unat b3 + unat n3 \<le> unat limit24 \<and> b3 < limit24 \<and> n3 < limit24"
    using assms(3) [rule_format, of 0] assms(3) [rule_format, of 1] assms(3) [rule_format, of 2]
      assms(3) [rule_format, of 3] by (simp_all add: b n)
  then show ?thesis by (simp add: upt4 extent_bytes_def b n decode_extent_bytes)
qed

text \<open>Sorted sites outside BSS are those of the text followed by those of the data.\<close>

lemma site_keys:
  "site_section r = TextSection \<Longrightarrow> uint (section_byte (site_section r)) * 2 ^ 32 + uint (site_offset r) < 3 * 2 ^ 32"
  "site_section r = DataSection \<Longrightarrow> 3 * 2 ^ 32 \<le> uint (section_byte (site_section r)) * 2 ^ 32 + uint (site_offset r)"
  using unsigned_less [where 'a = int, of "site_offset r"] by simp_all

lemma sections_in_order:
  assumes "sorted (map (\<lambda>r. uint (section_byte (site_section r)) * 2 ^ 32 + uint (site_offset r)) rs)"
    and "\<forall>r \<in> set rs. site_section r \<noteq> BssSection"
  shows "filter (\<lambda>r. site_section r = TextSection) rs @ filter (\<lambda>r. site_section r = DataSection) rs = rs"
  using assms
proof (induction rs)
  case Nil
  then show ?case by simp
next
  case (Cons r rs)
  show ?case
  proof (cases "site_section r")
    case TextSection
    with Cons show ?thesis by simp
  next
    case DataSection
    have "site_section q = DataSection" if q: "q \<in> set rs" for q
    proof (cases "site_section q")
      case TextSection
      have "uint (section_byte (site_section r)) * 2 ^ 32 + uint (site_offset r) \<le>
        uint (section_byte (site_section q)) * 2 ^ 32 + uint (site_offset q)"
        using Cons.prems(1) q by simp
      with site_keys(1) [OF TextSection] site_keys(2) [OF DataSection] show ?thesis by linarith
    next
      case BssSection
      with Cons.prems(2) q show ?thesis by simp
    qed
    then have "filter (\<lambda>r. site_section r = TextSection) rs = []" "filter (\<lambda>r. site_section r = DataSection) rs = rs"
      by (auto simp: filter_empty_conv filter_id_conv)
    with DataSection show ?thesis by simp
  next
    case BssSection
    with Cons.prems(2) show ?thesis by simp
  qed
qed

definition stored_section :: "o65_file \<Rightarrow> o65_section \<Rightarrow> bytes" where
  "stored_section f s = (if s = TextSection then file_text f else file_data f)"

definition read_back :: "o65_file \<Rightarrow> o65_file" where
  "read_back f =
     f\<lparr>file_relocations :=
         map (\<lambda>r. read_site (stored_section f (site_section r)) r) (sorted_sites (file_relocations f))\<rparr>"

lemma encode_sites_table:
  assumes "encode_sites f rs s w = Inr w'"
    and "unat (file_lengths f ! section_index s) = length stored" "length stored < 2 ^ 31"
    and "int (length relocs + length (filter (\<lambda>r. site_section r = s) rs)) \<le> max_items"
  shows "\<exists>table. w' = w @ table \<and>
     (\<forall>rest. decode_sites True (length (file_imports f)) stored s (- 1) 0 False relocs (table @ rest) =
        Inr (relocs @ map (read_site stored) (filter (\<lambda>r. site_section r = s) rs), rest))"
proof -
  from assms(1) obtain previous' stop' w1 where
    "for_each (encode_site f s) (filter (\<lambda>r. site_section r = s) rs) (- 1, 0, w) = Inr (previous', stop', w1)"
    and w': "w' = w1 @ [0]"
    by (auto simp: encode_sites_def)
  from decode_sites_bytes [OF this(1) _ assms(2,3) _ _ assms(4), of 0] obtain table where
    table: "w1 = w @ table"
    "\<forall>rest. decode_sites True (length (file_imports f)) stored s (- 1) 0 False relocs (table @ 0 # rest) =
        Inr (relocs @ map (read_site stored) (filter (\<lambda>r. site_section r = s) rs), rest)"
    by auto
  then show ?thesis using w' by (intro exI [of _ "table @ [0]"]) simp
qed

lemma check_count_items:
  assumes "int (length xs) \<le> max_items" "0 < least" "\<And>x. x \<in> set xs \<Longrightarrow> least \<le> length (enc x)"
  shows "check_count (concat (map enc xs) @ rest) (unat (of_nat (length xs) :: u32)) least = Inr ()"
proof -
  have "length xs * least \<le> length (concat (map enc xs))"
    using assms(3) by (induction xs) (auto intro: add_mono)
  then have "length xs \<le> length (concat (map enc xs) @ rest) div least"
    using assms(2) by (simp add: less_eq_div_iff_mult_less_eq)
  then show ?thesis using assms(1) by (simp add: check_count_def unat_of_nat_small not_less)
qed

definition encodable :: "o65_file \<Rightarrow> bool" where
  "encodable f \<longleftrightarrow>
     length (file_bases f) = 4 \<and> length (file_lengths f) = 4 \<and>
     extents_fit f \<and>
     (\<forall>e \<in> set (file_exports f). export_in_range f e)"

lemma header_read:
  assumes "encodable f" "file_mode f = o65_mode"
    and "\<forall>b \<in> set (file_bases f). b < limit24" "\<forall>n \<in> set (file_lengths f). n < limit24"
    and "unat (file_lengths f ! 0) = length (file_text f)" "unat (file_lengths f ! 1) = length (file_data f)"
    and "int (length (header_bytes f @ r)) \<le> max_file"
  shows "decode_file (header_bytes f @ r) =
     bind_result (read_u32 r) (\<lambda>(count, r).
     bind_result (check_count r (unat count) 2) (\<lambda>_.
     bind_result (for_each decode_import [0..<unat count] ([], {}, r)) (\<lambda>(names, _, r).
     bind_result (decode_sites True (length names) (file_text f) TextSection (- 1) 0 False [] r) (\<lambda>(relocs, r).
     bind_result (decode_sites True (length names) (file_data f) DataSection (- 1) 0 False relocs r) (\<lambda>(relocs, r).
     bind_result (read_u32 r) (\<lambda>(count, r).
     bind_result (check_count r (unat count) 7) (\<lambda>_.
     bind_result (for_each (decode_export True (file_bases f) (file_lengths f)) [0..<unat count] ([], {}, r)) (\<lambda>(exports, _, r).
     bind_result (read_done r) (\<lambda>_.
       Inr \<lparr>file_mode = o65_mode, file_bases = file_bases f, file_lengths = file_lengths f,
            file_stack = file_stack f, file_text = file_text f, file_data = file_data f, file_imports = names,
            file_relocations = relocs, file_exports = exports\<rparr>)))))))))"
proof -
  have "header_bytes f @ r = o65_magic @ word_bytes2 (file_mode f) @
      extent_bytes (file_bases f) (file_lengths f) @ word_bytes4 (file_stack f) @ 0 # file_text f @ file_data f @ r"
    by (simp add: header_bytes_def extent_bytes_def)
  moreover have "read_take 6 (o65_magic @ x) = Inr (o65_magic, x)" for x
    by (simp add: read_take_def o65_magic_def)
  moreover have "read_word (word_bytes2 v @ x) = Inr (v, x)" for v x by (rule readsD [OF reads_word])
  moreover have "read_sized True (word_bytes4 v @ x) = Inr (v, x)" for v x by (rule readsD [OF reads_sized])
  moreover have "for_each (decode_extent True) [0..<4] ([], [], extent_bytes (file_bases f) (file_lengths f) @ x) =
      Inr (file_bases f, file_lengths f, x)" for x
    using assms(1,3,4) by (intro decode_extents_bytes) (auto simp: encodable_def extents_fit_def)
  moreover have "skip_options (0 # x) = Inr x" for x
    by (simp add: skip_options.simps read_byte_def read_take_def)
  moreover have "read_take (length xs) (xs @ x) = Inr (xs, x)" for xs x :: bytes
    by (simp add: read_take_def)
  moreover have "(o65_mode AND 0x2000 \<noteq> 0) = True" "\<not> (o65_mode AND 0x8000 = 0 \<or> o65_mode AND NOT 0xBA03 \<noteq> 0)"
    by (simp_all add: o65_mode_def)
  ultimately show ?thesis using assms(2,5,6,7)
    by (simp add: decode_file_def Let_def read_sized_def)
qed

lemma decode_encoded_file:
  assumes "encode_file f = Inr bs" and "encodable f"
  shows "decode_file bs = Inr (read_back f)"
proof -
  let ?rs = "sorted_sites (file_relocations f)" and ?n = "length (file_imports f)"
  let ?of = "\<lambda>s. filter (\<lambda>r. site_section r = s) ?rs"
  from assms(1) obtain names names' w1 w2 w3 where
    mode: "file_mode f = o65_mode"
    and limits: "\<forall>b \<in> set (file_bases f). b < limit24" "\<forall>n \<in> set (file_lengths f). n < limit24"
    and sizes: "uint (file_lengths f ! 0) = int (length (file_text f))"
      "uint (file_lengths f ! 1) = int (length (file_data f))"
    and counts: "int (length (file_imports f)) \<le> max_items" "int (length (file_exports f)) \<le> max_items"
      "int (length (file_relocations f)) \<le> max_items"
    and w1: "for_each encode_import (file_imports f)
      ({}, header_bytes f @ word_bytes4 (of_nat (length (file_imports f)))) = Inr (names, w1)"
    and no_bss: "\<forall>r \<in> set ?rs. site_section r \<noteq> BssSection"
    and w2: "encode_sites f ?rs TextSection w1 = Inr w2"
    and w3: "encode_sites f ?rs DataSection w2 = Inr w3"
    and bs: "for_each encode_export (file_exports f)
      ({}, w3 @ word_bytes4 (of_nat (length (file_exports f)))) = Inr (names', bs)"
    and total: "int (length bs) \<le> max_file"
    by (auto simp: encode_file_def Let_def list_ex_iff not_le not_less)
  have text_size: "unat (file_lengths f ! 0) = length (file_text f)"
    and data_size: "unat (file_lengths f ! 1) = length (file_data f)"
    using sizes by (simp_all only: uint_nat of_nat_eq_iff)
  have lengths4: "length (file_lengths f) = 4" using assms(2) by (simp add: encodable_def)
  have "file_lengths f ! 0 < limit24" "file_lengths f ! 1 < limit24"
    using limits(2) lengths4 by simp_all
  then have small: "length (file_text f) < 2 ^ 31" "length (file_data f) < 2 ^ 31"
    using text_size data_size by (simp_all add: limit24_def word_less_nat_alt)
  have split: "?of TextSection @ ?of DataSection = ?rs"
    using no_bss by (intro sections_in_order) (simp_all add: sorted_sites_def)
  have many: "length (?of TextSection) + length (?of DataSection) \<le> length (file_relocations f)"
    using arg_cong [OF split, of length] by (simp add: sorted_sites_def)
  note imported = for_each_encode_import [OF w1] and exported = for_each_encode_export [OF bs]
  obtain t1 where t1: "w2 = w1 @ t1"
    "\<And>rest. decode_sites True ?n (file_text f) TextSection (- 1) 0 False [] (t1 @ rest) =
        Inr (map (read_site (file_text f)) (?of TextSection), rest)"
    using encode_sites_table [OF w2, of "file_text f" "[]"] text_size small many counts(3) by auto
  obtain t2 where t2: "w3 = w2 @ t2"
    "\<And>rest. decode_sites True ?n (file_data f) DataSection (- 1) 0 False
        (map (read_site (file_text f)) (?of TextSection)) (t2 @ rest) =
        Inr (map (read_site (file_text f)) (?of TextSection) @ map (read_site (file_data f)) (?of DataSection), rest)"
    using encode_sites_table [OF w3, of "file_data f" "map (read_site (file_text f)) (?of TextSection)"]
      data_size small many counts(3) by auto
  let ?names = "concat (map (\<lambda>s. s @ [0]) (file_imports f))" and ?exports = "concat (map export_bytes (file_exports f))"
  let ?tail = "word_bytes4 (of_nat (length (file_exports f))) @ ?exports"
  let ?rest = "word_bytes4 (of_nat ?n) @ ?names @ t1 @ t2 @ ?tail"
  have layout: "bs = header_bytes f @ ?rest" using imported exported t1(1) t2(1) by simp
  have long: "read_u32 (word_bytes4 v @ x) = Inr (v, x)" for v x by (rule readsD [OF reads_long])
  have import_count: "check_count (?names @ x) (unat (of_nat ?n :: u32)) 2 = Inr ()" for x
    using imported by (intro check_count_items counts) (auto simp: valid_name_def Suc_le_eq)
  have export_count: "check_count ?exports (unat (of_nat (length (file_exports f)) :: u32)) 7 = Inr ()"
    using exported check_count_items [OF counts(2), of 7 export_bytes "[]"]
    by (auto simp: export_bytes_def valid_name_def Suc_le_eq)
  have import_loop: "for_each decode_import [0..<unat (of_nat ?n :: u32)] ([], {}, ?names @ x) =
      Inr (file_imports f, set (file_imports f), x)" for x
    using imported counts(1) for_each_decode_import [of "[0..<?n]" "file_imports f" "{}" "[]"]
    by (simp add: unat_of_nat_small)
  have export_loop: "for_each (decode_export True (file_bases f) (file_lengths f))
      [0..<unat (of_nat (length (file_exports f)) :: u32)] ([], {}, ?exports) =
      Inr (file_exports f, export_name ` set (file_exports f), [])"
    using exported counts(2) assms(2)
      for_each_decode_export [of "[0..<length (file_exports f)]" "file_exports f" f "{}" "[]" "[]"]
    by (simp add: unat_of_nat_small encodable_def)
  have sites: "map (read_site (file_text f)) (?of TextSection) @ map (read_site (file_data f)) (?of DataSection) =
      map (\<lambda>r. read_site (stored_section f (site_section r)) r) ?rs"
    by (subst (3) split [symmetric]) (simp add: stored_section_def)
  have "int (length (header_bytes f @ ?rest)) \<le> max_file" using total layout by simp
  from header_read [OF assms(2) mode limits text_size data_size this] show ?thesis
    unfolding layout
    by (simp add: long import_count import_loop t1(2) t2(2) export_count export_loop read_done_def sites
        read_back_def mode del: map_append)
qed

text \<open>C30: If \<open>wire::encode\<close> accepts a file whose sections lie below 2^24 and whose exports lie in their
  sections, then \<open>read::decode\<close> accepts the bytes it wrote and returns the same header, sections, names
  and exports, and the relocation sites in the order of their sections and offsets, with the value
  bytes that the format stores for their encodings.
\<close>

theorem file_roundtrip:
  assumes "encode_file f = Inr bs" and "encodable f"
  shows "decode_file bs = Inr (read_back f)"
  using assms by (rule decode_encoded_file)

definition sample_file :: o65_file where
  "sample_file =
     \<lparr>file_mode = o65_mode, file_bases = [0, 0, 0, 0], file_lengths = [8, 4, 6, 0], file_stack = 0,
      file_text = [0x22, 0, 0, 0, 0xA9, 0x34, 0xA2, 0x02], file_data = [4, 0, 0, 0],
      file_imports = [ascii ''fault'', ascii ''putc''],
      file_relocations =
        [\<lparr>site_section = DataSection, site_offset = 0, site_encoding = LongField,
          site_target = SectionRef TextSection, site_value = 4, zero_extend = True\<rparr>,
         \<lparr>site_section = TextSection, site_offset = 5, site_encoding = HighByte,
          site_target = SectionRef BssSection, site_value = 0x3412, zero_extend = False\<rparr>,
         \<lparr>site_section = TextSection, site_offset = 1, site_encoding = LongField,
          site_target = ImportRef 1, site_value = 0, zero_extend = False\<rparr>],
      file_exports = [\<lparr>export_name = ascii ''main'', export_segment = 2, export_value = 0\<rparr>]\<rparr>"

lemma sample_encodable: "encodable sample_file"
proof -
  have "\<forall>i \<in> set [0..<4]. unat (file_bases sample_file ! i) + unat (file_lengths sample_file ! i) \<le> unat limit24"
    by (simp add: upt4 sample_file_def limit24_def)
  then have "extents_fit sample_file" unfolding extents_fit_def by simp
  then show ?thesis
    by (simp add: encodable_def export_in_range_def sample_file_def Let_def)
qed

lemma sample_encodes: "\<exists>bs. encode_file sample_file = Inr bs"
proof -
  have "case encode_file sample_file of Inl _ \<Rightarrow> False | Inr _ \<Rightarrow> True" by code_simp
  then show ?thesis by (auto split: sum.splits)
qed

theorem file_roundtrip_witness:
  "\<exists>bs. encode_file sample_file = Inr bs \<and> decode_file bs = Inr (read_back sample_file)"
  using sample_encodes file_roundtrip [OF _ sample_encodable] by blast

end
