(* ===== verification/O65_Descriptor.thy ===== *)
theory O65_Descriptor
  imports O65_Reader
begin

text \<open>
  The profile descriptor of an o65 application: its encoder (\<open>src/src/mir65816/o65/descriptor.rs\<close>) and
  decoder (\<open>contract\<close> and \<open>descriptor\<close> in \<open>src/src/mir65816/o65/read.rs\<close>). Lemmas: what each writer
  appends, each item as \<open>reads\<close>, and with them the round trip of whole descriptors.
\<close>

section \<open>Encoding\<close>

definition argument_bytes :: "o65_argument \<Rightarrow> bytes" where
  "argument_bytes a =
     word_bytes4 (argument_offset a) @ word_bytes4 (argument_size a) @ word_bytes4 (argument_alignment a)"

definition write_contract :: "o65_contract \<Rightarrow> bytes \<Rightarrow> o65_error + bytes" where
  "write_contract c w =
     bind_result (verify_contract c) (\<lambda>_.
     bind_result (write_string (contract_abi c) w) (\<lambda>w.
     bind_result (write_count (length (contract_arguments c)) (w @ word_bytes4 (contract_signature c))) (\<lambda>w.
       Inr (w @ concat (map argument_bytes (contract_arguments c)) @
            [contract_result c] @ word_bytes4 (contract_incoming c) @ word_bytes2 (contract_stack_peak c) @
            [contract_irq_effect c, contract_kind c, contract_domains c]))))"

definition write_routine :: "o65_routine \<Rightarrow> bytes \<Rightarrow> o65_error + bytes" where
  "write_routine r w =
     bind_result (write_string (routine_name r) (w @ word_bytes4 (routine_id r))) (\<lambda>w.
     bind_result (write_contract (routine_contract r)
                    (w @ word_bytes4 (routine_offset r) @ word_bytes4 (routine_size r))) (\<lambda>w.
       Inr (w @ word_bytes2 (routine_frame r) @ word_bytes2 (routine_spill r) @
            word_bytes4 (routine_local_peak r))))"

definition boolean_byte :: "bool \<Rightarrow> u8" where
  "boolean_byte b = (if b then 1 else 0)"

definition write_object :: "o65_object \<Rightarrow> bytes \<Rightarrow> o65_error + bytes" where
  "write_object b w =
     bind_result (write_string (object_name b) (w @ [object_kind b] @ word_bytes4 (object_id b))) (\<lambda>w.
       Inr (w @ [case location_section (object_location b) of None \<Rightarrow> 0 | Some s \<Rightarrow> section_byte s] @
            word_bytes4 (location_offset (object_location b)) @ word_bytes4 (object_size b) @
            word_bytes4 (object_alignment b) @
            [boolean_byte (object_mutable b), boolean_byte (object_alias b)]))"

definition write_import :: "o65_import \<Rightarrow> bytes \<Rightarrow> o65_error + bytes" where
  "write_import i w = bind_result (write_string (import_name i) w) (write_contract (import_contract i))"

definition target_bytes :: "o65_reference \<Rightarrow> bytes" where
  "target_bytes t =
     (case t of
        SectionRef s \<Rightarrow> [section_byte s] @ word_bytes4 0
      | ImportRef i \<Rightarrow> [0] @ word_bytes4 i)"

definition relocation_bytes :: "o65_relocation \<Rightarrow> bytes" where
  "relocation_bytes r =
     [section_byte (site_section r)] @ word_bytes4 (site_offset r) @ [encoding_byte (site_encoding r)] @
     target_bytes (site_target r) @ word_bytes4 (site_value r) @ [boolean_byte (zero_extend r)]"

definition descriptor_magic :: bytes where
  "descriptor_magic = ascii ''A8O1''"

definition encode_descriptor :: "o65_profile \<Rightarrow> o65_error + bytes" where
  "encode_descriptor p =
     bind_result (write_count (length (profile_routines p))
       (descriptor_magic @ word_bytes4 0 @ word_bytes2 (profile_version p) @ word_bytes2 0 @ [3, 0] @
        word_bytes2 (nmi_extra_stack p) @ word_bytes4 (profile_entry p))) (\<lambda>w.
     bind_result (for_each write_routine (profile_routines p) w) (\<lambda>w.
     bind_result (write_count (length (profile_objects p)) w) (\<lambda>w.
     bind_result (for_each write_object (profile_objects p) w) (\<lambda>w.
     bind_result (write_count (length (profile_imports p)) w) (\<lambda>w.
     bind_result (for_each write_import (profile_imports p) w) (\<lambda>w.
     bind_result (write_count (length (profile_relocations p)) w) (\<lambda>w.
     let w = w @ concat (map relocation_bytes (profile_relocations p)) in
     bind_result (check (\<not> int (length w) \<ge> uint limit24) (Message ''descriptor size limit'')) (\<lambda>_.
       Inr (splice 4 (word_bytes4 (of_nat (length w))) w)))))))))"

section \<open>Decoding\<close>

definition read_argument :: "o65_argument reading" where
  "read_argument r =
     bind_result (read_u32 r) (\<lambda>(offset, r).
     bind_result (read_u32 r) (\<lambda>(size, r).
     bind_result (read_u32 r) (\<lambda>(alignment, r).
       Inr (\<lparr>argument_offset = offset, argument_size = size, argument_alignment = alignment\<rparr>, r))))"

definition read_contract :: "o65_contract reading" where
  "read_contract r =
     bind_result (read_string r) (\<lambda>(abi, r).
     bind_result (read_u32 r) (\<lambda>(signature, r).
     bind_result (read_counted 12 read_argument r) (\<lambda>(arguments, r).
     bind_result (read_byte r) (\<lambda>(result, r).
     bind_result (read_u32 r) (\<lambda>(incoming, r).
     bind_result (read_word r) (\<lambda>(stack_peak, r).
     bind_result (read_byte r) (\<lambda>(irq_effect, r).
     bind_result (read_byte r) (\<lambda>(kind, r).
     bind_result (read_byte r) (\<lambda>(domains, r).
     let c = \<lparr>contract_abi = abi, contract_signature = signature, contract_arguments = arguments,
              contract_result = result, contract_incoming = incoming, contract_stack_peak = stack_peak,
              contract_irq_effect = irq_effect, contract_kind = kind, contract_domains = domains\<rparr> in
     bind_result (verify_contract c) (\<lambda>_. Inr (c, r)))))))))))"

definition read_routine :: "o65_routine reading" where
  "read_routine r =
     bind_result (read_u32 r) (\<lambda>(id, r).
     bind_result (read_string r) (\<lambda>(name, r).
     bind_result (read_u32 r) (\<lambda>(offset, r).
     bind_result (read_u32 r) (\<lambda>(size, r).
     bind_result (read_contract r) (\<lambda>(c, r).
     bind_result (read_word r) (\<lambda>(frame, r).
     bind_result (read_word r) (\<lambda>(spill, r).
     bind_result (read_u32 r) (\<lambda>(local_peak, r).
       Inr (\<lparr>routine_id = id, routine_name = name, routine_offset = offset, routine_size = size,
             routine_contract = c, routine_frame = frame, routine_spill = spill,
             routine_local_peak = local_peak\<rparr>, r)))))))))"

definition read_section_tag :: "o65_section option reading" where
  "read_section_tag r =
     bind_result (read_byte r) (\<lambda>(tag, r).
       if tag = 0 then Inr (None, r)
       else bind_result (section_from_byte tag) (\<lambda>s. Inr (Some s, r)))"

definition read_object :: "o65_object reading" where
  "read_object r =
     bind_result (read_byte r) (\<lambda>(kind, r).
     bind_result (read_u32 r) (\<lambda>(id, r).
     bind_result (read_string r) (\<lambda>(name, r).
     bind_result (read_section_tag r) (\<lambda>(place, r).
     bind_result (read_u32 r) (\<lambda>(offset, r).
     bind_result (read_u32 r) (\<lambda>(size, r).
     bind_result (read_u32 r) (\<lambda>(alignment, r).
     bind_result (read_boolean r) (\<lambda>(mutable, r).
     bind_result (read_boolean r) (\<lambda>(alias, r).
       Inr (\<lparr>object_kind = kind, object_id = id, object_name = name,
             object_location = \<lparr>location_section = place, location_offset = offset\<rparr>,
             object_size = size, object_alignment = alignment, object_mutable = mutable,
             object_alias = alias\<rparr>, r))))))))))"

definition read_import :: "o65_import reading" where
  "read_import r =
     bind_result (read_string r) (\<lambda>(name, r).
     bind_result (read_contract r) (\<lambda>(c, r). Inr (\<lparr>import_name = name, import_contract = c\<rparr>, r)))"

definition read_target :: "o65_reference reading" where
  "read_target r =
     bind_result (read_byte r) (\<lambda>(tag, r).
     bind_result (read_u32 r) (\<lambda>(i, r).
       if tag = 0 then Inr (ImportRef i, r)
       else bind_result (check (i = 0) (Message ''invalid section relocation index'')) (\<lambda>_.
            bind_result (section_from_byte tag) (\<lambda>s. Inr (SectionRef s, r)))))"

definition read_section :: "o65_section reading" where
  "read_section r =
     bind_result (read_byte r) (\<lambda>(b, r). bind_result (section_from_byte b) (\<lambda>s. Inr (s, r)))"

definition read_encoding :: "o65_encoding reading" where
  "read_encoding r =
     bind_result (read_byte r) (\<lambda>(b, r). bind_result (encoding_from_byte b) (\<lambda>e. Inr (e, r)))"

definition read_relocation :: "o65_relocation reading" where
  "read_relocation r =
     bind_result (read_section r) (\<lambda>(s, r).
     bind_result (read_u32 r) (\<lambda>(offset, r).
     bind_result (read_encoding r) (\<lambda>(encoding, r).
     bind_result (read_target r) (\<lambda>(target, r).
     bind_result (read_u32 r) (\<lambda>(val, r).
     bind_result (read_boolean r) (\<lambda>(zero, r).
       Inr (\<lparr>site_section = s, site_offset = offset, site_encoding = encoding, site_target = target,
             site_value = val, zero_extend = zero\<rparr>, r)))))))"

definition unsupported_descriptor :: o65_error where
  "unsupported_descriptor = Message ''unsupported o65 profile descriptor''"

definition read_profile :: "o65_profile reading" where
  "read_profile r =
     bind_result (read_word r) (\<lambda>(version, r).
     bind_result (check (version = 1 \<or> version = 2) unsupported_descriptor) (\<lambda>_.
     bind_result (read_word r) (\<lambda>(reserved, r).
     bind_result (check (reserved = 0) unsupported_descriptor) (\<lambda>_.
     bind_result (read_byte r) (\<lambda>(domains, r).
     bind_result (check (domains = 3) unsupported_descriptor) (\<lambda>_.
     bind_result (read_byte r) (\<lambda>(flags, r).
     bind_result (check (flags = 0) unsupported_descriptor) (\<lambda>_.
     bind_result (read_word r) (\<lambda>(nmi, r).
     bind_result (read_u32 r) (\<lambda>(start, r).
     bind_result (read_counted 46 read_routine r) (\<lambda>(routines, r).
     bind_result (read_counted 24 read_object r) (\<lambda>(objects, r).
     bind_result (read_counted 26 read_import r) (\<lambda>(imports, r).
     bind_result (read_counted 16 read_relocation r) (\<lambda>(relocations, r).
       Inr (\<lparr>profile_version = version, nmi_extra_stack = nmi, profile_entry = start,
             profile_routines = routines, profile_objects = objects, profile_imports = imports,
             profile_relocations = relocations\<rparr>, r)))))))))))))))"

definition decode_descriptor :: "bytes \<Rightarrow> o65_error + o65_profile" where
  "decode_descriptor bs =
     bind_result (read_take 4 bs) (\<lambda>(magic, r).
     bind_result (check (magic = descriptor_magic) unsupported_descriptor) (\<lambda>_.
     bind_result (read_u32 r) (\<lambda>(size, r).
     bind_result (check (uint size = int (length bs)) unsupported_descriptor) (\<lambda>_.
     bind_result (read_profile r) (\<lambda>(p, r).
     bind_result (read_done r) (\<lambda>_.
     bind_result (check (\<not> ((profile_version p = 2) \<noteq>
                              list_ex (\<lambda>i. contract_kind (import_contract i) = 2) (profile_imports p)))
                    (Message ''fault contract/profile version mismatch'')) (\<lambda>_.
       Inr p)))))))"

section \<open>What the writers append\<close>

definition string_bytes :: "bytes \<Rightarrow> bytes" where
  "string_bytes s = word_bytes4 (of_nat (length s)) @ s"

definition list_bytes :: "('a \<Rightarrow> bytes) \<Rightarrow> 'a list \<Rightarrow> bytes" where
  "list_bytes enc xs = word_bytes4 (of_nat (length xs)) @ concat (map enc xs)"

definition contract_bytes :: "o65_contract \<Rightarrow> bytes" where
  "contract_bytes c =
     string_bytes (contract_abi c) @ word_bytes4 (contract_signature c) @
     list_bytes argument_bytes (contract_arguments c) @ [contract_result c] @
     word_bytes4 (contract_incoming c) @ word_bytes2 (contract_stack_peak c) @
     [contract_irq_effect c] @ [contract_kind c] @ [contract_domains c]"

definition routine_bytes :: "o65_routine \<Rightarrow> bytes" where
  "routine_bytes r =
     word_bytes4 (routine_id r) @ string_bytes (routine_name r) @ word_bytes4 (routine_offset r) @
     word_bytes4 (routine_size r) @ contract_bytes (routine_contract r) @ word_bytes2 (routine_frame r) @
     word_bytes2 (routine_spill r) @ word_bytes4 (routine_local_peak r)"

definition tag_byte :: "o65_section option \<Rightarrow> bytes" where
  "tag_byte s = [case s of None \<Rightarrow> 0 | Some s \<Rightarrow> section_byte s]"

definition object_bytes :: "o65_object \<Rightarrow> bytes" where
  "object_bytes b =
     [object_kind b] @ word_bytes4 (object_id b) @ string_bytes (object_name b) @
     tag_byte (location_section (object_location b)) @ word_bytes4 (location_offset (object_location b)) @
     word_bytes4 (object_size b) @ word_bytes4 (object_alignment b) @ [boolean_byte (object_mutable b)] @
     [boolean_byte (object_alias b)]"

definition import_bytes :: "o65_import \<Rightarrow> bytes" where
  "import_bytes i = string_bytes (import_name i) @ contract_bytes (import_contract i)"

text \<open>What a successful writer has checked.\<close>

definition string_fits :: "bytes \<Rightarrow> bool" where
  "string_fits s \<longleftrightarrow> int (length s) \<le> max_string"

definition contract_fits :: "o65_contract \<Rightarrow> bool" where
  "contract_fits c \<longleftrightarrow> verify_contract c = Inr () \<and> int (length (contract_arguments c)) \<le> max_items"

lemma write_string_Inr:
  "write_string s w = Inr w' \<longleftrightarrow> string_fits s \<and> w' = w @ string_bytes s"
  by (auto simp: write_string_def string_fits_def string_bytes_def)

lemma write_count_Inr:
  "write_count n w = Inr w' \<longleftrightarrow> int n \<le> max_items \<and> w' = w @ word_bytes4 (of_nat n)"
  by (auto simp: write_count_def)

lemma write_contract_Inr:
  "write_contract c w = Inr w' \<longleftrightarrow>
     contract_fits c \<and> string_fits (contract_abi c) \<and> w' = w @ contract_bytes c"
  by (auto simp: write_contract_def write_string_Inr write_count_Inr contract_fits_def contract_bytes_def list_bytes_def)

lemma write_items:
  assumes "for_each write xs w = Inr w'"
    and "\<And>x w w'. x \<in> set xs \<Longrightarrow> write x w = Inr w' \<Longrightarrow> ok x \<and> w' = w @ enc x"
  shows "w' = w @ concat (map enc xs)" and "x \<in> set xs \<Longrightarrow> ok x"
proof -
  have "w' = w @ concat (map enc xs) \<and> (\<forall>x \<in> set xs. ok x)"
    using assms
  proof (induction xs arbitrary: w)
    case (Cons x xs)
    then obtain v where "write x w = Inr v" "for_each write xs v = Inr w'" by auto
    with Cons.IH [of v] Cons.prems(2) show ?case by fastforce
  qed simp
  then show "w' = w @ concat (map enc xs)" "x \<in> set xs \<Longrightarrow> ok x" by auto
qed

definition routine_fits :: "o65_routine \<Rightarrow> bool" where
  "routine_fits r \<longleftrightarrow> string_fits (routine_name r) \<and> contract_fits (routine_contract r) \<and>
     string_fits (contract_abi (routine_contract r))"

definition import_fits :: "o65_import \<Rightarrow> bool" where
  "import_fits i \<longleftrightarrow> string_fits (import_name i) \<and> contract_fits (import_contract i) \<and>
     string_fits (contract_abi (import_contract i))"

lemma write_item_Inr:
  "write_routine r w = Inr w' \<Longrightarrow> routine_fits r \<and> w' = w @ routine_bytes r"
  "write_object b w = Inr w' \<Longrightarrow> string_fits (object_name b) \<and> w' = w @ object_bytes b"
  "write_import i w = Inr w' \<Longrightarrow> import_fits i \<and> w' = w @ import_bytes i"
  by (auto simp: write_routine_def write_object_def write_import_def write_string_Inr routine_fits_def
      import_fits_def routine_bytes_def object_bytes_def import_bytes_def tag_byte_def write_contract_Inr)

text \<open>A descriptor is its header, with its own size in it, and its items.\<close>

definition profile_bytes :: "o65_profile \<Rightarrow> bytes" where
  "profile_bytes p =
     word_bytes2 (profile_version p) @ word_bytes2 0 @ [3] @ [0] @ word_bytes2 (nmi_extra_stack p) @
     word_bytes4 (profile_entry p) @ list_bytes routine_bytes (profile_routines p) @
     list_bytes object_bytes (profile_objects p) @ list_bytes import_bytes (profile_imports p) @
     list_bytes relocation_bytes (profile_relocations p)"

definition profile_fits :: "o65_profile \<Rightarrow> bool" where
  "profile_fits p \<longleftrightarrow>
     (\<forall>r \<in> set (profile_routines p). routine_fits r) \<and>
     (\<forall>b \<in> set (profile_objects p). string_fits (object_name b)) \<and>
     (\<forall>i \<in> set (profile_imports p). import_fits i) \<and>
     int (length (profile_routines p)) \<le> max_items \<and> int (length (profile_objects p)) \<le> max_items \<and>
     int (length (profile_imports p)) \<le> max_items \<and> int (length (profile_relocations p)) \<le> max_items"

lemma encode_descriptor_Inr:
  assumes "encode_descriptor p = Inr bs"
  shows "profile_fits p"
    and "bs = descriptor_magic @ word_bytes4 (of_nat (length bs)) @ profile_bytes p"
    and "int (length bs) < uint limit24"
proof -
  let ?head = "descriptor_magic @ word_bytes4 0 @ word_bytes2 (profile_version p) @ word_bytes2 0 @ [3, 0] @
    word_bytes2 (nmi_extra_stack p) @ word_bytes4 (profile_entry p)"
  obtain w1 w2 w3 where
    n: "int (length (profile_routines p)) \<le> max_items" "int (length (profile_objects p)) \<le> max_items"
      "int (length (profile_imports p)) \<le> max_items" "int (length (profile_relocations p)) \<le> max_items"
    and w1: "for_each write_routine (profile_routines p) (?head @ word_bytes4 (of_nat (length (profile_routines p)))) = Inr w1"
    and w2: "for_each write_object (profile_objects p) (w1 @ word_bytes4 (of_nat (length (profile_objects p)))) = Inr w2"
    and w3: "for_each write_import (profile_imports p) (w2 @ word_bytes4 (of_nat (length (profile_imports p)))) = Inr w3"
    and size: "int (length ((w3 @ word_bytes4 (of_nat (length (profile_relocations p)))) @
        concat (map relocation_bytes (profile_relocations p)))) < uint limit24"
    and bs: "bs = splice 4 (word_bytes4 (of_nat (length ((w3 @ word_bytes4 (of_nat (length (profile_relocations p)))) @
        concat (map relocation_bytes (profile_relocations p))))))
        ((w3 @ word_bytes4 (of_nat (length (profile_relocations p)))) @
        concat (map relocation_bytes (profile_relocations p)))"
    using assms unfolding encode_descriptor_def Let_def write_count_Inr bind_result_eq_Inr check_simps
    by (auto simp: not_le simp del: append_assoc append.simps length_append)
  note i1 = write_items [OF w1, where ok = routine_fits and enc = routine_bytes, OF write_item_Inr(1)]
  note i2 = write_items [OF w2, where ok = "\<lambda>b. string_fits (object_name b)" and enc = object_bytes, OF write_item_Inr(2)]
  note i3 = write_items [OF w3, where ok = import_fits and enc = import_bytes, OF write_item_Inr(3)]
  show "profile_fits p" using n i1(2) i2(2) i3(2) by (simp add: profile_fits_def)
  have whole: "(w3 @ word_bytes4 (of_nat (length (profile_relocations p)))) @
      concat (map relocation_bytes (profile_relocations p)) =
      descriptor_magic @ word_bytes4 0 @ profile_bytes p"
    using i1(1) i2(1) i3(1) by (simp add: profile_bytes_def list_bytes_def)
  have magic: "length descriptor_magic = 4" by (simp add: descriptor_magic_def ascii_def)
  have "bs = descriptor_magic @ word_bytes4 (of_nat (length (descriptor_magic @ word_bytes4 0 @ profile_bytes p))) @ profile_bytes p"
    unfolding bs whole by (simp add: splice_def magic)
  moreover from this have "length bs = length (descriptor_magic @ word_bytes4 0 @ profile_bytes p)" by simp
  ultimately show "bs = descriptor_magic @ word_bytes4 (of_nat (length bs)) @ profile_bytes p" by simp
  show "int (length bs) < uint limit24"
    using size \<open>length bs = _\<close> unfolding whole by simp
qed

section \<open>The items read back\<close>

lemma reads_string_bytes: "string_fits s \<Longrightarrow> utf8_valid s \<Longrightarrow> reads read_string (string_bytes s) s"
  by (simp add: string_bytes_def string_fits_def reads_string)

lemma reads_argument: "reads read_argument (argument_bytes a) a"
  using reads_long
  by (cases a) (simp add: reads_def read_argument_def argument_bytes_def)

lemma reads_arguments:
  "int (length xs) \<le> max_items \<Longrightarrow> reads (read_counted 12 read_argument) (list_bytes argument_bytes xs) xs"
  unfolding list_bytes_def by (rule reads_counted) (simp_all add: reads_argument, simp add: argument_bytes_def)

lemma abi_valid: "utf8_valid abi_name"
  by code_simp

lemma verified_abi: "verify_contract c = Inr () \<Longrightarrow> contract_abi c = abi_name"
  by (auto simp: verify_contract_def split: if_splits)

lemma reads_contract:
  assumes "contract_fits c" "string_fits (contract_abi c)"
  shows "reads read_contract (contract_bytes c) c"
proof -
  have v: "verify_contract c = Inr ()" using assms(1) by (simp add: contract_fits_def)
  have s: "reads read_string (string_bytes (contract_abi c)) (contract_abi c)"
    using assms(2) abi_valid verified_abi [OF v] by (intro reads_string_bytes) simp_all
  have a: "reads (read_counted 12 read_argument) (list_bytes argument_bytes (contract_arguments c)) (contract_arguments c)"
    using assms(1) by (intro reads_arguments) (simp add: contract_fits_def)
  show ?thesis
    using s a reads_long reads_word reads_byte v
    unfolding reads_def read_contract_def contract_bytes_def
    by (cases c) (simp add: Let_def)
qed

lemma reads_routine:
  assumes "routine_fits r" "utf8_valid (routine_name r)"
  shows "reads read_routine (routine_bytes r) r"
proof -
  have "reads read_contract (contract_bytes (routine_contract r)) (routine_contract r)"
    "reads read_string (string_bytes (routine_name r)) (routine_name r)"
    using assms by (auto simp: routine_fits_def intro: reads_contract reads_string_bytes)
  then show ?thesis
    using reads_long reads_word unfolding reads_def read_routine_def routine_bytes_def by simp
qed

lemma reads_section_tag: "reads read_section_tag (tag_byte s) s"
  using reads_byte by (cases s) (simp_all add: reads_def read_section_tag_def tag_byte_def)

lemma reads_boolean_byte: "reads read_boolean [boolean_byte b] b"
  using reads_boolean by (simp add: boolean_byte_def)

lemma reads_object:
  assumes "string_fits (object_name b)" "utf8_valid (object_name b)"
  shows "reads read_object (object_bytes b) b"
proof -
  have "reads read_string (string_bytes (object_name b)) (object_name b)"
    using assms by (rule reads_string_bytes)
  then show ?thesis
    using reads_long reads_byte reads_section_tag reads_boolean_byte
    unfolding reads_def read_object_def object_bytes_def by simp
qed

lemma reads_import:
  assumes "import_fits i" "utf8_valid (import_name i)"
  shows "reads read_import (import_bytes i) i"
proof -
  have "reads read_contract (contract_bytes (import_contract i)) (import_contract i)"
    "reads read_string (string_bytes (import_name i)) (import_name i)"
    using assms by (auto simp: import_fits_def intro: reads_contract reads_string_bytes)
  then show ?thesis unfolding reads_def read_import_def import_bytes_def by simp
qed

lemma reads_target: "reads read_target (target_bytes t) t"
  using reads_byte reads_long
  by (cases t) (simp_all add: reads_def read_target_def target_bytes_def)

lemma reads_relocation: "reads read_relocation (relocation_bytes r) r"
proof -
  have "reads read_section [section_byte s] s" "reads read_encoding [encoding_byte e] e" for s e
    using reads_byte by (simp_all add: reads_def read_section_def read_encoding_def)
  then show ?thesis
    using reads_long reads_target reads_boolean_byte
    unfolding reads_def read_relocation_def relocation_bytes_def by simp
qed

text \<open>The names of a profile are Rust strings, hence UTF-8.\<close>

definition names_utf8 :: "o65_profile \<Rightarrow> bool" where
  "names_utf8 p \<longleftrightarrow>
     list_all (\<lambda>r. utf8_valid (routine_name r)) (profile_routines p) \<and>
     list_all (\<lambda>b. utf8_valid (object_name b)) (profile_objects p) \<and>
     list_all (\<lambda>i. utf8_valid (import_name i)) (profile_imports p)"

lemma item_lengths:
  "46 \<le> length (routine_bytes r)" "24 \<le> length (object_bytes b)" "26 \<le> length (import_bytes i)"
  "16 \<le> length (relocation_bytes rel)"
  by (simp_all add: routine_bytes_def object_bytes_def import_bytes_def relocation_bytes_def string_bytes_def
      contract_bytes_def list_bytes_def tag_byte_def target_bytes_def split: o65_reference.split)

lemma reads_profile:
  assumes fits: "profile_fits p" and names: "names_utf8 p"
    and version: "profile_version p = 1 \<or> profile_version p = 2"
  shows "reads read_profile (profile_bytes p) p"
proof -
  have r: "reads (read_counted 46 read_routine) (list_bytes routine_bytes (profile_routines p)) (profile_routines p)"
    unfolding list_bytes_def
    by (rule reads_counted) (use fits names in \<open>auto simp: profile_fits_def names_utf8_def list_all_iff item_lengths intro: reads_routine\<close>)
  have b: "reads (read_counted 24 read_object) (list_bytes object_bytes (profile_objects p)) (profile_objects p)"
    unfolding list_bytes_def
    by (rule reads_counted) (use fits names in \<open>auto simp: profile_fits_def names_utf8_def list_all_iff item_lengths intro: reads_object\<close>)
  have i: "reads (read_counted 26 read_import) (list_bytes import_bytes (profile_imports p)) (profile_imports p)"
    unfolding list_bytes_def
    by (rule reads_counted) (use fits names in \<open>auto simp: profile_fits_def names_utf8_def list_all_iff item_lengths intro: reads_import\<close>)
  have l: "reads (read_counted 16 read_relocation) (list_bytes relocation_bytes (profile_relocations p)) (profile_relocations p)"
    unfolding list_bytes_def
    by (rule reads_counted) (use fits in \<open>auto simp: profile_fits_def item_lengths intro: reads_relocation\<close>)
  show ?thesis
    using r b i l reads_long reads_word reads_byte version
    unfolding reads_def read_profile_def profile_bytes_def by simp
qed

lemma decode_encoded_descriptor:
  assumes enc: "encode_descriptor p = Inr bs" and names: "names_utf8 p"
    and version: "profile_version p = 1 \<or> profile_version p = 2"
    and fault: "profile_version p = 2 \<longleftrightarrow> (\<exists>i \<in> set (profile_imports p). contract_kind (import_contract i) = 2)"
  shows "decode_descriptor bs = Inr p"
proof -
  note e = encode_descriptor_Inr [OF enc]
  let ?size = "of_nat (length bs) :: u32"
  have size: "uint ?size = int (length bs)"
    using e(3) by (simp add: uint_nat unat_of_nat_u32 limit24_def)
  have body: "read_profile (profile_bytes p) = Inr (p, [])"
    using readsD [OF reads_profile [OF e(1) names version], of "[]"] by simp
  have magic: "length descriptor_magic = 4" by (simp add: descriptor_magic_def ascii_def)
  have "decode_descriptor (descriptor_magic @ word_bytes4 ?size @ profile_bytes p) = Inr p"
    if "length bs = length (descriptor_magic @ word_bytes4 ?size @ profile_bytes p)"
    using that size fault
    by (auto simp: decode_descriptor_def read_take_def magic readsD [OF reads_long] body read_done_def list_ex_iff)
  then show ?thesis using e(2) by metis
qed

text \<open>C32: the profile descriptor round trips. Whenever encoding a profile succeeds, decoding the bytes
  gives the same profile back, provided its names are UTF-8, as a Rust \<open>String\<close> is, its version is 1 or 2, and is 2 exactly when one of its imports
  is the arithmetic fault, which is what the encoder's caller establishes.\<close>

theorem descriptor_roundtrip:
  assumes "encode_descriptor p = Inr bs" and "names_utf8 p"
    and "profile_version p = 1 \<or> profile_version p = 2"
    and "profile_version p = 2 \<longleftrightarrow> (\<exists>i \<in> set (profile_imports p). contract_kind (import_contract i) = 2)"
  shows "decode_descriptor bs = Inr p"
  using assms by (rule decode_encoded_descriptor)

definition sample_contract :: o65_contract where
  "sample_contract =
     \<lparr>contract_abi = abi_name, contract_signature = 7,
      contract_arguments = [\<lparr>argument_offset = 0, argument_size = 2, argument_alignment = 2\<rparr>],
      contract_result = 2, contract_incoming = 3, contract_stack_peak = 0, contract_irq_effect = 0,
      contract_kind = 0, contract_domains = 3\<rparr>"

definition sample_profile :: o65_profile where
  "sample_profile =
     \<lparr>profile_version = 1, nmi_extra_stack = 0, profile_entry = 0,
      profile_routines =
        [\<lparr>routine_id = 1, routine_name = ascii ''Main'', routine_offset = 0, routine_size = 4,
          routine_contract = sample_contract, routine_frame = 2, routine_spill = 0, routine_local_peak = 2\<rparr>],
      profile_objects =
        [\<lparr>object_kind = 0, object_id = 1, object_name = ascii ''X'',
          object_location = \<lparr>location_section = Some DataSection, location_offset = 0\<rparr>,
          object_size = 2, object_alignment = 2, object_mutable = True, object_alias = False\<rparr>],
      profile_imports = [\<lparr>import_name = overflow_name, import_contract = overflow_contract\<rparr>],
      profile_relocations =
        [\<lparr>site_section = TextSection, site_offset = 1, site_encoding = LongField,
          site_target = ImportRef 0, site_value = 0, zero_extend = False\<rparr>]\<rparr>"

lemma sample_profile_encodes: "\<exists>bs. encode_descriptor sample_profile = Inr bs"
proof -
  have "(case encode_descriptor sample_profile of Inl _ \<Rightarrow> False | Inr _ \<Rightarrow> True)" by code_simp
  then show ?thesis by (auto split: sum.splits)
qed

lemma sample_profile_facts:
  "names_utf8 sample_profile" "profile_version sample_profile = 1"
  "\<not> (\<exists>i \<in> set (profile_imports sample_profile). contract_kind (import_contract i) = 2)"
  by code_simp (simp_all add: sample_profile_def overflow_contract_def)

theorem descriptor_roundtrip_witness:
  "\<exists>bs. encode_descriptor sample_profile = Inr bs \<and> decode_descriptor bs = Inr sample_profile"
proof -
  obtain bs where "encode_descriptor sample_profile = Inr bs" using sample_profile_encodes by blast
  with descriptor_roundtrip [OF this] sample_profile_facts show ?thesis by auto
qed

end
