(* ===== verification/O65_Region.thy ===== *)
theory O65_Region
  imports O65_Profile
begin

text \<open>
  Address ranges of the o65 loader (\<open>Region\<close>, \<open>RangeIndex\<close> and \<open>disjoint\<close> in
  \<open>src/src/mir65816/o65/relocate.rs\<close>). A sum in \<open>u64\<close> of two \<open>u32\<close> values is an integer sum. The index keeps
  the ranges by start, each with the greatest end of any range up to it and the greatest end of a
  nonempty one; \<open>partition_point\<close> on the sorted starts is the length of the prefix. Lemmas: the index
  answers as a scan of all ranges does, and \<open>disjoint\<close> accepts exactly the pairwise disjoint ranges.
\<close>

record o65_region =
  region_address :: u32
  region_size :: u32

definition region_end :: "o65_region \<Rightarrow> o65_error + u32" where
  "region_end r =
     ok_or (Message ''region exceeds 24-bit address space'')
       (case checked_add32 (region_address r) (region_size r) of
          None \<Rightarrow> None
        | Some e \<Rightarrow> if region_address r < limit24 \<and> e \<le> limit24 then Some e else None)"

definition o65_overlaps :: "o65_region \<Rightarrow> o65_region \<Rightarrow> bool" where
  "o65_overlaps a b \<longleftrightarrow>
     region_size a \<noteq> 0 \<and> region_size b \<noteq> 0 \<and>
     uint (region_address a) < uint (region_address b) + uint (region_size b) \<and>
     uint (region_address b) < uint (region_address a) + uint (region_size a)"

type_synonym range_index = "(u32 \<times> u32 \<times> u32) list"

fun range_maxima :: "u32 \<Rightarrow> u32 \<Rightarrow> range_index \<Rightarrow> range_index" where
  "range_maxima greatest occupied [] = []"
| "range_maxima greatest occupied ((start, stop, _) # ranges) =
     (let occupied = (if stop > start then max occupied stop else occupied);
          greatest = max greatest stop
      in (start, greatest, occupied) # range_maxima greatest occupied ranges)"

definition range_index_new :: "o65_region list \<Rightarrow> o65_error + range_index" where
  "range_index_new regions =
     bind_result (map_result (\<lambda>r. bind_result (region_end r) (\<lambda>e. Inr (region_address r, e, 0))) regions)
       (\<lambda>ranges. Inr (range_maxima 0 0
          (sort_key (\<lambda>(start, stop, _). uint start * 2 ^ 32 + uint stop) ranges)))"

definition partition_point :: "('a \<Rightarrow> bool) \<Rightarrow> 'a list \<Rightarrow> nat" where
  "partition_point P xs = length (takeWhile P xs)"

definition index_contains :: "range_index \<Rightarrow> o65_region \<Rightarrow> bool" where
  "index_contains ranges region \<longleftrightarrow>
     (let n = partition_point (\<lambda>r. fst r \<le> region_address region) ranges
      in n \<noteq> 0 \<and> uint (fst (snd (ranges ! (n - 1)))) \<ge> uint (region_address region) + uint (region_size region))"

definition index_overlaps :: "range_index \<Rightarrow> o65_region \<Rightarrow> bool" where
  "index_overlaps ranges region \<longleftrightarrow>
     (let stop = uint (region_address region) + uint (region_size region);
          n = partition_point (\<lambda>r. uint (fst r) < stop) ranges
      in region_size region \<noteq> 0 \<and> n \<noteq> 0 \<and> snd (snd (ranges ! (n - 1))) > region_address region)"

definition disjoint :: "o65_region list \<Rightarrow> o65_error + unit" where
  "disjoint ranges =
     (let ranges = sort_key region_address (filter (\<lambda>r. region_size r \<noteq> 0) ranges) in
      check (\<not> list_ex (\<lambda>i. o65_overlaps (ranges ! i) (ranges ! Suc i)) [0..<length ranges - 1])
        (Message ''overlapping o65 regions''))"

section \<open>The index\<close>

lemma region_end_eq_Inr:
  "region_end r = Inr e \<longleftrightarrow>
     uint e = uint (region_address r) + uint (region_size r) \<and> region_address r < limit24 \<and> e \<le> limit24"
proof -
  have 1: "checked_add32 a b = Some c \<longleftrightarrow> uint c = uint a + uint b" for a b c
  proof
    assume "checked_add32 a b = Some c"
    then show "uint c = uint a + uint b" using checked_add32_SomeD [of a b c] by (simp only: uint_nat of_nat_add)
  next
    assume c: "uint c = uint a + uint b"
    then have "unat c = unat a + unat b" by (simp only: uint_nat flip: of_nat_add)
    moreover have "unat c < 2 ^ 32" using unsigned_less [where 'a = nat, of c] by simp
    moreover have "c = a + b" using c by (metis word_of_int_uint wi_hom_add)
    ultimately show "checked_add32 a b = Some c" by (simp add: checked_add32_def)
  qed
  show ?thesis
  proof (cases "checked_add32 (region_address r) (region_size r)")
    case None
    then have "uint e \<noteq> uint (region_address r) + uint (region_size r)" by (simp flip: 1)
    with None show ?thesis by (simp add: region_end_def)
  next
    case (Some c)
    then have "c = e \<longleftrightarrow> uint e = uint (region_address r) + uint (region_size r)"
      using 1 [of "region_address r" "region_size r" c] by (metis word_uint_eq_iff)
    with Some show ?thesis by (auto simp: region_end_def)
  qed
qed

lemma length_range_maxima [simp]: "length (range_maxima g oc rs) = length rs"
  by (induction g oc rs rule: range_maxima.induct) (simp_all add: Let_def)

lemma nth_range_maxima:
  "i < length rs \<Longrightarrow>
     fst (range_maxima g oc rs ! i) = fst (rs ! i) \<and>
     (\<forall>x. x \<le> fst (snd (range_maxima g oc rs ! i)) \<longleftrightarrow> x \<le> g \<or> (\<exists>j \<le> i. x \<le> fst (snd (rs ! j)))) \<and>
     (\<forall>x. x < snd (snd (range_maxima g oc rs ! i)) \<longleftrightarrow>
        x < oc \<or> (\<exists>j \<le> i. fst (rs ! j) < fst (snd (rs ! j)) \<and> x < fst (snd (rs ! j))))"
proof (induction g oc rs arbitrary: i rule: range_maxima.induct)
  case (1 g oc)
  then show ?case by simp
next
  case (2 g oc start stop z rs)
  have ex: "(\<exists>j \<le> Suc k. P j) \<longleftrightarrow> P 0 \<or> (\<exists>j \<le> k. P (Suc j))" for P k
    by (metis Suc_le_mono le0 not0_implies_Suc)
  show ?case
  proof (cases i)
    case 0
    then show ?thesis by (auto simp: Let_def le_max_iff_disj less_max_iff_disj)
  next
    case (Suc k)
    with 2(2) have "k < length rs" by simp
    from 2(1) [OF refl refl this] show ?thesis
      by (auto simp: Suc Let_def ex le_max_iff_disj less_max_iff_disj)
  qed
qed

lemma range_maxima_ends:
  assumes "i < length rs"
  shows "y \<le> uint (fst (snd (range_maxima 0 0 rs ! i))) \<longleftrightarrow> (\<exists>j \<le> i. y \<le> uint (fst (snd (rs ! j))))"
proof
  let ?m = "fst (snd (range_maxima 0 0 rs ! i))"
  have max: "x \<le> ?m \<longleftrightarrow> x = 0 \<or> (\<exists>j \<le> i. x \<le> fst (snd (rs ! j)))" for x
    using nth_range_maxima [OF assms, of 0 0] by simp
  have "\<exists>j \<le> i. ?m \<le> fst (snd (rs ! j))"
    using max [of ?m] by (cases "?m = 0") auto
  then show "\<exists>j \<le> i. y \<le> uint (fst (snd (rs ! j)))" if "y \<le> uint ?m"
    using that by (auto simp: word_le_def intro: order.trans)
  show "y \<le> uint ?m" if "\<exists>j \<le> i. y \<le> uint (fst (snd (rs ! j)))"
  proof -
    from that obtain j where j: "j \<le> i" "y \<le> uint (fst (snd (rs ! j)))" by blast
    then have "fst (snd (rs ! j)) \<le> ?m" unfolding max by auto
    with j(2) show ?thesis by (simp add: word_le_def)
  qed
qed

lemma range_maxima_occupied:
  "i < length rs \<Longrightarrow>
     x < snd (snd (range_maxima 0 0 rs ! i)) \<longleftrightarrow>
     (\<exists>j \<le> i. fst (rs ! j) < fst (snd (rs ! j)) \<and> x < fst (snd (rs ! j)))"
  using nth_range_maxima [of i rs 0 0] by simp

text \<open>In a sorted list the prefix below a bound is the set of all elements below it.\<close>

lemma partition_point_sorted:
  fixes key :: "'a \<Rightarrow> 'b::linorder"
  assumes "sorted (map key xs)" "\<And>x y. key x \<le> key y \<Longrightarrow> P y \<Longrightarrow> P x" "i < length xs"
  shows "P (xs ! i) \<longleftrightarrow> i < partition_point P xs"
proof
  assume P: "P (xs ! i)"
  show "i < partition_point P xs"
  proof (rule ccontr)
    let ?n = "partition_point P xs"
    assume "\<not> i < ?n"
    then have n: "?n \<le> i" "?n < length xs" using assms(3) by simp_all
    then have "\<not> P (xs ! ?n)" by (simp add: partition_point_def nth_length_takeWhile)
    moreover have "key (xs ! ?n) \<le> key (xs ! i)"
      using n assms(1,3) by (simp add: sorted_iff_nth_mono)
    ultimately show False using assms(2) P by blast
  qed
next
  assume i: "i < partition_point P xs"
  then have "takeWhile P xs ! i = xs ! i" by (simp add: partition_point_def takeWhile_nth)
  with i show "P (xs ! i)" by (metis partition_point_def nth_mem set_takeWhileD)
qed

lemma nth_prefix:
  assumes "n \<le> length xs" "\<And>i. i < length xs \<Longrightarrow> P (xs ! i) \<longleftrightarrow> i < n" "0 < n"
  shows "(\<exists>j \<le> n - 1. Q (xs ! j)) \<longleftrightarrow> (\<exists>x \<in> set xs. P x \<and> Q x)"
proof
  assume "\<exists>j \<le> n - 1. Q (xs ! j)"
  then obtain j where j: "j \<le> n - 1" "Q (xs ! j)" by blast
  then have "j < n" "j < length xs" using assms(1,3) by simp_all
  with j(2) assms(2) [of j] show "\<exists>x \<in> set xs. P x \<and> Q x" by (intro bexI [of _ "xs ! j"]) simp_all
next
  assume "\<exists>x \<in> set xs. P x \<and> Q x"
  then obtain j where "j < length xs" "P (xs ! j)" "Q (xs ! j)" by (auto simp: in_set_conv_nth)
  with assms(2) [of j] show "\<exists>j \<le> n - 1. Q (xs ! j)" by (intro exI [of _ j]) simp
qed

lemma partition_point_le: "partition_point P xs \<le> length xs"
  by (simp add: partition_point_def length_takeWhile_le)

lemma range_index_new_eq_Inr:
  assumes "range_index_new rs = Inr index"
  shows "\<exists>ranges. index = range_maxima 0 0 ranges \<and>
    sorted (map (\<lambda>(start, stop, _). uint start * 2 ^ 32 + uint stop) ranges) \<and>
    set ranges = (\<lambda>r. (region_address r, region_address r + region_size r, 0)) ` set rs \<and>
    (\<forall>r \<in> set rs. uint (region_address r + region_size r) = uint (region_address r) + uint (region_size r))"
proof -
  from assms obtain triples where
    m: "map_result (\<lambda>r. bind_result (region_end r) (\<lambda>e. Inr (region_address r, e, 0 :: u32))) rs = Inr triples"
    and index: "index = range_maxima 0 0 (sort_key (\<lambda>(start, stop, _). uint start * 2 ^ 32 + uint stop) triples)"
    by (auto simp: range_index_new_def)
  let ?f = "\<lambda>r. (region_address r, region_address r + region_size r, 0 :: u32)"
  have ends: "region_end r = Inr e \<Longrightarrow> e = region_address r + region_size r" for r e
    unfolding region_end_eq_Inr by (metis word_of_int_uint wi_hom_add)
  have all: "list_all2 (\<lambda>r t. \<exists>e. region_end r = Inr e \<and> t = (region_address r, e, 0)) rs triples"
    using m unfolding map_result_Inr by (rule list_all2_mono) auto
  have "triples = map ?f rs"
    using all by (induction) (auto dest!: ends)
  moreover have "uint (region_address r + region_size r) = uint (region_address r) + uint (region_size r)"
    if r: "r \<in> set rs" for r
  proof -
    from r obtain i where "i < length rs" "rs ! i = r" by (auto simp: in_set_conv_nth)
    with list_all2_nthD [OF all, of i] obtain e where "region_end r = Inr e" by auto
    with ends [OF this] show ?thesis by (simp add: region_end_eq_Inr)
  qed
  ultimately show ?thesis unfolding index
    by (intro exI [of _ "sort_key (\<lambda>(start, stop, _). uint start * 2 ^ 32 + uint stop) triples"]) auto
qed

lemma start_order:
  "(case a of (start, stop, _) \<Rightarrow> uint start * 2 ^ 32 + uint stop) \<le>
     (case b of (start, stop, _) \<Rightarrow> uint start * 2 ^ 32 + uint stop) \<Longrightarrow> fst a \<le> fst b"
  for a b :: "u32 \<times> u32 \<times> u32"
proof (rule ccontr)
  obtain a1 a2 a3 b1 b2 b3 where ab: "a = (a1, a2, a3)" "b = (b1, b2, b3)" by (metis prod_cases3)
  assume le: "(case a of (start, stop, _) \<Rightarrow> uint start * 2 ^ 32 + uint stop) \<le>
     (case b of (start, stop, _) \<Rightarrow> uint start * 2 ^ 32 + uint stop)" and "\<not> fst a \<le> fst b"
  then have "uint b1 + 1 \<le> uint a1" by (simp add: ab not_le word_less_def)
  then have "(uint b1 + 1) * 2 ^ 32 \<le> uint a1 * 2 ^ 32" by (rule mult_right_mono) simp
  moreover have "uint b2 < 2 ^ 32" "0 \<le> uint a2"
    using unsigned_less [where 'a = int, of b2] by simp_all
  ultimately show False using le unfolding ab prod.case distrib_right by linarith
qed

lemma range_index_answers:
  assumes "range_index_new rs = Inr index"
  shows "(index_contains index q \<longleftrightarrow>
      (\<exists>r \<in> set rs. region_address r \<le> region_address q \<and>
         uint (region_address q) + uint (region_size q) \<le> uint (region_address r) + uint (region_size r))) \<and>
    (index_overlaps index q \<longleftrightarrow> (\<exists>r \<in> set rs. o65_overlaps r q))"
proof -
  from assms obtain ranges where index: "index = range_maxima 0 0 ranges"
    and sorted: "sorted (map (\<lambda>(start, stop, _). uint start * 2 ^ 32 + uint stop) ranges)"
    and elems: "set ranges = (\<lambda>r. (region_address r, region_address r + region_size r, 0)) ` set rs"
    and sums: "\<forall>r \<in> set rs.
      uint (region_address r + region_size r) = uint (region_address r) + uint (region_size r)"
    using range_index_new_eq_Inr [OF assms] by (elim exE conjE)
  let ?a = "uint (region_address q)" and ?e = "uint (region_address q) + uint (region_size q)"
  let ?first = "\<lambda>x :: u32 \<times> u32 \<times> u32. fst x"
  have starts: "fst (index ! i) = fst (ranges ! i)" if "i < length ranges" for i
    using nth_range_maxima [OF that] index by simp
  have same: "partition_point (\<lambda>r. P (fst r)) index = partition_point (\<lambda>r. P (fst r)) ranges" for P
  proof -
    have "map fst index = map fst ranges"
      using starts by (intro nth_equalityI) (simp_all add: index)
    then have "takeWhile P (map fst index) = takeWhile P (map fst ranges)" by simp
    then show ?thesis
      by (metis (no_types, lifting) comp_apply length_map partition_point_def takeWhile_cong takeWhile_map)
  qed
  have prefix_set: "(\<exists>j \<le> n - 1. Q (ranges ! j)) \<longleftrightarrow> (\<exists>t \<in> set ranges. P t \<and> Q t)"
    if n: "n = partition_point P ranges" "n \<noteq> 0" and mono: "\<And>x y. fst x \<le> fst y \<Longrightarrow> P y \<Longrightarrow> P x" for n P Q
  proof -
    have "n \<le> length ranges" using n(1) by (simp add: partition_point_le)
    moreover have "P (ranges ! i) \<longleftrightarrow> i < n" if "i < length ranges" for i
      unfolding n(1) by (rule partition_point_sorted [OF sorted _ that]) (metis mono start_order)
    ultimately show ?thesis using n(2) by (intro nth_prefix) auto
  qed
  have none: "\<not> (\<exists>t \<in> set ranges. P t)"
    if n: "partition_point P ranges = 0" and mono: "\<And>x y. fst x \<le> fst y \<Longrightarrow> P y \<Longrightarrow> P x" for P
  proof -
    have "\<not> P (ranges ! i)" if "i < length ranges" for i
      using partition_point_sorted [OF sorted _ that, of P] n by (metis mono start_order not_less0)
    then show ?thesis by (metis in_set_conv_nth)
  qed
  have mono_address: "fst x \<le> fst y \<Longrightarrow> fst y \<le> region_address q \<Longrightarrow> fst x \<le> region_address q"
    for x y :: "u32 \<times> u32 \<times> u32" by (rule order.trans)
  have mono_end: "fst x \<le> fst y \<Longrightarrow> uint (fst y) < ?e \<Longrightarrow> uint (fst x) < ?e"
    for x y :: "u32 \<times> u32 \<times> u32" unfolding word_le_def by (rule order.strict_trans1)
  have contains: "index_contains index q \<longleftrightarrow>
      (\<exists>t \<in> set ranges. fst t \<le> region_address q \<and> ?e \<le> uint (fst (snd t)))"
  proof (cases "partition_point (\<lambda>t. fst t \<le> region_address q) ranges = 0")
    case True
    with none [OF this mono_address] show ?thesis
      by (auto simp: index_contains_def same [of "\<lambda>x. x \<le> region_address q"] Let_def)
  next
    case False
    then have n: "partition_point (\<lambda>t. fst t \<le> region_address q) ranges - 1 < length ranges"
      using partition_point_le [of "\<lambda>t. fst t \<le> region_address q" ranges] by linarith
    with False prefix_set [OF refl False mono_address, where Q = "\<lambda>t. ?e \<le> uint (fst (snd t))"] range_maxima_ends [OF n, of ?e, folded index]
    show ?thesis by (auto simp: index_contains_def same [of "\<lambda>x. x \<le> region_address q"] Let_def)
  qed
  have overlaps: "index_overlaps index q \<longleftrightarrow> region_size q \<noteq> 0 \<and>
      (\<exists>t \<in> set ranges. uint (fst t) < ?e \<and> fst t < fst (snd t) \<and> region_address q < fst (snd t))"
  proof (cases "partition_point (\<lambda>t. uint (fst t) < ?e) ranges = 0")
    case True
    with none [OF this mono_end] show ?thesis
      by (auto simp: index_overlaps_def same [of "\<lambda>x. uint x < ?e"] Let_def)
  next
    case False
    then have n: "partition_point (\<lambda>t. uint (fst t) < ?e) ranges - 1 < length ranges"
      using partition_point_le [of "\<lambda>t. uint (fst t) < ?e" ranges] by linarith
    with False prefix_set [OF refl False mono_end, where Q = "\<lambda>t. fst t < fst (snd t) \<and> region_address q < fst (snd t)"]
      range_maxima_occupied [OF n, of "region_address q", folded index]
    show ?thesis by (auto simp: index_overlaps_def same [of "\<lambda>x. uint x < ?e"] Let_def)
  qed
  have nonempty: "region_address r < region_address r + region_size r \<longleftrightarrow> region_size r \<noteq> 0" if "r \<in> set rs" for r
    using sums that unsigned_greater_eq [where 'a = int, of "region_size r"]
    by (auto simp: word_less_def uint_0_iff le_less simp del: unsigned_greater_eq)
  show ?thesis
  proof (intro conjI)
    show "index_contains index q \<longleftrightarrow> (\<exists>r \<in> set rs. region_address r \<le> region_address q \<and>
         uint (region_address q) + uint (region_size q) \<le> uint (region_address r) + uint (region_size r))"
      unfolding contains elems using sums by (simp cong: bex_cong)
    show "index_overlaps index q \<longleftrightarrow> (\<exists>r \<in> set rs. o65_overlaps r q)"
      unfolding overlaps elems o65_overlaps_def using sums nonempty
      by (simp add: word_less_def [of "region_address q"] cong: bex_cong) blast
  qed
qed

text \<open>C33: The range index answers every query as the individual regions do: a query is contained iff some
  region starts at or before it and ends at or behind its end, and it overlaps iff some region overlaps
  it; one prefix length and one stored maximum replace the scan, empty regions included.
\<close>

theorem range_index_exact:
  assumes "range_index_new rs = Inr index"
  shows "(index_contains index q \<longleftrightarrow>
      (\<exists>r \<in> set rs. region_address r \<le> region_address q \<and>
         uint (region_address q) + uint (region_size q) \<le> uint (region_address r) + uint (region_size r))) \<and>
    (index_overlaps index q \<longleftrightarrow> (\<exists>r \<in> set rs. o65_overlaps r q))"
  using assms by (rule range_index_answers)

definition sample_regions :: "o65_region list" where
  "sample_regions =
     [\<lparr>region_address = 4, region_size = 3\<rparr>, \<lparr>region_address = 1, region_size = 3\<rparr>,
      \<lparr>region_address = 2, region_size = 1\<rparr>, \<lparr>region_address = 8, region_size = 0\<rparr>]"

theorem range_index_exact_witness:
  "\<exists>index. range_index_new sample_regions = Inr index \<and>
     index_contains index \<lparr>region_address = 8, region_size = 0\<rparr> \<and>
     \<not> (\<exists>r \<in> set sample_regions. o65_overlaps r \<lparr>region_address = 8, region_size = 0\<rparr>)"
proof -
  let ?q = "\<lparr>region_address = 8, region_size = 0\<rparr>"
  have "case range_index_new sample_regions of Inl _ \<Rightarrow> False
      | Inr index \<Rightarrow> index_contains index ?q \<and> \<not> index_overlaps index ?q" by code_simp
  then obtain index where "range_index_new sample_regions = Inr index" "index_contains index ?q"
    "\<not> index_overlaps index ?q" by (auto split: sum.splits)
  with range_index_exact [of sample_regions index ?q] show ?thesis by blast
qed

section \<open>Disjoint regions\<close>

definition apart :: "o65_region list \<Rightarrow> bool" where
  "apart rs \<longleftrightarrow> (\<forall>i j. i < j \<and> j < length rs \<longrightarrow> \<not> o65_overlaps (rs ! i) (rs ! j))"

lemma o65_overlaps_sym: "o65_overlaps a b \<longleftrightarrow> o65_overlaps b a"
  by (auto simp: o65_overlaps_def)

lemma apart_sorted_wrt: "apart rs \<longleftrightarrow> sorted_wrt (\<lambda>a b. \<not> o65_overlaps a b) rs"
  by (auto simp: apart_def sorted_wrt_iff_nth_less)

lemma apart_Cons: "apart (r # rs) \<longleftrightarrow> (\<forall>q \<in> set rs. \<not> o65_overlaps r q) \<and> apart rs"
  by (simp add: apart_sorted_wrt)

lemma apart_insort: "apart (insort_key f r rs) \<longleftrightarrow> apart (r # rs)"
  using o65_overlaps_sym by (induction rs) (auto simp: apart_Cons set_insort_key)

lemma apart_sort: "apart (sort_key f rs) \<longleftrightarrow> apart rs"
  by (induction rs) (simp_all add: apart_insort apart_Cons)

lemma apart_nonempty: "apart (filter (\<lambda>r. region_size r \<noteq> 0) rs) \<longleftrightarrow> apart rs"
  by (induction rs) (auto simp: apart_Cons o65_overlaps_def)

text \<open>Among nonempty ranges in order of their starts the neighbours decide.\<close>

lemma apart_neighbours:
  "sorted (map region_address rs) \<Longrightarrow> \<forall>r \<in> set rs. region_size r \<noteq> 0 \<Longrightarrow>
     apart rs \<longleftrightarrow> (\<forall>i < length rs - 1. \<not> o65_overlaps (rs ! i) (rs ! Suc i))"
proof (induction rs)
  case Nil
  then show ?case by (simp add: apart_def)
next
  case (Cons r rs)
  show ?case
  proof (cases rs)
    case Nil
    then show ?thesis by (simp add: apart_def)
  next
    case (Cons q qs)
    have neighbours: "(\<forall>i < length (r # rs) - 1. P ((r # rs) ! i) ((r # rs) ! Suc i)) \<longleftrightarrow>
        P r q \<and> (\<forall>i < length rs - 1. P (rs ! i) (rs ! Suc i))" for P
      by (auto simp: Cons less_Suc_eq_0_disj nth_Cons')
    have "\<not> o65_overlaps r x" if "\<not> o65_overlaps r q" "x \<in> set rs" for x
    proof -
      have "region_address q \<le> region_address x" using Cons.prems(1) that(2) Cons by auto
      moreover have "region_address r \<le> region_address q" using Cons.prems(1) Cons by simp
      moreover have "uint (region_size q) > 0" "uint (region_size r) > 0"
        using Cons.prems(2) Cons by (simp_all add: word_greater_zero_iff flip: word_less_def [of 0, simplified])
      ultimately show ?thesis using that(1) by (auto simp: o65_overlaps_def word_le_def)
    qed
    then show ?thesis using Cons.IH Cons.prems neighbours [of "\<lambda>a b. \<not> o65_overlaps a b"]
      by (auto simp: apart_Cons Cons)
  qed
qed

lemma disjoint_apart: "disjoint rs = Inr () \<longleftrightarrow> apart rs"
proof -
  let ?sorted = "sort_key region_address (filter (\<lambda>r. region_size r \<noteq> 0) rs)"
  have "disjoint rs = Inr () \<longleftrightarrow> apart ?sorted"
    by (subst apart_neighbours) (auto simp: disjoint_def Let_def list_ex_iff)
  then show ?thesis by (simp add: apart_sort apart_nonempty)
qed

text \<open>C36: The overlap check of the loader, which looks at neighbours in address order only, accepts exactly
  the lists of regions no two of which overlap (\<open>apart\<close>); a region without bytes overlaps nothing.
\<close>

theorem disjoint_accepts_iff_apart: "disjoint rs = Inr () \<longleftrightarrow> apart rs"
  by (rule disjoint_apart)

end
