(* ===== verification/O65_Relocate.thy ===== *)
theory O65_Relocate
  imports O65_Wire O65_Descriptor O65_Region
begin

text \<open>
  Admission and relocation of o65 applications: \<open>src/src/mir65816/o65/relocate.rs\<close>. \<open>validate_profile\<close>
  compares the profile with the file, \<open>application\<close> decodes and validates both, \<open>relocate\<close> places the
  sections, binds the imports, patches the sites and cuts the text into segments. Slices and indexes
  that the code does not test, and sums that overflow, are panics here. Lemmas on this model are in \<open>O65_Relocate_Correct\<close>.
\<close>

record o65_provider =
  provider_name :: bytes
  provider_address :: u32
  provider_size :: u32
  provider_contract :: o65_contract

record o65_placement =
  placement_bases :: "u32 list"
  placement_allowed :: "o65_region list"
  placement_reserved :: "o65_region list"
  placement_nmi_extra_stack :: u16
  placement_providers :: "o65_provider list"

record native_segment =
  load_address :: u32
  load_bytes :: bytes
  load_writable :: bool
  load_executable :: bool

record native_zero_fill =
  fill_address :: u32
  fill_size :: u32
  fill_writable :: bool

record relocated_image =
  image_segments :: "native_segment list"
  image_zero_fill :: "native_zero_fill list"
  image_profile :: o65_profile
  image_bases :: "u32 list"
  image_entry :: u32
  image_stack_overflow :: u32
  image_arithmetic_fault :: "u32 option"

definition task_headroom :: "relocated_image \<Rightarrow> u32" where
  "task_headroom img = 26 + ucast (nmi_extra_stack (image_profile img))"

definition irq_headroom :: "relocated_image \<Rightarrow> u32" where
  "irq_headroom img = 13 + ucast (nmi_extra_stack (image_profile img))"

definition image_location :: "relocated_image \<Rightarrow> o65_location \<Rightarrow> o65_error + u32" where
  "image_location img l =
     add_u32 (location_offset l)
       (case location_section l of None \<Rightarrow> 0 | Some s \<Rightarrow> image_bases img ! section_index s)"

definition routine_address :: "relocated_image \<Rightarrow> o65_routine \<Rightarrow> o65_error + u32" where
  "routine_address img r = add_u32 (image_bases img ! 0) (routine_offset r)"

definition find_export :: "o65_file \<Rightarrow> bytes \<Rightarrow> o65_error + u32" where
  "find_export f name =
     bind_result (ok_or (Message ''missing o65 profile export'')
       (find (\<lambda>e. export_name e = name) (file_exports f))) (\<lambda>e.
     bind_result (check (\<not> export_segment e \<noteq> 2) (Message ''profile export must reference text'')) (\<lambda>_.
       Inr (export_value e)))"

section \<open>Validation\<close>

definition routine_region :: "o65_routine \<Rightarrow> o65_region" where
  "routine_region r = \<lparr>region_address = routine_offset r, region_size = routine_size r\<rparr>"

definition object_region :: "o65_object \<Rightarrow> o65_region" where
  "object_region b = \<lparr>region_address = location_offset (object_location b), region_size = object_size b\<rparr>"

definition ends_after :: "u32 \<Rightarrow> u32 \<Rightarrow> u32 \<Rightarrow> bool" where
  "ends_after offset n bound =
     (case checked_add32 offset n of None \<Rightarrow> True | Some e \<Rightarrow> e > bound)"

definition validate_argument :: "u16 \<Rightarrow> o65_argument \<Rightarrow> unit \<Rightarrow> o65_error + unit" where
  "validate_argument frame a _ =
     bind_result (add_u32 (ucast frame + 4) (argument_offset a)) (\<lambda>n.
     bind_result (add_u32 n (argument_size a)) (\<lambda>stop.
       check (\<not> stop > 256) (Message ''invalid incoming displacement map'')))"

definition validate_routine ::
  "u32 \<Rightarrow> o65_routine \<Rightarrow> u32 set \<times> o65_region list list \<Rightarrow> o65_error + (u32 set \<times> o65_region list list)" where
  "validate_routine start r st =
     (let (ids, occupied) = st; c = routine_contract r in
      bind_result (check (\<not> (routine_id r \<in> ids \<or> routine_size r = 0 \<or> routine_size r > 65535))
        (Message ''invalid o65 routine/frame map'')) (\<lambda>_.
      bind_result (add_u32 (routine_offset r AND 65535) (routine_size r)) (\<lambda>stop.
      bind_result (check (\<not> (stop > 65535 \<or>
                             ends_after (routine_offset r) (routine_size r) start \<or>
                             routine_frame r > 254 \<or> routine_frame r mod 2 \<noteq> 0 \<or>
                             routine_spill r > routine_frame r \<or>
                             routine_local_peak r < ucast (routine_frame r) \<or> routine_local_peak r > 65535 \<or>
                             contract_kind c \<noteq> 0 \<or> contract_stack_peak c \<noteq> 0))
        (Message ''invalid o65 routine/frame map'')) (\<lambda>_.
      bind_result (for_each (validate_argument (routine_frame r)) (contract_arguments c) ()) (\<lambda>_.
        Inr (insert (routine_id r) ids, occupied[0 := occupied ! 0 @ [routine_region r]]))))))"

definition owner_index :: "o65_object \<Rightarrow> nat" where
  "owner_index b = (case location_section (object_location b) of None \<Rightarrow> 0 | Some s \<Rightarrow> section_index s + 1)"

definition owner_regions :: "o65_profile \<Rightarrow> nat \<Rightarrow> o65_region list" where
  "owner_regions p i =
     map object_region (filter (\<lambda>b. owner_index b = i) (filter (\<lambda>b. \<not> object_alias b) (profile_objects p)))"

definition validate_object ::
  "o65_file \<Rightarrow> u32 \<Rightarrow> range_index list \<Rightarrow> o65_object \<Rightarrow> (u8 \<times> u32) set \<times> o65_region list list
    \<Rightarrow> o65_error + ((u8 \<times> u32) set \<times> o65_region list list)" where
  "validate_object f start owners b st =
     (let (objects, occupied) = st; offset = location_offset (object_location b) in
      bind_result (check (\<not> (object_kind b > 2 \<or> (object_kind b, object_id b) \<in> objects \<or>
                             object_alignment b \<notin> {1, 2, 4})) (Message ''invalid object map'')) (\<lambda>_.
      bind_result (region_end (object_region b)) (\<lambda>_.
      bind_result
        (case location_section (object_location b) of
           None \<Rightarrow> Inr occupied
         | Some s \<Rightarrow>
             let bound = if s = TextSection then start else file_lengths f ! section_index s in
             bind_result (check (\<not> (offset mod object_alignment b \<noteq> 0 \<or>
                                    ends_after offset (object_size b) bound \<or>
                                    object_mutable b \<noteq> (s \<noteq> TextSection)))
               (Message ''invalid object placement/permissions'')) (\<lambda>_.
               Inr (if object_alias b then occupied
                    else occupied[section_index s := occupied ! section_index s @ [object_region b]]))) (\<lambda>occupied.
      bind_result (check (\<not> (object_alias b \<and> \<not> index_contains (owners ! owner_index b) (object_region b)))
        (Message ''alias has no containing allocation'')) (\<lambda>_.
        Inr (insert (object_kind b, object_id b) objects, occupied))))))"

definition starts_with :: "bytes \<Rightarrow> bytes \<Rightarrow> bool" where
  "starts_with s prefix \<longleftrightarrow> take (length prefix) s = prefix"

definition validate_import :: "o65_profile \<Rightarrow> o65_import \<times> bytes \<Rightarrow> unit \<Rightarrow> o65_error + unit" where
  "validate_import p entry _ =
     (let (i, name) = entry in
      check (\<not> (import_name i \<noteq> name \<or> \<not> valid_name name \<or>
                (if name = overflow_name then import_contract i \<noteq> overflow_contract
                 else if name = arithmetic_fault_name then
                   profile_version p \<noteq> 2 \<or> import_contract i \<noteq> arithmetic_fault_contract
                 else contract_kind (import_contract i) \<noteq> 0 \<or> name = entry_name \<or>
                      starts_with name reserved_prefix)))
        (Message ''import descriptor mismatch''))"

definition encoding_mask :: "o65_encoding \<Rightarrow> u32" where
  "encoding_mask e =
     (case e of LowByte \<Rightarrow> 0xFF | HighByte \<Rightarrow> 0xFFFF | WordField \<Rightarrow> 0xFFFF | _ \<Rightarrow> 0xFFFFFF)"

definition byte_at :: "bytes \<Rightarrow> nat \<Rightarrow> o65_error + u8" where
  "byte_at bs i = (if i < length bs then Inr (bs ! i) else Inl O65Panic)"

definition validate_site ::
  "o65_file \<Rightarrow> o65_profile \<Rightarrow> u32 \<Rightarrow> o65_relocation \<times> o65_relocation \<Rightarrow> u32 list \<Rightarrow> o65_error + u32 list" where
  "validate_site f p start pair ends =
     (let (proof, wire) = pair in
      bind_result (check (\<not> (site_section proof = BssSection \<or> site_encoding proof = WordField \<or>
                             zero_extend proof \<and> site_encoding proof \<noteq> LongField))
        (Message ''unsupported profile relocation'')) (\<lambda>_.
      bind_result (check (\<not> (site_section proof \<noteq> site_section wire \<or> site_offset proof \<noteq> site_offset wire \<or>
                             site_encoding proof \<noteq> site_encoding wire \<or> site_target proof \<noteq> site_target wire \<or>
                             site_value proof AND encoding_mask (site_encoding proof) \<noteq> site_value wire))
        (Message ''relocation descriptor/payload mismatch'')) (\<lambda>_.
      let index = section_index (site_section proof) in
      bind_result (ok_or (Message ''relocation extent overflow'')
        (checked_add32 (site_offset proof)
           (o65_width (site_encoding proof) + (if zero_extend proof then 1 else 0)))) (\<lambda>stop.
      let payload = if index = 0 then file_text f else file_data f in
      bind_result (check (\<not> (site_offset proof < ends ! index \<or>
                             stop > (if index = 0 then start else file_lengths f ! 1)))
        (Message ''relocation overlaps another site or descriptor'')) (\<lambda>_.
      bind_result (if zero_extend proof then byte_at payload (unat (stop - 1)) else Inr 0) (\<lambda>high.
      bind_result (check (\<not> (zero_extend proof \<and> high \<noteq> 0)) (Message ''nonzero high byte in address container'')) (\<lambda>_.
      bind_result
        (case site_target proof of
           ImportRef i \<Rightarrow>
             check (\<not> (unat i \<ge> length (profile_imports p) \<or> site_value proof \<noteq> 0))
               (Message ''unsupported import addend/index'')
         | SectionRef s \<Rightarrow>
             check (\<not> site_value proof > file_lengths f ! section_index s)
               (Message ''target offset outside section'')) (\<lambda>_.
        Inr (ends[index := stop])))))))))"

definition validate_profile :: "o65_file \<Rightarrow> o65_profile \<Rightarrow> u32 \<Rightarrow> o65_error + unit" where
  "validate_profile f p start =
     bind_result (check (\<not> (file_mode f \<noteq> o65_mode \<or> file_bases f \<noteq> [0, 0, 0, 0] \<or> file_lengths f ! 3 \<noteq> 0 \<or>
                            file_stack f \<noteq> 0 \<or> length (file_exports f) \<noteq> 2 \<or>
                            (ucast (nmi_extra_stack p) :: u32) + 26 > 65535))
       (Message ''unsupported o65 application profile'')) (\<lambda>_.
     bind_result (find_export f entry_name) (\<lambda>entry.
     bind_result (check (\<not> entry \<noteq> profile_entry p) (Message ''entry descriptor/export mismatch'')) (\<lambda>_.
     bind_result (for_each (validate_routine start) (profile_routines p) ({}, [[], [], []])) (\<lambda>(_, occupied).
     bind_result (check (\<not> \<not> list_ex (\<lambda>r. routine_offset r = profile_entry p) (profile_routines p))
       (Message ''entry is not a routine start'')) (\<lambda>_.
     bind_result (map_result (\<lambda>i. range_index_new (owner_regions p i)) [0..<4]) (\<lambda>owners.
     bind_result (for_each (validate_object f start owners) (profile_objects p) ({}, occupied)) (\<lambda>(_, occupied).
     bind_result (for_each (\<lambda>ranges _. disjoint ranges) occupied ()) (\<lambda>_.
     bind_result (check (\<not> (length (profile_imports p) \<noteq> length (file_imports f) \<or> profile_imports p = [] \<or>
                            import_name (profile_imports p ! 0) \<noteq> overflow_name \<or>
                            import_contract (profile_imports p ! 0) \<noteq> overflow_contract))
       (Message ''missing raw overflow binding'')) (\<lambda>_.
     bind_result (for_each (validate_import p) (zip (profile_imports p) (file_imports f)) ()) (\<lambda>_.
     bind_result (check (\<not> length (profile_relocations p) \<noteq> length (file_relocations f))
       (Message ''relocation descriptor count mismatch'')) (\<lambda>_.
     bind_result (for_each (validate_site f p start) (zip (profile_relocations p) (file_relocations f)) [0, 0]) (\<lambda>_.
       Inr ()))))))))))))"

definition text_from :: "bytes \<Rightarrow> nat \<Rightarrow> bytes option" where
  "text_from bs i = (if i \<le> length bs then Some (drop i bs) else None)"

definition application :: "bytes \<Rightarrow> o65_error + (o65_file \<times> o65_profile)" where
  "application bs =
     bind_result (decode_file bs) (\<lambda>f.
     let v2 = list_ex (\<lambda>e. export_name e = descriptor_v2_name) (file_exports f) in
     bind_result (find_export f (if v2 then descriptor_v2_name else descriptor_name)) (\<lambda>start.
     bind_result (ok_or (Message ''descriptor outside text'') (text_from (file_text f) (unat start))) (\<lambda>raw.
     bind_result (decode_descriptor raw) (\<lambda>p.
     bind_result (check (\<not> v2 \<noteq> (profile_version p = 2)) (Message ''o65 descriptor export/version mismatch'')) (\<lambda>_.
     bind_result (validate_profile f p start) (\<lambda>_. Inr (f, p)))))))"

definition inspect :: "bytes \<Rightarrow> o65_error + o65_profile" where
  "inspect bs = bind_result (application bs) (\<lambda>(_, p). Inr p)"

section \<open>Placement\<close>

definition place_o65_section ::
  "o65_file \<Rightarrow> o65_profile \<Rightarrow> o65_placement \<Rightarrow> range_index \<Rightarrow> range_index \<Rightarrow> nat \<Rightarrow> o65_region list
    \<Rightarrow> o65_error + o65_region list" where
  "place_o65_section f p placement allowed reserved i allocations =
     (let region = \<lparr>region_address = placement_bases placement ! i, region_size = file_lengths f ! i\<rparr> in
      bind_result (region_end region) (\<lambda>_.
        if region_size region = 0 then
          bind_result (check (\<not> region_address region \<noteq> 0) (Message ''empty section must have zero base''))
            (\<lambda>_. Inr allocations)
        else
          bind_result (check (\<not> (region_address region < 65536 \<or>
                                 region_address region mod (if i = 0 then 65536 else 4) \<noteq> 0))
            (Message ''invalid o65 section alignment/bank placement'')) (\<lambda>_.
          bind_result (check (\<not> (\<not> index_contains allowed region \<or> index_overlaps reserved region))
            (Message ''section outside allowed RAM or in reserved region'')) (\<lambda>_.
          bind_result (check (\<not> list_ex (\<lambda>b. location_section (object_location b) = None \<and>
                                             o65_overlaps region (object_region b)) (profile_objects p))
            (Message ''section overlaps absolute storage'')) (\<lambda>_.
            Inr (allocations @ [region]))))))"

definition add_provider ::
  "o65_provider \<Rightarrow> (bytes \<Rightarrow> o65_provider option) \<Rightarrow> o65_error + (bytes \<Rightarrow> o65_provider option)" where
  "add_provider provider providers =
     bind_result (check (providers (provider_name provider) = None) (Message ''duplicate provider''))
       (\<lambda>_. Inr (providers(provider_name provider \<mapsto> provider)))"

definition provider_region :: "o65_provider \<Rightarrow> o65_region" where
  "provider_region provider =
     \<lparr>region_address = provider_address provider, region_size = provider_size provider\<rparr>"

definition bind_import ::
  "(bytes \<Rightarrow> o65_provider option) \<Rightarrow> range_index \<Rightarrow> o65_import \<Rightarrow> o65_region list \<times> u32 list
    \<Rightarrow> o65_error + (o65_region list \<times> u32 list)" where
  "bind_import providers reserved i st =
     (let (allocations, addresses) = st in
      bind_result (ok_or (Message ''unresolved o65 import'') (providers (import_name i))) (\<lambda>provider.
      bind_result (check (\<not> (provider_contract provider \<noteq> import_contract i \<or> provider_size provider = 0))
        (Message ''incompatible o65 provider contract'')) (\<lambda>_.
      bind_result (region_end (provider_region provider)) (\<lambda>_.
      bind_result (check (\<not> index_overlaps reserved (provider_region provider))
        (Message ''provider overlaps reserved region'')) (\<lambda>_.
        Inr (allocations @ [provider_region provider], addresses @ [provider_address provider]))))))"

section \<open>Patching\<close>


definition selected_bytes :: "o65_encoding \<Rightarrow> u64 \<Rightarrow> u64" where
  "selected_bytes e v =
     (case e of
        LowByte \<Rightarrow> v AND 255
      | HighByte \<Rightarrow> drop_bit 8 v AND 255
      | BankByte \<Rightarrow> drop_bit 16 v AND 255
      | WordField \<Rightarrow> v AND 65535
      | LongField \<Rightarrow> v AND 0xFFFFFF)"

type_synonym patch = "o65_section \<times> u32 \<times> u32 \<times> u32"

definition reference_base :: "o65_placement \<Rightarrow> u32 list \<Rightarrow> o65_reference \<Rightarrow> o65_error + u32" where
  "reference_base placement addresses t =
     (case t of
        SectionRef s \<Rightarrow> Inr (placement_bases placement ! section_index s)
      | ImportRef i \<Rightarrow> if unat i < length addresses then Inr (addresses ! unat i) else Inl O65Panic)"

definition make_patch ::
  "o65_placement \<Rightarrow> u32 list \<Rightarrow> o65_relocation \<times> o65_relocation \<Rightarrow> o65_error + patch" where
  "make_patch placement addresses pair =
     (let (proof, r) = pair in
      bind_result (reference_base placement addresses (site_target r)) (\<lambda>base.
      bind_result (ok_or (Message ''relocated address exceeds 24 bits'')
        (case checked_add32 base (site_value proof) of
           None \<Rightarrow> None | Some v \<Rightarrow> if v < limit24 then Some v else None)) (\<lambda>_.
      let v = ucast base + ucast (site_value r) :: u64 in
        Inr (site_section r, site_offset r, o65_width (site_encoding r),
             ucast (selected_bytes (site_encoding r) v)))))"

definition copy_at :: "bytes \<Rightarrow> nat \<Rightarrow> nat \<Rightarrow> bytes \<Rightarrow> o65_error + bytes" where
  "copy_at bs start stop new =
     (if start \<le> stop \<and> stop \<le> length bs \<and> stop - start = length new then Inr (splice start new bs)
      else Inl O65Panic)"

definition apply_patch :: "patch \<Rightarrow> bytes \<times> bytes \<Rightarrow> o65_error + (bytes \<times> bytes)" where
  "apply_patch patch st =
     (let (s, offset, width, v) = patch; (code, stored) = st; field = take (unat width) (word_bytes4 v) in
      bind_result (add_u32 offset width) (\<lambda>stop.
        if s = TextSection then
          bind_result (copy_at code (unat offset) (unat stop) field) (\<lambda>code. Inr (code, stored))
        else
          bind_result (copy_at stored (unat offset) (unat stop) field) (\<lambda>stored. Inr (code, stored))))"

section \<open>Segments\<close>

definition slice_of :: "bytes \<Rightarrow> nat \<Rightarrow> nat \<Rightarrow> o65_error + bytes" where
  "slice_of bs i j = ok_or O65Panic (slice bs i j)"

definition gap_segment :: "u32 \<Rightarrow> nat \<Rightarrow> bytes \<Rightarrow> o65_error + native_segment" where
  "gap_segment base cursor bs =
     bind_result (add_u32 base (of_nat cursor)) (\<lambda>address.
       Inr \<lparr>load_address = address, load_bytes = bs, load_writable = False, load_executable = False\<rparr>)"

definition routine_segments ::
  "u32 \<Rightarrow> bytes \<Rightarrow> o65_routine \<Rightarrow> nat \<times> native_segment list \<Rightarrow> o65_error + (nat \<times> native_segment list)" where
  "routine_segments base code r st =
     (let (cursor, segments) = st; start = unat (routine_offset r); stop = start + unat (routine_size r) in
      bind_result
        (if cursor < start then
           bind_result (slice_of code cursor start) (\<lambda>bs.
           bind_result (gap_segment base cursor bs) (\<lambda>gap. Inr (segments @ [gap])))
         else Inr segments) (\<lambda>segments.
      bind_result (add_u32 base (routine_offset r)) (\<lambda>address.
      bind_result (slice_of code start stop) (\<lambda>bs.
        Inr (stop, segments @
          [\<lparr>load_address = address, load_bytes = bs, load_writable = False, load_executable = True\<rparr>])))))"

definition text_segments :: "u32 \<Rightarrow> bytes \<Rightarrow> o65_routine list \<Rightarrow> o65_error + native_segment list" where
  "text_segments base code routines =
     bind_result (for_each (routine_segments base code) (sort_key routine_offset routines) (0, []))
       (\<lambda>(cursor, segments).
        if cursor < length code
        then bind_result (gap_segment base cursor (drop cursor code)) (\<lambda>gap. Inr (segments @ [gap]))
        else Inr segments)"

definition import_position :: "o65_profile \<Rightarrow> bytes \<Rightarrow> nat option" where
  "import_position p name =
     (let n = length (takeWhile (\<lambda>i. import_name i \<noteq> name) (profile_imports p))
      in if n < length (profile_imports p) then Some n else None)"

definition address_at :: "u32 list \<Rightarrow> nat \<Rightarrow> o65_error + u32" where
  "address_at addresses i = (if i < length addresses then Inr (addresses ! i) else Inl O65Panic)"

definition optional_address :: "u32 list \<Rightarrow> nat option \<Rightarrow> o65_error + u32 option" where
  "optional_address addresses i =
     (case i of None \<Rightarrow> Inr None | Some i \<Rightarrow> bind_result (address_at addresses i) (\<lambda>a. Inr (Some a)))"

definition relocate :: "bytes \<Rightarrow> o65_placement \<Rightarrow> o65_error + relocated_image" where
  "relocate bs placement =
     bind_result (application bs) (\<lambda>(f, p).
     bind_result (check (\<not> placement_nmi_extra_stack placement \<noteq> nmi_extra_stack p)
       (Message ''platform NMI allowance mismatch'')) (\<lambda>_.
     bind_result (check (\<not> (int (length (placement_allowed placement)) > max_items \<or>
                            int (length (placement_reserved placement)) > max_items \<or>
                            length (placement_providers placement) \<noteq> length (profile_imports p)))
       (Message ''platform table count mismatch'')) (\<lambda>_.
     bind_result (range_index_new (placement_allowed placement)) (\<lambda>allowed.
     bind_result (range_index_new (placement_reserved placement)) (\<lambda>reserved.
     bind_result (for_each (place_o65_section f p placement allowed reserved) [0..<3] []) (\<lambda>allocations.
     bind_result (for_each add_provider (placement_providers placement) (\<lambda>_. None)) (\<lambda>providers.
     bind_result (for_each (bind_import providers reserved) (profile_imports p) (allocations, []))
       (\<lambda>(allocations, addresses).
     bind_result (disjoint allocations) (\<lambda>_.
     bind_result (map_result (make_patch placement addresses) (zip (profile_relocations p) (file_relocations f)))
       (\<lambda>patches.
     bind_result (for_each apply_patch patches (file_text f, file_data f)) (\<lambda>(code, stored).
     let base = placement_bases placement ! 0 in
     bind_result (text_segments base code (profile_routines p)) (\<lambda>segments.
     let segments =
       (if stored = [] then segments
        else segments @ [\<lparr>load_address = placement_bases placement ! 1, load_bytes = stored,
                          load_writable = True, load_executable = False\<rparr>]);
       fill =
       (if file_lengths f ! 2 = 0 then []
        else [\<lparr>fill_address = placement_bases placement ! 2, fill_size = file_lengths f ! 2,
               fill_writable = True\<rparr>]) in
     bind_result (add_u32 base (profile_entry p)) (\<lambda>entry.
     bind_result (optional_address addresses (import_position p arithmetic_fault_name)) (\<lambda>fault.
     bind_result (address_at addresses 0) (\<lambda>overflow.
       Inr \<lparr>image_segments = segments, image_zero_fill = fill, image_profile = p,
            image_bases = placement_bases placement, image_entry = entry,
            image_stack_overflow = overflow, image_arithmetic_fault = fault\<rparr>)))))))))))))))"

end
