(* ===== verification/O65_Write.thy ===== *)
theory O65_Write
  imports O65_Roundtrip O65_Relocate
begin

text \<open>
  Writing o65 applications (\<open>src/src/mir65816/o65/write.rs\<close>): the descriptor is appended to the text and
  exported beside the entry. The artifact is the one of \<open>src/src/mir65816/o65/prepare.rs\<close>; the descriptor
  of the compact form is the one of \<open>src/src/mir65816/o65/compact.rs\<close>. Shown: the loader reads from a
  written artifact the file that was encoded and the profile that was described.
\<close>

record o65_artifact =
  artifact_compact :: bool
  artifact_text :: bytes
  artifact_data :: bytes
  artifact_bss :: u32
  artifact_profile :: o65_profile

definition abi_revision :: u16 where "abi_revision = 2"

definition compact_header :: bytes where
  "compact_header = ascii ''A8C3'' @ [ucast abi_revision, ucast (drop_bit 8 abi_revision), 0, 0]"

definition compact_descriptor :: "o65_profile \<Rightarrow> bytes" where
  "compact_descriptor p =
     compact_header @ concat (map (\<lambda>i. word_bytes4 (contract_signature (import_contract i))) (profile_imports p))"

definition artifact_descriptor :: "o65_artifact \<Rightarrow> o65_error + bytes" where
  "artifact_descriptor a =
     (if artifact_compact a then Inr (compact_descriptor (artifact_profile a))
      else encode_descriptor (artifact_profile a))"

definition text_export :: "bytes \<Rightarrow> u32 \<Rightarrow> o65_export" where
  "text_export name v = \<lparr>export_name = name, export_segment = 2, export_value = v\<rparr>"

definition artifact_file :: "o65_artifact \<Rightarrow> bytes \<Rightarrow> o65_file" where
  "artifact_file a code =
     (let p = artifact_profile a in
      \<lparr>file_mode = o65_mode, file_bases = [0, 0, 0, 0],
       file_lengths = [of_nat (length code), of_nat (length (artifact_data a)), artifact_bss a, 0],
       file_stack = 0, file_text = code, file_data = artifact_data a,
       file_imports = map import_name (profile_imports p), file_relocations = profile_relocations p,
       file_exports =
         [text_export entry_name (profile_entry p),
          text_export (if artifact_compact a then compact_descriptor_name
                       else if profile_version p = 2 then descriptor_v2_name else descriptor_name)
            (of_nat (length (artifact_text a)))]\<rparr>)"

definition write_artifact :: "o65_artifact \<Rightarrow> o65_error + bytes" where
  "write_artifact a =
     bind_result (artifact_descriptor a) (\<lambda>descriptor.
     let code = artifact_text a @ descriptor in
     bind_result (check (\<not> int (length code) \<ge> uint limit24) (Message ''o65 text exceeds 24 bits'')) (\<lambda>_.
       encode_file (artifact_file a code)))"

section \<open>Reading a written artifact\<close>

lemma names_differ:
  "entry_name \<noteq> descriptor_name" "entry_name \<noteq> descriptor_v2_name" "descriptor_name \<noteq> descriptor_v2_name"
  "entry_name \<noteq> compact_descriptor_name" "compact_descriptor_name \<noteq> descriptor_name"
  "compact_descriptor_name \<noteq> descriptor_v2_name"
  by code_simp+

lemma encoded_limits:
  assumes "encode_file f = Inr bs"
  shows "\<forall>n \<in> set (file_lengths f). n < limit24"
  using assms by (auto simp: encode_file_def list_ex_iff not_le)

lemma artifact_encodable:
  assumes "encode_file (artifact_file a (artifact_text a @ descriptor)) = Inr bs"
    and "unat (profile_entry (artifact_profile a)) \<le> length (artifact_text a)"
    and "int (length (artifact_text a @ descriptor)) < uint limit24"
  shows "encodable (artifact_file a (artifact_text a @ descriptor))"
proof -
  let ?f = "artifact_file a (artifact_text a @ descriptor)" and ?n = "length (artifact_text a @ descriptor)"
  have small: "int ?n < 2 ^ 32" "int (length (artifact_text a)) < 2 ^ 32"
    using assms(3) by (simp_all add: limit24_def)
  then have n: "unat (of_nat ?n :: u32) = ?n" "unat (of_nat (length (artifact_text a)) :: u32) = length (artifact_text a)"
    by (simp_all only: unat_of_nat_u32)
  have "\<forall>x \<in> set (file_lengths ?f). unat x \<le> unat limit24"
    using encoded_limits [OF assms(1)] by (simp add: word_less_nat_alt order.strict_implies_order)
  then have "extents_fit ?f"
    by (auto simp: extents_fit_def artifact_file_def Let_def less_Suc_eq numeral_eq_Suc)
  moreover have "\<forall>e \<in> set (file_exports ?f). export_in_range ?f e"
    using assms(2) n by (simp add: artifact_file_def Let_def text_export_def export_in_range_def word_le_nat_alt)
  ultimately show ?thesis by (simp add: encodable_def artifact_file_def Let_def)
qed

text \<open>C31: What the loader admits of a written application is what was written. If an artifact with a full
  descriptor is written and the file that the bytes stand for passes the validation of the profile,
  then the loader, from the bytes alone, decodes that file, finds the descriptor by its export and
  returns the artifact's profile unchanged.
\<close>

theorem written_artifact_admitted:
  assumes "write_artifact a = Inr bs" and "\<not> artifact_compact a"
    and "names_utf8 (artifact_profile a)"
    and "profile_version (artifact_profile a) = 1 \<or> profile_version (artifact_profile a) = 2"
    and "profile_version (artifact_profile a) = 2 \<longleftrightarrow>
      (\<exists>i \<in> set (profile_imports (artifact_profile a)). contract_kind (import_contract i) = 2)"
    and "encode_descriptor (artifact_profile a) = Inr descriptor"
    and "unat (profile_entry (artifact_profile a)) \<le> length (artifact_text a)"
    and "validate_profile (read_back (artifact_file a (artifact_text a @ descriptor))) (artifact_profile a)
      (of_nat (length (artifact_text a))) = Inr ()"
  shows "application bs = Inr (read_back (artifact_file a (artifact_text a @ descriptor)), artifact_profile a) \<and>
    inspect bs = Inr (artifact_profile a)"
proof -
  let ?p = "artifact_profile a" and ?f = "artifact_file a (artifact_text a @ descriptor)"
  let ?start = "of_nat (length (artifact_text a)) :: u32"
  from assms(1,2,6) have encoded: "encode_file ?f = Inr bs"
    and small: "int (length (artifact_text a @ descriptor)) < uint limit24"
    by (auto simp: write_artifact_def artifact_descriptor_def Let_def)
  have decoded: "decode_file bs = Inr (read_back ?f)"
    by (rule decode_encoded_file [OF encoded artifact_encodable [OF encoded assms(7) small]])
  have start: "unat ?start = length (artifact_text a)"
    using small by (simp add: unsigned_of_nat take_bit_nat_eq_self limit24_def)
  have exports: "file_exports (read_back ?f) =
      [text_export entry_name (profile_entry ?p),
       text_export (if profile_version ?p = 2 then descriptor_v2_name else descriptor_name) ?start]"
    and code: "file_text (read_back ?f) = artifact_text a @ descriptor"
    using assms(2) by (simp_all add: read_back_def artifact_file_def Let_def)
  have v2: "list_ex (\<lambda>e. export_name e = descriptor_v2_name) (file_exports (read_back ?f)) \<longleftrightarrow> profile_version ?p = 2"
    using names_differ by (simp add: exports text_export_def)
  have found: "find_export (read_back ?f) (if profile_version ?p = 2 then descriptor_v2_name else descriptor_name) = Inr ?start"
    using names_differ by (simp add: find_export_def exports text_export_def)
  have raw: "text_from (file_text (read_back ?f)) (unat ?start) = Some descriptor"
    by (simp add: text_from_def code start)
  have described: "decode_descriptor descriptor = Inr ?p"
    by (rule decode_encoded_descriptor [OF assms(6,3,4,5)])
  have "application bs = Inr (read_back ?f, ?p)"
    using found raw described assms(8) by (simp add: application_def decoded Let_def v2)
  then show ?thesis by (simp add: inspect_def)
qed

end
