(* ===== verification/O65_Compact.thy ===== *)
theory O65_Compact
  imports O65_Write
begin

text \<open>
  The compact application form: \<open>src/src/mir65816/o65/compact.rs\<close>. The host checks the full proof
  (\<open>admit\<close>) and writes only the import signatures; the loader checks what is left and relocates the
  standard records. The signature of the entry is computed by the front end and is a parameter. Sums of
  \<open>u32\<close> that would overflow are panics. Correctness is in \<open>O65_Compact_Correct\<close>.
\<close>

definition ordinary_contract :: "o65_contract \<Rightarrow> bool" where
  "ordinary_contract c \<longleftrightarrow>
     contract_abi c = abi_name \<and> contract_kind c = 0 \<and> contract_stack_peak c = 0 \<and>
     contract_irq_effect c = 0 \<and> contract_domains c = 1"

definition compact_mask :: "o65_encoding \<Rightarrow> u32" where
  "compact_mask e = (case e of LowByte \<Rightarrow> 255 | HighByte \<Rightarrow> 65535 | _ \<Rightarrow> 0xFFFFFF)"

definition masked_site :: "o65_relocation \<Rightarrow> o65_relocation" where
  "masked_site r = r\<lparr>site_value := site_value r AND compact_mask (site_encoding r)\<rparr>"

definition admitted_file :: "o65_artifact \<Rightarrow> o65_file" where
  "admitted_file a =
     (let p = artifact_profile a; n = of_nat (length (artifact_text a)) in
      \<lparr>file_mode = o65_mode, file_bases = [0, 0, 0, 0],
       file_lengths = [n, of_nat (length (artifact_data a)), artifact_bss a, 0],
       file_stack = 0, file_text = artifact_text a, file_data = artifact_data a,
       file_imports = map import_name (profile_imports p),
       file_relocations = map masked_site (profile_relocations p),
       file_exports = [text_export entry_name (profile_entry p), text_export compact_descriptor_name n]\<rparr>)"

definition admit :: "u32 \<Rightarrow> o65_artifact \<Rightarrow> o65_error + unit" where
  "admit entry_signature a =
     (let p = artifact_profile a in
      bind_result (ok_or (Message ''missing compact entry'')
        (find (\<lambda>r. routine_offset r = profile_entry p) (profile_routines p))) (\<lambda>entry.
      let c = routine_contract entry in
      bind_result (check (\<not> (nmi_extra_stack p \<noteq> 0 \<or> profile_version p \<noteq> 1 \<or>
                             contract_signature c \<noteq> entry_signature \<or> \<not> contract_arguments c = [] \<or>
                             contract_result c \<noteq> 4 \<or> contract_incoming c \<noteq> 1 \<or>
                             list_ex (\<lambda>b. location_section (object_location b) = None) (profile_objects p) \<or>
                             list_ex (\<lambda>i. \<not> ordinary_contract (import_contract i)) (drop 1 (profile_imports p))))
        (Message ''compact v3 requires a checked no-argument LONGINT function entry'')) (\<lambda>_.
        validate_profile (admitted_file a) p (of_nat (length (artifact_text a))))))"

section \<open>Admission by the loader\<close>

record compact_import =
  compact_name :: bytes
  compact_signature :: u32

record compact_info =
  compact_entry :: u32
  compact_text_bytes :: u32
  compact_imports :: "compact_import list"

definition compact_export :: "o65_file \<Rightarrow> bytes \<Rightarrow> o65_error + u32" where
  "compact_export f name =
     ok_or (Message ''missing compact export'')
       (map_option export_value (find (\<lambda>e. export_name e = name \<and> export_segment e = 2) (file_exports f)))"

definition read_compact_import :: "bytes \<Rightarrow> nat \<times> bytes \<Rightarrow> o65_error + compact_import" where
  "read_compact_import raw entry =
     (let (n, name) = entry in
      bind_result (ok_or O65Panic (slice raw (8 + 4 * n) (12 + 4 * n))) (\<lambda>field.
      let signature = le_word field in
      bind_result (check (\<not> (\<not> valid_name name \<or> n = 0 \<and> signature \<noteq> 0 \<or>
                             n \<noteq> 0 \<and> (name = overflow_name \<or> name = arithmetic_fault_name \<or> name = entry_name \<or>
                                      starts_with name reserved_prefix)))
        (Message ''invalid compact import'')) (\<lambda>_.
        Inr \<lparr>compact_name = name, compact_signature = signature\<rparr>)))"

definition check_compact_site :: "o65_file \<Rightarrow> o65_relocation \<Rightarrow> unit \<Rightarrow> o65_error + unit" where
  "check_compact_site f r _ =
     bind_result (check (\<not> site_encoding r = WordField) (Message ''invalid compact relocation site/type'')) (\<lambda>_.
     bind_result (add_u32 (site_offset r) (o65_width (site_encoding r))) (\<lambda>stop.
     bind_result (check (\<not> stop > file_lengths f ! section_index (site_section r))
       (Message ''invalid compact relocation site/type'')) (\<lambda>_.
       case site_target r of
         ImportRef _ \<Rightarrow> check (\<not> site_value r \<noteq> 0) (Message ''compact import addend'')
       | SectionRef s \<Rightarrow>
           check (\<not> (site_encoding r \<in> {BankByte, LongField} \<and> site_value r > file_lengths f ! section_index s))
             (Message ''compact relocation target outside section''))))"

definition compact_application :: "bytes \<Rightarrow> o65_error + (o65_file \<times> compact_info)" where
  "compact_application bs =
     bind_result (decode_file bs) (\<lambda>f.
     bind_result (check (\<not> (file_mode f \<noteq> o65_mode \<or> file_bases f \<noteq> [0, 0, 0, 0] \<or> file_lengths f ! 3 \<noteq> 0 \<or>
                            file_stack f \<noteq> 0 \<or> length (file_exports f) \<noteq> 2))
       (Message ''unsupported compact o65 header'')) (\<lambda>_.
     bind_result (compact_export f compact_descriptor_name) (\<lambda>start.
     bind_result (compact_export f entry_name) (\<lambda>entry.
     bind_result (ok_or (Message ''compact descriptor outside text'') (text_from (file_text f) (unat start))) (\<lambda>raw.
     bind_result (check (\<not> (length raw \<noteq> 8 + 4 * length (file_imports f) \<or> \<not> starts_with raw compact_header \<or>
                            entry \<ge> start \<or> file_imports f = [] \<or> file_imports f ! 0 \<noteq> overflow_name))
       (Message ''invalid compact descriptor/entry'')) (\<lambda>_.
     bind_result (map_result (read_compact_import raw) (enumerate 0 (file_imports f))) (\<lambda>infos.
     let f = f\<lparr>file_text := take (unat start) (file_text f), file_lengths := (file_lengths f)[0 := start]\<rparr> in
     bind_result (for_each (check_compact_site f) (file_relocations f) ()) (\<lambda>_.
       Inr (f, \<lparr>compact_entry = entry, compact_text_bytes = start, compact_imports = infos\<rparr>)))))))))"

definition compact_inspect :: "bytes \<Rightarrow> o65_error + compact_info" where
  "compact_inspect bs = bind_result (compact_application bs) (\<lambda>(_, info). Inr info)"

text \<open>The loader's dispatch on the descriptor: \<open>validate\<close> in \<open>src/src/mir65816/o65/mod.rs\<close>.\<close>

definition validate_application :: "bytes \<Rightarrow> o65_error + unit" where
  "validate_application bs =
     bind_result (decode_file bs) (\<lambda>f.
       if list_ex (\<lambda>e. export_name e = compact_descriptor_name) (file_exports f)
       then bind_result (compact_inspect bs) (\<lambda>_. Inr ())
       else bind_result (inspect bs) (\<lambda>_. Inr ()))"

section \<open>Relocation\<close>

record compact_image =
  compact_segments :: "native_segment list"
  compact_zero_fill :: "native_zero_fill list"
  compact_image_entry :: u32

definition place_compact ::
  "o65_file \<Rightarrow> o65_placement \<Rightarrow> range_index \<Rightarrow> range_index \<Rightarrow> nat \<Rightarrow> o65_region list
    \<Rightarrow> o65_error + o65_region list" where
  "place_compact f placement allowed reserved i allocations =
     (let region = \<lparr>region_address = placement_bases placement ! i, region_size = file_lengths f ! i\<rparr> in
      bind_result (region_end region) (\<lambda>_.
        if region_size region = 0 then
          bind_result (check (\<not> region_address region \<noteq> 0) (Message ''empty section must have zero base''))
            (\<lambda>_. Inr allocations)
        else
          bind_result (check (\<not> (region_address region < 65536 \<or>
                                 region_address region mod (if i = 0 then 65536 else 4) \<noteq> 0 \<or>
                                 \<not> index_contains allowed region \<or> index_overlaps reserved region))
            (Message ''invalid compact section placement'')) (\<lambda>_. Inr (allocations @ [region]))))"

definition add_provider_name :: "o65_provider \<Rightarrow> bytes set \<Rightarrow> o65_error + bytes set" where
  "add_provider_name q names =
     bind_result (check (provider_name q \<notin> names) (Message ''duplicate provider''))
       (\<lambda>_. Inr (insert (provider_name q) names))"

definition bind_compact ::
  "o65_placement \<Rightarrow> range_index \<Rightarrow> nat \<times> compact_import \<Rightarrow> o65_region list \<times> u32 list
    \<Rightarrow> o65_error + (o65_region list \<times> u32 list)" where
  "bind_compact placement reserved entry st =
     (let (index, i) = entry; (allocations, addresses) = st in
      bind_result (ok_or (Message ''unresolved compact import'')
        (find (\<lambda>q. provider_name q = compact_name i) (placement_providers placement))) (\<lambda>q.
      let c = provider_contract q in
      bind_result (verify_contract c) (\<lambda>_.
      bind_result (check (\<not> (contract_signature c \<noteq> compact_signature i \<or>
                             (if index = 0 then c \<noteq> overflow_contract else \<not> ordinary_contract c) \<or>
                             provider_address q = 0 \<or> provider_size q = 0))
        (Message ''incompatible compact provider'')) (\<lambda>_.
      bind_result (region_end (provider_region q)) (\<lambda>_.
      bind_result (check (\<not> index_overlaps reserved (provider_region q))
        (Message ''provider overlaps reserved region'')) (\<lambda>_.
        Inr (allocations @ [provider_region q], addresses @ [provider_address q])))))))"

definition compact_patch :: "o65_placement \<Rightarrow> u32 list \<Rightarrow> o65_relocation \<Rightarrow> o65_error + patch" where
  "compact_patch placement addresses r =
     bind_result (reference_base placement addresses (site_target r)) (\<lambda>base.
     bind_result (add_u32 base (site_value r)) (\<lambda>v.
     bind_result (check (\<not> (site_encoding r \<in> {BankByte, LongField} \<and> v \<ge> limit24))
       (Message ''relocated address exceeds 24 bits'')) (\<lambda>_.
     let v = (case site_encoding r of HighByte \<Rightarrow> drop_bit 8 v | BankByte \<Rightarrow> drop_bit 16 v | _ \<Rightarrow> v) in
       Inr (site_section r, site_offset r, o65_width (site_encoding r), v))))"

definition relocate_compact_site ::
  "o65_placement \<Rightarrow> u32 list \<Rightarrow> o65_relocation \<Rightarrow> bytes \<times> bytes \<Rightarrow> o65_error + (bytes \<times> bytes)" where
  "relocate_compact_site placement addresses r st =
     bind_result (compact_patch placement addresses r) (\<lambda>q. apply_patch q st)"

definition relocate_compact :: "bytes \<Rightarrow> o65_placement \<Rightarrow> o65_error + compact_image" where
  "relocate_compact bs placement =
     bind_result (compact_application bs) (\<lambda>(f, info).
     bind_result (check (\<not> (placement_nmi_extra_stack placement \<noteq> 0 \<or>
                            length (placement_providers placement) \<noteq> length (compact_imports info) \<or>
                            int (length (placement_allowed placement)) > max_items \<or>
                            int (length (placement_reserved placement)) > max_items))
       (Message ''invalid compact placement contract'')) (\<lambda>_.
     bind_result (range_index_new (placement_allowed placement)) (\<lambda>allowed.
     bind_result (range_index_new (placement_reserved placement)) (\<lambda>reserved.
     bind_result (for_each (place_compact f placement allowed reserved) [0..<3] []) (\<lambda>allocations.
     bind_result (for_each add_provider_name (placement_providers placement) {}) (\<lambda>_.
     bind_result (for_each (bind_compact placement reserved) (enumerate 0 (compact_imports info)) (allocations, []))
       (\<lambda>(allocations, addresses).
     bind_result (disjoint allocations) (\<lambda>_.
     bind_result (for_each (relocate_compact_site placement addresses) (file_relocations f)
       (file_text f, file_data f)) (\<lambda>(code, stored).
     let base = placement_bases placement ! 0;
       segments = [\<lparr>load_address = base, load_bytes = code, load_writable = False, load_executable = True\<rparr>] @
         (if stored = [] then []
          else [\<lparr>load_address = placement_bases placement ! 1, load_bytes = stored, load_writable = True,
                 load_executable = False\<rparr>]);
       fill =
         (if file_lengths f ! 2 = 0 then []
          else [\<lparr>fill_address = placement_bases placement ! 2, fill_size = file_lengths f ! 2,
                 fill_writable = True\<rparr>]) in
       bind_result (add_u32 base (compact_entry info)) (\<lambda>entry.
         Inr \<lparr>compact_segments = segments, compact_zero_fill = fill, compact_image_entry = entry\<rparr>))))))))))"

end
