(* ===== verification/O65_Admission.thy ===== *)
theory O65_Admission
  imports O65_Relocate
begin

text \<open>
  What admission establishes (\<open>validate_profile\<close> and \<open>application\<close> in
  \<open>src/src/mir65816/o65/relocate.rs\<close>): the stored sections have their declared lengths, every profile
  relocation agrees with its record in the file and lies in its section in front of the next one,
  the routines lie in the text and their contracts are verified. The facts are stated for the loops that
  establish them and then for \<open>application\<close>.
\<close>

section \<open>Decoded files\<close>

lemma read_take_length: "read_take n r = Inr (bs, r') \<Longrightarrow> length bs = n"
  by (auto simp: read_take_def split: if_splits)

lemma decode_file_lengths:
  assumes "decode_file bs = Inr f"
  shows "unat (file_lengths f ! 0) = length (file_text f)" "unat (file_lengths f ! 1) = length (file_data f)"
  using assms unfolding decode_file_def Let_def
  by (auto dest!: read_take_length)

lemma decode_file_extents:
  assumes "decode_file bs = Inr f"
  shows "length (file_bases f) = 4 \<and> length (file_lengths f) = 4 \<and>
     (\<forall>i < 4. unat (file_bases f ! i) + unat (file_lengths f ! i) \<le> 2 ^ 24)"
proof -
  from assms obtain wide r r' where
    "for_each (decode_extent wide) [0..<4] ([], [], r) = Inr (file_bases f, file_lengths f, r')"
    unfolding decode_file_def Let_def by auto
  then show ?thesis by (rule decoded_extents)
qed

section \<open>Relocation sites\<close>

definition site_stop :: "o65_relocation \<Rightarrow> nat" where
  "site_stop r =
     unat (site_offset r) + unat (o65_width (site_encoding r)) + (if zero_extend r then 1 else 0)"

definition payload_of :: "o65_file \<Rightarrow> o65_section \<Rightarrow> bytes" where
  "payload_of f s = (if s = TextSection then file_text f else file_data f)"

definition payload_bound :: "o65_file \<Rightarrow> u32 \<Rightarrow> o65_section \<Rightarrow> nat" where
  "payload_bound f start s = (if s = TextSection then unat start else unat (file_lengths f ! 1))"

text \<open>What the loop checks of one pair of a profile relocation and its record in the file.\<close>

definition site_checked :: "o65_file \<Rightarrow> o65_profile \<Rightarrow> u32 \<Rightarrow> o65_relocation \<times> o65_relocation \<Rightarrow> bool" where
  "site_checked f p start pair \<longleftrightarrow>
     (let (proof, wire) = pair in
      site_section proof \<noteq> BssSection \<and> site_encoding proof \<noteq> WordField \<and>
      site_section proof = site_section wire \<and> site_offset proof = site_offset wire \<and>
      site_encoding proof = site_encoding wire \<and> site_target proof = site_target wire \<and>
      site_value proof AND encoding_mask (site_encoding proof) = site_value wire \<and>
      site_stop proof < 2 ^ 32 \<and> site_stop proof \<le> payload_bound f start (site_section proof) \<and>
      (zero_extend proof \<longrightarrow>
         site_encoding proof = LongField \<and>
         payload_of f (site_section proof) ! (unat (site_offset proof) + 3) = 0) \<and>
      (case site_target proof of
         ImportRef i \<Rightarrow> unat i < length (profile_imports p) \<and> site_value proof = 0
       | SectionRef s \<Rightarrow> site_value proof \<le> file_lengths f ! section_index s))"

lemma site_checkedD:
  assumes "site_checked f p start (proof', wire)"
  shows "site_section proof' \<noteq> BssSection" "site_encoding proof' \<noteq> WordField"
    "site_section wire = site_section proof'" "site_offset wire = site_offset proof'"
    "site_encoding wire = site_encoding proof'" "site_target wire = site_target proof'"
    "site_value wire = site_value proof' AND encoding_mask (site_encoding proof')"
    "site_stop proof' < 2 ^ 32" "site_stop proof' \<le> payload_bound f start (site_section proof')"
    "zero_extend proof' \<Longrightarrow> site_encoding proof' = LongField"
    "zero_extend proof' \<Longrightarrow> payload_of f (site_section proof') ! (unat (site_offset proof') + 3) = 0"
    "site_target proof' = ImportRef i \<Longrightarrow> unat i < length (profile_imports p) \<and> site_value proof' = 0"
  using assms unfolding site_checked_def Let_def prod.case by (elim conjE; simp)+

definition in_front :: "o65_relocation \<Rightarrow> o65_relocation \<Rightarrow> bool" where
  "in_front a b \<longleftrightarrow> (site_section a = site_section b \<longrightarrow> site_stop a \<le> unat (site_offset b))"

lemma width_positive: "0 < unat (o65_width e)"
  by (cases e) simp_all

lemma unat_extent:
  "unat (o65_width e + (if z then 1 else 0)) = unat (o65_width e) + (if z then 1 else 0)"
  by (cases e) simp_all

lemma validate_site_facts:
  assumes "validate_site f p start pair ends = Inr ends'" and "length ends = 2"
  shows "site_checked f p start pair \<and> unat (ends ! section_index (site_section (fst pair))) \<le> unat (site_offset (fst pair)) \<and>
     section_index (site_section (fst pair)) < 2 \<and> length ends' = 2 \<and>
     unat (ends' ! section_index (site_section (fst pair))) = site_stop (fst pair) \<and>
     (\<forall>i. i \<noteq> section_index (site_section (fst pair)) \<longrightarrow> ends' ! i = ends ! i)"
proof -
  obtain proof' wire where pair: "pair = (proof', wire)" by (cases pair)
  let ?i = "section_index (site_section proof')"
  from assms(1) obtain stop high where
    kinds: "site_section proof' \<noteq> BssSection" "site_encoding proof' \<noteq> WordField"
      "zero_extend proof' \<longrightarrow> site_encoding proof' = LongField"
    and same: "site_section proof' = site_section wire" "site_offset proof' = site_offset wire"
      "site_encoding proof' = site_encoding wire" "site_target proof' = site_target wire"
      "site_value proof' AND encoding_mask (site_encoding proof') = site_value wire"
    and add: "checked_add32 (site_offset proof')
      (o65_width (site_encoding proof') + (if zero_extend proof' then 1 else 0)) = Some stop"
    and range: "\<not> site_offset proof' < ends ! ?i" "\<not> stop > (if ?i = 0 then start else file_lengths f ! 1)"
    and high: "(if zero_extend proof'
      then byte_at (if ?i = 0 then file_text f else file_data f) (unat (stop - 1)) else Inr 0) = Inr high"
      "\<not> (zero_extend proof' \<and> high \<noteq> 0)"
    and target: "(case site_target proof' of
           ImportRef i \<Rightarrow>
             check (\<not> (unat i \<ge> length (profile_imports p) \<or> site_value proof' \<noteq> 0))
               (Message ''unsupported import addend/index'')
         | SectionRef s \<Rightarrow>
             check (\<not> site_value proof' > file_lengths f ! section_index s)
               (Message ''target offset outside section'')) = Inr ()"
    and ends': "ends' = ends[?i := stop]"
    unfolding validate_site_def pair Let_def prod.case result_steps by blast
  have stop: "unat stop = site_stop proof'"
    using checked_add32_SomeD [OF add] by (simp add: unat_extent site_stop_def)
  have index: "?i = 0 \<longleftrightarrow> site_section proof' = TextSection" "?i < 2"
    using kinds(1) by (cases "site_section proof'"; simp)+
  have bound: "site_stop proof' \<le> payload_bound f start (site_section proof')"
    using range(2) index stop by (auto simp: payload_bound_def word_le_nat_alt not_less split: if_splits)
  have container: "payload_of f (site_section proof') ! (unat (site_offset proof') + 3) = 0" if z: "zero_extend proof'"
  proof -
    have "unat (stop - 1) = unat (site_offset proof') + 3"
      using stop z kinds(3) by (simp add: site_stop_def unat_sub_if' word_le_nat_alt)
    with high z index(1) show ?thesis by (auto simp: byte_at_def payload_of_def split: if_splits)
  qed
  have "unat stop < 2 ^ 32" using unsigned_less [where 'a = nat, of stop] by simp
  then have "site_checked f p start pair"
    using kinds same bound container target stop
    by (auto simp: site_checked_def pair not_less split: o65_reference.splits)
  then show ?thesis
    using range(1) index(2) stop ends' assms(2) by (simp add: pair word_le_nat_alt not_less)
qed

lemma validate_sites_facts:
  assumes "for_each (validate_site f p start) pairs ends = Inr ends'" and "length ends = 2"
  shows "(\<forall>pair \<in> set pairs. site_checked f p start pair \<and>
       unat (ends ! section_index (site_section (fst pair))) \<le> unat (site_offset (fst pair))) \<and>
     sorted_wrt in_front (map fst pairs)"
  using assms
proof (induction pairs arbitrary: ends)
  case Nil
  then show ?case by simp
next
  case (Cons pair pairs)
  from Cons.prems(1) obtain ends1 where
    step: "validate_site f p start pair ends = Inr ends1"
    and rest: "for_each (validate_site f p start) pairs ends1 = Inr ends'" by auto
  note facts = validate_site_facts [OF step Cons.prems(2)]
  with Cons.IH [OF rest] have tail: "\<forall>q \<in> set pairs. site_checked f p start q \<and>
      unat (ends1 ! section_index (site_section (fst q))) \<le> unat (site_offset (fst q))"
    "sorted_wrt in_front (map fst pairs)" by auto
  have inj: "section_index a = section_index b \<longleftrightarrow> a = b" for a b by (cases a; cases b; simp)
  have "unat (ends ! section_index (site_section (fst q))) \<le> unat (site_offset (fst q)) \<and> in_front (fst pair) (fst q)"
    if q: "q \<in> set pairs" for q
  proof (cases "site_section (fst q) = site_section (fst pair)")
    case True
    have "unat (ends ! section_index (site_section (fst pair))) \<le> unat (site_offset (fst pair))" using facts by blast
    moreover have "unat (site_offset (fst pair)) \<le> site_stop (fst pair)" by (simp add: site_stop_def)
    moreover have "site_stop (fst pair) \<le> unat (site_offset (fst q))" using tail(1) q facts True by auto
    ultimately show ?thesis using True by (simp add: in_front_def)
  next
    case False
    then show ?thesis using tail(1) q facts by (auto simp: in_front_def inj)
  qed
  then show ?case using facts tail by auto
qed

section \<open>Routines\<close>

text \<open>The contracts that the descriptor's reader accepts are verified.\<close>

lemma read_many_all:
  assumes "read_many q n r = Inr (xs, r')" and "\<And>r x r'. q r = Inr (x, r') \<Longrightarrow> Q x"
  shows "\<forall>x \<in> set xs. Q x"
  using assms(1)
proof (induction n arbitrary: r xs)
  case 0
  then show ?case by simp
next
  case (Suc n)
  then show ?case using assms(2) by fastforce
qed

lemma read_contract_verified: "read_contract r = Inr (c, r') \<Longrightarrow> verify_contract c = Inr ()"
  by (auto simp: read_contract_def Let_def ex_unit)

lemma decoded_contracts:
  assumes "decode_descriptor bs = Inr p"
  shows "\<forall>r \<in> set (profile_routines p). verify_contract (routine_contract r) = Inr ()"
proof -
  from assms obtain r r' n where "read_many read_routine n r = Inr (profile_routines p, r')"
    by (auto simp: decode_descriptor_def read_profile_def read_counted_def)
  then show ?thesis
    by (rule read_many_all) (auto simp: read_routine_def dest: read_contract_verified)
qed

text \<open>What the loop over the routines establishes.\<close>

lemma validate_routine_facts:
  assumes "validate_routine start r st = Inr st'"
  shows "routine_size r \<noteq> 0 \<and> unat (routine_offset r) + unat (routine_size r) \<le> unat start"
proof -
  from assms have "routine_size r \<noteq> 0" "\<not> ends_after (routine_offset r) (routine_size r) start"
    by (auto simp: validate_routine_def Let_def split: prod.splits)
  then show ?thesis
    by (auto simp: ends_after_def word_le_nat_alt not_less split: option.splits dest: checked_add32_SomeD)
qed

lemma validate_routines_facts:
  assumes "for_each (validate_routine start) rs st = Inr st'"
  shows "\<forall>r \<in> set rs. routine_size r \<noteq> 0 \<and> unat (routine_offset r) + unat (routine_size r) \<le> unat start"
  using assms
proof (induction rs arbitrary: st)
  case Nil
  then show ?case by simp
next
  case (Cons r rs)
  then obtain st1 where "validate_routine start r st = Inr st1"
    "for_each (validate_routine start) rs st1 = Inr st'" by auto
  with Cons.IH validate_routine_facts show ?case by auto
qed

section \<open>Applications\<close>

lemma application_facts:
  assumes "application bs = Inr (f, p)"
  shows "\<exists>start. unat start \<le> length (file_text f) \<and> unat (file_lengths f ! 0) = length (file_text f) \<and>
     unat (file_lengths f ! 1) = length (file_data f) \<and>
     length (profile_relocations p) = length (file_relocations f) \<and>
     length (profile_imports p) = length (file_imports f) \<and> profile_imports p \<noteq> [] \<and>
     import_name (profile_imports p ! 0) = overflow_name \<and>
     (\<forall>pair \<in> set (zip (profile_relocations p) (file_relocations f)). site_checked f p start pair) \<and>
     sorted_wrt in_front (profile_relocations p) \<and>
     (\<forall>r \<in> set (profile_routines p). routine_size r \<noteq> 0 \<and>
        unat (routine_offset r) + unat (routine_size r) \<le> unat start)"
proof -
  from assms obtain start where
    decoded: "decode_file bs = Inr f"
    and start: "unat start \<le> length (file_text f)"
    and valid: "validate_profile f p start = Inr ()"
    by (auto simp: application_def Let_def text_from_def split: if_splits)
  from valid obtain routines occupied ends where
    routines: "for_each (validate_routine start) (profile_routines p) ({}, [[], [], []]) = Inr (routines, occupied)"
    and imps: "length (profile_imports p) = length (file_imports f)" "profile_imports p \<noteq> []"
      "import_name (profile_imports p ! 0) = overflow_name"
    and count: "length (profile_relocations p) = length (file_relocations f)"
    and sites: "for_each (validate_site f p start) (zip (profile_relocations p) (file_relocations f)) [0, 0] = Inr ends"
    unfolding validate_profile_def result_steps by auto
  note routine = validate_routines_facts [OF routines]
  have "map fst (zip (profile_relocations p) (file_relocations f)) = profile_relocations p"
    using count by simp
  with validate_sites_facts [OF sites] have
    "(\<forall>pair \<in> set (zip (profile_relocations p) (file_relocations f)). site_checked f p start pair)"
    "sorted_wrt in_front (profile_relocations p)" by auto
  with start decode_file_lengths [OF decoded] imps count routine show ?thesis
    by (intro exI [of _ start]) simp
qed

lemma application_entry:
  assumes "application bs = Inr (f, p)"
  shows "\<exists>r \<in> set (profile_routines p). routine_offset r = profile_entry p"
  using assms by (auto simp: application_def Let_def validate_profile_def list_ex_iff split: if_splits)

text \<open>The entry lies in the text.\<close>

lemma application_entry_below:
  assumes "application bs = Inr (f, p)"
  shows "unat (profile_entry p) < length (file_text f)"
proof -
  from application_entry [OF assms] obtain r where r: "r \<in> set (profile_routines p)" "routine_offset r = profile_entry p"
    by blast
  with application_facts [OF assms] have "routine_size r \<noteq> 0"
    "unat (routine_offset r) + unat (routine_size r) \<le> length (file_text f)" by (blast, metis order.trans)
  then show ?thesis using r(2) by (simp add: unat_gt_0 [symmetric])
qed

end
