(* ===== verification/O65_Relocate_Correct.thy ===== *)
theory O65_Relocate_Correct
  imports O65_Admission
begin

text \<open>
  Correctness of relocation (\<open>relocate\<close> in \<open>src/src/mir65816/o65/relocate.rs\<close>): where the sections and
  providers may lie, what every patched site holds in the loaded image, and that an admitted
  application never makes the loader panic. \<open>load_byte\<close> reads the loaded image at an address.
\<close>

section \<open>Placement\<close>

definition section_region :: "o65_file \<Rightarrow> o65_placement \<Rightarrow> nat \<Rightarrow> o65_region" where
  "section_region f placement i =
     \<lparr>region_address = placement_bases placement ! i, region_size = file_lengths f ! i\<rparr>"

definition region_fits :: "o65_region \<Rightarrow> bool" where
  "region_fits r \<longleftrightarrow> unat (region_address r) + unat (region_size r) \<le> 2 ^ 24"

definition region_within :: "o65_region \<Rightarrow> o65_region \<Rightarrow> bool" where
  "region_within q r \<longleftrightarrow>
     region_address r \<le> region_address q \<and>
     uint (region_address q) + uint (region_size q) \<le> uint (region_address r) + uint (region_size r)"

lemma region_end_fits: "region_end r = Inr e \<Longrightarrow> region_fits r"
proof -
  assume "region_end r = Inr e"
  then have e: "uint e = uint (region_address r) + uint (region_size r)" "e \<le> limit24"
    by (simp_all add: region_end_eq_Inr)
  have "unat e = unat (region_address r) + unat (region_size r)"
    unfolding unat_eq_nat_uint e(1) by (rule nat_add_distrib) simp_all
  moreover have "unat e \<le> 2 ^ 24" using e(2) by (simp add: word_le_nat_alt limit24_def)
  ultimately show ?thesis by (simp add: region_fits_def)
qed

definition section_placed ::
  "o65_file \<Rightarrow> o65_profile \<Rightarrow> o65_placement \<Rightarrow> range_index \<Rightarrow> range_index \<Rightarrow> nat \<Rightarrow> bool" where
  "section_placed f p placement allowed reserved i \<longleftrightarrow>
     (let r = section_region f placement i in
      region_fits r \<and>
      (if region_size r = 0 then region_address r = 0
       else 65536 \<le> region_address r \<and> region_address r mod (if i = 0 then 65536 else 4) = 0 \<and>
            index_contains allowed r \<and> \<not> index_overlaps reserved r \<and>
            (\<forall>b \<in> set (profile_objects p). location_section (object_location b) = None \<longrightarrow>
               \<not> o65_overlaps r (object_region b))))"

lemma place_section_eq_Inr:
  assumes "place_o65_section f p placement allowed reserved i allocations = Inr out"
  shows "section_placed f p placement allowed reserved i \<and>
     out = allocations @ (if region_size (section_region f placement i) = 0 then [] else [section_region f placement i])"
  using assms
  by (auto simp: place_o65_section_def Let_def section_region_def section_placed_def list_ex_iff not_less
      split: if_splits dest: region_end_fits)

lemma place_all_sections:
  assumes "for_each (place_o65_section f p placement allowed reserved) is acc = Inr out"
  shows "(\<forall>i \<in> set is. section_placed f p placement allowed reserved i) \<and>
     out = acc @ filter (\<lambda>r. region_size r \<noteq> 0) (map (section_region f placement) is)"
  using assms
proof (induction "is" arbitrary: acc)
  case Nil
  then show ?case by simp
next
  case (Cons i "is")
  then obtain acc1 where step: "place_o65_section f p placement allowed reserved i acc = Inr acc1"
    and rest: "for_each (place_o65_section f p placement allowed reserved) is acc1 = Inr out" by auto
  from place_section_eq_Inr [OF step] Cons.IH [OF rest] show ?case by simp
qed

lemma add_providers:
  assumes "for_each add_provider ps m = Inr m'"
  shows "distinct (map provider_name ps) \<and> (\<forall>q \<in> set ps. m (provider_name q) = None) \<and>
     (\<forall>name. m' name = (case find (\<lambda>q. provider_name q = name) ps of None \<Rightarrow> m name | Some q \<Rightarrow> Some q))"
  using assms
proof (induction ps arbitrary: m)
  case Nil
  then show ?case by simp
next
  case (Cons q ps)
  from Cons.prems have fresh: "m (provider_name q) = None"
    and rest: "for_each add_provider ps (m(provider_name q \<mapsto> q)) = Inr m'"
    by (simp_all add: add_provider_def [of q])
  note ih = Cons.IH [OF rest]
  note names = ih [THEN conjunct1] and free = ih [THEN conjunct2, THEN conjunct1, rule_format]
    and found = ih [THEN conjunct2, THEN conjunct2, rule_format]
  have other: "provider_name x \<noteq> provider_name q \<and> m (provider_name x) = None" if "x \<in> set ps" for x
    using free [OF that] by (simp split: if_splits)
  then have none: "find (\<lambda>x. provider_name x = provider_name q) ps = None"
    by (simp add: find_None_iff)
  have "m' name = (case find (\<lambda>x. provider_name x = name) (q # ps) of None \<Rightarrow> m name | Some q \<Rightarrow> Some q)" for name
    using none by (cases "name = provider_name q") (simp_all add: found split: option.split)
  moreover have "provider_name q \<notin> provider_name ` set ps" using other by (metis imageE)
  then have "distinct (map provider_name (q # ps))" using names by simp
  ultimately show ?case using fresh other by simp
qed

definition provider_of :: "o65_placement \<Rightarrow> o65_import \<Rightarrow> o65_provider option" where
  "provider_of placement i =
     find (\<lambda>q. provider_name q = import_name i) (placement_providers placement)"

definition import_bound :: "o65_placement \<Rightarrow> range_index \<Rightarrow> o65_import \<Rightarrow> o65_provider \<Rightarrow> bool" where
  "import_bound placement reserved i q \<longleftrightarrow>
     provider_of placement i = Some q \<and> provider_contract q = import_contract i \<and> provider_size q \<noteq> 0 \<and>
     region_fits (provider_region q) \<and> \<not> index_overlaps reserved (provider_region q)"

lemma bind_imports:
  assumes "for_each (bind_import providers reserved) imps (allocations, addresses) = Inr (allocations', addresses')"
    and "\<forall>i \<in> set imps. providers (import_name i) = provider_of placement i"
  shows "\<exists>qs. list_all2 (import_bound placement reserved) imps qs \<and>
     allocations' = allocations @ map provider_region qs \<and> addresses' = addresses @ map provider_address qs"
  using assms
proof (induction imps arbitrary: allocations addresses)
  case Nil
  then show ?case by simp
next
  case (Cons i imps)
  from Cons.prems(1) obtain al ad where step: "bind_import providers reserved i (allocations, addresses) = Inr (al, ad)"
    and more: "for_each (bind_import providers reserved) imps (al, ad) = Inr (allocations', addresses')"
    by auto
  from step obtain q where
    q: "providers (import_name i) = Some q" "provider_contract q = import_contract i" "provider_size q \<noteq> 0"
    and e: "\<exists>e. region_end (provider_region q) = Inr e" and free: "\<not> index_overlaps reserved (provider_region q)"
    and out: "al = allocations @ [provider_region q]" "ad = addresses @ [provider_address q]"
    by (auto simp: bind_import_def)
  note rest = more [unfolded out]
  from q e free Cons.prems(2) have "import_bound placement reserved i q"
    by (auto simp: import_bound_def dest: region_end_fits)
  moreover from Cons.IH [OF rest] Cons.prems(2) obtain qs where
    "list_all2 (import_bound placement reserved) imps qs"
    "allocations' = (allocations @ [provider_region q]) @ map provider_region qs"
    "addresses' = (addresses @ [provider_address q]) @ map provider_address qs" by auto
  ultimately show ?case by (intro exI [of _ "q # qs"]) simp
qed

section \<open>Patches\<close>

definition patch_start :: "patch \<Rightarrow> nat" where
  "patch_start q = unat (fst (snd q))"

definition patch_stop :: "patch \<Rightarrow> nat" where
  "patch_stop q = unat (fst (snd q)) + unat (fst (snd (snd q)))"

definition patch_section :: "patch \<Rightarrow> bytes \<times> bytes \<Rightarrow> bytes" where
  "patch_section q st = (if fst q = TextSection then fst st else snd st)"

definition patch_field :: "patch \<Rightarrow> bytes" where
  "patch_field q = take (unat (fst (snd (snd q)))) (word_bytes4 (snd (snd (snd q))))"

text \<open>A patch that fits its section, and two patches of which the first ends before the second.\<close>

definition patch_fits :: "patch \<Rightarrow> bytes \<times> bytes \<Rightarrow> bool" where
  "patch_fits q st \<longleftrightarrow>
     unat (fst (snd (snd q))) \<le> 4 \<and> patch_stop q < 2 ^ 32 \<and> patch_stop q \<le> length (patch_section q st)"

definition patch_in_front :: "patch \<Rightarrow> patch \<Rightarrow> bool" where
  "patch_in_front a b \<longleftrightarrow>
     ((fst a = TextSection \<longleftrightarrow> fst b = TextSection) \<longrightarrow> patch_stop a \<le> patch_start b)"

lemma length_patch_field: "patch_fits q st \<Longrightarrow> length (patch_field q) = patch_stop q - patch_start q"
  by (auto simp: patch_fits_def patch_field_def patch_stop_def patch_start_def)

lemma apply_patch_fits:
  assumes "patch_fits q (code, stored)"
  shows "apply_patch q (code, stored) =
     Inr (if fst q = TextSection then (splice (patch_start q) (patch_field q) code, stored)
          else (code, splice (patch_start q) (patch_field q) stored))"
proof -
  obtain s offset width v where q: "q = (s, offset, width, v)" by (metis prod_cases4)
  have fits: "unat offset + unat width < 2 ^ 32" using assms by (simp add: patch_fits_def patch_stop_def q)
  show ?thesis using assms unfolding q apply_patch_def Let_def prod.case add_u32_fits [OF fits] bind_result_simps
    by (cases "s = TextSection") (simp_all add: unat_sum [OF fits] patch_fits_def patch_stop_def patch_start_def
        patch_section_def patch_field_def copy_at_def)
qed

text \<open>Patches in order: each site holds its field at the end, every other byte is as it was.\<close>

lemma apply_patches:
  assumes "sorted_wrt patch_in_front qs" and "\<forall>q \<in> set qs. patch_fits q st"
  shows "\<exists>st'. for_each apply_patch qs st = Inr st' \<and>
     length (fst st') = length (fst st) \<and> length (snd st') = length (snd st) \<and>
     (\<forall>q \<in> set qs. \<forall>j < patch_stop q - patch_start q.
        patch_section q st' ! (patch_start q + j) = patch_field q ! j) \<and>
     (\<forall>k < length (fst st). (\<forall>q \<in> set qs. fst q = TextSection \<longrightarrow> k < patch_start q \<or> patch_stop q \<le> k) \<longrightarrow>
        fst st' ! k = fst st ! k) \<and>
     (\<forall>k < length (snd st). (\<forall>q \<in> set qs. fst q \<noteq> TextSection \<longrightarrow> k < patch_start q \<or> patch_stop q \<le> k) \<longrightarrow>
        snd st' ! k = snd st ! k)"
  using assms
proof (induction qs arbitrary: st)
  case Nil
  then show ?case by simp
next
  case (Cons q qs)
  obtain code stored where st: "st = (code, stored)" by (cases st)
  let ?st = "if fst q = TextSection then (splice (patch_start q) (patch_field q) code, stored)
          else (code, splice (patch_start q) (patch_field q) stored)"
  have fits: "patch_fits q (code, stored)" using Cons.prems(2) st by simp
  have order: "patch_start q \<le> patch_stop q" by (simp add: patch_start_def patch_stop_def)
  have size: "patch_start q + length (patch_field q) \<le> length (patch_section q (code, stored))"
    using fits length_patch_field [OF fits] order by (simp add: patch_fits_def)
  then have lengths: "length (fst ?st) = length code" "length (snd ?st) = length stored"
    by (simp_all add: patch_section_def split: if_splits)
  have same: "length (patch_section x ?st) = length (patch_section x (code, stored))" for x
    unfolding patch_section_def using lengths by (simp only: fst_conv snd_conv split: if_split) simp
  have "\<forall>x \<in> set qs. patch_fits x ?st"
    unfolding patch_fits_def same using Cons.prems(2) by (simp add: patch_fits_def st)
  moreover have "sorted_wrt patch_in_front qs" using Cons.prems(1) by simp
  ultimately obtain st' where
    run: "for_each apply_patch qs ?st = Inr st'"
    and len: "length (fst st') = length (fst ?st)" "length (snd st') = length (snd ?st)"
    and fields: "\<forall>x \<in> set qs. \<forall>j < patch_stop x - patch_start x. patch_section x st' ! (patch_start x + j) = patch_field x ! j"
    and frame: "\<forall>k < length (fst ?st). (\<forall>x \<in> set qs. fst x = TextSection \<longrightarrow> k < patch_start x \<or> patch_stop x \<le> k) \<longrightarrow>
        fst st' ! k = fst ?st ! k"
      "\<forall>k < length (snd ?st). (\<forall>x \<in> set qs. fst x \<noteq> TextSection \<longrightarrow> k < patch_start x \<or> patch_stop x \<le> k) \<longrightarrow>
        snd st' ! k = snd ?st ! k"
    using Cons.IH [of ?st] by blast
  have here: "patch_section q st' ! (patch_start q + j) = patch_field q ! j" if j: "j < patch_stop q - patch_start q" for j
  proof -
    let ?k = "patch_start q + j"
    have k: "?k < length (patch_section q (code, stored))" "?k < patch_stop q"
      using j size length_patch_field [OF fits] by simp_all
    have behind: "?k < patch_start x" if x: "x \<in> set qs" "(fst x = TextSection) = (fst q = TextSection)" for x
    proof -
      have "patch_in_front q x" using Cons.prems(1) x(1) by simp
      with x(2) k(2) show ?thesis by (simp add: patch_in_front_def)
    qed
    have new: "splice (patch_start q) (patch_field q) bs ! ?k = patch_field q ! j"
      if "patch_section q (code, stored) = bs" for bs
      using size k j length_patch_field [OF fits] that by (simp add: nth_splice)
    show ?thesis
    proof (cases "fst q = TextSection")
      case True
      have "fst st' ! ?k = fst ?st ! ?k"
        by (rule frame(1) [rule_format]) (use True behind k lengths in \<open>simp_all add: patch_section_def\<close>)
      with True new [of code] show ?thesis by (simp add: patch_section_def)
    next
      case False
      have "snd st' ! ?k = snd ?st ! ?k"
        by (rule frame(2) [rule_format]) (use False behind k lengths in \<open>simp_all add: patch_section_def\<close>)
      with False new [of stored] show ?thesis by (simp add: patch_section_def)
    qed
  qed
  have outside: "splice (patch_start q) (patch_field q) bs ! k = bs ! k"
    if "patch_section q (code, stored) = bs" "k < length bs" "k < patch_start q \<or> patch_stop q \<le> k" for bs k
    using size that length_patch_field [OF fits] order by (subst nth_splice) auto
  have code_kept: "fst st' ! k = code ! k" if "k < length code"
    "\<forall>x \<in> set (q # qs). fst x = TextSection \<longrightarrow> k < patch_start x \<or> patch_stop x \<le> k" for k
  proof -
    have "fst st' ! k = fst ?st ! k" using frame(1) lengths that by simp
    also have "\<dots> = code ! k" using outside [of code k] that by (simp add: patch_section_def)
    finally show ?thesis .
  qed
  have stored_kept: "snd st' ! k = stored ! k" if "k < length stored"
    "\<forall>x \<in> set (q # qs). fst x \<noteq> TextSection \<longrightarrow> k < patch_start x \<or> patch_stop x \<le> k" for k
  proof -
    have "snd st' ! k = snd ?st ! k" using frame(2) lengths that by simp
    also have "\<dots> = stored ! k" using outside [of stored k] that by (simp add: patch_section_def)
    finally show ?thesis .
  qed
  have "for_each apply_patch (q # qs) st = Inr st'" using run apply_patch_fits [OF fits] by (simp add: st)
  moreover have "\<forall>x \<in> set (q # qs). \<forall>j < patch_stop x - patch_start x.
      patch_section x st' ! (patch_start x + j) = patch_field x ! j" using here fields by simp
  ultimately show ?case using len lengths code_kept stored_kept by (intro exI [of _ st']) (simp add: st)
qed

section \<open>Segments\<close>

definition segment_covers :: "native_segment \<Rightarrow> u32 \<Rightarrow> bool" where
  "segment_covers s a \<longleftrightarrow>
     unat (load_address s) \<le> unat a \<and> unat a < unat (load_address s) + length (load_bytes s)"

fun load_byte :: "native_segment list \<Rightarrow> u32 \<Rightarrow> u8 option" where
  "load_byte [] a = None"
| "load_byte (s # segments) a =
     (if segment_covers s a then Some (load_bytes s ! (unat a - unat (load_address s)))
      else load_byte segments a)"

text \<open>A segment that shows a part of the text at its place.\<close>

definition shows_text :: "u32 \<Rightarrow> bytes \<Rightarrow> native_segment \<Rightarrow> bool" where
  "shows_text base code s \<longleftrightarrow>
     (\<exists>i n. load_address s = base + of_nat i \<and> i + n \<le> length code \<and> load_bytes s = take n (drop i code))"

definition covered_to :: "u32 \<Rightarrow> bytes \<Rightarrow> nat \<times> native_segment list \<Rightarrow> bool" where
  "covered_to base code st \<longleftrightarrow>
     fst st \<le> length code \<and> list_all (shows_text base code) (snd st) \<and>
     (\<forall>k < fst st. \<exists>s \<in> set (snd st). segment_covers s (base + of_nat k))"

lemma unat_place:
  "unat base + n \<le> 2 ^ 24 \<Longrightarrow> k \<le> n \<Longrightarrow> unat (base + of_nat k) = unat base + k" for base :: u32
  by (simp add: unat_word_ariths unsigned_of_nat take_bit_nat_eq_self)

lemma slice_of_eq_Inr: "slice_of bs i j = Inr x \<longleftrightarrow> i \<le> j \<and> j \<le> length bs \<and> x = take (j - i) (drop i bs)"
  by (auto simp: slice_of_def slice_def)

definition gap_at :: "u32 \<Rightarrow> nat \<Rightarrow> bytes \<Rightarrow> native_segment" where
  "gap_at base cursor bs =
     \<lparr>load_address = base + of_nat cursor, load_bytes = bs, load_writable = False, load_executable = False\<rparr>"

lemma gap_segment_InrD: "gap_segment base cursor bs = Inr s \<Longrightarrow> s = gap_at base cursor bs"
  by (auto simp: gap_segment_def gap_at_def)

lemma routine_segments_cover:
  assumes "routine_segments base code r st = Inr st'" and "covered_to base code st"
    and "unat base + length code \<le> 2 ^ 24"
  shows "covered_to base code st'"
proof -
  obtain cursor segments where st: "st = (cursor, segments)" by (cases st)
  let ?start = "unat (routine_offset r)" and ?size = "unat (routine_size r)"
  let ?gap = "if cursor < ?start then [gap_at base cursor (take (?start - cursor) (drop cursor code))] else []"
  let ?code = "\<lparr>load_address = base + routine_offset r, load_bytes = take ?size (drop ?start code),
      load_writable = False, load_executable = True\<rparr>"
  from assms(1) have st': "st' = (?start + ?size, segments @ ?gap @ [?code])" and fits: "?start + ?size \<le> length code"
    by (auto simp: routine_segments_def Let_def st slice_of_eq_Inr split: if_splits dest!: gap_segment_InrD)
  have routine: "base + routine_offset r = base + of_nat ?start" by simp
  have shown: "shows_text base code ?code"
    unfolding shows_text_def using fits by (intro exI [of _ ?start] exI [of _ ?size]) simp
  have gap: "list_all (shows_text base code) ?gap"
  proof (cases "cursor < ?start")
    case True
    then show ?thesis using fits
      by (simp add: shows_text_def gap_at_def) (rule exI [of _ cursor], simp, rule exI [of _ "?start - cursor"], simp)
  qed simp
  have cover: "\<exists>s \<in> set (snd st'). segment_covers s (base + of_nat k)" if k: "k < ?start + ?size" for k
  proof -
    have place: "unat (base + of_nat k) = unat base + k" "unat (base + routine_offset r) = unat base + ?start"
      using k fits unat_place [OF assms(3), of k] unat_place [OF assms(3), of ?start] by simp_all
    consider "k < cursor" | "cursor \<le> k" "k < ?start" | "?start \<le> k" by linarith
    then show ?thesis
    proof cases
      case 1
      then show ?thesis using assms(2) by (auto simp: covered_to_def st st')
    next
      case 2
      then have "unat (base + of_nat cursor) = unat base + cursor"
        using fits assms(3) unat_place [of base "length code"] by simp
      then have "segment_covers (gap_at base cursor (take (?start - cursor) (drop cursor code))) (base + of_nat k)"
        using 2 place(1) fits by (simp add: segment_covers_def gap_at_def min_def)
      then show ?thesis using 2 by (simp add: st')
    next
      case 3
      then have "segment_covers ?code (base + of_nat k)"
        using k place fits by (simp add: segment_covers_def min_def)
      then show ?thesis by (simp add: st')
    qed
  qed
  show ?thesis using fits shown gap cover assms(2) by (simp add: covered_to_def st st')
qed

lemma text_segments_cover:
  assumes "text_segments base code routines = Inr segments" and "unat base + length code \<le> 2 ^ 24"
  shows "covered_to base code (length code, segments)"
proof -
  from assms(1) obtain cursor before where
    loop: "for_each (routine_segments base code) (sort_key routine_offset routines) (0, []) = Inr (cursor, before)"
    and segments: "segments = (if cursor < length code then before @ [gap_at base cursor (drop cursor code)] else before)"
    by (auto simp: text_segments_def split: if_splits dest!: gap_segment_InrD)
  have cov: "covered_to base code (cursor, before)"
    by (rule for_each_invariant [OF loop]) (simp add: covered_to_def, erule (1) routine_segments_cover, rule assms(2))
  show ?thesis
  proof (cases "cursor < length code")
    case True
    let ?gap = "gap_at base cursor (drop cursor code)"
    have "shows_text base code ?gap" unfolding shows_text_def gap_at_def
      using True by (intro exI [of _ cursor] exI [of _ "length code - cursor"]) simp
    moreover have "segment_covers ?gap (base + of_nat k)" if "\<not> k < cursor" "k < length code" for k
      using that assms(2) unat_place [of base "length code"]
      by (simp add: segment_covers_def gap_at_def)
    ultimately show ?thesis using cov True segments by (auto simp: covered_to_def)
  next
    case False
    with cov segments show ?thesis by (simp add: covered_to_def)
  qed
qed

lemma load_byte_text:
  assumes "list_all (shows_text base code) segments" "\<exists>s \<in> set segments. segment_covers s (base + of_nat k)"
    and "unat base + length code \<le> 2 ^ 24" "k < length code"
  shows "load_byte (segments @ behind) (base + of_nat k) = Some (code ! k)"
  using assms(1,2)
proof (induction segments)
  case Nil
  then show ?case by simp
next
  case (Cons s segments)
  show ?case
  proof (cases "segment_covers s (base + of_nat k)")
    case True
    from Cons.prems(1) obtain i n where s: "load_address s = base + of_nat i" "i + n \<le> length code"
      "load_bytes s = take n (drop i code)" by (auto simp: shows_text_def)
    have "unat (base + of_nat k) = unat base + k" "unat (base + of_nat i) = unat base + i"
      using s(2) assms(3,4) unat_place [of base "length code"] by simp_all
    with True s have "i \<le> k" "k - i < n" by (auto simp: segment_covers_def)
    with s True \<open>unat (base + of_nat k) = unat base + k\<close> \<open>unat (base + of_nat i) = unat base + i\<close> show ?thesis
      by (simp add: nth_take)
  next
    case False
    with Cons show ?thesis by auto
  qed
qed

text \<open>Behind the text segments an address outside the text is looked up in what follows.\<close>

lemma load_byte_behind:
  assumes "list_all (shows_text base code) segments" "unat base + length code \<le> 2 ^ 24"
    and "unat a < unat base \<or> unat base + length code \<le> unat a"
  shows "load_byte (segments @ behind) a = load_byte behind a"
  using assms(1)
proof (induction segments)
  case Nil
  then show ?case by simp
next
  case (Cons s segments)
  from Cons.prems obtain i n where s: "load_address s = base + of_nat i" "i + n \<le> length code"
    "load_bytes s = take n (drop i code)" by (auto simp: shows_text_def)
  have "unat (base + of_nat i) = unat base + i"
    using s(2) assms(2) unat_place [of base "length code"] by simp
  then have "\<not> segment_covers s a" using s assms(3) by (auto simp: segment_covers_def)
  with Cons show ?case by simp
qed

section \<open>Patched values\<close>

text \<open>The first byte of an address that an encoding stores.\<close>

definition first_byte :: "o65_encoding \<Rightarrow> nat" where
  "first_byte e = (case e of HighByte \<Rightarrow> 1 | BankByte \<Rightarrow> 2 | _ \<Rightarrow> 0)"

lemma unat_and_masks:
  "unat (v AND 0xFF) = unat v mod 2 ^ 8" "unat (v AND 0xFFFF) = unat v mod 2 ^ 16"
  "unat (v AND 0xFFFFFF) = unat v mod 2 ^ 24" for v :: "'a::len word"
proof -
  have and_mask_unat: "unat (v AND mask n) = unat v mod 2 ^ n" for n
    unfolding take_bit_eq_mask [symmetric] unsigned_take_bit_eq by (rule take_bit_eq_mod)
  from and_mask_unat [of 8] and_mask_unat [of 16] and_mask_unat [of 24] show
    "unat (v AND 0xFF) = unat v mod 2 ^ 8" "unat (v AND 0xFFFF) = unat v mod 2 ^ 16"
    "unat (v AND 0xFFFFFF) = unat v mod 2 ^ 24"
    by (simp_all add: mask_eq_exp_minus_1)
qed

lemma nth_word_bytes4: "j < 4 \<Longrightarrow> word_bytes4 v ! j = nth_byte j v"
  by (auto simp: word_bytes4_def less_Suc_eq numeral_eq_Suc)

lemma truncated_sums:
  "(b + x mod 256) mod 256 = (b + x) mod (256 :: nat)"
  "((b + x mod 65536) div 256) mod 256 = ((b + x) div 256) mod (256 :: nat)"
proof -
  show "(b + x mod 256) mod 256 = (b + x) mod (256 :: nat)" by (simp add: mod_add_right_eq)
  have "(y div 256) mod 256 = (y mod 65536) div 256" for y :: nat
    using mod_mult2_eq [of y 256 256] by simp
  then show "((b + x mod 65536) div 256) mod 256 = ((b + x) div 256) mod (256 :: nat)"
    by (simp add: mod_add_right_eq)
qed

lemma unat_selected_bytes:
  "unat (selected_bytes e s) = (unat s div 256 ^ first_byte e) mod 256 ^ unat (o65_width e)"
  by (cases e) (simp_all add: selected_bytes_def first_byte_def unat_and_masks unat_drop_bit_eq
      drop_bit_eq_div [where 'a = nat])

lemma selected_byte:
  assumes "unat base + unat v < 2 ^ 24" "e \<noteq> WordField" "j < unat (o65_width e)"
  shows "word_bytes4 (ucast (selected_bytes e (ucast base + ucast (v AND encoding_mask e))) :: u32) ! j =
     nth_byte (first_byte e + j) (base + v)"
proof -
  let ?w = "v AND encoding_mask e" and ?sum = "ucast base + ucast (v AND encoding_mask e) :: u64"
  have w: "unat ?w = unat v mod 256" if "e = LowByte" using that by (simp add: encoding_mask_def unat_and_masks)
  have h: "unat ?w = unat v mod 65536" if "e = HighByte" using that by (simp add: encoding_mask_def unat_and_masks)
  have l: "unat ?w = unat v" if "e \<in> {BankByte, LongField}"
    using that assms(1) by (auto simp: encoding_mask_def unat_and_masks)
  have "unat ?w \<le> unat v" using w h l assms(2) by (cases e) simp_all
  then have sum: "unat ?sum = unat base + unat ?w"
    using assms(1) by (simp add: unat_word_ariths unsigned_ucast_eq take_bit_nat_eq_self)
  have total: "unat (base + v) = unat base + unat v"
    using assms(1) by (simp add: unat_word_ariths)
  have j: "j < 4" using assms(3) by (cases e) simp_all
  let ?sel = "selected_bytes e ?sum"
  have width: "256 ^ unat (o65_width e) \<le> (2 :: nat) ^ 24" by (cases e) simp_all
  have "unat ?sel < 256 ^ unat (o65_width e)" unfolding unat_selected_bytes by simp
  with width have "unat (ucast ?sel :: u32) = unat ?sel"
    by (simp add: unsigned_ucast_eq take_bit_nat_eq_self)
  then have left: "unat (word_bytes4 (ucast ?sel :: u32) ! j) =
      ((unat base + unat ?w) div 256 ^ first_byte e) mod 256 ^ unat (o65_width e) div 256 ^ j mod 256"
    by (simp add: nth_word_bytes4 [OF j] unat_nth_byte unat_selected_bytes sum)
  have right: "unat (nth_byte (first_byte e + j) (base + v)) =
      (unat base + unat v) div 256 ^ first_byte e div 256 ^ j mod 256"
    by (simp add: unat_nth_byte total power_add div_mult2_eq)
  have "(unat base + unat ?w) div 256 ^ first_byte e mod 256 ^ unat (o65_width e) div 256 ^ j mod 256 =
      (unat base + unat v) div 256 ^ first_byte e div 256 ^ j mod 256"
  proof (cases e)
    case LowByte
    with assms(3) w truncated_sums(1) show ?thesis by (simp add: first_byte_def)
  next
    case HighByte
    with assms(3) h truncated_sums(2) show ?thesis by (simp add: first_byte_def)
  next
    case WordField
    with assms(2) show ?thesis by simp
  next
    case BankByte
    with assms(3) l show ?thesis by (simp add: first_byte_def)
  next
    case LongField
    with assms(1) l show ?thesis by (simp add: first_byte_def)
  qed
  then show ?thesis using left right by (simp add: word_unat_eq_iff)
qed

section \<open>The steps of a successful relocation\<close>

lemma relocate_facts:
  assumes "relocate bs placement = Inr img"
  shows "\<exists>f p allowed reserved qs patches code stored segments.
     application bs = Inr (f, p) \<and>
     range_index_new (placement_allowed placement) = Inr allowed \<and>
     range_index_new (placement_reserved placement) = Inr reserved \<and>
     (\<forall>i < 3. section_placed f p placement allowed reserved i) \<and>
     list_all2 (import_bound placement reserved) (profile_imports p) qs \<and>
     apart (filter (\<lambda>r. region_size r \<noteq> 0) (map (section_region f placement) [0..<3]) @ map provider_region qs) \<and>
     map_result (make_patch placement (map provider_address qs)) (zip (profile_relocations p) (file_relocations f)) = Inr patches \<and>
     for_each apply_patch patches (file_text f, file_data f) = Inr (code, stored) \<and>
     text_segments (placement_bases placement ! 0) code (profile_routines p) = Inr segments \<and>
     image_segments img = segments @ (if stored = [] then []
       else [\<lparr>load_address = placement_bases placement ! 1, load_bytes = stored, load_writable = True,
              load_executable = False\<rparr>]) \<and>
     image_bases img = placement_bases placement \<and> image_profile img = p"
proof -
  from assms obtain f p allowed reserved allocations providers allocations' addresses patches code stored segments
    fault overflow where
    steps: "application bs = Inr (f, p)" "range_index_new (placement_allowed placement) = Inr allowed"
      "range_index_new (placement_reserved placement) = Inr reserved"
    and place: "for_each (place_o65_section f p placement allowed reserved) [0..<3] [] = Inr allocations"
    and providers: "for_each add_provider (placement_providers placement) (\<lambda>_. None) = Inr providers"
    and binds: "for_each (bind_import providers reserved) (profile_imports p) (allocations, []) = Inr (allocations', addresses)"
    and apart: "disjoint allocations' = Inr ()"
    and patches: "map_result (make_patch placement addresses) (zip (profile_relocations p) (file_relocations f)) = Inr patches"
    and apply_all: "for_each apply_patch patches (file_text f, file_data f) = Inr (code, stored)"
    and segments: "text_segments (placement_bases placement ! 0) code (profile_routines p) = Inr segments"
    and img: "image_segments img = segments @ (if stored = [] then []
       else [\<lparr>load_address = placement_bases placement ! 1, load_bytes = stored, load_writable = True,
              load_executable = False\<rparr>])" "image_bases img = placement_bases placement" "image_profile img = p"
    unfolding relocate_def Let_def result_steps by (elim exE conjE) (auto split: if_splits)
  have found: "\<forall>i \<in> set (profile_imports p). providers (import_name i) = provider_of placement i"
    using add_providers [OF providers] by (simp add: provider_of_def split: option.splits)
  from bind_imports [OF binds found] obtain qs where
    qs: "list_all2 (import_bound placement reserved) (profile_imports p) qs"
    "allocations' = allocations @ map provider_region qs" "addresses = map provider_address qs" by auto
  have placed: "\<forall>i < 3. section_placed f p placement allowed reserved i"
    and allocations: "allocations = filter (\<lambda>r. region_size r \<noteq> 0) (map (section_region f placement) [0..<3])"
    using place_all_sections [OF place] by simp_all
  from apart have "apart (filter (\<lambda>r. region_size r \<noteq> 0) (map (section_region f placement) [0..<3]) @ map provider_region qs)"
    unfolding disjoint_apart qs(2) allocations .
  then show ?thesis using steps placed qs patches apply_all segments img by blast
qed

lemma make_patch_checked:
  assumes "make_patch placement addresses (proof', wire) = Inr q" and "site_checked f p start (proof', wire)"
  shows "\<exists>base. reference_base placement addresses (site_target proof') = Inr base \<and>
     unat base + unat (site_value proof') < 2 ^ 24 \<and>
     q = (site_section proof', site_offset proof', o65_width (site_encoding proof'),
          ucast (selected_bytes (site_encoding proof')
            (ucast base + ucast (site_value proof' AND encoding_mask (site_encoding proof')))))"
proof -
  note same = site_checkedD(3-7) [OF assms(2)]
  from assms(1) obtain base v where base: "reference_base placement addresses (site_target proof') = Inr base"
    and v: "checked_add32 base (site_value proof') = Some v" "v < limit24"
    and q: "q = (site_section proof', site_offset proof', o65_width (site_encoding proof'),
          ucast (selected_bytes (site_encoding proof')
            (ucast base + ucast (site_value proof' AND encoding_mask (site_encoding proof')))))"
    by (auto simp: make_patch_def Let_def same split: option.splits if_splits)
  have "unat base + unat (site_value proof') < 2 ^ 24"
    using checked_add32_SomeD [OF v(1)] v(2) by (simp add: word_less_nat_alt limit24_def)
  with base q show ?thesis by blast
qed

text \<open>Patches that follow the sites they are made for are in order as the sites are.\<close>

lemma patches_in_front:
  assumes order: "sorted_wrt in_front rs" and len: "length patches = length rs"
    and shape: "\<And>k. k < length rs \<Longrightarrow> fst (patches ! k) = site_section (rs ! k) \<and>
      site_section (rs ! k) \<noteq> BssSection \<and> patch_start (patches ! k) = unat (site_offset (rs ! k)) \<and>
      patch_stop (patches ! k) \<le> site_stop (rs ! k)"
  shows "sorted_wrt patch_in_front patches"
  unfolding sorted_wrt_iff_nth_less
proof (intro allI impI)
  fix i j assume ij: "i < j" "j < length patches"
  then have front: "in_front (rs ! i) (rs ! j)"
    using order len by (simp add: sorted_wrt_iff_nth_less)
  have i: "i < length rs" and j: "j < length rs" using ij len by simp_all
  show "patch_in_front (patches ! i) (patches ! j)"
    unfolding patch_in_front_def
  proof
    assume "(fst (patches ! i) = TextSection) = (fst (patches ! j) = TextSection)"
    then have "site_section (rs ! i) = site_section (rs ! j)"
      using shape [OF i] shape [OF j]
      by (cases "site_section (rs ! i)"; cases "site_section (rs ! j)"; simp)
    with front have "site_stop (rs ! i) \<le> unat (site_offset (rs ! j))" by (simp add: in_front_def)
    with shape [OF i] shape [OF j] show "patch_stop (patches ! i) \<le> patch_start (patches ! j)"
      by linarith
  qed
qed

text \<open>All patches of an application, against its relocations.\<close>

lemma application_patches:
  assumes "application bs = Inr (f, p)"
    and "map_result (make_patch placement addresses) (zip (profile_relocations p) (file_relocations f)) = Inr patches"
  shows "length patches = length (profile_relocations p) \<and> sorted_wrt patch_in_front patches \<and>
     (\<forall>q \<in> set patches. patch_fits q (file_text f, file_data f)) \<and>
     (\<forall>k < length patches. \<exists>base. let r = profile_relocations p ! k in
        reference_base placement addresses (site_target r) = Inr base \<and>
        unat base + unat (site_value r) < 2 ^ 24 \<and>
        patches ! k = (site_section r, site_offset r, o65_width (site_encoding r),
          ucast (selected_bytes (site_encoding r)
            (ucast base + ucast (site_value r AND encoding_mask (site_encoding r))))))"
proof -
  from application_facts [OF assms(1)] obtain start where
    sizes: "unat start \<le> length (file_text f)" "unat (file_lengths f ! 1) = length (file_data f)"
    and count: "length (profile_relocations p) = length (file_relocations f)"
    and checked: "\<forall>pair \<in> set (zip (profile_relocations p) (file_relocations f)). site_checked f p start pair"
    and order: "sorted_wrt in_front (profile_relocations p)" by blast
  let ?rs = "profile_relocations p"
  have len: "length patches = length ?rs" using map_result_nth(1) [OF assms(2)] count by simp
  have checked': "site_checked f p start (?rs ! k, file_relocations f ! k)" if k: "k < length ?rs" for k
    using checked k count by (metis in_set_conv_nth length_zip min.idem nth_zip)
  have step: "\<exists>base. reference_base placement addresses (site_target (?rs ! k)) = Inr base \<and>
     unat base + unat (site_value (?rs ! k)) < 2 ^ 24 \<and>
     patches ! k = (site_section (?rs ! k), site_offset (?rs ! k), o65_width (site_encoding (?rs ! k)),
          ucast (selected_bytes (site_encoding (?rs ! k))
            (ucast base + ucast (site_value (?rs ! k) AND encoding_mask (site_encoding (?rs ! k))))))"
    if k: "k < length ?rs" for k
    by (rule make_patch_checked [OF _ checked' [OF k]])
      (use map_result_nth(2) [OF assms(2), of k] k count in simp)
  have shape: "fst (patches ! k) = site_section (?rs ! k)" "patch_start (patches ! k) = unat (site_offset (?rs ! k))"
    "patch_stop (patches ! k) \<le> site_stop (?rs ! k)" "unat (fst (snd (snd (patches ! k)))) \<le> 4"
    if k: "k < length ?rs" for k
  proof -
    have w: "unat (o65_width e) \<le> 4" for e by (cases e) simp_all
    from step [OF k] show "fst (patches ! k) = site_section (?rs ! k)"
      "patch_start (patches ! k) = unat (site_offset (?rs ! k))"
      "patch_stop (patches ! k) \<le> site_stop (?rs ! k)" "unat (fst (snd (snd (patches ! k)))) \<le> 4"
      by (auto simp: patch_start_def patch_stop_def site_stop_def w)
  qed
  have bss: "site_section (?rs ! k) \<noteq> BssSection" if "k < length ?rs" for k
    by (rule site_checkedD(1) [OF checked' [OF that]])
  have "patch_fits (patches ! k) (file_text f, file_data f)" if k: "k < length ?rs" for k
  proof -
    have "site_stop (?rs ! k) < 2 ^ 32" "site_stop (?rs ! k) \<le> payload_bound f start (site_section (?rs ! k))"
      by (rule site_checkedD(8,9) [OF checked' [OF k]])+
    then have "patch_stop (patches ! k) < 2 ^ 32"
      "patch_stop (patches ! k) \<le> payload_bound f start (site_section (?rs ! k))"
      using shape(3) [OF k] by linarith+
    then show ?thesis using shape(1,4) [OF k] sizes
      by (auto simp: patch_fits_def patch_section_def payload_bound_def split: if_splits)
  qed
  then have fits: "\<forall>q \<in> set patches. patch_fits q (file_text f, file_data f)"
    using len by (metis in_set_conv_nth)
  have "sorted_wrt patch_in_front patches"
    by (rule patches_in_front [OF order len]) (use shape bss in blast)
  with len fits step show ?thesis by (simp add: Let_def)
qed

section \<open>Loaded memory\<close>

lemma regions_apart:
  assumes "apart (filter (\<lambda>r. region_size r \<noteq> 0) (map (section_region f placement) [0..<3]) @ rs)"
  shows "\<not> o65_overlaps (section_region f placement 0) (section_region f placement 1)"
  using assms by (auto simp: upt_rec numeral_eq_Suc apart_Cons o65_overlaps_def split: if_splits)

lemma unat_less_uint: "uint a < uint b + uint c \<longleftrightarrow> unat a < unat b + unat c" for a b c :: u32
  by (simp only: uint_nat of_nat_add [symmetric] of_nat_less_iff)

text \<open>The loaded image shows the text at its base and the data at its base.\<close>

lemma loaded_image_section:
  assumes segments: "covered_to (placement_bases placement ! 0) code (length code, segments)"
    and lengths: "unat (file_lengths f ! 0) = length code" "unat (file_lengths f ! 1) = length stored"
    and placed: "region_fits (section_region f placement 0)" "region_fits (section_region f placement 1)"
    and apart: "\<not> o65_overlaps (section_region f placement 0) (section_region f placement 1)"
    and img: "image_segments img = segments @ (if stored = [] then []
       else [\<lparr>load_address = placement_bases placement ! 1, load_bytes = stored, load_writable = True,
              load_executable = False\<rparr>])" "image_bases img = placement_bases placement"
    and s: "s \<noteq> BssSection" and k: "unat a < length (if s = TextSection then code else stored)"
  shows "image_location img \<lparr>location_section = Some s, location_offset = a\<rparr> =
       Inr (placement_bases placement ! section_index s + a) \<and>
     load_byte (image_segments img) (placement_bases placement ! section_index s + a) =
       Some ((if s = TextSection then code else stored) ! unat a)"
proof (cases "s = TextSection")
  case True
  have fits: "unat (placement_bases placement ! 0) + length code \<le> 2 ^ 24"
    using placed(1) lengths(1) by (simp add: region_fits_def section_region_def)
  have "image_location img \<lparr>location_section = Some s, location_offset = a\<rparr> =
      Inr (placement_bases placement ! 0 + of_nat (unat a))"
    using True img(2) fits k by (simp add: image_location_def ac_simps)
  moreover have "load_byte (image_segments img) (placement_bases placement ! 0 + of_nat (unat a)) = Some (code ! unat a)"
    unfolding img(1)
  proof (rule load_byte_text)
    show "list_all (shows_text (placement_bases placement ! 0) code) segments"
      using segments by (simp add: covered_to_def)
    have "unat a < length code" using k True by simp
    with segments show "\<exists>s \<in> set segments. segment_covers s (placement_bases placement ! 0 + of_nat (unat a))"
      unfolding covered_to_def fst_conv snd_conv by blast
  qed (use fits k True in simp_all)
  ultimately show ?thesis using True by simp
next
  case False
  with s have data: "s = DataSection" by (cases s) simp_all
  let ?base = "placement_bases placement ! 1" and ?text = "placement_bases placement ! 0"
  have fits: "unat ?base + length stored \<le> 2 ^ 24" "unat ?text + length code \<le> 2 ^ 24"
    using placed lengths by (simp_all add: region_fits_def section_region_def)
  have k': "unat a < length stored" using k False by simp
  have loc: "image_location img \<lparr>location_section = Some s, location_offset = a\<rparr> = Inr (?base + of_nat (unat a))"
    using data img(2) fits(1) k' by (simp add: image_location_def ac_simps)
  have place: "unat (?base + of_nat (unat a)) = unat ?base + unat a"
    using unat_place [OF fits(1), of "unat a"] k' by simp
  have "region_size (section_region f placement 1) \<noteq> 0"
    using k' lengths(2) by (auto simp: section_region_def)
  moreover have "region_size (section_region f placement 0) = 0 \<longleftrightarrow> length code = 0"
    using lengths(1) by (auto simp: section_region_def unat_eq_zero)
  ultimately have outside: "length code = 0 \<or> unat ?text + length code \<le> unat ?base \<or> unat ?base + length stored \<le> unat ?text"
    using apart lengths by (auto simp: o65_overlaps_def unat_less_uint section_region_def not_less)
  have "load_byte (image_segments img) (?base + of_nat (unat a)) =
      load_byte [\<lparr>load_address = ?base, load_bytes = stored, load_writable = True, load_executable = False\<rparr>]
        (?base + of_nat (unat a))"
    unfolding img(1) using segments fits(2) outside k' place
    by (subst load_byte_behind [of ?text code]) (auto simp: covered_to_def)
  also have "\<dots> = Some (stored ! unat a)"
    using k' place by (simp add: segment_covers_def)
  finally show ?thesis using loc data by simp
qed

definition target_address :: "o65_placement \<Rightarrow> o65_profile \<Rightarrow> o65_relocation \<Rightarrow> u32" where
  "target_address placement p r =
     (case site_target r of
        SectionRef s \<Rightarrow> placement_bases placement ! section_index s + site_value r
      | ImportRef i \<Rightarrow> provider_address (the (provider_of placement (profile_imports p ! unat i))))"

text \<open>Byte \<open>j\<close> of a site, at the address that the image gives for its location.\<close>

definition load_location :: "relocated_image \<Rightarrow> o65_location \<Rightarrow> u8 option" where
  "load_location img l =
     (case image_location img l of Inl _ \<Rightarrow> None | Inr a \<Rightarrow> load_byte (image_segments img) a)"

definition site_byte :: "relocated_image \<Rightarrow> o65_relocation \<Rightarrow> nat \<Rightarrow> u8 option" where
  "site_byte img r j =
     load_location img \<lparr>location_section = Some (site_section r), location_offset = site_offset r + of_nat j\<rparr>"

text \<open>The final payload bytes of a site, and the byte behind an address container.\<close>

lemma site_patched:
  assumes app: "application bs = Inr (f, p)"
    and patches: "map_result (make_patch placement addresses) (zip (profile_relocations p) (file_relocations f)) = Inr patches"
    and applied: "for_each apply_patch patches (file_text f, file_data f) = Inr (code, stored)"
    and k: "k < length (profile_relocations p)"
  shows "length code = length (file_text f) \<and> length stored = length (file_data f) \<and>
     (let r = profile_relocations p ! k; payload = if site_section r = TextSection then code else stored in
      site_section r \<noteq> BssSection \<and> site_stop r < 2 ^ 32 \<and> site_stop r \<le> length payload \<and>
      (\<exists>base. reference_base placement addresses (site_target r) = Inr base \<and>
         (\<forall>j < unat (o65_width (site_encoding r)).
            payload ! (unat (site_offset r) + j) = nth_byte (first_byte (site_encoding r) + j) (base + site_value r))) \<and>
      (zero_extend r \<longrightarrow> site_encoding r = LongField \<and> payload ! (unat (site_offset r) + 3) = 0))"
proof -
  let ?rs = "profile_relocations p" let ?r = "?rs ! k" and ?q = "patches ! k"
  let ?payload = "if site_section ?r = TextSection then code else stored"
  from application_facts [OF app] obtain start where
    sizes: "unat start \<le> length (file_text f)" "unat (file_lengths f ! 1) = length (file_data f)"
    and count: "length ?rs = length (file_relocations f)"
    and checked: "\<forall>pair \<in> set (zip ?rs (file_relocations f)). site_checked f p start pair"
    and order: "sorted_wrt in_front ?rs" by blast
  note facts = application_patches [OF app patches]
  from facts apply_patches [of patches "(file_text f, file_data f)"] applied have
    kept: "length code = length (file_text f)" "length stored = length (file_data f)"
    and fields: "\<forall>q \<in> set patches. \<forall>j < patch_stop q - patch_start q.
        patch_section q (code, stored) ! (patch_start q + j) = patch_field q ! j"
    and frame: "\<And>k. k < length (file_text f) \<Longrightarrow>
        (\<forall>q \<in> set patches. fst q = TextSection \<longrightarrow> k < patch_start q \<or> patch_stop q \<le> k) \<Longrightarrow> code ! k = file_text f ! k"
      "\<And>k. k < length (file_data f) \<Longrightarrow>
        (\<forall>q \<in> set patches. fst q \<noteq> TextSection \<longrightarrow> k < patch_start q \<or> patch_stop q \<le> k) \<Longrightarrow> stored ! k = file_data f ! k"
    by auto
  have check_k: "site_checked f p start (?rs ! i, file_relocations f ! i)" if i: "i < length ?rs" for i
    using checked i count by (metis in_set_conv_nth length_zip min.idem nth_zip)
  note check = site_checkedD [OF check_k [OF k]]
  have len: "length patches = length ?rs" using facts by blast
  have shape: "\<exists>base. reference_base placement addresses (site_target (?rs ! i)) = Inr base \<and>
      unat base + unat (site_value (?rs ! i)) < 2 ^ 24 \<and>
      patches ! i = (site_section (?rs ! i), site_offset (?rs ! i), o65_width (site_encoding (?rs ! i)),
        ucast (selected_bytes (site_encoding (?rs ! i))
          (ucast base + ucast (site_value (?rs ! i) AND encoding_mask (site_encoding (?rs ! i))))))"
    if "i < length ?rs" for i
    using facts that len by (auto simp: Let_def)
  have bound: "site_stop ?r \<le> length ?payload"
    using check(9) sizes kept by (auto simp: payload_bound_def split: if_splits)
  from shape [OF k] obtain base where base: "reference_base placement addresses (site_target ?r) = Inr base"
    "unat base + unat (site_value ?r) < 2 ^ 24"
    and q: "?q = (site_section ?r, site_offset ?r, o65_width (site_encoding ?r),
      ucast (selected_bytes (site_encoding ?r) (ucast base + ucast (site_value ?r AND encoding_mask (site_encoding ?r)))))"
    by blast
  have field: "?payload ! (unat (site_offset ?r) + j) = nth_byte (first_byte (site_encoding ?r) + j) (base + site_value ?r)"
    if j: "j < unat (o65_width (site_encoding ?r))" for j
  proof -
    have "?q \<in> set patches" using k len by simp
    moreover have "j < patch_stop ?q - patch_start ?q" using j by (simp add: q patch_stop_def patch_start_def)
    ultimately have "patch_section ?q (code, stored) ! (patch_start ?q + j) = patch_field ?q ! j" using fields by blast
    then show ?thesis using selected_byte [OF base(2) check(2) j] j
      by (cases "site_section ?r = TextSection")
        (simp_all add: q patch_section_def patch_start_def patch_field_def)
  qed
  have "?payload ! (unat (site_offset ?r) + 3) = 0" if z: "zero_extend ?r"
  proof -
    let ?at = "unat (site_offset ?r) + 3"
    have stop: "site_stop ?r = ?at + 1" using z check(10) by (simp add: site_stop_def)
    have away: "?at < patch_start (patches ! i) \<or> patch_stop (patches ! i) \<le> ?at"
      if i: "i < length ?rs" "site_section (?rs ! i) = site_section ?r" for i
    proof -
      have qi: "patch_start (patches ! i) = unat (site_offset (?rs ! i))"
        "patch_stop (patches ! i) = unat (site_offset (?rs ! i)) + unat (o65_width (site_encoding (?rs ! i)))"
        using shape [OF i(1)] by (auto simp: patch_start_def patch_stop_def)
      consider "i < k" | "i = k" | "k < i" by linarith
      then show ?thesis
      proof cases
        case 1
        then have "in_front (?rs ! i) ?r" using order k by (simp add: sorted_wrt_iff_nth_less)
        with i(2) have "site_stop (?rs ! i) \<le> unat (site_offset ?r)" by (simp add: in_front_def)
        then show ?thesis by (simp add: qi site_stop_def)
      next
        case 2
        with qi(2) show ?thesis using z check(10) by simp
      next
        case 3
        then have "in_front ?r (?rs ! i)" using order i(1) by (simp add: sorted_wrt_iff_nth_less)
        with i(2) stop show ?thesis by (simp add: qi in_front_def)
      qed
    qed
    have sect: "fst (patches ! i) = site_section (?rs ! i)" "site_section (?rs ! i) \<noteq> BssSection"
      if "i < length ?rs" for i
      using shape [OF that] site_checkedD(1) [OF check_k [OF that]] by auto
    have "?at < length ?payload" using bound stop by simp
    moreover have zero: "payload_of f (site_section ?r) ! ?at = 0" by (rule check(11) [OF z])
    ultimately show ?thesis
    proof (cases "site_section ?r = TextSection")
      case True
      have "code ! ?at = file_text f ! ?at"
      proof (rule frame(1))
        show "?at < length (file_text f)" using \<open>?at < length ?payload\<close> True kept by simp
        show "\<forall>x \<in> set patches. fst x = TextSection \<longrightarrow> ?at < patch_start x \<or> patch_stop x \<le> ?at"
        proof (intro ballI impI)
          fix x assume x: "x \<in> set patches" "fst x = TextSection"
          then obtain i where i: "i < length ?rs" "patches ! i = x" using len by (auto simp: in_set_conv_nth)
          with sect(1) [OF i(1)] x(2) True have "site_section (?rs ! i) = site_section ?r" by simp
          with away [OF i(1)] i(2) show "?at < patch_start x \<or> patch_stop x \<le> ?at" by blast
        qed
      qed
      with zero True show ?thesis by (simp add: payload_of_def)
    next
      case False
      have "stored ! ?at = file_data f ! ?at"
      proof (rule frame(2))
        show "?at < length (file_data f)" using \<open>?at < length ?payload\<close> False kept by simp
        show "\<forall>x \<in> set patches. fst x \<noteq> TextSection \<longrightarrow> ?at < patch_start x \<or> patch_stop x \<le> ?at"
        proof (intro ballI impI)
          fix x assume x: "x \<in> set patches" "fst x \<noteq> TextSection"
          then obtain i where i: "i < length ?rs" "patches ! i = x" using len by (auto simp: in_set_conv_nth)
          have "site_section (?rs ! i) = site_section ?r"
            using sect [OF i(1)] x(2) i(2) False check(1)
            by (cases "site_section (?rs ! i)"; cases "site_section ?r"; simp)
          with away [OF i(1)] i(2) show "?at < patch_start x \<or> patch_stop x \<le> ?at" by blast
        qed
      qed
      with zero False show ?thesis by (simp add: payload_of_def)
    qed
  qed
  with kept check(1,8,10) bound base(1) field show ?thesis by (auto simp: Let_def)
qed

text \<open>C27: In a relocated image every site that the profile lists holds, at the addresses where it is
  loaded, the bytes of the final 24-bit address of its target that its encoding selects (low, high,
  bank byte or the whole): the base of the target's section plus the offset of the reference, or the
  address of the provider bound to the import by name. The padding byte of an address container is 0.
  This is so although the loader adds the base to the truncated value of the file only.
\<close>

theorem relocated_sites_hold_addresses:
  assumes "relocate bs placement = Inr img" and "r \<in> set (profile_relocations (image_profile img))"
  shows "(\<forall>j < unat (o65_width (site_encoding r)).
      site_byte img r j =
      Some (nth_byte (first_byte (site_encoding r) + j) (target_address placement (image_profile img) r))) \<and>
    (zero_extend r \<longrightarrow> site_byte img r 3 = Some 0)"
proof -
  let ?p = "image_profile img"
  from relocate_facts [OF assms(1)] obtain f allowed reserved qs patches code stored segments where
    app: "application bs = Inr (f, ?p)"
    and placed: "\<forall>i < 3. section_placed f ?p placement allowed reserved i"
    and qs: "list_all2 (import_bound placement reserved) (profile_imports ?p) qs"
    and apart: "apart (filter (\<lambda>r. region_size r \<noteq> 0) (map (section_region f placement) [0..<3]) @ map provider_region qs)"
    and patches: "map_result (make_patch placement (map provider_address qs)) (zip (profile_relocations ?p) (file_relocations f)) = Inr patches"
    and applied: "for_each apply_patch patches (file_text f, file_data f) = Inr (code, stored)"
    and segments: "text_segments (placement_bases placement ! 0) code (profile_routines ?p) = Inr segments"
    and img: "image_segments img = segments @ (if stored = [] then []
       else [\<lparr>load_address = placement_bases placement ! 1, load_bytes = stored, load_writable = True,
              load_executable = False\<rparr>])" "image_bases img = placement_bases placement"
    by blast
  from assms(2) obtain k where k: "k < length (profile_relocations ?p)" "profile_relocations ?p ! k = r"
    by (auto simp: in_set_conv_nth)
  let ?payload = "if site_section r = TextSection then code else stored"
  from site_patched [OF app patches applied k(1)] k(2) obtain base where
    kept: "length code = length (file_text f)" "length stored = length (file_data f)"
    and site: "site_section r \<noteq> BssSection" "site_stop r < 2 ^ 32" "site_stop r \<le> length ?payload"
    and base: "reference_base placement (map provider_address qs) (site_target r) = Inr base"
    and bytes: "\<forall>j < unat (o65_width (site_encoding r)).
        ?payload ! (unat (site_offset r) + j) = nth_byte (first_byte (site_encoding r) + j) (base + site_value r)"
    and padding: "zero_extend r \<longrightarrow> site_encoding r = LongField \<and> ?payload ! (unat (site_offset r) + 3) = 0"
    by (auto simp: Let_def)
  from application_facts [OF app] have
    sizes: "unat (file_lengths f ! 0) = length code" "unat (file_lengths f ! 1) = length stored"
    and relevant: "\<exists>start. \<forall>pair \<in> set (zip (profile_relocations ?p) (file_relocations f)). site_checked f ?p start pair"
    and count: "length (profile_relocations ?p) = length (file_relocations f)"
    using kept by auto
  have fits: "region_fits (section_region f placement 0)" "region_fits (section_region f placement 1)"
    using placed by (simp_all add: section_placed_def Let_def)
  have "covered_to (placement_bases placement ! 0) code (length code, segments)"
    by (rule text_segments_cover [OF segments]) (use fits(1) sizes in \<open>simp add: region_fits_def section_region_def\<close>)
  note load = loaded_image_section [OF this sizes fits regions_apart [OF apart] img site(1)]
  have at: "site_byte img r j = Some (?payload ! (unat (site_offset r) + j))"
    if j: "unat (site_offset r) + j < site_stop r" for j
  proof -
    have "unat (site_offset r + of_nat j) = unat (site_offset r) + j"
      using j site(2) by (simp add: unat_word_ariths unsigned_of_nat take_bit_nat_eq_self)
    with load [of "site_offset r + of_nat j"] j site(3) show ?thesis by (simp add: site_byte_def load_location_def)
  qed
  have target: "base + site_value r = target_address placement ?p r"
  proof (cases "site_target r")
    case (SectionRef s)
    with base show ?thesis by (simp add: reference_base_def target_address_def)
  next
    case (ImportRef i)
    with base have i: "unat i < length qs" "base = provider_address (qs ! unat i)"
      by (auto simp: reference_base_def split: if_splits)
    have "provider_of placement (profile_imports ?p ! unat i) = Some (qs ! unat i)"
      using qs i(1) by (simp add: list_all2_conv_all_nth import_bound_def)
    moreover have "site_value r = 0"
    proof -
      from relevant k count obtain start where "site_checked f ?p start (r, file_relocations f ! k)"
        by (metis in_set_conv_nth length_zip min.idem nth_zip)
      from site_checkedD(12) [OF this ImportRef] show ?thesis by blast
    qed
    ultimately show ?thesis using ImportRef i by (simp add: target_address_def)
  qed
  show ?thesis using bytes at padding target by (auto simp: site_stop_def)
qed

text \<open>C29: A relocation respects the platform. The nonempty sections lie above the first bank, inside a
  region that the platform allows and outside every reserved one; every import is bound to the provider
  of its name, with the same contract and outside reserved memory; and no two of the sections and
  providers share a byte.
\<close>

theorem relocation_respects_placement:
  assumes "relocate bs placement = Inr img"
  shows "\<exists>f qs. application bs = Inr (f, image_profile img) \<and>
     list_all (\<lambda>r. 65536 \<le> region_address r \<and> list_ex (region_within r) (placement_allowed placement) \<and>
         \<not> list_ex (\<lambda>q. o65_overlaps q r) (placement_reserved placement))
       (filter (\<lambda>r. region_size r \<noteq> 0) (map (section_region f placement) [0..<3])) \<and>
     list_all2 (\<lambda>i q. provider_of placement i = Some q \<and> provider_contract q = import_contract i \<and>
         \<not> list_ex (\<lambda>r. o65_overlaps r (provider_region q)) (placement_reserved placement))
       (profile_imports (image_profile img)) qs \<and>
     apart (filter (\<lambda>r. region_size r \<noteq> 0) (map (section_region f placement) [0..<3]) @ map provider_region qs)"
proof -
  from relocate_facts [OF assms] obtain f allowed reserved qs where
    app: "application bs = Inr (f, image_profile img)"
    and allowed: "range_index_new (placement_allowed placement) = Inr allowed"
    and reserved: "range_index_new (placement_reserved placement) = Inr reserved"
    and placed: "\<forall>i < 3. section_placed f (image_profile img) placement allowed reserved i"
    and qs: "list_all2 (import_bound placement reserved) (profile_imports (image_profile img)) qs"
    and apart: "apart (filter (\<lambda>r. region_size r \<noteq> 0) (map (section_region f placement) [0..<3]) @ map provider_region qs)"
    by blast
  have within: "index_contains allowed r \<longleftrightarrow> list_ex (region_within r) (placement_allowed placement)" for r
    using range_index_answers [OF allowed, of r] by (simp add: list_ex_iff region_within_def)
  have overlaps: "index_overlaps reserved r \<longleftrightarrow> list_ex (\<lambda>q. o65_overlaps q r) (placement_reserved placement)" for r
    using range_index_answers [OF reserved, of r] by (simp add: list_ex_iff)
  have "65536 \<le> region_address r \<and> list_ex (region_within r) (placement_allowed placement) \<and>
         \<not> list_ex (\<lambda>q. o65_overlaps q r) (placement_reserved placement)"
    if r: "r \<in> set (filter (\<lambda>r. region_size r \<noteq> 0) (map (section_region f placement) [0..<3]))" for r
  proof -
    from r obtain i where "i < 3" "r = section_region f placement i" "region_size r \<noteq> 0" by auto
    with placed show ?thesis by (auto simp: section_placed_def Let_def within overlaps)
  qed
  moreover have "list_all2 (\<lambda>i q. provider_of placement i = Some q \<and> provider_contract q = import_contract i \<and>
         \<not> list_ex (\<lambda>r. o65_overlaps r (provider_region q)) (placement_reserved placement))
       (profile_imports (image_profile img)) qs"
    using qs by (rule list_all2_mono) (simp add: import_bound_def overlaps)
  ultimately show ?thesis using app apart by (intro exI [of _ f] exI [of _ qs]) (simp add: list_all_iff)
qed

end
