(* ===== verification/O65_Panic_Free.thy ===== *)
theory O65_Panic_Free
  imports O65_Relocate_Correct
begin

text \<open>
  The o65 loader never panics: every index and slice of \<open>src/src/mir65816/o65/read.rs\<close> and
  \<open>src/src/mir65816/o65/relocate.rs\<close> that the code does not test itself is in range, and no \<open>u32\<close> sum
  overflows, whatever the input.
  The rules of the collection \<open>no_panic\<close> follow the shape of a computation; only the places that the
  model marks as panics need an argument.
\<close>

named_theorems no_panic \<open>computations that end in a value or an error message\<close>

definition returns :: "o65_error + 'a \<Rightarrow> bool" where
  "returns r \<longleftrightarrow> r \<noteq> Inl O65Panic"

lemma returns_Inr [no_panic]: "returns (Inr x)"
  by (simp add: returns_def)

lemma returns_Message [no_panic]: "returns (Inl (Message m))"
  by (simp add: returns_def)

lemma returns_check [no_panic]: "returns (check b (Message m))"
  by (cases b) (simp_all add: returns_def)

lemma returns_ok_or [no_panic]: "returns (ok_or (Message m) v)"
  by (cases v) (simp_all add: returns_def)

lemma returns_bind [no_panic]:
  "returns r \<Longrightarrow> (\<And>x. r = Inr x \<Longrightarrow> returns (f x)) \<Longrightarrow> returns (bind_result r f)"
  by (cases r) (simp_all add: returns_def)

lemma returns_add_u32: "unat a + unat b < 2 ^ 32 \<Longrightarrow> returns (add_u32 a b)"
  by (simp add: add_u32_fits returns_def)

lemma returns_if [no_panic]:
  "(b \<Longrightarrow> returns r) \<Longrightarrow> (\<not> b \<Longrightarrow> returns s) \<Longrightarrow> returns (if b then r else s)"
  by simp

lemma returns_prod [no_panic]:
  "(\<And>a b. x = (a, b) \<Longrightarrow> returns (f a b)) \<Longrightarrow> returns (case x of (a, b) \<Rightarrow> f a b)"
  by (cases x) simp

lemma returns_option [no_panic]:
  "(v = None \<Longrightarrow> returns r) \<Longrightarrow> (\<And>x. v = Some x \<Longrightarrow> returns (f x)) \<Longrightarrow>
     returns (case v of None \<Rightarrow> r | Some x \<Rightarrow> f x)"
  by (cases v) simp_all

lemma returns_for_each [no_panic]:
  "(\<And>x s. x \<in> set xs \<Longrightarrow> returns (f x s)) \<Longrightarrow> returns (for_each f xs s)"
proof (induction xs arbitrary: s)
  case Nil
  then show ?case by (simp add: returns_def)
next
  case (Cons x xs)
  have "returns (bind_result (f x s) (for_each f xs))"
    by (rule returns_bind) (use Cons in simp_all)
  then show ?case by simp
qed

text \<open>A loop whose body needs an invariant to be in range.\<close>

lemma returns_for_each_invariant:
  assumes "I s" "\<And>x s. x \<in> set xs \<Longrightarrow> I s \<Longrightarrow> returns (f x s)"
    and "\<And>x s t. x \<in> set xs \<Longrightarrow> I s \<Longrightarrow> f x s = Inr t \<Longrightarrow> I t"
  shows "returns (for_each f xs s)"
  using assms
proof (induction xs arbitrary: s)
  case Nil
  then show ?case by (simp add: returns_def)
next
  case (Cons x xs)
  have "returns (bind_result (f x s) (for_each f xs))"
  proof (rule returns_bind)
    show "returns (f x s)" using Cons.prems by simp
    show "returns (for_each f xs t)" if step: "f x s = Inr t" for t
    proof (rule Cons.IH)
      show "I t" using Cons.prems(3) [of x s t] Cons.prems(1) step by simp
      show "returns (f y u)" if "y \<in> set xs" "I u" for y u
        using Cons.prems(2) [of y u] that by simp
      show "I v" if "y \<in> set xs" "I u" "f y u = Inr v" for y u v
        using Cons.prems(3) [of y u v] that by simp
    qed
  qed
  then show ?case by simp
qed

lemma returns_map_result [no_panic]:
  "(\<And>x. x \<in> set xs \<Longrightarrow> returns (f x)) \<Longrightarrow> returns (map_result f xs)"
proof (induction xs)
  case Nil
  then show ?case by (simp add: returns_def)
next
  case (Cons x xs)
  then have "returns (f x)" "returns (map_result f xs)" by simp_all
  then show ?case by (simp, intro no_panic)
qed

section \<open>Decoding\<close>

lemma returns_read_take [no_panic]: "returns (read_take n r)"
  unfolding read_take_def by (intro no_panic)

lemma returns_read_byte [no_panic]: "returns (read_byte r)"
  unfolding read_byte_def by (intro no_panic)

lemma returns_read_word [no_panic]: "returns (read_word r)"
  unfolding read_word_def by (intro no_panic)

lemma returns_read_long [no_panic]: "returns (read_u32 r)"
  unfolding read_u32_def by (intro no_panic)

lemma returns_read_sized [no_panic]: "returns (read_sized wide r)"
  unfolding read_sized_def by (intro no_panic)

lemma returns_check_count [no_panic]: "returns (check_count r n least)"
  unfolding check_count_def by (intro no_panic)

lemma returns_read_count [no_panic]: "returns (read_count least r)"
  unfolding read_count_def by (intro no_panic)

lemma returns_read_string [no_panic]: "returns (read_string r)"
  unfolding read_string_def by (intro no_panic)

lemma returns_read_name [no_panic]: "returns (read_name r)"
  unfolding read_name_def by (intro no_panic)

lemma returns_read_boolean [no_panic]: "returns (read_boolean r)"
  unfolding read_boolean_def by (intro no_panic)

lemma returns_read_done [no_panic]: "returns (read_done r)"
  unfolding read_done_def by (intro no_panic)

lemma returns_section_from_byte [no_panic]: "returns (section_from_byte b)"
  unfolding section_from_byte_def by (intro no_panic)

lemma returns_encoding_from_byte [no_panic]: "returns (encoding_from_byte b)"
  unfolding encoding_from_byte_def by (intro no_panic)

lemma returns_read_many [no_panic]: "(\<And>r. returns (p r)) \<Longrightarrow> returns (read_many p n r)"
proof (induction n arbitrary: r)
  case 0
  then show ?case by (simp add: returns_def)
next
  case (Suc n)
  have "returns (p r)" for r by (rule Suc.prems)
  moreover have "returns (read_many p n r)" for r by (rule Suc.IH) (rule Suc.prems)
  ultimately show ?case by (simp, intro no_panic)
qed

lemma returns_read_counted [no_panic]: "(\<And>r. returns (p r)) \<Longrightarrow> returns (read_counted least p r)"
  unfolding read_counted_def by (intro no_panic)

lemma returns_skip_options [no_panic]: "returns (skip_options r)"
proof (induction r rule: skip_options.induct)
  case (1 r)
  show ?case
    by (subst skip_options.simps, intro no_panic) (use 1 in auto)
qed

lemma returns_read_reference [no_panic]: "returns (read_reference wide n bits r)"
  unfolding read_reference_def by (intro no_panic)

lemma returns_read_value [no_panic]: "returns (read_value e field r)"
  unfolding read_value_def by (cases e; simp only: o65_encoding.case; intro no_panic)

lemma returns_decode_site [no_panic]: "returns (decode_site wide n stored s at stop r)"
  unfolding decode_site_def Let_def by (intro no_panic)

lemma returns_decode_sites [no_panic]: "returns (decode_sites wide n stored s at stop pending relocs r)"
proof (induction wide n stored s at stop pending relocs r rule: decode_sites.induct)
  case (1 wide n stored s at stop pending relocs r)
  show ?case
    by (subst decode_sites.simps, unfold Let_def, intro no_panic) (use 1 in \<open>auto simp: Let_def\<close>)
qed

lemma returns_decode_extent [no_panic]: "returns (decode_extent wide i st)"
  unfolding decode_extent_def Let_def by (intro no_panic)

lemma returns_decode_import [no_panic]: "returns (decode_import i st)"
  unfolding decode_import_def Let_def by (intro no_panic)

text \<open>The end of a section is a checked sum of the header already.\<close>

lemma returns_decode_export:
  assumes "\<forall>i < 4. unat (bases ! i) + unat (lengths ! i) \<le> 2 ^ 24"
  shows "returns (decode_export wide bases lengths k st)"
proof -
  have "unat (bases ! (unat segment - 2)) + unat (lengths ! (unat segment - 2)) < 2 ^ 32" if "segment \<le> 4" for segment :: u8
  proof -
    have "unat segment - 2 < 4" using that by (simp add: word_le_nat_alt)
    with assms have "unat (bases ! (unat segment - 2)) + unat (lengths ! (unat segment - 2)) \<le> 2 ^ 24" by blast
    then show ?thesis by simp
  qed
  then show ?thesis
    unfolding decode_export_def Let_def by (intro no_panic returns_add_u32) simp
qed

lemma returns_decode_file [no_panic]: "returns (decode_file bs)"
  unfolding decode_file_def Let_def
  by (intro no_panic returns_decode_export) (use decoded_extents in blast)

lemma returns_check_argument [no_panic]: "returns (check_argument a n)"
  unfolding check_argument_def Let_def by (intro no_panic)

lemma returns_verify_contract [no_panic]: "returns (verify_contract c)"
  unfolding verify_contract_def by (intro no_panic)

lemma returns_read_argument [no_panic]: "returns (read_argument r)"
  unfolding read_argument_def by (intro no_panic)

lemma returns_read_contract [no_panic]: "returns (read_contract r)"
  unfolding read_contract_def Let_def by (intro no_panic)

lemma returns_decode_descriptor [no_panic]: "returns (decode_descriptor bs)"
  unfolding decode_descriptor_def read_profile_def read_routine_def read_object_def read_section_tag_def
    read_import_def read_relocation_def read_section_def read_encoding_def read_target_def
    unsupported_descriptor_def
  by (intro no_panic)

section \<open>Admission\<close>

lemma returns_region_end [no_panic]: "returns (region_end r)"
  unfolding region_end_def by (intro no_panic)

lemma returns_range_index_new [no_panic]: "returns (range_index_new rs)"
  unfolding range_index_new_def by (intro no_panic)

lemma returns_disjoint [no_panic]: "returns (disjoint rs)"
  unfolding disjoint_def Let_def by (intro no_panic)

lemma returns_find_export [no_panic]: "returns (find_export f name)"
  unfolding find_export_def by (intro no_panic)

text \<open>The padding byte of an address container lies in its section.\<close>

lemma returns_validate_site:
  assumes "unat start \<le> length (file_text f)" "unat (file_lengths f ! 1) = length (file_data f)"
  shows "returns (validate_site f p start pair ends)"
proof -
  obtain proof' wire where pair: "pair = (proof', wire)" by (cases pair)
  let ?i = "section_index (site_section proof')"
  have in_range: "unat (stop - 1) < length (if ?i = 0 then file_text f else file_data f)"
    if add: "checked_add32 (site_offset proof') (o65_width (site_encoding proof') + (if zero_extend proof' then 1 else 0)) = Some stop"
      and fits: "\<not> (site_offset proof' < ends ! ?i \<or> stop > (if ?i = 0 then start else file_lengths f ! 1))" for stop
  proof -
    have "0 < unat stop" using checked_add32_SomeD [OF add] width_positive by (simp add: unat_extent)
    then have "unat (stop - 1) < unat stop" by (simp add: unat_sub_if' word_le_nat_alt)
    moreover have "unat stop \<le> length (if ?i = 0 then file_text f else file_data f)"
      using fits assms by (auto simp: not_less word_le_nat_alt split: if_splits)
    ultimately show ?thesis by linarith
  qed
  have byte: "returns (byte_at bs i)" if "i < length bs" for bs i
    using that by (simp add: byte_at_def returns_def)
  have target: "returns (case site_target proof' of
        ImportRef i \<Rightarrow>
          check (\<not> (unat i \<ge> length (profile_imports p) \<or> site_value proof' \<noteq> 0))
            (Message ''unsupported import addend/index'')
      | SectionRef s \<Rightarrow>
          check (\<not> site_value proof' > file_lengths f ! section_index s)
            (Message ''target offset outside section''))"
    by (cases "site_target proof'") (simp_all only: o65_reference.case returns_check)
  show ?thesis
    unfolding validate_site_def pair Let_def prod.case
    by (intro no_panic target byte in_range) (simp_all only: ok_or_eq_Inr check_simps simp_thms)
qed

text \<open>The frame is small when the displacements are summed, and a verified contract is.\<close>

lemma returns_validate_argument:
  assumes "frame \<le> 254" "unat (argument_offset a) + unat (argument_size a) \<le> 251"
  shows "returns (validate_argument frame a u)"
proof -
  have "unat (ucast frame :: u32) \<le> 254"
    using assms(1) by (simp add: unsigned_ucast_eq word_le_nat_alt take_bit_nat_eq_self)
  then have frame: "unat (ucast frame + 4 :: u32) \<le> 258"
    using unat_sum [of "ucast frame" 4] by simp
  then have fits: "unat (ucast frame + 4 :: u32) + unat (argument_offset a) < 2 ^ 32" using assms(2) by simp
  show ?thesis unfolding validate_argument_def
  proof (intro no_panic returns_add_u32)
    show "unat (ucast frame + 4 :: u32) + unat (argument_offset a) < 2 ^ 32" by (rule fits)
  next
    fix n assume "add_u32 (ucast frame + 4) (argument_offset a) = Inr n"
    then have "unat n = unat (ucast frame + 4 :: u32) + unat (argument_offset a)" using unat_sum [OF fits] by simp
    with frame assms(2) show "unat n + unat (argument_size a) < 2 ^ 32" by simp
  qed
qed

lemma returns_validate_routine:
  assumes "verify_contract (routine_contract r) = Inr ()"
  shows "returns (validate_routine start r st)"
proof -
  have small: "unat (routine_offset r AND 65535) + unat (routine_size r) < 2 ^ 32" if "routine_size r \<le> 65535"
  proof -
    have "unat (routine_offset r AND 65535) \<le> 65535"
      using word_and_le1 [of "routine_offset r" 65535] by (simp add: word_le_nat_alt)
    with that show ?thesis by (simp add: word_le_nat_alt)
  qed
  show ?thesis
    unfolding validate_routine_def Let_def
    by (intro no_panic returns_add_u32 small returns_validate_argument verified_arguments [OF assms]) auto
qed

lemma returns_validate_profile:
  assumes "unat start \<le> length (file_text f)" "unat (file_lengths f ! 1) = length (file_data f)"
    and "\<forall>r \<in> set (profile_routines p). verify_contract (routine_contract r) = Inr ()"
  shows "returns (validate_profile f p start)"
  unfolding validate_profile_def validate_object_def validate_import_def Let_def
  by (intro no_panic returns_validate_site returns_validate_routine assms(1,2)) (use assms(3) in blast)

lemma returns_application [no_panic]: "returns (application bs)"
  unfolding application_def Let_def
proof (intro no_panic returns_validate_profile)
  fix f start raw
  assume "decode_file bs = Inr f"
  then show "unat (file_lengths f ! 1) = length (file_data f)" by (rule decode_file_lengths)
next
  fix f start raw
  assume "ok_or (Message ''descriptor outside text'') (text_from (file_text f) (unat start)) = Inr raw"
  then show "unat start \<le> length (file_text f)" by (simp add: text_from_def split: if_splits)
next
  fix raw p
  assume "decode_descriptor raw = Inr p"
  then show "\<forall>r \<in> set (profile_routines p). verify_contract (routine_contract r) = Inr ()"
    by (rule decoded_contracts)
qed

section \<open>Relocation\<close>

lemma returns_place_section [no_panic]: "returns (place_o65_section f p placement allowed reserved i allocations)"
  unfolding place_o65_section_def Let_def by (intro no_panic)

lemma returns_add_provider [no_panic]: "returns (add_provider q providers)"
  unfolding add_provider_def by (intro no_panic)

lemma returns_bind_import [no_panic]: "returns (bind_import providers reserved i st)"
  unfolding bind_import_def Let_def by (intro no_panic)

lemma returns_address_at: "i < length addresses \<Longrightarrow> returns (address_at addresses i)"
  by (simp add: address_at_def returns_def)

lemma bind_import_addresses:
  assumes "for_each (bind_import providers reserved) imps (allocations, addresses) = Inr (allocations', addresses')"
  shows "length addresses' = length addresses + length imps"
  using assms
proof (induction imps arbitrary: allocations addresses)
  case Nil
  then show ?case by simp
next
  case (Cons i imps)
  from Cons.prems obtain al ad where step: "bind_import providers reserved i (allocations, addresses) = Inr (al, ad)"
    and rest: "for_each (bind_import providers reserved) imps (al, ad) = Inr (allocations', addresses')" by auto
  from step have "length ad = length addresses + 1" by (auto simp: bind_import_def)
  with Cons.IH [OF rest] show ?case by simp
qed

lemma returns_make_patch:
  assumes "site_checked f p start pair" "length addresses = length (profile_imports p)"
  shows "returns (make_patch placement addresses pair)"
proof -
  obtain proof' wire where pair: "pair = (proof', wire)" by (cases pair)
  note check = site_checkedD [OF assms(1) [unfolded pair]]
  have base: "returns (reference_base placement addresses (site_target wire))"
  proof (cases "site_target proof'")
    case (SectionRef s)
    with check(6) show ?thesis by (simp add: reference_base_def returns_def)
  next
    case (ImportRef i)
    then have "unat i < length addresses" using check(12) assms(2) by simp
    with ImportRef check(6) show ?thesis by (simp add: reference_base_def returns_def)
  qed
  show ?thesis unfolding make_patch_def pair Let_def prod.case by (intro no_panic base)
qed

lemma returns_gap_segment:
  assumes "cursor \<le> n" "unat base + n \<le> 2 ^ 24"
  shows "returns (gap_segment base cursor bs)"
proof -
  have "unat (of_nat cursor :: u32) \<le> cursor"
    by (simp add: unsigned_of_nat take_bit_nat_less_eq_self)
  then have "unat base + unat (of_nat cursor :: u32) < 2 ^ 32" using assms by simp
  then show ?thesis unfolding gap_segment_def by (intro no_panic returns_add_u32)
qed

lemma returns_text_segments:
  assumes "\<forall>r \<in> set routines. unat (routine_offset r) + unat (routine_size r) \<le> length code"
    and base: "unat base + length code \<le> 2 ^ 24"
  shows "returns (text_segments base code routines)"
proof -
  have "returns (routine_segments base code r st)" if "r \<in> set (sort_key routine_offset routines)" for r st
  proof -
    have fits: "unat (routine_offset r) + unat (routine_size r) \<le> length code" using assms(1) that by simp
    have cut: "\<And>i j. i \<le> j \<Longrightarrow> j \<le> length code \<Longrightarrow> returns (slice_of code i j)"
      by (simp add: slice_of_def slice_def returns_def)
    have place: "returns (add_u32 base (routine_offset r))"
      using fits base by (intro returns_add_u32) simp
    show ?thesis unfolding routine_segments_def Let_def
      by (intro no_panic cut place returns_gap_segment [OF _ base]) (use fits in auto)
  qed
  then show ?thesis unfolding text_segments_def
    by (intro no_panic returns_gap_segment [OF _ base]) simp_all
qed

lemma import_position_less: "import_position p name = Some i \<Longrightarrow> i < length (profile_imports p)"
  by (simp add: import_position_def Let_def split: if_splits)

text \<open>The stages behind the binding of the imports.\<close>

lemma returns_patched:
  assumes app: "application bs = Inr (f, p)" and len: "length addresses = length (profile_imports p)"
    and rest: "\<And>code stored. length code = length (file_text f) \<Longrightarrow> returns (q code stored)"
  shows "returns (bind_result
       (map_result (make_patch placement addresses) (zip (profile_relocations p) (file_relocations f))) (\<lambda>patches.
     bind_result (for_each apply_patch patches (file_text f, file_data f)) (\<lambda>(code, stored). q code stored)))"
proof (intro returns_bind returns_map_result returns_prod)
  fix pair assume "pair \<in> set (zip (profile_relocations p) (file_relocations f))"
  with application_facts [OF app] obtain start where "site_checked f p start pair" by blast
  then show "returns (make_patch placement addresses pair)" using len by (rule returns_make_patch)
next
  fix patches
  assume patches: "map_result (make_patch placement addresses) (zip (profile_relocations p) (file_relocations f)) = Inr patches"
  note facts = application_patches [OF app patches]
  obtain st where st: "for_each apply_patch patches (file_text f, file_data f) = Inr st"
    "length (fst st) = length (file_text f)"
    using apply_patches [of patches "(file_text f, file_data f)"] facts by auto
  show "returns (for_each apply_patch patches (file_text f, file_data f))" using st by (simp add: returns_def)
  show "returns (q code stored)"
    if "for_each apply_patch patches (file_text f, file_data f) = Inr x" "x = (code, stored)" for x code stored
    using that st by (intro rest) simp
qed

lemma application_routines:
  assumes "application bs = Inr (f, p)" "length code = length (file_text f)"
  shows "\<forall>r \<in> set (profile_routines p). unat (routine_offset r) + unat (routine_size r) \<le> length code"
  using application_facts [OF assms(1)] assms(2) by (metis order.trans)

lemma application_imports: "application bs = Inr (f, p) \<Longrightarrow> profile_imports p \<noteq> []"
  using application_facts by blast

lemma returns_optional_address:
  "length addresses = length (profile_imports p) \<Longrightarrow> returns (optional_address addresses (import_position p name))"
  unfolding optional_address_def
  by (intro no_panic returns_address_at) (simp_all add: import_position_less)

lemma bound_addresses:
  "for_each (bind_import providers reserved) (profile_imports p) (allocations, []) = Inr st \<Longrightarrow>
     st = (allocations', addresses) \<Longrightarrow> length addresses = length (profile_imports p)"
  using bind_import_addresses [of providers reserved "profile_imports p" allocations "[]"] by simp

text \<open>A placed text ends in the address space, and so its entry lies there.\<close>

lemma placed_text:
  assumes "application bs = Inr (f, p)"
    and "for_each (place_o65_section f p placement allowed reserved) [0..<3] [] = Inr allocations"
    and "length code = length (file_text f)"
  shows "unat (placement_bases placement ! 0) + length code \<le> 2 ^ 24"
    and "unat (placement_bases placement ! 0) + unat (profile_entry p) < 2 ^ 32"
proof -
  have "section_placed f p placement allowed reserved 0"
    using place_all_sections [OF assms(2)] by simp
  then show fits: "unat (placement_bases placement ! 0) + length code \<le> 2 ^ 24"
    using application_facts [OF assms(1)] assms(3)
    by (auto simp: section_placed_def Let_def region_fits_def section_region_def)
  show "unat (placement_bases placement ! 0) + unat (profile_entry p) < 2 ^ 32"
    using fits application_entry_below [OF assms(1)] assms(3) by simp
qed

text \<open>C28: The loader never panics. Whatever the bytes and the placement are, \<open>relocate\<close> ends in an image or
  in an error message: no index is out of range, no slice or copy leaves its section, the address of
  every bound import exists and no \<open>u32\<close> sum overflows, in the stages of decoding, admission, placement, patching and cutting into
  segments.
\<close>

theorem relocate_never_panics: "relocate bs placement \<noteq> Inl O65Panic"
proof -
  have "returns (relocate bs placement)"
    unfolding relocate_def Let_def
    apply (rule returns_bind [OF returns_application], rule returns_prod, rule returns_bind [OF returns_check],
      rule returns_bind [OF returns_check], rule returns_bind [OF returns_range_index_new],
      rule returns_bind [OF returns_range_index_new], rule returns_bind [OF returns_for_each [OF returns_place_section]],
      rule returns_bind [OF returns_for_each [OF returns_add_provider]],
      rule returns_bind [OF returns_for_each [OF returns_bind_import]], rule returns_prod,
      rule returns_bind [OF returns_disjoint], rule returns_patched)
      apply simp
     apply (erule (1) bound_addresses)
    apply (intro returns_bind returns_text_segments returns_add_u32 returns_optional_address returns_address_at
      returns_Inr)
        apply (simp add: application_routines)
       apply (rule placed_text(1) [rotated], assumption, assumption, simp)
      apply (rule placed_text(2) [rotated], assumption, assumption, simp)
     apply (erule (1) bound_addresses)
    apply (frule (1) bound_addresses, simp add: application_imports)
    done
  then show ?thesis by (simp add: returns_def)
qed

end
