(* ===== verification/O65_Compact_Correct.thy ===== *)
theory O65_Compact_Correct
  imports O65_Compact O65_Panic_Free
begin

text \<open>
  Correctness of the compact loader (\<open>relocate\<close> in \<open>src/src/mir65816/o65/compact.rs\<close>): the relocation
  records that \<open>decode\<close> (\<open>src/src/mir65816/o65/read.rs\<close>) accepts are in range and in order, hence the
  loader neither panics nor overflows a sum, and every site holds its part of the target's address.
\<close>

section \<open>Decoded relocation records\<close>

definition record_ok :: "nat \<Rightarrow> bytes \<Rightarrow> o65_section \<Rightarrow> o65_relocation \<Rightarrow> bool" where
  "record_ok n stored s r \<longleftrightarrow>
     site_section r = s \<and> \<not> zero_extend r \<and> site_value r < limit24 \<and>
     (\<forall>i. site_target r = ImportRef i \<longrightarrow> unat i < n) \<and>
     site_stop r < 2 ^ 32 \<and> site_stop r \<le> length stored"

lemma take_bit_self: "m < 32 \<Longrightarrow> take_bit m v = v \<longleftrightarrow> unat v < 2 ^ m" for v :: u32
  by (simp add: word_unat_eq_iff unsigned_take_bit_eq take_bit_nat_eq_self_iff)

lemma le_word_small:
  "length bs = 1 \<Longrightarrow> take_bit 8 (le_word bs :: u32) = le_word bs"
  "length bs = 2 \<Longrightarrow> take_bit 24 (le_word bs :: u32) = le_word bs"
  "length bs = 3 \<Longrightarrow> take_bit 24 (le_word bs :: u32) = le_word bs"
proof -
  have bound: "unat (le_word bs :: u32) < 256 ^ length bs"
  proof -
    have "le_value bs < 256 ^ length bs"
    proof (induction bs)
      case Nil
      then show ?case by simp
    next
      case (Cons b bs)
      have "unat b < 256" using unsigned_less [where 'a = nat, of b] by simp
      with Cons show ?case by simp
    qed
    moreover have "unat (le_word bs :: u32) \<le> le_value bs"
      by (simp add: le_word_value unsigned_of_nat take_bit_nat_less_eq_self)
    ultimately show ?thesis by simp
  qed
  have small: "take_bit m (le_word bs :: u32) = le_word bs" if "unat (le_word bs :: u32) < 2 ^ m" "m < 32" for m
    using that by (simp add: take_bit_self)
  show "length bs = 1 \<Longrightarrow> take_bit 8 (le_word bs :: u32) = le_word bs"
    "length bs = 2 \<Longrightarrow> take_bit 24 (le_word bs :: u32) = le_word bs"
    "length bs = 3 \<Longrightarrow> take_bit 24 (le_word bs :: u32) = le_word bs"
    using bound by (intro small; simp)+
qed

lemma below_limit24: "take_bit 24 v = v \<Longrightarrow> v < limit24" for v :: u32
  by (simp add: take_bit_self limit24_def word_less_nat_alt)

lemma read_value_below:
  assumes "read_value e field r = Inr (v, r')" and "length field = unat (o65_width e)"
  shows "v < limit24"
proof (rule below_limit24)
  have narrow: "take_bit 24 (take_bit 8 x) = take_bit 8 x" for x :: u32 by simp
  have byte: "take_bit 24 (ucast b :: u32) = ucast b" for b :: u8
    by (rule bit_word_eqI) (auto simp: bit_take_bit_iff bit_ucast_iff dest: bit_imp_le_length)
  have word: "take_bit 24 (ucast b :: u32) = ucast b" for b :: u16
    by (rule bit_word_eqI) (auto simp: bit_take_bit_iff bit_ucast_iff dest: bit_imp_le_length)
  have field1: "take_bit 24 (push_bit k (le_word field :: u32)) = push_bit k (le_word field)"
    if "length field = 1" "k \<le> 16" for k
  proof -
    have "take_bit 24 (push_bit k (le_word field :: u32)) = push_bit k (take_bit (24 - k) (take_bit 8 (le_word field)))"
      by (simp add: take_bit_push_bit le_word_small(1) [OF that(1)])
    also have "\<dots> = push_bit k (le_word field)"
    proof -
      have "min (24 - k) 8 = 8" using that(2) by simp
      then show ?thesis unfolding take_bit_take_bit by (simp only: le_word_small(1) [OF that(1)])
    qed
    finally show ?thesis .
  qed
  have low: "take_bit 24 (le_word field :: u32) = le_word field" if "length field \<in> {1, 2, 3}"
  proof (cases "length field = 1")
    case True
    with narrow [of "le_word field"] show ?thesis by (simp only: le_word_small(1))
  next
    case False
    with that le_word_small(2,3) [of field] show ?thesis by auto
  qed
  show "take_bit 24 v = v"
    using assms field1 byte word low
    by (cases e) (auto simp: read_value_def take_bit_or)
qed

lemma decode_site_ok:
  assumes "decode_site wide n stored s at stop r = Inr (x, r')"
  shows "record_ok n stored s (fst x) \<and> unat stop \<le> unat (site_offset (fst x)) \<and>
     unat (snd x) = site_stop (fst x)"
proof -
  from assms obtain tag e r1 r2 target stop' field v where
    target: "read_reference wide n (tag AND 0x1F) r1 = Inr (target, r2)"
    and fresh: "\<not> word_of_int at < stop"
    and stop': "checked_add32 (word_of_int at) (o65_width e) = Some stop'"
    and field: "slice stored (unat (word_of_int at :: u32)) (unat stop') = Some field"
    and v: "read_value e field r2 = Inr (v, r')"
    and x: "x = (\<lparr>site_section = s, site_offset = word_of_int at, site_encoding = e, site_target = target,
              site_value = v, zero_extend = False\<rparr>, stop')"
    unfolding decode_site_def Let_def result_steps by blast
  note sum = checked_add32_SomeD [OF stop']
  have "length field = unat (o65_width e)" "unat stop' \<le> length stored"
    using field sum by (auto simp: slice_def split: if_splits)
  moreover have "unat stop' < 2 ^ 32" using unsigned_less [where 'a = nat, of stop'] by simp
  moreover have "unat i < n" if "target = ImportRef i" for i
    using target that by (auto simp: read_reference_def split: if_splits)
  moreover have "site_stop (fst x) = unat stop'" using sum by (simp add: x site_stop_def)
  ultimately show ?thesis using read_value_below [OF v] fresh
    by (simp add: x record_ok_def word_le_nat_alt not_less)
qed

lemma decode_sites_ok:
  assumes "decode_sites wide n stored s at stop pending relocs r = Inr (out, r')"
  shows "\<exists>new. out = relocs @ new \<and>
     (\<forall>x \<in> set new. record_ok n stored s x \<and> unat stop \<le> unat (site_offset x)) \<and> sorted_wrt in_front new"
  using assms
proof (induction wide n stored s at stop pending relocs r rule: decode_sites.induct)
  case (1 wide n stored s at stop pending relocs r)
  let ?at = "\<lambda>delta :: u8. at + (if delta = 255 then 254 else uint delta)"
  from 1(3) obtain delta r1 where delta: "read_byte r = Inr (delta, r1)"
    and rest: "(if delta = 0 then
         bind_result (check (\<not> pending) (Message ''unterminated relocation skip'')) (\<lambda>_. Inr (relocs, r1))
       else
         bind_result (check (\<not> ?at delta \<ge> int (length stored)) (Message ''relocation outside initialized section'')) (\<lambda>_.
           if delta = 255 then decode_sites wide n stored s (?at delta) stop True relocs r1
           else
             bind_result (decode_site wide n stored s (?at delta) stop r1) (\<lambda>(site, r'').
             bind_result (check (\<not> int (length relocs) \<ge> max_items) (Message ''relocation count limit'')) (\<lambda>_.
               decode_sites wide n stored s (?at delta) (snd site) False (relocs @ [fst site]) r'')))) = Inr (out, r')"
    by (simp only: decode_sites.simps [of wide n stored s at stop pending relocs r] Let_def result_steps) blast
  consider "delta = 0" | "delta = 255" | "delta \<noteq> 0" "delta \<noteq> 255" by blast
  then show ?case
  proof cases
    case 1
    with rest show ?thesis by auto
  next
    case 2
    with rest have "decode_sites wide n stored s (?at delta) stop True relocs r1 = Inr (out, r')"
      "\<not> ?at delta \<ge> int (length stored)" by simp_all
    with "1.IH"(1) [OF delta refl] 2 show ?thesis by simp
  next
    case 3
    with rest obtain site r2 where
      site: "decode_site wide n stored s (?at delta) stop r1 = Inr (site, r2)"
      and more: "decode_sites wide n stored s (?at delta) (snd site) False (relocs @ [fst site]) r2 = Inr (out, r')"
      and range: "\<not> ?at delta \<ge> int (length stored)" "\<not> int (length relocs) \<ge> max_items"
      by auto
    from "1.IH"(2) [OF delta refl 3(1) refl _ 3(2) site refl] more range obtain new where
      new: "out = relocs @ fst site # new" "sorted_wrt in_front new"
      "\<forall>x \<in> set new. record_ok n stored s x \<and> unat (snd site) \<le> unat (site_offset x)"
      by auto
    have ok: "record_ok n stored s (fst site)" "unat stop \<le> unat (site_offset (fst site))"
      "unat (snd site) = site_stop (fst site)" using decode_site_ok [OF site] by simp_all
    have "unat (site_offset (fst site)) \<le> site_stop (fst site)" by (simp add: site_stop_def)
    then have "\<forall>x \<in> set new. in_front (fst site) x \<and> unat stop \<le> unat (site_offset x)"
      using new(3) ok by (auto simp: in_front_def)
    then show ?thesis using new ok by (intro exI [of _ "fst site # new"]) auto
  qed
qed

text \<open>The records of a file: those of the text, then those of the data, each in order.\<close>

definition stored_bytes :: "o65_file \<Rightarrow> o65_relocation \<Rightarrow> bytes" where
  "stored_bytes f r = (if site_section r = TextSection then file_text f else file_data f)"

lemma decode_file_records:
  assumes "decode_file bs = Inr f"
  shows "(\<forall>r \<in> set (file_relocations f). site_section r \<noteq> BssSection \<and>
       record_ok (length (file_imports f)) (stored_bytes f r) (site_section r) r) \<and>
     sorted_wrt in_front (file_relocations f)"
proof -
  from assms obtain wide code stored names r1 r2 r3 relocs relocs' where
    text_sites: "decode_sites wide (length names) code TextSection (- 1) 0 False [] r1 = Inr (relocs, r2)"
    and data_sites: "decode_sites wide (length names) stored DataSection (- 1) 0 False relocs r2 = Inr (relocs', r3)"
    and f: "file_text f = code" "file_data f = stored" "file_imports f = names" "file_relocations f = relocs'"
    unfolding decode_file_def Let_def by auto
  from decode_sites_ok [OF text_sites] decode_sites_ok [OF data_sites] obtain new where
    split: "relocs' = relocs @ new"
    and ok: "\<forall>x \<in> set relocs. record_ok (length names) code TextSection x" "sorted_wrt in_front relocs"
      "\<forall>x \<in> set new. record_ok (length names) stored DataSection x" "sorted_wrt in_front new"
    by auto
  have "in_front x y" if "x \<in> set relocs" "y \<in> set new" for x y
    using ok(1,3) that by (auto simp: record_ok_def in_front_def)
  then have "sorted_wrt in_front relocs'" using ok(2,4) by (simp add: split sorted_wrt_append)
  moreover have "site_section r \<noteq> BssSection \<and> record_ok (length names) (stored_bytes f r) (site_section r) r"
    if "r \<in> set relocs'" for r
    using that ok(1,3) by (auto simp: split stored_bytes_def f record_ok_def)
  ultimately show ?thesis using f by simp
qed

section \<open>Admission\<close>

lemma map_result_length: "map_result f xs = Inr ys \<Longrightarrow> length ys = length xs"
  by (rule map_result_nth(1))

lemma compact_application_facts:
  assumes "compact_application bs = Inr (f, info)"
  shows "unat (file_lengths f ! 0) = length (file_text f) \<and> unat (file_lengths f ! 1) = length (file_data f) \<and>
     length (compact_imports info) = length (file_imports f) \<and>
     (\<forall>r \<in> set (file_relocations f). site_section r \<noteq> BssSection \<and> site_encoding r \<noteq> WordField \<and>
        record_ok (length (file_imports f)) (stored_bytes f r) (site_section r) r) \<and>
     sorted_wrt in_front (file_relocations f)"
proof -
  from assms obtain g start infos where
    decoded: "decode_file bs = Inr g"
    and start: "unat start \<le> length (file_text g)"
    and infos: "map_result (read_compact_import (drop (unat start) (file_text g))) (enumerate 0 (file_imports g)) = Inr infos"
    and f: "f = g\<lparr>file_text := take (unat start) (file_text g), file_lengths := (file_lengths g)[0 := start]\<rparr>"
    and checks: "for_each (check_compact_site f) (file_relocations f) () = Inr ()"
    and info: "compact_imports info = infos"
    unfolding compact_application_def Let_def
    by (auto simp: text_from_def split: if_splits)
  have four: "file_lengths g \<noteq> []"
  proof
    assume "file_lengths g = []"
    with decoded show False
      unfolding decode_file_def Let_def decode_extent_def upt4 by auto
  qed
  note sizes = decode_file_lengths [OF decoded] and records = decode_file_records [OF decoded]
  have lengths: "unat (file_lengths f ! 0) = length (file_text f)" "unat (file_lengths f ! 1) = length (file_data f)"
    using four start sizes(2) by (simp_all add: f)
  have "record_ok (length (file_imports f)) (stored_bytes f r) (site_section r) r \<and> site_encoding r \<noteq> WordField"
    if r: "r \<in> set (file_relocations f)" for r
  proof -
    have old: "record_ok (length (file_imports g)) (stored_bytes g r) (site_section r) r" "site_section r \<noteq> BssSection"
      using records r by (simp_all add: f)
    from checks r obtain stop where
      stop: "unat (site_offset r) + unat (o65_width (site_encoding r)) < 2 ^ 32"
        "stop = site_offset r + o65_width (site_encoding r)"
      "\<not> stop > file_lengths f ! section_index (site_section r)" "site_encoding r \<noteq> WordField"
      by (auto simp: for_each_unit check_compact_site_def)
    have "unat stop = site_stop r" using unat_sum [OF stop(1)] stop(2) old(1) by (simp add: record_ok_def site_stop_def)
    then have "site_stop r \<le> length (stored_bytes f r)"
      using stop(3) lengths old(2) by (cases "site_section r") (auto simp: stored_bytes_def not_less word_le_nat_alt)
    with old stop(4) show ?thesis by (simp add: record_ok_def f)
  qed
  moreover have "length infos = length (file_imports f)" using map_result_length [OF infos] by (simp add: f)
  ultimately show ?thesis using lengths records info by (auto simp: f)
qed

section \<open>Placement\<close>

lemma region_end_below: "region_end r = Inr e \<Longrightarrow> region_address r < limit24"
  by (simp add: region_end_eq_Inr)

lemma place_compact_step:
  assumes "place_compact f placement allowed reserved i acc = Inr out"
  shows "placement_bases placement ! i < limit24 \<and> region_fits (section_region f placement i) \<and>
     out = acc @ filter (\<lambda>r. region_size r \<noteq> 0) [section_region f placement i]"
  using assms
  by (auto simp: place_compact_def Let_def section_region_def split: if_splits
      dest: region_end_fits region_end_below)

lemma place_compact_all:
  assumes "for_each (place_compact f placement allowed reserved) is acc = Inr out"
  shows "(\<forall>i \<in> set is. placement_bases placement ! i < limit24 \<and> region_fits (section_region f placement i)) \<and>
     out = acc @ filter (\<lambda>r. region_size r \<noteq> 0) (map (section_region f placement) is)"
  using assms
proof (induction "is" arbitrary: acc)
  case Nil
  then show ?case by simp
next
  case (Cons i "is")
  then obtain acc1 where step: "place_compact f placement allowed reserved i acc = Inr acc1"
    and rest: "for_each (place_compact f placement allowed reserved) is acc1 = Inr out" by auto
  from place_compact_step [OF step] Cons.IH [OF rest] show ?case by simp
qed

definition compact_provider :: "o65_placement \<Rightarrow> compact_import \<Rightarrow> o65_provider option" where
  "compact_provider placement i =
     find (\<lambda>q. provider_name q = compact_name i) (placement_providers placement)"

lemma bind_compact_step:
  assumes "bind_compact placement reserved (index, i) (al, ad) = Inr st"
  shows "\<exists>q. compact_provider placement i = Some q \<and> provider_address q < limit24 \<and>
     st = (al @ [provider_region q], ad @ [provider_address q])"
  using assms
  by (auto simp: bind_compact_def Let_def compact_provider_def provider_region_def dest!: region_end_below)

lemma bind_compact_all:
  assumes "for_each (bind_compact placement reserved) imps (al, ad) = Inr (al', ad')"
  shows "\<exists>qs. list_all2 (\<lambda>i q. compact_provider placement (snd i) = Some q \<and> provider_address q < limit24) imps qs \<and>
     al' = al @ map provider_region qs \<and> ad' = ad @ map provider_address qs"
  using assms
proof (induction imps arbitrary: al ad)
  case Nil
  then show ?case by simp
next
  case (Cons i imps)
  obtain index imp where i: "i = (index, imp)" by (cases i)
  from Cons.prems obtain al1 ad1 where step: "bind_compact placement reserved (index, imp) (al, ad) = Inr (al1, ad1)"
    and rest: "for_each (bind_compact placement reserved) imps (al1, ad1) = Inr (al', ad')" by (auto simp: i)
  from bind_compact_step [OF step] obtain q where
    q: "compact_provider placement imp = Some q" "provider_address q < limit24"
    and next_state: "al1 = al @ [provider_region q]" "ad1 = ad @ [provider_address q]" by auto
  from Cons.IH [OF rest] obtain qs where
    "list_all2 (\<lambda>i q. compact_provider placement (snd i) = Some q \<and> provider_address q < limit24) imps qs"
    "al' = al1 @ map provider_region qs" "ad' = ad1 @ map provider_address qs" by blast
  with q next_state show ?case by (intro exI [of _ "q # qs"]) (simp add: i)
qed

section \<open>Patches\<close>

text \<open>The addresses a reference may have are below 2^24, so no sum overflows.\<close>

lemma compact_patch_made:
  assumes ok: "record_ok n stored s r" "s \<noteq> BssSection"
    and bases: "\<forall>i < 3. placement_bases placement ! i < limit24"
    and addresses: "length addresses = n" "\<forall>a \<in> set addresses. a < limit24"
  shows "returns (compact_patch placement addresses r)"
    and "compact_patch placement addresses r = Inr q \<Longrightarrow>
      \<exists>base. reference_base placement addresses (site_target r) = Inr base \<and>
        fst q = site_section r \<and> patch_start q = unat (site_offset r) \<and> patch_stop q = site_stop r \<and>
        unat (fst (snd (snd q))) \<le> 4 \<and>
        (site_encoding r \<noteq> WordField \<longrightarrow>
         (\<forall>j < unat (o65_width (site_encoding r)).
            patch_field q ! j = nth_byte (first_byte (site_encoding r) + j) (base + site_value r)))"
proof -
  have index: "section_index t < 3" for t by (cases t) simp_all
  have base: "\<exists>base. reference_base placement addresses (site_target r) = Inr base \<and> base < limit24"
  proof (cases "site_target r")
    case (SectionRef t)
    then show ?thesis using bases index [of t] by (simp add: reference_base_def)
  next
    case (ImportRef i)
    then show ?thesis using ok addresses by (simp add: reference_base_def record_ok_def)
  qed
  then obtain base where base: "reference_base placement addresses (site_target r) = Inr base" "base < limit24"
    by blast
  have sum: "add_u32 base (site_value r) = Inr (base + site_value r)"
    using base(2) ok(1) by (intro add_u32_fits) (simp add: record_ok_def word_less_nat_alt limit24_def)
  show "returns (compact_patch placement addresses r)"
    unfolding compact_patch_def Let_def by (simp add: base sum) (intro no_panic)
  assume q: "compact_patch placement addresses r = Inr q"
  let ?v = "base + site_value r"
  let ?w = "case site_encoding r of HighByte \<Rightarrow> drop_bit 8 ?v | BankByte \<Rightarrow> drop_bit 16 ?v | _ \<Rightarrow> ?v"
  from q have shape: "q = (site_section r, site_offset r, o65_width (site_encoding r), ?w)"
    by (auto simp: compact_patch_def Let_def base sum)
  have "patch_field q ! j = nth_byte (first_byte (site_encoding r) + j) ?v"
    if j: "j < unat (o65_width (site_encoding r))" "site_encoding r \<noteq> WordField" for j
  proof -
    have "j < 4" using j(1) by (cases "site_encoding r") simp_all
    then show ?thesis using j
      by (cases "site_encoding r")
        (simp_all add: shape patch_field_def nth_word_bytes4 first_byte_def nth_byte_def drop_bit_drop_bit)
  qed
  moreover have "unat (o65_width (site_encoding r)) \<le> 4" by (cases "site_encoding r") simp_all
  ultimately show "\<exists>base. reference_base placement addresses (site_target r) = Inr base \<and>
      fst q = site_section r \<and> patch_start q = unat (site_offset r) \<and> patch_stop q = site_stop r \<and>
      unat (fst (snd (snd q))) \<le> 4 \<and>
      (site_encoding r \<noteq> WordField \<longrightarrow>
       (\<forall>j < unat (o65_width (site_encoding r)).
          patch_field q ! j = nth_byte (first_byte (site_encoding r) + j) (base + site_value r)))"
    using base(1) ok(1) by (intro exI [of _ base]) (simp add: shape patch_start_def patch_stop_def site_stop_def record_ok_def)
qed

text \<open>The loop makes and applies one patch at a time.\<close>

lemma relocate_compact_sites:
  assumes "for_each (relocate_compact_site placement addresses) rs st = Inr st'"
  shows "\<exists>qs. map_result (compact_patch placement addresses) rs = Inr qs \<and> for_each apply_patch qs st = Inr st'"
  using assms
proof (induction rs arbitrary: st)
  case Nil
  then show ?case by simp
next
  case (Cons r rs)
  from Cons.prems obtain q t where q: "compact_patch placement addresses r = Inr q" "apply_patch q st = Inr t"
    and rest: "for_each (relocate_compact_site placement addresses) rs t = Inr st'"
    unfolding for_each.simps relocate_compact_site_def [of placement addresses r] bind_result_eq_Inr by blast
  from Cons.IH [OF rest] q show ?case by auto
qed

lemma record_patch_fits:
  assumes "record_ok n (stored_bytes f r) (site_section r) r"
    and "fst q = site_section r" "patch_stop q = site_stop r" "unat (fst (snd (snd q))) \<le> 4"
    and "length (fst st) = length (file_text f)" "length (snd st) = length (file_data f)"
  shows "patch_fits q st"
  using assms by (auto simp: patch_fits_def patch_section_def record_ok_def stored_bytes_def split: if_splits)

lemma length_applied:
  assumes "patch_fits q st" "apply_patch q st = Inr st'"
  shows "length (fst st') = length (fst st) \<and> length (snd st') = length (snd st)"
proof -
  obtain code stored where st: "st = (code, stored)" by (cases st)
  have "patch_start q + length (patch_field q) \<le> length (patch_section q (code, stored))"
    using assms(1) length_patch_field [OF assms(1)] by (simp add: st patch_fits_def patch_start_def patch_stop_def)
  then show ?thesis using assms(2) apply_patch_fits [OF assms(1) [unfolded st]]
    by (auto simp: st patch_section_def split: if_splits)
qed

lemma returns_compact_sites:
  assumes records: "\<forall>r \<in> set rs. site_section r \<noteq> BssSection \<and>
      record_ok (length addresses) (stored_bytes f r) (site_section r) r"
    and bases: "\<forall>i < 3. placement_bases placement ! i < limit24" and addresses: "\<forall>a \<in> set addresses. a < limit24"
  shows "returns (for_each (relocate_compact_site placement addresses) rs (file_text f, file_data f))"
proof (rule returns_for_each_invariant
    [where I = "\<lambda>st. length (fst st) = length (file_text f) \<and> length (snd st) = length (file_data f)"])
  fix r and st :: "bytes \<times> bytes"
  assume r: "r \<in> set rs" and st: "length (fst st) = length (file_text f) \<and> length (snd st) = length (file_data f)"
  from records r have ok: "record_ok (length addresses) (stored_bytes f r) (site_section r) r" "site_section r \<noteq> BssSection"
    by blast+
  note made = compact_patch_made [OF ok bases refl addresses]
  have fits: "patch_fits q st" if "compact_patch placement addresses r = Inr q" for q
    using made(2) [OF that] ok(1) st by (blast intro: record_patch_fits)
  show "returns (relocate_compact_site placement addresses r st)"
    unfolding relocate_compact_site_def
  proof (rule returns_bind [OF made(1)])
    fix q assume "compact_patch placement addresses r = Inr q"
    from fits [OF this] show "returns (apply_patch q st)"
      using apply_patch_fits [of q "fst st" "snd st"] by (simp add: returns_def)
  qed
  fix t assume "relocate_compact_site placement addresses r st = Inr t"
  then obtain q where "compact_patch placement addresses r = Inr q" "apply_patch q st = Inr t"
    by (auto simp: relocate_compact_site_def)
  with length_applied [OF fits] st show "length (fst t) = length (file_text f) \<and> length (snd t) = length (file_data f)"
    by metis
qed simp

section \<open>The compact loader\<close>

lemma returns_compact_application [no_panic]: "returns (compact_application bs)"
proof -
  have check: "returns (check_compact_site f r u)"
    if "unat (site_offset r) + unat (o65_width (site_encoding r)) < 2 ^ 32" for f r u
  proof -
    have "returns (case site_target r of
         ImportRef x \<Rightarrow> check (\<not> site_value r \<noteq> 0) (Message ''compact import addend'')
       | SectionRef s \<Rightarrow> check (\<not> (site_encoding r \<in> {BankByte, LongField} \<and> site_value r > file_lengths f ! section_index s))
           (Message ''compact relocation target outside section''))"
      by (cases "site_target r") (simp_all only: o65_reference.case returns_check)
    then show ?thesis unfolding check_compact_site_def by (intro no_panic returns_add_u32 that)
  qed
  have sum: "unat (site_offset r) + unat (o65_width (site_encoding r)) < 2 ^ 32"
    if "decode_file bs = Inr g" "r \<in> set (file_relocations g)" for g r
    using decode_file_records [OF that(1)] that(2)
    by (auto simp: record_ok_def site_stop_def)
  have import_read: "returns (read_compact_import raw entry)"
    if raw: "length raw = 8 + 4 * length names" and elem: "entry \<in> set (enumerate 0 names)" for raw names entry
  proof -
    obtain n name where entry: "entry = (n, name)" "n < length names"
      using elem in_set_enumerate_eq [of entry 0 names] that [of "fst entry" "snd entry"] by simp
    then have "slice raw (8 + 4 * n) (12 + 4 * n) \<noteq> None" using raw by (simp add: slice_def)
    then have "returns (ok_or O65Panic (slice raw (8 + 4 * n) (12 + 4 * n)))" by (auto simp: returns_def)
    then show ?thesis unfolding read_compact_import_def entry Let_def prod.case by (intro no_panic)
  qed
  show ?thesis
    unfolding compact_application_def Let_def compact_export_def
    by (intro no_panic import_read check) (auto simp: sum [simplified])
qed

lemma compact_entry_below:
  assumes "compact_application bs = Inr (f, info)"
  shows "compact_entry info < file_lengths f ! 0"
proof -
  from assms obtain g start entry where
    "decode_file bs = Inr g" "file_lengths f = (file_lengths g)[0 := start]" "compact_entry info = entry" "entry < start"
    unfolding compact_application_def Let_def by (auto simp: not_le)
  with decode_file_extents show ?thesis by simp
qed

text \<open>C35: The compact loader never panics either: whatever the bytes and the placement, every signature
  slice, address index and patched field is in range and no sum of 32-bit values overflows (the end of an
  exporting section, the end of a site where it is checked and where it is patched, the address of a
  target, the entry), so loading ends in an image or in an error message.
\<close>

theorem relocate_compact_never_panics: "relocate_compact bs placement \<noteq> Inl O65Panic"
proof -
  have place: "returns (place_compact f placement allowed reserved i acc)" for f allowed reserved i acc
    unfolding place_compact_def Let_def by (intro no_panic)
  have provider: "returns (add_provider_name q names)" for q names
    unfolding add_provider_name_def by (intro no_panic)
  have bind: "returns (bind_compact placement reserved i st)" for reserved i st
    unfolding bind_compact_def Let_def by (intro no_panic)
  have sites: "returns (for_each (relocate_compact_site placement addresses) (file_relocations f) (file_text f, file_data f))"
    if "compact_application bs = Inr (f, info)"
      "for_each (place_compact f placement allowed reserved) [0..<3] [] = Inr al"
      "for_each (bind_compact placement reserved) (enumerate 0 (compact_imports info)) (al, []) = Inr (al', addresses)"
    for f info allowed reserved al al' addresses
  proof -
    from bind_compact_all [OF that(3)] obtain qs where
      qs: "list_all2 (\<lambda>i q. compact_provider placement (snd i) = Some q \<and> provider_address q < limit24)
        (enumerate 0 (compact_imports info)) qs" "addresses = map provider_address qs" by auto
    have "length addresses = length (file_imports f)"
      using list_all2_lengthD [OF qs(1)] qs(2) compact_application_facts [OF that(1)] by simp
    moreover have "\<forall>a \<in> set addresses. a < limit24"
      using qs by (auto simp: list_all2_conv_all_nth in_set_conv_nth)
    moreover have "\<forall>i < 3. placement_bases placement ! i < limit24"
      using place_compact_all [OF that(2)] by simp
    ultimately show ?thesis
      using compact_application_facts [OF that(1)] by (intro returns_compact_sites) auto
  qed
  have entry: "returns (add_u32 (placement_bases placement ! 0) (compact_entry info))"
    if "compact_application bs = Inr (f, info)"
      "for_each (place_compact f placement allowed reserved) [0..<3] [] = Inr al" for f info allowed reserved al
  proof -
    have "region_fits (section_region f placement 0)" using place_compact_all [OF that(2)] by simp
    with compact_entry_below [OF that(1)] show ?thesis
      by (intro returns_add_u32) (simp add: region_fits_def section_region_def word_less_nat_alt)
  qed
  have "returns (relocate_compact bs placement)"
    unfolding relocate_compact_def Let_def
    apply (rule returns_bind [OF returns_compact_application], rule returns_prod, rule returns_bind [OF returns_check],
      rule returns_bind [OF returns_range_index_new], rule returns_bind [OF returns_range_index_new],
      rule returns_bind [OF returns_for_each [OF place]], rule returns_bind [OF returns_for_each [OF provider]],
      rule returns_bind [OF returns_for_each [OF bind]], rule returns_prod, rule returns_bind [OF returns_disjoint],
      rule returns_bind)
     apply (rule sites, simp, assumption, simp)
    apply (rule returns_prod, rule returns_bind)
     apply (rule entry [rotated], assumption, simp)
    apply (intro no_panic)
    done
  then show ?thesis by (simp add: returns_def)
qed

definition compact_target_address :: "o65_placement \<Rightarrow> compact_info \<Rightarrow> o65_relocation \<Rightarrow> u32" where
  "compact_target_address placement info r =
     (case site_target r of
        SectionRef s \<Rightarrow> placement_bases placement ! section_index s + site_value r
      | ImportRef i \<Rightarrow>
          provider_address (the (compact_provider placement (compact_imports info ! unat i))) + site_value r)"

definition compact_site_address :: "o65_placement \<Rightarrow> o65_relocation \<Rightarrow> nat \<Rightarrow> u32" where
  "compact_site_address placement r j =
     placement_bases placement ! section_index (site_section r) + (site_offset r + of_nat j)"

lemma relocate_compact_facts:
  assumes "relocate_compact bs placement = Inr img"
  shows "\<exists>f info qs patches code stored.
     compact_application bs = Inr (f, info) \<and>
     (\<forall>i < 3. placement_bases placement ! i < limit24 \<and> region_fits (section_region f placement i)) \<and>
     list_all2 (\<lambda>i q. compact_provider placement (snd i) = Some q \<and> provider_address q < limit24)
       (enumerate 0 (compact_imports info)) qs \<and>
     apart (filter (\<lambda>r. region_size r \<noteq> 0) (map (section_region f placement) [0..<3]) @ map provider_region qs) \<and>
     map_result (compact_patch placement (map provider_address qs)) (file_relocations f) = Inr patches \<and>
     for_each apply_patch patches (file_text f, file_data f) = Inr (code, stored) \<and>
     compact_segments img =
       [\<lparr>load_address = placement_bases placement ! 0, load_bytes = code, load_writable = False, load_executable = True\<rparr>] @
       (if stored = [] then []
        else [\<lparr>load_address = placement_bases placement ! 1, load_bytes = stored, load_writable = True,
               load_executable = False\<rparr>])"
proof -
  from assms obtain f info allowed reserved al al' addresses code stored where
    app: "compact_application bs = Inr (f, info)"
    and place: "for_each (place_compact f placement allowed reserved) [0..<3] [] = Inr al"
    and binds: "for_each (bind_compact placement reserved) (enumerate 0 (compact_imports info)) (al, []) = Inr (al', addresses)"
    and apart: "disjoint al' = Inr ()"
    and sites: "for_each (relocate_compact_site placement addresses) (file_relocations f) (file_text f, file_data f) =
      Inr (code, stored)"
    and img: "compact_segments img =
       [\<lparr>load_address = placement_bases placement ! 0, load_bytes = code, load_writable = False, load_executable = True\<rparr>] @
       (if stored = [] then []
        else [\<lparr>load_address = placement_bases placement ! 1, load_bytes = stored, load_writable = True,
               load_executable = False\<rparr>])"
    unfolding relocate_compact_def Let_def result_steps by (elim exE conjE) (auto split: if_splits)
  from bind_compact_all [OF binds] obtain qs where
    qs: "list_all2 (\<lambda>i q. compact_provider placement (snd i) = Some q \<and> provider_address q < limit24)
        (enumerate 0 (compact_imports info)) qs"
      "al' = al @ map provider_region qs" "addresses = map provider_address qs" by auto
  have placed: "\<forall>i < 3. placement_bases placement ! i < limit24 \<and> region_fits (section_region f placement i)"
    and al: "al = filter (\<lambda>r. region_size r \<noteq> 0) (map (section_region f placement) [0..<3])"
    using place_compact_all [OF place] by simp_all
  from apart have "apart (filter (\<lambda>r. region_size r \<noteq> 0) (map (section_region f placement) [0..<3]) @ map provider_region qs)"
    unfolding disjoint_apart qs(2) al .
  moreover obtain patches where "map_result (compact_patch placement (map provider_address qs)) (file_relocations f) = Inr patches"
    "for_each apply_patch patches (file_text f, file_data f) = Inr (code, stored)"
    using relocate_compact_sites [OF sites] qs(3) by auto
  ultimately show ?thesis using app placed qs(1) img by blast
qed

lemma compact_patches:
  assumes records: "\<forall>r \<in> set rs. site_section r \<noteq> BssSection \<and> site_encoding r \<noteq> WordField \<and>
      record_ok (length addresses) (stored_bytes f r) (site_section r) r"
    and order: "sorted_wrt in_front rs"
    and bases: "\<forall>i < 3. placement_bases placement ! i < limit24" and addresses: "\<forall>a \<in> set addresses. a < limit24"
    and patches: "map_result (compact_patch placement addresses) rs = Inr patches"
    and applied: "for_each apply_patch patches (file_text f, file_data f) = Inr (code, stored)"
    and r: "r \<in> set rs"
  shows "length code = length (file_text f) \<and> length stored = length (file_data f) \<and>
    (\<exists>base. reference_base placement addresses (site_target r) = Inr base \<and>
      (\<forall>j < unat (o65_width (site_encoding r)).
        (if site_section r = TextSection then code else stored) ! (unat (site_offset r) + j) =
        nth_byte (first_byte (site_encoding r) + j) (base + site_value r)))"
proof -
  have len: "length patches = length rs" using map_result_nth(1) [OF patches] .
  have made: "\<exists>base. reference_base placement addresses (site_target (rs ! k)) = Inr base \<and>
      fst (patches ! k) = site_section (rs ! k) \<and> patch_start (patches ! k) = unat (site_offset (rs ! k)) \<and>
      patch_stop (patches ! k) = site_stop (rs ! k) \<and> unat (fst (snd (snd (patches ! k)))) \<le> 4 \<and>
      (\<forall>j < unat (o65_width (site_encoding (rs ! k))).
         patch_field (patches ! k) ! j = nth_byte (first_byte (site_encoding (rs ! k)) + j) (base + site_value (rs ! k)))"
    if k: "k < length rs" for k
  proof -
    have ok: "record_ok (length addresses) (stored_bytes f (rs ! k)) (site_section (rs ! k)) (rs ! k)"
      "site_section (rs ! k) \<noteq> BssSection" "site_encoding (rs ! k) \<noteq> WordField"
      using records nth_mem [OF k] by blast+
    show ?thesis
      using compact_patch_made(2) [OF ok(1,2) bases refl addresses map_result_nth(2) [OF patches k]] ok(3) by blast
  qed
  have sorted: "sorted_wrt patch_in_front patches"
  proof (rule patches_in_front [OF order len])
    fix k assume k: "k < length rs"
    from made [OF k] records nth_mem [OF k] show "fst (patches ! k) = site_section (rs ! k) \<and>
      site_section (rs ! k) \<noteq> BssSection \<and> patch_start (patches ! k) = unat (site_offset (rs ! k)) \<and>
      patch_stop (patches ! k) \<le> site_stop (rs ! k)" by auto
  qed
  have fits: "\<forall>q \<in> set patches. patch_fits q (file_text f, file_data f)"
  proof
    fix q assume "q \<in> set patches"
    then obtain k where k: "k < length rs" "patches ! k = q" using len by (auto simp: in_set_conv_nth)
    have "record_ok (length addresses) (stored_bytes f (rs ! k)) (site_section (rs ! k)) (rs ! k)"
      using records nth_mem [OF k(1)] by blast
    from record_patch_fits [OF this, of "patches ! k" "(file_text f, file_data f)"] made [OF k(1)] k(2)
    show "patch_fits q (file_text f, file_data f)" by auto
  qed
  from apply_patches [OF sorted fits] applied have
    kept: "length code = length (file_text f)" "length stored = length (file_data f)"
    and fields: "\<forall>q \<in> set patches. \<forall>j < patch_stop q - patch_start q.
        patch_section q (code, stored) ! (patch_start q + j) = patch_field q ! j" by auto
  from r obtain k where k: "k < length rs" "rs ! k = r" by (auto simp: in_set_conv_nth)
  from made [OF k(1)] k(2) obtain base where
    base: "reference_base placement addresses (site_target r) = Inr base"
    and q: "fst (patches ! k) = site_section r" "patch_start (patches ! k) = unat (site_offset r)"
      "patch_stop (patches ! k) = site_stop r"
    and bytes: "\<forall>j < unat (o65_width (site_encoding r)).
         patch_field (patches ! k) ! j = nth_byte (first_byte (site_encoding r) + j) (base + site_value r)" by auto
  have elem: "patches ! k \<in> set patches" using k(1) len by simp
  have "(if site_section r = TextSection then code else stored) ! (unat (site_offset r) + j) =
      nth_byte (first_byte (site_encoding r) + j) (base + site_value r)"
    if j: "j < unat (o65_width (site_encoding r))" for j
  proof -
    have "j < patch_stop (patches ! k) - patch_start (patches ! k)" using j by (simp add: q site_stop_def)
    from fields [rule_format, OF elem this] bytes j show ?thesis
      by (cases "site_section r = TextSection") (simp_all add: q patch_section_def)
  qed
  with kept base show ?thesis by blast
qed

text \<open>C34: In a relocated compact image every site of the file holds, where it is loaded, the bytes of the
  address of its target that its encoding selects, with the base of the target's section or the address
  of the provider of that name; the compact form keeps of the addend what the standard record stores.
\<close>

theorem compact_sites_hold_addresses:
  assumes "relocate_compact bs placement = Inr img" and "compact_application bs = Inr (f, info)"
    and "r \<in> set (file_relocations f)" and "j < unat (o65_width (site_encoding r))"
  shows "load_byte (compact_segments img) (compact_site_address placement r j) =
     Some (nth_byte (first_byte (site_encoding r) + j) (compact_target_address placement info r))"
proof -
  from relocate_compact_facts [OF assms(1)] assms(2) obtain qs patches code stored where
    placed: "\<forall>i < 3. placement_bases placement ! i < limit24 \<and> region_fits (section_region f placement i)"
    and qs: "list_all2 (\<lambda>i q. compact_provider placement (snd i) = Some q \<and> provider_address q < limit24)
       (enumerate 0 (compact_imports info)) qs"
    and apart: "apart (filter (\<lambda>r. region_size r \<noteq> 0) (map (section_region f placement) [0..<3]) @ map provider_region qs)"
    and patches: "map_result (compact_patch placement (map provider_address qs)) (file_relocations f) = Inr patches"
    and applied: "for_each apply_patch patches (file_text f, file_data f) = Inr (code, stored)"
    and img: "compact_segments img =
       [\<lparr>load_address = placement_bases placement ! 0, load_bytes = code, load_writable = False, load_executable = True\<rparr>] @
       (if stored = [] then []
        else [\<lparr>load_address = placement_bases placement ! 1, load_bytes = stored, load_writable = True,
               load_executable = False\<rparr>])" by auto
  note facts = compact_application_facts [OF assms(2)]
  let ?addresses = "map provider_address qs" and ?payload = "if site_section r = TextSection then code else stored"
  have len: "length ?addresses = length (file_imports f)"
    using list_all2_lengthD [OF qs] facts by simp
  have below: "\<forall>a \<in> set ?addresses. a < limit24"
    using qs by (auto simp: list_all2_conv_all_nth in_set_conv_nth)
  have records: "\<forall>r \<in> set (file_relocations f). site_section r \<noteq> BssSection \<and> site_encoding r \<noteq> WordField \<and>
      record_ok (length ?addresses) (stored_bytes f r) (site_section r) r"
    using facts unfolding len by blast
  have bases: "\<forall>i < 3. placement_bases placement ! i < limit24" using placed by blast
  have order: "sorted_wrt in_front (file_relocations f)" using facts by blast
  from compact_patches [OF records order bases below patches applied assms(3)] obtain base where
    kept: "length code = length (file_text f)" "length stored = length (file_data f)"
    and base: "reference_base placement ?addresses (site_target r) = Inr base"
    and bytes: "\<forall>j < unat (o65_width (site_encoding r)). ?payload ! (unat (site_offset r) + j) =
        nth_byte (first_byte (site_encoding r) + j) (base + site_value r)" by blast
  have record_r: "record_ok (length ?addresses) (stored_bytes f r) (site_section r) r" "site_section r \<noteq> BssSection"
    using records assms(3) by blast+
  then have at: "unat (site_offset r) + j < 2 ^ 32" "unat (site_offset r) + j < length ?payload"
    using assms(4) kept by (auto simp: record_ok_def site_stop_def stored_bytes_def)
  then have offset: "unat (site_offset r + of_nat j) = unat (site_offset r) + j"
    by (simp add: unat_word_ariths unsigned_of_nat take_bit_nat_eq_self)
  have sizes: "unat (file_lengths f ! 0) = length code" "unat (file_lengths f ! 1) = length stored"
    using facts kept by simp_all
  have fits: "region_fits (section_region f placement 0)" "region_fits (section_region f placement 1)"
    using placed by simp_all
  let ?text = "\<lparr>load_address = placement_bases placement ! 0, load_bytes = code, load_writable = False, load_executable = True\<rparr>"
  have covered: "covered_to (placement_bases placement ! 0) code (length code, [?text])"
  proof -
    have "shows_text (placement_bases placement ! 0) code ?text"
      unfolding shows_text_def by (intro exI [of _ 0] exI [of _ "length code"]) simp
    moreover have "segment_covers ?text (placement_bases placement ! 0 + of_nat k)" if "k < length code" for k
      using that fits(1) sizes(1) unat_place [of "placement_bases placement ! 0" "length code" k]
      by (simp add: segment_covers_def region_fits_def section_region_def)
    ultimately show ?thesis by (simp add: covered_to_def)
  qed
  let ?img = "\<lparr>image_segments = compact_segments img, image_zero_fill = [], image_profile = undefined,
      image_bases = placement_bases placement, image_entry = 0, image_stack_overflow = 0, image_arithmetic_fault = None\<rparr>"
  have "load_byte (image_segments ?img)
      (placement_bases placement ! section_index (site_section r) + (site_offset r + of_nat j)) =
      Some (?payload ! unat (site_offset r + of_nat j))"
    by (rule conjunct2, rule loaded_image_section [OF covered sizes fits regions_apart [OF apart]])
      (use img record_r(2) at(2) in \<open>simp_all add: offset\<close>)
  then have loaded: "load_byte (compact_segments img) (compact_site_address placement r j) =
      Some (?payload ! (unat (site_offset r) + j))"
    unfolding offset by (simp add: compact_site_address_def)
  have "base + site_value r = compact_target_address placement info r"
  proof (cases "site_target r")
    case (SectionRef s)
    with base show ?thesis by (simp add: reference_base_def compact_target_address_def)
  next
    case (ImportRef i)
    with base have i: "unat i < length qs" "base = provider_address (qs ! unat i)"
      by (auto simp: reference_base_def split: if_splits)
    have "compact_provider placement (compact_imports info ! unat i) = Some (qs ! unat i)"
      using qs i(1) by (simp add: list_all2_conv_all_nth nth_enumerate_eq)
    with ImportRef i show ?thesis by (simp add: compact_target_address_def)
  qed
  with loaded bytes assms(4) show ?thesis by simp
qed

end
