(* ===== verification/O65_Accept.thy ===== *)
theory O65_Accept
  imports O65_Panic_Free
begin

text \<open>
  Which placements the o65 loader accepts: for an admitted application, \<open>relocate\<close> returns an image exactly
  when the placement meets \<open>placement_acceptable\<close>, which states the conditions of the stages of
  \<open>src/src/mir65816/o65/relocate.rs\<close> on the regions and providers themselves, without the range indexes,
  the provider map and the loops. Lemmas: the result of every stage, in both directions.
\<close>

section \<open>The conditions\<close>

definition region_in_memory :: "o65_region \<Rightarrow> bool" where
  "region_in_memory r \<longleftrightarrow>
     unat (region_address r) < 2 ^ 24 \<and> unat (region_address r) + unat (region_size r) \<le> 2 ^ 24"

definition clear_of :: "o65_region list \<Rightarrow> o65_region \<Rightarrow> bool" where
  "clear_of rs r \<longleftrightarrow> \<not> list_ex (\<lambda>q. o65_overlaps q r) rs"

definition section_acceptable :: "o65_file \<Rightarrow> o65_profile \<Rightarrow> o65_placement \<Rightarrow> nat \<Rightarrow> bool" where
  "section_acceptable f p placement i \<longleftrightarrow>
     (let r = section_region f placement i in
      region_in_memory r \<and>
      (if region_size r = 0 then region_address r = 0
       else 65536 \<le> region_address r \<and> region_address r mod (if i = 0 then 65536 else 4) = 0 \<and>
            list_ex (region_within r) (placement_allowed placement) \<and>
            clear_of (placement_reserved placement) r \<and>
            \<not> list_ex (\<lambda>b. location_section (object_location b) = None \<and> o65_overlaps r (object_region b))
                (profile_objects p)))"

definition import_acceptable :: "o65_placement \<Rightarrow> o65_import \<Rightarrow> bool" where
  "import_acceptable placement i \<longleftrightarrow>
     (case provider_of placement i of
        None \<Rightarrow> False
      | Some q \<Rightarrow>
          provider_contract q = import_contract i \<and> provider_size q \<noteq> 0 \<and>
          region_in_memory (provider_region q) \<and> clear_of (placement_reserved placement) (provider_region q))"

definition bound_provider :: "o65_placement \<Rightarrow> o65_import \<Rightarrow> o65_provider" where
  "bound_provider placement i = the (provider_of placement i)"

definition placed_regions :: "o65_file \<Rightarrow> o65_profile \<Rightarrow> o65_placement \<Rightarrow> o65_region list" where
  "placed_regions f p placement =
     filter (\<lambda>r. region_size r \<noteq> 0) (map (section_region f placement) [0..<3]) @
     map (provider_region \<circ> bound_provider placement) (profile_imports p)"

definition site_base :: "o65_profile \<Rightarrow> o65_placement \<Rightarrow> o65_reference \<Rightarrow> u32" where
  "site_base p placement t =
     (case t of
        SectionRef s \<Rightarrow> placement_bases placement ! section_index s
      | ImportRef i \<Rightarrow> provider_address (bound_provider placement (profile_imports p ! unat i)))"

definition placement_acceptable :: "o65_file \<Rightarrow> o65_profile \<Rightarrow> o65_placement \<Rightarrow> bool" where
  "placement_acceptable f p placement \<longleftrightarrow>
     placement_nmi_extra_stack placement = nmi_extra_stack p \<and>
     int (length (placement_allowed placement)) \<le> max_items \<and>
     int (length (placement_reserved placement)) \<le> max_items \<and>
     length (placement_providers placement) = length (profile_imports p) \<and>
     list_all region_in_memory (placement_allowed placement) \<and>
     list_all region_in_memory (placement_reserved placement) \<and>
     list_all (section_acceptable f p placement) [0..<3] \<and>
     distinct (map provider_name (placement_providers placement)) \<and>
     list_all (import_acceptable placement) (profile_imports p) \<and>
     apart (placed_regions f p placement) \<and>
     list_all (\<lambda>r. unat (site_base p placement (site_target r)) + unat (site_value r) < 2 ^ 24)
       (profile_relocations p)"

section \<open>Regions\<close>

lemma region_end_ex: "(\<exists>e. region_end r = Inr e) \<longleftrightarrow> region_in_memory r"
proof
  assume "\<exists>e. region_end r = Inr e"
  then obtain e where e: "region_end r = Inr e" by blast
  then have "region_fits r" by (rule region_end_fits)
  moreover from e have "unat (region_address r) < 2 ^ 24"
    by (simp add: region_end_eq_Inr limit24_def word_less_nat_alt)
  ultimately show "region_in_memory r" by (simp add: region_in_memory_def region_fits_def)
next
  assume r: "region_in_memory r"
  let ?e = "region_address r + region_size r"
  have e: "unat ?e = unat (region_address r) + unat (region_size r)"
    using r by (simp add: region_in_memory_def unat_word_ariths)
  then have "uint ?e = uint (region_address r) + uint (region_size r)" by (simp only: uint_nat of_nat_add)
  with r e have "region_end r = Inr ?e"
    by (simp add: region_end_eq_Inr region_in_memory_def word_less_nat_alt word_le_nat_alt limit24_def)
  then show "\<exists>e. region_end r = Inr e" by blast
qed

lemma map_result_ex: "(\<exists>ys. map_result f xs = Inr ys) \<longleftrightarrow> (\<forall>x \<in> set xs. \<exists>y. f x = Inr y)"
  by (induction xs) auto

lemma range_index_new_ex: "(\<exists>index. range_index_new rs = Inr index) \<longleftrightarrow> list_all region_in_memory rs"
proof -
  have "(\<exists>index. range_index_new rs = Inr index) \<longleftrightarrow>
      (\<exists>ts. map_result (\<lambda>r. bind_result (region_end r) (\<lambda>e. Inr (region_address r, e, 0 :: u32))) rs = Inr ts)"
    by (simp add: range_index_new_def)
  also have "\<dots> \<longleftrightarrow> (\<forall>r \<in> set rs. region_in_memory r)" unfolding map_result_ex by (simp add: region_end_ex)
  finally show ?thesis by (simp add: list_all_iff)
qed

section \<open>Sections\<close>

lemma place_section_iff:
  assumes allowed: "range_index_new (placement_allowed placement) = Inr allowed"
    and reserved: "range_index_new (placement_reserved placement) = Inr reserved"
  shows "place_o65_section f p placement allowed reserved i acc = Inr out \<longleftrightarrow>
     section_acceptable f p placement i \<and>
     out = acc @ (if region_size (section_region f placement i) = 0 then [] else [section_region f placement i])"
proof -
  have within: "index_contains allowed r \<longleftrightarrow> list_ex (region_within r) (placement_allowed placement)" for r
    using range_index_answers [OF allowed, of r] by (simp add: list_ex_iff region_within_def)
  have overlaps: "index_overlaps reserved r \<longleftrightarrow> \<not> clear_of (placement_reserved placement) r" for r
    using range_index_answers [OF reserved, of r] by (simp add: list_ex_iff clear_of_def)
  obtain aligned where
    aligned: "aligned \<longleftrightarrow> region_address (section_region f placement i) mod (if i = 0 then 65536 else 4) = 0"
    by blast
  show ?thesis
    unfolding place_o65_section_def Let_def section_acceptable_def section_region_def [symmetric]
      region_end_ex [symmetric] within overlaps aligned [symmetric]
    by (auto simp: not_less)
qed

lemma place_sections_iff:
  assumes "range_index_new (placement_allowed placement) = Inr allowed"
    and "range_index_new (placement_reserved placement) = Inr reserved"
  shows "for_each (place_o65_section f p placement allowed reserved) is acc = Inr out \<longleftrightarrow>
     list_all (section_acceptable f p placement) is \<and>
     out = acc @ filter (\<lambda>r. region_size r \<noteq> 0) (map (section_region f placement) is)"
  by (induction "is" arbitrary: acc) (auto simp: place_section_iff [OF assms])


section \<open>Providers\<close>

lemma add_providers_ex:
  "(\<exists>m'. for_each add_provider ps m = Inr m') \<longleftrightarrow>
     distinct (map provider_name ps) \<and> (\<forall>q \<in> set ps. m (provider_name q) = None)"
proof (induction ps arbitrary: m)
  case (Cons q ps)
  have step: "(\<exists>m'. for_each add_provider (q # ps) m = Inr m') \<longleftrightarrow>
      m (provider_name q) = None \<and> (\<exists>m'. for_each add_provider ps (m(provider_name q \<mapsto> q)) = Inr m')"
    by (auto simp: add_provider_def)
  show ?case unfolding step Cons.IH by auto (metis image_eqI)
qed simp

lemma bind_import_iff:
  assumes reserved: "range_index_new (placement_reserved placement) = Inr reserved"
    and found: "providers (import_name i) = provider_of placement i"
  shows "bind_import providers reserved i (allocations, addresses) = Inr out \<longleftrightarrow>
     import_acceptable placement i \<and>
     out = (allocations @ [provider_region (bound_provider placement i)],
            addresses @ [provider_address (bound_provider placement i)])"
proof -
  have overlaps: "index_overlaps reserved r \<longleftrightarrow> \<not> clear_of (placement_reserved placement) r" for r
    using range_index_answers [OF reserved, of r] by (simp add: list_ex_iff clear_of_def)
  show ?thesis
    unfolding bind_import_def Let_def prod.case found overlaps import_acceptable_def bound_provider_def
      region_end_ex [symmetric]
    by (cases "provider_of placement i") auto
qed

lemma bind_imports_iff:
  assumes "range_index_new (placement_reserved placement) = Inr reserved"
    and "\<forall>i \<in> set imps. providers (import_name i) = provider_of placement i"
  shows "for_each (bind_import providers reserved) imps (allocations, addresses) = Inr out \<longleftrightarrow>
     list_all (import_acceptable placement) imps \<and>
     out = (allocations @ map (provider_region \<circ> bound_provider placement) imps,
            addresses @ map (provider_address \<circ> bound_provider placement) imps)"
  using assms(2)
  by (induction imps arbitrary: allocations addresses) (auto simp: bind_import_iff [OF assms(1)])

section \<open>Sites and segments\<close>

definition bound_addresses_of :: "o65_profile \<Rightarrow> o65_placement \<Rightarrow> u32 list" where
  "bound_addresses_of p placement = map (provider_address \<circ> bound_provider placement) (profile_imports p)"

lemma sum_below_limit24:
  "(case checked_add32 a b of None \<Rightarrow> None | Some v \<Rightarrow> if v < limit24 then Some v else None) \<noteq> None \<longleftrightarrow>
     unat a + unat b < 2 ^ 24"
proof (cases "checked_add32 a b")
  case None
  then show ?thesis using checked_add32_NoneD [OF None] by simp
next
  case (Some v)
  then show ?thesis using checked_add32_SomeD [OF Some] by (simp add: word_less_nat_alt limit24_def)
qed

lemma make_patch_ex:
  assumes "site_checked f p start (proof', wire)"
  shows "(\<exists>q. make_patch placement (bound_addresses_of p placement) (proof', wire) = Inr q) \<longleftrightarrow>
     unat (site_base p placement (site_target proof')) + unat (site_value proof') < 2 ^ 24"
proof -
  have "reference_base placement (bound_addresses_of p placement) (site_target wire) =
      Inr (site_base p placement (site_target proof'))"
    using site_checkedD(6,12) [OF assms]
    by (auto simp: reference_base_def site_base_def bound_addresses_of_def split: o65_reference.splits)
  then show ?thesis
    unfolding make_patch_def prod.case Let_def sum_below_limit24 [symmetric] by auto
qed

lemma make_patches_ex:
  assumes "application bs = Inr (f, p)"
  shows "(\<exists>qs. map_result (make_patch placement (bound_addresses_of p placement))
         (zip (profile_relocations p) (file_relocations f)) = Inr qs) \<longleftrightarrow>
     list_all (\<lambda>r. unat (site_base p placement (site_target r)) + unat (site_value r) < 2 ^ 24)
       (profile_relocations p)"
proof -
  let ?pairs = "zip (profile_relocations p) (file_relocations f)"
  from application_facts [OF assms] obtain start where
    count: "length (profile_relocations p) = length (file_relocations f)"
    and checked: "\<forall>pair \<in> set ?pairs. site_checked f p start pair" by blast
  have "(\<exists>qs. map_result (make_patch placement (bound_addresses_of p placement)) ?pairs = Inr qs) \<longleftrightarrow>
      (\<forall>pair \<in> set ?pairs. unat (site_base p placement (site_target (fst pair))) + unat (site_value (fst pair)) < 2 ^ 24)"
    unfolding map_result_ex using checked make_patch_ex by (metis prod.collapse)
  also have "\<dots> \<longleftrightarrow> (\<forall>r \<in> fst ` set ?pairs. unat (site_base p placement (site_target r)) + unat (site_value r) < 2 ^ 24)"
    by simp
  also have "fst ` set ?pairs = set (profile_relocations p)"
    using count by (metis map_fst_zip set_map)
  finally show ?thesis by (simp add: list_all_iff)
qed

text \<open>Behind the patches nothing can fail.\<close>

lemma panics_only_Inr: "returns r \<Longrightarrow> (\<And>e. r = Inl e \<Longrightarrow> e = O65Panic) \<Longrightarrow> \<exists>x. r = Inr x"
  by (cases r) (auto simp: returns_def)

lemma text_segments_ex:
  assumes app: "application bs = Inr (f, p)" "length code = length (file_text f)"
    and base: "unat base + length code \<le> 2 ^ 24"
  shows "\<exists>segments. text_segments base code (profile_routines p) = Inr segments"
proof (rule panics_only_Inr)
  show "returns (text_segments base code (profile_routines p))"
    by (intro returns_text_segments application_routines [OF app] base)
  show "e = O65Panic" if "text_segments base code (profile_routines p) = Inl e" for e
  proof -
    have gap: "e = O65Panic" if "gap_segment base cursor bs = Inl e" for cursor bs
      using that by (auto simp: gap_segment_def bind_result_eq_Inl add_u32_eq_Inl)
    from that consider
      "for_each (routine_segments base code) (sort_key routine_offset (profile_routines p)) (0, []) = Inl e"
      | cursor bs where "gap_segment base cursor bs = Inl e"
      by (auto simp: text_segments_def bind_result_eq_Inl split: prod.splits if_splits)
    then show ?thesis
    proof cases
      case 1
      from for_each_error [OF this, where I = "\<lambda>_. True"]
      obtain r st where "routine_segments base code r st = Inl e" by auto
      then show ?thesis
        by (auto simp: routine_segments_def Let_def bind_result_eq_Inl slice_of_def ok_or_eq_Inl add_u32_eq_Inl
            dest: gap split: prod.splits if_splits)
    qed (rule gap)
  qed
qed

lemma fault_address_ex:
  assumes "application bs = Inr (f, p)" and "length addresses = length (profile_imports p)"
  shows "\<exists>fault. optional_address addresses (import_position p name) = Inr fault"
    and "\<exists>overflow. address_at addresses 0 = Inr overflow"
proof -
  show "\<exists>overflow. address_at addresses 0 = Inr overflow"
    using application_imports [OF assms(1)] assms(2) by (auto simp: address_at_def)
  show "\<exists>fault. optional_address addresses (import_position p name) = Inr fault"
    using import_position_less [of p name] assms(2)
    by (auto simp: optional_address_def address_at_def split: option.splits)
qed


section \<open>Acceptance\<close>

lemma providers_found:
  assumes "for_each add_provider (placement_providers placement) (\<lambda>_. None) = Inr providers"
  shows "\<forall>i \<in> set (profile_imports p). providers (import_name i) = provider_of placement i"
  using add_providers [OF assms] by (simp add: provider_of_def split: option.splits)

text \<open>C37: For every admitted application, \<open>relocate\<close> returns an image exactly for the acceptable
  placements: the platform allows the same NMI stack, the tables have their bounds and one provider per
  import, every region ends within 24 bits, the non-empty sections are aligned, above bank zero, in
  allowed memory and clear of reserved regions and absolute objects, the providers have distinct names,
  each import has one of its contract, and all of these are apart, and every relocated address stays
  within 24 bits. An acceptable placement is never refused by a later stage.\<close>

theorem relocate_accepts_iff:
  assumes app: "application bs = Inr (f, p)"
  shows "(\<exists>img. relocate bs placement = Inr img) \<longleftrightarrow> placement_acceptable f p placement"
proof
  assume "\<exists>img. relocate bs placement = Inr img"
  then obtain allowed reserved allocations providers allocations' addresses patches where
    tables: "placement_nmi_extra_stack placement = nmi_extra_stack p"
      "int (length (placement_allowed placement)) \<le> max_items" "int (length (placement_reserved placement)) \<le> max_items"
      "length (placement_providers placement) = length (profile_imports p)"
    and ranges: "range_index_new (placement_allowed placement) = Inr allowed"
      "range_index_new (placement_reserved placement) = Inr reserved"
    and place: "for_each (place_o65_section f p placement allowed reserved) [0..<3] [] = Inr allocations"
    and providers: "for_each add_provider (placement_providers placement) (\<lambda>_. None) = Inr providers"
    and binds: "for_each (bind_import providers reserved) (profile_imports p) (allocations, []) = Inr (allocations', addresses)"
    and apart: "disjoint allocations' = Inr ()"
    and patches: "map_result (make_patch placement addresses) (zip (profile_relocations p) (file_relocations f)) = Inr patches"
    unfolding relocate_def Let_def app bind_result_simps prod.case result_steps
    by (elim exE conjE) (simp add: not_less)
  note place' = place [unfolded place_sections_iff [OF ranges]]
  note binds' = binds [unfolded bind_imports_iff [OF ranges(2) providers_found [OF providers]]]
  from binds' have addresses: "addresses = bound_addresses_of p placement" by (simp add: bound_addresses_of_def)
  from binds' place' have "allocations' = placed_regions f p placement" by (simp add: placed_regions_def)
  with apart have "apart (placed_regions f p placement)" by (simp add: disjoint_apart)
  moreover have "list_all region_in_memory (placement_allowed placement)" "list_all region_in_memory (placement_reserved placement)"
    using ranges range_index_new_ex by blast+
  moreover have "distinct (map provider_name (placement_providers placement))"
    using providers add_providers_ex by blast
  moreover have "list_all (\<lambda>r. unat (site_base p placement (site_target r)) + unat (site_value r) < 2 ^ 24)
      (profile_relocations p)"
    using patches make_patches_ex [OF app] unfolding addresses by blast
  ultimately show "placement_acceptable f p placement"
    using tables place' binds' unfolding placement_acceptable_def by (intro conjI) simp_all
next
  assume ok: "placement_acceptable f p placement"
  from ok obtain allowed reserved where
    ranges: "range_index_new (placement_allowed placement) = Inr allowed"
      "range_index_new (placement_reserved placement) = Inr reserved"
    unfolding placement_acceptable_def range_index_new_ex [symmetric] by blast
  from ok obtain providers where
    providers: "for_each add_provider (placement_providers placement) (\<lambda>_. None) = Inr providers"
    using add_providers_ex [of "placement_providers placement" "\<lambda>_. None"]
    by (auto simp: placement_acceptable_def)
  define allocations where
    "allocations = filter (\<lambda>r. region_size r \<noteq> 0) (map (section_region f placement) [0..<3])"
  have place: "for_each (place_o65_section f p placement allowed reserved) [0..<3] [] = Inr allocations"
    using ok unfolding place_sections_iff [OF ranges] placement_acceptable_def allocations_def by simp
  have binds: "for_each (bind_import providers reserved) (profile_imports p) (allocations, []) =
      Inr (placed_regions f p placement, bound_addresses_of p placement)"
    using ok unfolding bind_imports_iff [OF ranges(2) providers_found [OF providers]] placement_acceptable_def
    by (simp add: placed_regions_def bound_addresses_of_def allocations_def)
  have apart: "disjoint (placed_regions f p placement) = Inr ()"
    using ok unfolding placement_acceptable_def disjoint_apart by blast
  obtain patches where patches: "map_result (make_patch placement (bound_addresses_of p placement))
      (zip (profile_relocations p) (file_relocations f)) = Inr patches"
    using ok make_patches_ex [OF app, of placement] unfolding placement_acceptable_def by blast
  obtain code stored where applied: "for_each apply_patch patches (file_text f, file_data f) = Inr (code, stored)"
      "length code = length (file_text f)"
    using apply_patches [of patches "(file_text f, file_data f)"] application_patches [OF app patches]
    by (metis fst_conv prod.collapse)
  obtain segments where segments: "text_segments (placement_bases placement ! 0) code (profile_routines p) = Inr segments"
    using text_segments_ex [OF app applied(2) placed_text(1) [OF app place applied(2)]] by blast
  have "length (bound_addresses_of p placement) = length (profile_imports p)" by (simp add: bound_addresses_of_def)
  from fault_address_ex [OF app this] obtain fault overflow where
    "optional_address (bound_addresses_of p placement) (import_position p arithmetic_fault_name) = Inr fault"
    "address_at (bound_addresses_of p placement) 0 = Inr overflow"
    by blast
  moreover have "placement_nmi_extra_stack placement = nmi_extra_stack p"
      "\<not> int (length (placement_allowed placement)) > max_items" "\<not> int (length (placement_reserved placement)) > max_items"
      "length (placement_providers placement) = length (profile_imports p)"
    using ok by (auto simp: placement_acceptable_def)
  ultimately show "\<exists>img. relocate bs placement = Inr img"
    using placed_text(2) [OF app place applied(2)]
    by (simp add: relocate_def Let_def app ranges place providers binds apart patches applied(1) segments)
qed

end
