(* ===== verification/O65_Sample.thy ===== *)
theory O65_Sample
  imports O65_Compact_Correct O65_Accept
begin

text \<open>
  One small application, written, admitted and relocated: a routine that calls the overflow handler, a
  pointer to it in the data, an object in BSS. The witnesses of the properties of the loader use it.
\<close>

definition app_contract :: o65_contract where
  "app_contract =
     \<lparr>contract_abi = abi_name, contract_signature = 7, contract_arguments = [], contract_result = 2,
      contract_incoming = 1, contract_stack_peak = 0, contract_irq_effect = 0, contract_kind = 0,
      contract_domains = 3\<rparr>"

definition app_profile :: o65_profile where
  "app_profile =
     \<lparr>profile_version = 1, nmi_extra_stack = 0, profile_entry = 0,
      profile_routines =
        [\<lparr>routine_id = 1, routine_name = ascii ''Main'', routine_offset = 0, routine_size = 8,
          routine_contract = app_contract, routine_frame = 2, routine_spill = 0, routine_local_peak = 2\<rparr>],
      profile_objects =
        [\<lparr>object_kind = 0, object_id = 1, object_name = ascii ''P'',
          object_location = \<lparr>location_section = Some DataSection, location_offset = 0\<rparr>,
          object_size = 4, object_alignment = 4, object_mutable = True, object_alias = False\<rparr>,
         \<lparr>object_kind = 0, object_id = 2, object_name = ascii ''B'',
          object_location = \<lparr>location_section = Some BssSection, location_offset = 0\<rparr>,
          object_size = 4, object_alignment = 4, object_mutable = True, object_alias = False\<rparr>],
      profile_imports = [\<lparr>import_name = overflow_name, import_contract = overflow_contract\<rparr>],
      profile_relocations =
        [\<lparr>site_section = TextSection, site_offset = 1, site_encoding = LongField,
          site_target = ImportRef 0, site_value = 0, zero_extend = False\<rparr>,
         \<lparr>site_section = TextSection, site_offset = 5, site_encoding = HighByte,
          site_target = SectionRef BssSection, site_value = 2, zero_extend = False\<rparr>,
         \<lparr>site_section = DataSection, site_offset = 0, site_encoding = LongField,
          site_target = SectionRef TextSection, site_value = 4, zero_extend = True\<rparr>]\<rparr>"

definition app_artifact :: o65_artifact where
  "app_artifact =
     \<lparr>artifact_compact = False, artifact_text = [0x22, 0, 0, 0, 0xA9, 0, 0xEA, 0x6B],
      artifact_data = [4, 0, 0, 0], artifact_bss = 4, artifact_profile = app_profile\<rparr>"

definition app_placement :: o65_placement where
  "app_placement =
     \<lparr>placement_bases = [0x10000, 0x20100, 0x201FC],
      placement_allowed = [\<lparr>region_address = 0x10000, region_size = 0x20000\<rparr>],
      placement_reserved = [\<lparr>region_address = 0x20000, region_size = 0x100\<rparr>],
      placement_nmi_extra_stack = 0,
      placement_providers =
        [\<lparr>provider_name = overflow_name, provider_address = 0x1234, provider_size = 16,
          provider_contract = overflow_contract\<rparr>]\<rparr>"

lemma app_relocates:
  "case write_artifact app_artifact of Inl _ \<Rightarrow> False
     | Inr bs \<Rightarrow> (case relocate bs app_placement of Inl _ \<Rightarrow> False
         | Inr img \<Rightarrow> image_profile img = app_profile \<and>
             image_location img \<lparr>location_section = Some TextSection, location_offset = 1\<rparr> = Inr 0x10001)"
  by code_simp

lemma app_image:
  "\<exists>bs img. write_artifact app_artifact = Inr bs \<and> relocate bs app_placement = Inr img \<and>
     image_profile img = app_profile"
  using app_relocates by (auto split: sum.splits)

theorem relocation_respects_placement_witness:
  "\<exists>bs img f qs. relocate bs app_placement = Inr img \<and> application bs = Inr (f, app_profile) \<and>
     apart (filter (\<lambda>r. region_size r \<noteq> 0) (map (section_region f app_placement) [0..<3]) @ map provider_region qs)"
proof -
  obtain bs img where "relocate bs app_placement = Inr img" "image_profile img = app_profile"
    using app_image by blast
  with relocation_respects_placement [of bs app_placement img] show ?thesis by auto
qed

theorem relocated_sites_hold_addresses_witness:
  "\<exists>bs img. relocate bs app_placement = Inr img \<and>
     site_byte img (profile_relocations app_profile ! 0) 1 = Some 0x12"
proof -
  obtain bs img where img: "relocate bs app_placement = Inr img" "image_profile img = app_profile"
    using app_image by blast
  let ?r = "profile_relocations app_profile ! 0"
  have "1 < unat (o65_width (site_encoding ?r))" "?r \<in> set (profile_relocations app_profile)"
    by (simp_all add: app_profile_def)
  moreover have "nth_byte (first_byte (site_encoding ?r) + 1) (target_address app_placement app_profile ?r) = 0x12"
    by code_simp
  ultimately show ?thesis
    using relocated_sites_hold_addresses [OF img(1), of ?r] img by metis
qed

theorem relocate_accepts_iff_witness:
  "\<exists>bs f. application bs = Inr (f, app_profile) \<and> (\<exists>img. relocate bs app_placement = Inr img) \<and>
     placement_acceptable f app_profile app_placement"
proof -
  obtain bs img where img: "relocate bs app_placement = Inr img" "image_profile img = app_profile"
    using app_image by blast
  from relocate_facts [OF img(1)] img(2) obtain f where "application bs = Inr (f, app_profile)" by auto
  with relocate_accepts_iff [OF this, of app_placement] img(1) show ?thesis by blast
qed

lemma app_descriptor: "\<exists>descriptor. encode_descriptor app_profile = Inr descriptor"
proof -
  have "case encode_descriptor app_profile of Inl _ \<Rightarrow> False | Inr _ \<Rightarrow> True" by code_simp
  then show ?thesis by (auto split: sum.splits)
qed

lemma app_valid:
  "case encode_descriptor app_profile of Inl _ \<Rightarrow> False
     | Inr descriptor \<Rightarrow>
         validate_profile (read_back (artifact_file app_artifact (artifact_text app_artifact @ descriptor)))
           app_profile (of_nat (length (artifact_text app_artifact))) = Inr ()"
  by code_simp

theorem written_artifact_admitted_witness:
  "\<exists>bs. write_artifact app_artifact = Inr bs \<and> inspect bs = Inr app_profile"
proof -
  obtain bs img where bs: "write_artifact app_artifact = Inr bs" using app_image by blast
  obtain descriptor where d: "encode_descriptor app_profile = Inr descriptor" using app_descriptor by blast
  have profile: "artifact_profile app_artifact = app_profile" by (simp add: app_artifact_def)
  have names: "names_utf8 app_profile" by code_simp
  have version: "profile_version app_profile = 1"
    "\<not> (\<exists>i \<in> set (profile_imports app_profile). contract_kind (import_contract i) = 2)"
    by (simp_all add: app_profile_def overflow_contract_def)
  have valid: "validate_profile (read_back (artifact_file app_artifact (artifact_text app_artifact @ descriptor)))
       app_profile (of_nat (length (artifact_text app_artifact))) = Inr ()"
    using app_valid d by simp
  have "inspect bs = Inr (artifact_profile app_artifact)"
    using written_artifact_admitted [OF bs, unfolded profile, OF _ names _ _ d _ valid] version profile
    by (simp add: app_artifact_def app_profile_def)
  with bs profile show ?thesis by simp
qed

section \<open>The same application in the compact form\<close>

lemma app_compact:
  "case write_artifact (app_artifact\<lparr>artifact_compact := True\<rparr>) of Inl _ \<Rightarrow> False
     | Inr bs \<Rightarrow> (case (relocate_compact bs app_placement, compact_application bs) of
         (Inr img, Inr (f, info)) \<Rightarrow>
           length (file_relocations f) = 3 \<and> site_encoding (file_relocations f ! 0) = LongField \<and>
           nth_byte 1 (compact_target_address app_placement info (file_relocations f ! 0)) = 0x12
       | _ \<Rightarrow> False)"
  by code_simp

theorem compact_sites_hold_addresses_witness:
  "\<exists>bs img f info. relocate_compact bs app_placement = Inr img \<and> compact_application bs = Inr (f, info) \<and>
     load_byte (compact_segments img) (compact_site_address app_placement (file_relocations f ! 0) 1) = Some 0x12"
proof -
  obtain bs img f info where
    run: "relocate_compact bs app_placement = Inr img" "compact_application bs = Inr (f, info)"
    and facts: "length (file_relocations f) = 3" "site_encoding (file_relocations f ! 0) = LongField"
      "nth_byte 1 (compact_target_address app_placement info (file_relocations f ! 0)) = 0x12"
    using app_compact by (auto split: sum.splits prod.splits)
  have "file_relocations f ! 0 \<in> set (file_relocations f)" using facts(1) by (intro nth_mem) simp
  with compact_sites_hold_addresses [OF run this, of 1] facts(2,3) run show ?thesis
    by (auto simp: first_byte_def)
qed

end
