(* ===== verification/Atari_Real.thy ===== *)
theory Atari_Real
  imports Complex_Main Prelude
begin

text \<open>
  Exact conversion of decimal constants to the six-byte floating point values of the Atari
  (\<open>src/src/atari_real.rs\<close>): the parser of the spelling with its error offsets, the encoder to five
  packed decimal byte pairs and a base-100 exponent, and the rounding of a value to an integer. A
  source text is its bytes. Lemmas: what the parser's cursor reads, the grammar of the accepted
  spellings, the value of the kept digits. Properties: a constant is converted to its value cut after
  the kept digits, and \<open>rounded_integer\<close> is the nearest integer, halves away from zero.
\<close>

section \<open>Values\<close>

datatype atari_real = AtariReal bytes

fun real_bytes :: "atari_real \<Rightarrow> bytes" where
  "real_bytes (AtariReal bs) = bs"

record real_integer =
  integer_value :: int
  integer_exact :: bool

definition real_zero :: atari_real where
  "real_zero = AtariReal (replicate 6 0)"

definition real_is_zero :: "atari_real \<Rightarrow> bool" where
  "real_is_zero r \<longleftrightarrow> real_bytes r ! 0 = 0"

definition real_is_negative :: "atari_real \<Rightarrow> bool" where
  "real_is_negative r \<longleftrightarrow> \<not> real_is_zero r \<and> real_bytes r ! 0 AND 0x80 \<noteq> 0"

definition real_negated :: "atari_real \<Rightarrow> atari_real" where
  "real_negated r =
     (if real_is_zero r then r
      else AtariReal ((real_bytes r)[0 := real_bytes r ! 0 XOR 0x80]))"

section \<open>Rounding to an integer\<close>

definition u128_max :: nat where
  "u128_max = 2 ^ 128 - 1"

definition i128_max :: nat where
  "i128_max = 2 ^ 127 - 1"

definition checked_mul128 :: "nat \<Rightarrow> nat \<Rightarrow> nat option" where
  "checked_mul128 a b = (if a * b \<le> u128_max then Some (a * b) else None)"

fun checked_pow_100 :: "nat \<Rightarrow> nat option" where
  "checked_pow_100 0 = Some 1"
| "checked_pow_100 (Suc n) = Option.bind (checked_pow_100 n) (\<lambda>v. checked_mul128 v 100)"

definition real_exponent :: "atari_real \<Rightarrow> int" where
  "real_exponent r = uint (real_bytes r ! 0 AND 0x7F) - 64"

definition pair_digits :: "u8 \<Rightarrow> nat" where
  "pair_digits b = unat (drop_bit 4 b) * 10 + unat (b AND 0x0F)"

definition real_mantissa :: "atari_real \<Rightarrow> nat" where
  "real_mantissa r = foldl (\<lambda>v b. v * 100 + pair_digits b) 0 (tl (real_bytes r))"

text \<open>The magnitude and whether it is exact. The mantissa of any five bytes is below
  \<open>2 ^ 128\<close>, so that the sums of the fold and of the rounding do not overflow, nor does the saturating
  doubling of a remainder.\<close>

definition rounded_magnitude :: "atari_real \<Rightarrow> (nat \<times> bool) option" where
  "rounded_magnitude r =
     (let mantissa = real_mantissa r; pair_scale = real_exponent r - 4
      in if 0 \<le> pair_scale then
           Option.bind (checked_pow_100 (nat pair_scale)) (\<lambda>factor.
           Option.bind (checked_mul128 mantissa factor) (\<lambda>m. Some (m, True)))
         else
           (let pairs = nat \<bar>pair_scale\<bar>
            in if 6 \<le> pairs then Some (0, False)
               else Option.bind (checked_pow_100 pairs) (\<lambda>denominator.
                 (let quotient = mantissa div denominator; remainder = mantissa mod denominator
                  in Some (quotient + (if denominator \<le> min u128_max (remainder * 2) then 1 else 0),
                           remainder = 0)))))"

definition rounded_integer :: "atari_real \<Rightarrow> real_integer option" where
  "rounded_integer r =
     (if real_is_zero r then Some \<lparr>integer_value = 0, integer_exact = True\<rparr>
      else Option.bind (rounded_magnitude r) (\<lambda>(magnitude, exact).
        if magnitude \<le> i128_max then
          Some \<lparr>integer_value = (if real_is_negative r then - int magnitude else int magnitude),
                integer_exact = exact\<rparr>
        else None))"

section \<open>Parsing\<close>

datatype parse_real_error_kind =
    MissingDigits
  | MissingExponentDigits
  | ExponentHasMoreThanTwoDigits
  | UnexpectedCharacter
  | RealOverflow

datatype parse_real_error = ParseRealError parse_real_error_kind nat

record parsed_decimal =
  parsed_negative :: bool
  significant_digits :: bytes
  decimal_power :: int
  error_offset :: nat

text \<open>Casts to \<open>i32\<close> and sums of \<open>i32\<close> wrap: the release build. Below \<open>2 ^ 31 - 200\<close> bytes of text no sum
  leaves the range.\<close>

definition wrap_i32 :: "int \<Rightarrow> int" where
  "wrap_i32 v = signed_take_bit 31 v"

definition is_ascii_digit :: "u8 \<Rightarrow> bool" where
  "is_ascii_digit b \<longleftrightarrow> 48 \<le> b \<and> b \<le> 57"

definition get_byte :: "bytes \<Rightarrow> nat \<Rightarrow> u8 option" where
  "get_byte bs p = (if p < length bs then Some (bs ! p) else None)"

function consume_digits :: "bytes \<Rightarrow> nat \<Rightarrow> nat" where
  "consume_digits bs p =
     (if (case get_byte bs p of Some b \<Rightarrow> is_ascii_digit b | None \<Rightarrow> False)
      then consume_digits bs (p + 1) else p)"
  by pat_completeness auto
termination
  by (relation "measure (\<lambda>(bs, p). length bs - p)") (auto simp: get_byte_def split: if_splits)

declare consume_digits.simps [simp del]

text \<open>An optional sign at a position: the position behind it, and whether it was a minus.\<close>

definition read_sign :: "bytes \<Rightarrow> nat \<Rightarrow> nat \<times> bool" where
  "read_sign bs p =
     (case get_byte bs p of
        Some b \<Rightarrow> if b = 43 then (p + 1, False) else if b = 45 then (p + 1, True) else (p, False)
      | None \<Rightarrow> (p, False))"

definition digit_value :: "u8 \<Rightarrow> nat" where
  "digit_value b = unat (b - 48)"

definition parse_exponent :: "bytes \<Rightarrow> nat \<Rightarrow> parse_real_error + nat \<times> int" where
  "parse_exponent bs p =
     (if get_byte bs p \<in> {Some 69, Some 101} then
        let (start, negative) = read_sign bs (p + 1);
            q = consume_digits bs start;
            digits = q - start
        in bind_result (check (digits \<noteq> 0) (ParseRealError MissingExponentDigits q)) (\<lambda>_.
           bind_result
             (check (\<not> digits > 2) (ParseRealError ExponentHasMoreThanTwoDigits (start + 2))) (\<lambda>_.
           let v = foldl (\<lambda>v d. v * 10 + int (digit_value d)) 0 (take digits (drop start bs))
           in Inr (q, if negative then - v else v)))
      else Inr (p, 0))"

definition parse_fraction :: "bytes \<Rightarrow> nat \<Rightarrow> nat \<times> nat" where
  "parse_fraction bs p =
     (if get_byte bs p = Some 46
      then let q = consume_digits bs (p + 1) in (q, q - (p + 1))
      else (p, 0))"

definition parse_decimal :: "bytes \<Rightarrow> parse_real_error + parsed_decimal" where
  "parse_decimal bs =
     (if \<not> (\<forall>b \<in> set bs. b < 128) then
        Inl (ParseRealError UnexpectedCharacter (length (takeWhile (\<lambda>b. b < 128) bs)))
      else
        let (integer_start, negative) = read_sign bs 0;
            p = consume_digits bs integer_start;
            integer_digits = p - integer_start;
            (significand_end, fractional_digits) = parse_fraction bs p
        in bind_result (check (integer_digits + fractional_digits \<noteq> 0)
                          (ParseRealError MissingDigits significand_end)) (\<lambda>_.
           bind_result (parse_exponent bs significand_end) (\<lambda>(q, exponent).
           bind_result (check (q = length bs) (ParseRealError UnexpectedCharacter q)) (\<lambda>_.
           Inr \<lparr>parsed_negative = negative,
                significant_digits = take (significand_end - integer_start) (drop integer_start bs),
                decimal_power = wrap_i32 (exponent - wrap_i32 (int fractional_digits)),
                error_offset = length bs\<rparr>))))"

section \<open>Encoding\<close>

fun pack_pairs :: "nat list \<Rightarrow> bytes" where
  "pack_pairs (a # b # ds) = (push_bit 4 (of_nat a) OR of_nat b) # pack_pairs ds"
| "pack_pairs _ = []"

definition mantissa_digits :: "bool \<Rightarrow> bytes \<Rightarrow> nat list" where
  "mantissa_digits odd_power digits =
     (let destination = (if odd_power then 0 else 1);
          kept = map digit_value (take (10 - destination) digits)
      in replicate destination 0 @ kept @ replicate (10 - destination - length kept) 0)"

definition encode_decimal :: "parsed_decimal \<Rightarrow> parse_real_error + atari_real" where
  "encode_decimal d =
     (let digits = dropWhile (\<lambda>b. b = 48) (filter is_ascii_digit (significant_digits d))
      in if digits = [] then Inr real_zero
         else
           let scientific_power =
                 wrap_i32 (wrap_i32 (wrap_i32 (int (length digits)) - 1) + decimal_power d);
               base100_exponent = scientific_power div 2
           in if base100_exponent < - 49 then Inr real_zero
              else if base100_exponent > 49 then
                Inl (ParseRealError RealOverflow (error_offset d))
              else
                let first = word_of_int (base100_exponent + 64) :: u8;
                    first = (if parsed_negative d then first OR 0x80 else first)
                in Inr (AtariReal (first # pack_pairs
                     (mantissa_digits (scientific_power mod 2 \<noteq> 0) digits))))"

definition from_decimal :: "bytes \<Rightarrow> parse_real_error + atari_real" where
  "from_decimal s = bind_result (parse_decimal s) encode_decimal"


section \<open>What the cursor reads\<close>

lemma get_byte_append [simp]:
  "get_byte (xs @ ys) (length xs) = (case ys of [] \<Rightarrow> None | b # _ \<Rightarrow> Some b)"
  by (auto simp: get_byte_def nth_append split: list.splits)

lemma get_byte_end [simp]: "get_byte xs (length xs) = None"
  by (simp add: get_byte_def)

lemma consume_digits_eq:
  "p \<le> length bs \<Longrightarrow> consume_digits bs p = p + length (takeWhile is_ascii_digit (drop p bs))"
proof (induction bs p rule: consume_digits.induct)
  case (1 bs p)
  show ?case
  proof (cases "p < length bs")
    case True
    then have "drop p bs = bs ! p # drop (Suc p) bs" by (simp add: Cons_nth_drop_Suc)
    with 1 True show ?thesis by (subst consume_digits.simps) (simp add: get_byte_def)
  next
    case False
    then show ?thesis by (subst consume_digits.simps) (simp add: get_byte_def)
  qed
qed

definition ends_run :: "(u8 \<Rightarrow> bool) \<Rightarrow> bytes \<Rightarrow> bool" where
  "ends_run P bs \<longleftrightarrow> (case bs of [] \<Rightarrow> True | b # _ \<Rightarrow> \<not> P b)"

lemma consume_digits_run:
  assumes "\<forall>b \<in> set ds. is_ascii_digit b" and "ends_run is_ascii_digit ys"
  shows "consume_digits (xs @ ds @ ys) (length xs) = length xs + length ds"
proof -
  have "takeWhile is_ascii_digit (ds @ ys) = ds"
    using assms by (cases ys) (simp_all add: takeWhile_append ends_run_def)
  then show ?thesis by (simp add: consume_digits_eq)
qed

definition sign_text :: "bytes \<Rightarrow> bool" where
  "sign_text sg \<longleftrightarrow> sg \<in> {[], [43], [45]}"

lemma read_sign_run:
  assumes "sign_text sg" and "ends_run (\<lambda>b. b = 43 \<or> b = 45) ys"
  shows "read_sign (xs @ sg @ ys) (length xs) = (length xs + length sg, sg = [45])"
  using assms by (cases ys) (auto simp: read_sign_def sign_text_def ends_run_def)

section \<open>Spellings of decimal constants\<close>

text \<open>The parts of a spelling: sign, integer digits, fraction digits behind a point, and the
  exponent's letter, sign and digits.\<close>

record spelling =
  spelled_sign :: bytes
  integer_part :: bytes
  fraction_part :: "bytes option"
  exponent_part :: "(u8 \<times> bytes \<times> bytes) option"

definition fraction_digits :: "spelling \<Rightarrow> bytes" where
  "fraction_digits s = (case fraction_part s of None \<Rightarrow> [] | Some f \<Rightarrow> f)"

definition fraction_text :: "spelling \<Rightarrow> bytes" where
  "fraction_text s = (case fraction_part s of None \<Rightarrow> [] | Some f \<Rightarrow> 46 # f)"

definition exponent_text :: "spelling \<Rightarrow> bytes" where
  "exponent_text s = (case exponent_part s of None \<Rightarrow> [] | Some (e, sg, ds) \<Rightarrow> e # sg @ ds)"

definition spelled :: "spelling \<Rightarrow> bytes" where
  "spelled s = spelled_sign s @ integer_part s @ fraction_text s @ exponent_text s"

definition digits_value :: "bytes \<Rightarrow> nat" where
  "digits_value ds = foldl (\<lambda>v d. v * 10 + digit_value d) 0 ds"

definition spelled_exponent :: "spelling \<Rightarrow> int" where
  "spelled_exponent s =
     (case exponent_part s of
        None \<Rightarrow> 0
      | Some (e, sg, ds) \<Rightarrow> (if sg = [45] then - int (digits_value ds) else int (digits_value ds)))"

definition well_spelled :: "spelling \<Rightarrow> bool" where
  "well_spelled s \<longleftrightarrow>
     sign_text (spelled_sign s) \<and>
     (\<forall>b \<in> set (integer_part s @ fraction_digits s). is_ascii_digit b) \<and>
     integer_part s @ fraction_digits s \<noteq> [] \<and>
     (case exponent_part s of
        None \<Rightarrow> True
      | Some (e, sg, ds) \<Rightarrow>
          (e = 69 \<or> e = 101) \<and> sign_text sg \<and> (\<forall>b \<in> set ds. is_ascii_digit b) \<and>
          (length ds = 1 \<or> length ds = 2))"

text \<open>The rational number a spelling denotes.\<close>

definition spelled_value :: "spelling \<Rightarrow> rat" where
  "spelled_value s =
     (if spelled_sign s = [45] then - 1 else 1) *
     of_nat (digits_value (integer_part s @ fraction_digits s)) *
     10 powi (spelled_exponent s - int (length (fraction_digits s)))"

definition decimal_of :: "spelling \<Rightarrow> parsed_decimal" where
  "decimal_of s =
     \<lparr>parsed_negative = (spelled_sign s = [45]),
      significant_digits = integer_part s @ fraction_text s,
      decimal_power = wrap_i32 (spelled_exponent s - wrap_i32 (int (length (fraction_digits s)))),
      error_offset = length (spelled s)\<rparr>"

lemma digit_not_special:
  "is_ascii_digit b \<Longrightarrow> b \<noteq> 43 \<and> b \<noteq> 45 \<and> b \<noteq> 46 \<and> b \<noteq> 69 \<and> b \<noteq> 101 \<and> b < 128"
  by (auto simp: is_ascii_digit_def word_less_nat_alt word_le_nat_alt)

lemma not_digits [simp]:
  "\<not> is_ascii_digit 46" "\<not> is_ascii_digit 69" "\<not> is_ascii_digit 101" "\<not> is_ascii_digit 43" "\<not> is_ascii_digit 45"
  by (simp_all add: is_ascii_digit_def)

lemma exponent_text_ends:
  assumes "well_spelled s"
  shows "ends_run is_ascii_digit (exponent_text s)" and "get_byte (exponent_text s) 0 \<noteq> Some 46"
  using assms by (auto simp: well_spelled_def exponent_text_def ends_run_def get_byte_def
      split: option.splits list.splits)

lemma parse_fraction_spelled:
  assumes "well_spelled s"
  shows "parse_fraction (xs @ fraction_text s @ exponent_text s) (length xs) =
    (length xs + length (fraction_text s), length (fraction_digits s))"
proof (cases "fraction_part s")
  case None
  have "get_byte (xs @ exponent_text s) (length xs) \<noteq> Some 46"
    using exponent_text_ends (2) [OF assms] by (cases "exponent_text s") (auto simp: get_byte_def)
  with None show ?thesis by (simp add: parse_fraction_def fraction_text_def fraction_digits_def)
next
  case (Some f)
  have "consume_digits ((xs @ [46]) @ f @ exponent_text s) (length (xs @ [46])) = length (xs @ [46]) + length f"
    using assms Some exponent_text_ends (1) [OF assms]
    by (intro consume_digits_run) (auto simp: well_spelled_def fraction_digits_def)
  with Some show ?thesis by (simp add: parse_fraction_def fraction_text_def fraction_digits_def)
qed

lemma foldl_digits: "foldl (\<lambda>v d. v * 10 + int (digit_value d)) (int n) ds =
    int (foldl (\<lambda>v d. v * 10 + digit_value d) n ds)"
proof (induction ds arbitrary: n)
  case (Cons d ds)
  show ?case using Cons [of "n * 10 + digit_value d"] by simp
qed simp

lemma parse_exponent_spelled:
  assumes "well_spelled s"
  shows "parse_exponent (xs @ exponent_text s) (length xs) =
    Inr (length xs + length (exponent_text s), spelled_exponent s)"
proof (cases "exponent_part s")
  case None
  then show ?thesis by (simp add: parse_exponent_def exponent_text_def spelled_exponent_def)
next
  case (Some x)
  then obtain e sg ds where part: "exponent_part s = Some (e, sg, ds)" by (cases x) auto
  with assms have ok: "e = 69 \<or> e = 101" "sign_text sg" "\<forall>b \<in> set ds. is_ascii_digit b"
      "length ds = 1 \<or> length ds = 2"
    by (auto simp: well_spelled_def)
  have "read_sign ((xs @ [e]) @ sg @ ds) (length (xs @ [e])) = (length (xs @ [e]) + length sg, sg = [45])"
    using ok digit_not_special by (intro read_sign_run) (auto simp: ends_run_def split: list.splits)
  moreover have "consume_digits ((xs @ e # sg) @ ds @ []) (length (xs @ e # sg)) = length (xs @ e # sg) + length ds"
    using ok by (intro consume_digits_run) (auto simp: ends_run_def)
  moreover have "foldl (\<lambda>v d. v * 10 + int (digit_value d)) 0 ds = int (digits_value ds)"
    using foldl_digits [of 0 ds] by (simp add: digits_value_def)
  ultimately show ?thesis
    using part ok by (auto simp: parse_exponent_def exponent_text_def spelled_exponent_def)
qed

lemma spelled_ascii:
  assumes "well_spelled s"
  shows "\<forall>b \<in> set (spelled s). b < 128"
proof -
  have "\<forall>b \<in> set (fraction_text s). b < 128"
    using assms digit_not_special
    by (auto simp: well_spelled_def fraction_text_def fraction_digits_def split: option.splits)
  moreover have "\<forall>b \<in> set (exponent_text s). b < 128"
    using assms digit_not_special
    by (auto simp: well_spelled_def exponent_text_def sign_text_def split: option.splits)
  moreover have "\<forall>b \<in> set (spelled_sign s @ integer_part s). b < 128"
    using assms digit_not_special by (auto simp: well_spelled_def sign_text_def)
  ultimately show ?thesis by (auto simp: spelled_def)
qed

theorem parse_spelled:
  assumes s: "well_spelled s"
  shows "parse_decimal (spelled s) = Inr (decimal_of s)"
proof -
  let ?sg = "spelled_sign s" and ?ip = "integer_part s" and ?fr = "fraction_text s" and ?ex = "exponent_text s"
  have sign: "ends_run (\<lambda>b. b = 43 \<or> b = 45) (?ip @ ?fr @ ?ex)"
  proof (cases "?ip")
    case Nil
    with s obtain f fs where "fraction_part s = Some (f # fs)"
      by (auto simp: well_spelled_def fraction_digits_def neq_Nil_conv split: option.splits)
    with Nil show ?thesis by (simp add: ends_run_def fraction_text_def)
  next
    case (Cons b bs)
    with s digit_not_special show ?thesis by (auto simp: ends_run_def well_spelled_def)
  qed
  have "read_sign ([] @ ?sg @ ?ip @ ?fr @ ?ex) (length ([] :: bytes)) = (length ([] :: bytes) + length ?sg, ?sg = [45])"
    using s sign by (intro read_sign_run) (auto simp: well_spelled_def)
  then have 1: "read_sign (spelled s) 0 = (length ?sg, ?sg = [45])" by (simp add: spelled_def)
  have "ends_run is_ascii_digit (?fr @ ?ex)"
    using exponent_text_ends (1) [OF s] by (auto simp: fraction_text_def ends_run_def split: option.splits)
  then have 2: "consume_digits (spelled s) (length ?sg) = length ?sg + length ?ip"
    using s unfolding spelled_def by (intro consume_digits_run) (auto simp: well_spelled_def)
  have 3: "parse_fraction (spelled s) (length ?sg + length ?ip) =
      (length ?sg + length ?ip + length ?fr, length (fraction_digits s))"
    using parse_fraction_spelled [OF s, of "?sg @ ?ip"] by (simp add: spelled_def)
  have 4: "parse_exponent (spelled s) (length ?sg + length ?ip + length ?fr) =
      Inr (length (spelled s), spelled_exponent s)"
    using parse_exponent_spelled [OF s, of "?sg @ ?ip @ ?fr"] by (simp add: spelled_def add.assoc)
  have 5: "length ?ip + length (fraction_digits s) \<noteq> 0" using s by (auto simp: well_spelled_def)
  have 6: "take (length ?ip + length ?fr) (drop (length ?sg) (spelled s)) = ?ip @ ?fr"
    by (simp add: spelled_def)
  have 7: "length ?sg + length ?ip + length ?fr - length ?sg = length ?ip + length ?fr" by simp
  show ?thesis
    using 5 spelled_ascii [OF s]
    by (simp add: parse_decimal_def 1 2 3 4 [unfolded add.assoc] 6 7 decimal_of_def Let_def add.assoc del: add_is_0)
qed


text \<open>Conversely, an accepted text is such a spelling.\<close>

lemma read_sign_takes:
  assumes "p \<le> length bs" and "read_sign bs p = (q, n)"
  obtains sg where "sign_text sg" and "q = p + length sg" and "take q bs = take p bs @ sg" and "q \<le> length bs"
proof (cases "q = p")
  case True
  with assms show ?thesis by (intro that [of "[]"]) (auto simp: sign_text_def)
next
  case False
  with assms have p: "p < length bs" "q = Suc p" "bs ! p = 43 \<or> bs ! p = 45"
    by (auto simp: read_sign_def get_byte_def split: if_splits)
  then show ?thesis by (intro that [of "[bs ! p]"]) (auto simp: sign_text_def take_Suc_conv_app_nth)
qed

lemma consume_digits_takes:
  assumes "p \<le> length bs"
  obtains ds where "\<forall>b \<in> set ds. is_ascii_digit b" and "consume_digits bs p = p + length ds"
    and "take (consume_digits bs p) bs = take p bs @ ds" and "consume_digits bs p \<le> length bs"
proof -
  let ?ds = "takeWhile is_ascii_digit (drop p bs)"
  have "length ?ds \<le> length bs - p" using length_takeWhile_le [of is_ascii_digit "drop p bs"] by simp
  moreover have "take (p + length ?ds) bs = take p bs @ ?ds"
    by (simp add: take_add takeWhile_eq_take [symmetric])
  ultimately show ?thesis
    using assms by (intro that [of ?ds]) (auto simp: consume_digits_eq dest: set_takeWhileD)
qed

lemma get_byte_takes: "get_byte bs p = Some b \<Longrightarrow> p + 1 \<le> length bs \<and> take (p + 1) bs = take p bs @ [b]"
  by (auto simp: get_byte_def take_Suc_conv_app_nth split: if_splits)

lemma parse_fraction_takes:
  assumes "p \<le> length bs" and "parse_fraction bs p = (q, n)"
  obtains f where "\<forall>b \<in> set (case f of None \<Rightarrow> [] | Some ds \<Rightarrow> ds). is_ascii_digit b"
    and "take q bs = take p bs @ (case f of None \<Rightarrow> [] | Some ds \<Rightarrow> 46 # ds)" and "q \<le> length bs"
    and "n = length (case f of None \<Rightarrow> [] | Some ds \<Rightarrow> ds)"
proof (cases "get_byte bs p = Some 46")
  case False
  with assms show ?thesis by (intro that [of None]) (auto simp: parse_fraction_def)
next
  case True
  have "p + 1 \<le> length bs" and point: "take (p + 1) bs = take p bs @ [46]"
    by (simp_all only: get_byte_takes [OF True])
  from \<open>p + 1 \<le> length bs\<close> obtain ds
    where "\<forall>b \<in> set ds. is_ascii_digit b" "consume_digits bs (p + 1) = p + 1 + length ds"
      "take (consume_digits bs (p + 1)) bs = take (p + 1) bs @ ds" "consume_digits bs (p + 1) \<le> length bs"
    by (rule consume_digits_takes)
  with True assms point show ?thesis by (intro that [of "Some ds"]) (auto simp: parse_fraction_def)
qed

lemma parse_exponent_takes:
  assumes "p \<le> length bs" and "parse_exponent bs p = Inr (q, v)"
  obtains x where "case x of None \<Rightarrow> True | Some (e, sg, ds) \<Rightarrow>
      (e = 69 \<or> e = 101) \<and> sign_text sg \<and> (\<forall>b \<in> set ds. is_ascii_digit b) \<and>
      (length ds = 1 \<or> length ds = 2)"
    and "take q bs = take p bs @ (case x of None \<Rightarrow> [] | Some (e, sg, ds) \<Rightarrow> e # sg @ ds)"
proof (cases "get_byte bs p \<in> {Some 69, Some 101}")
  case False
  with assms show ?thesis by (intro that [of None]) (auto simp: parse_exponent_def)
next
  case True
  then obtain e where e: "get_byte bs p = Some e" "e = 69 \<or> e = 101" by auto
  have p: "p + 1 \<le> length bs" "take (p + 1) bs = take p bs @ [e]"
    by (simp_all only: get_byte_takes [OF e(1)])
  obtain start n where sign: "read_sign bs (p + 1) = (start, n)" by fastforce
  obtain sg where sg: "sign_text sg" "take start bs = take (p + 1) bs @ sg" "start \<le> length bs"
    using read_sign_takes [OF p (1) sign] by metis
  obtain ds where ds: "\<forall>b \<in> set ds. is_ascii_digit b" "consume_digits bs start = start + length ds"
      "take (consume_digits bs start) bs = take start bs @ ds"
    using consume_digits_takes [OF sg(3)] by metis
  from True sign ds(2) assms(2) have "q = consume_digits bs start" "ds \<noteq> []" "\<not> length ds > 2"
    by (auto simp: parse_exponent_def Let_def)
  moreover from this have "length ds \<noteq> 0" "\<not> length ds > 2" by simp_all
  then have "length ds = 1 \<or> length ds = 2" by linarith
  ultimately show ?thesis using e p sg ds by (intro that [of "Some (e, sg, ds)"]) auto
qed

theorem parse_accepts:
  assumes "parse_decimal bs = Inr d"
  shows "\<exists>s. well_spelled s \<and> spelled s = bs"
proof -
  obtain p neg where sign: "read_sign bs 0 = (p, neg)" by fastforce
  obtain r n where fraction: "parse_fraction bs (consume_digits bs p) = (r, n)" by fastforce
  have "0 \<le> length bs" by simp
  from this sign obtain sg where sg: "sign_text sg" "take p bs = sg" "p \<le> length bs"
    by (rule read_sign_takes) auto
  from sg(3) obtain ip where ip: "\<forall>b \<in> set ip. is_ascii_digit b"
      "consume_digits bs p = p + length ip" "take (consume_digits bs p) bs = sg @ ip"
      "consume_digits bs p \<le> length bs"
    by (rule consume_digits_takes) (use sg in auto)
  from ip(4) fraction obtain f where f: "\<forall>b \<in> set (case f of None \<Rightarrow> [] | Some ds \<Rightarrow> ds). is_ascii_digit b"
      "take r bs = sg @ ip @ (case f of None \<Rightarrow> [] | Some ds \<Rightarrow> 46 # ds)" "r \<le> length bs"
      "n = length (case f of None \<Rightarrow> [] | Some ds \<Rightarrow> ds)"
    by (rule parse_fraction_takes) (use ip in auto)
  from assms sign fraction ip(2) obtain q v where rest: "length ip + n \<noteq> 0"
      "parse_exponent bs r = Inr (q, v)" "q = length bs"
    by (auto simp: parse_decimal_def Let_def split: if_splits)
  from f(3) rest(2) obtain x where x: "case x of None \<Rightarrow> True | Some (e, sg, ds) \<Rightarrow>
      (e = 69 \<or> e = 101) \<and> sign_text sg \<and> (\<forall>b \<in> set ds. is_ascii_digit b) \<and>
      (length ds = 1 \<or> length ds = 2)"
    "take q bs = take r bs @ (case x of None \<Rightarrow> [] | Some (e, sg, ds) \<Rightarrow> e # sg @ ds)"
    by (rule parse_exponent_takes)
  let ?s = "\<lparr>spelled_sign = sg, integer_part = ip, fraction_part = f, exponent_part = x\<rparr>"
  have "well_spelled ?s"
    using sg ip f x rest(1) by (auto simp: well_spelled_def fraction_digits_def)
  moreover have "spelled ?s = bs"
    using f(2) x(2) rest(3) by (simp add: spelled_def fraction_text_def exponent_text_def)
  ultimately show ?thesis by blast
qed


section \<open>The value of kept digits\<close>

definition decimal :: "nat list \<Rightarrow> nat" where
  "decimal ds = foldl (\<lambda>v d. v * 10 + d) 0 ds"

lemma foldl_decimal: "foldl (\<lambda>v d. v * 10 + d) n ds = n * 10 ^ length ds + decimal ds" for n :: nat
proof (induction ds arbitrary: n)
  case (Cons d ds)
  show ?case
    using Cons [of "n * 10 + d"] Cons [of d] by (simp add: decimal_def algebra_simps)
qed (simp add: decimal_def)

lemma decimal_simps [simp]:
  "decimal [] = 0"
  "decimal (d # ds) = d * 10 ^ length ds + decimal ds"
  "decimal (xs @ ys) = decimal xs * 10 ^ length ys + decimal ys"
  using foldl_decimal [of d ds] foldl_decimal [of "decimal xs" ys] by (simp_all add: decimal_def)

lemma decimal_replicate_0 [simp]: "decimal (replicate n 0) = 0"
  by (induction n) auto

lemma decimal_less: "\<forall>d \<in> set ds. d \<le> 9 \<Longrightarrow> decimal ds < 10 ^ length ds"
proof (induction ds)
  case (Cons d ds)
  then have "d \<le> 9" "decimal ds < 10 ^ length ds" by auto
  then have "d * 10 ^ length ds + decimal ds < 9 * 10 ^ length ds + 10 ^ length ds"
    by (intro add_le_less_mono mult_le_mono1)
  then show ?case by simp
qed simp

lemma decimal_head:
  assumes "ds \<noteq> []" and "hd ds \<noteq> 0"
  shows "10 ^ (length ds - 1) \<le> decimal ds"
proof (cases ds)
  case (Cons d es)
  with assms have "1 * 10 ^ length es \<le> d * 10 ^ length es + decimal es"
    by (intro trans_le_add1 mult_le_mono1) simp
  with Cons show ?thesis by simp
qed (use assms in simp)

lemma decimal_take:
  assumes "\<forall>d \<in> set ds. d \<le> 9"
  shows "decimal (take k ds) = decimal ds div 10 ^ (length ds - k)"
proof -
  have "decimal ds = decimal (take k ds) * 10 ^ (length ds - k) + decimal (drop k ds)"
    using decimal_simps (3) [of "take k ds" "drop k ds"] by simp
  moreover have "decimal (drop k ds) < 10 ^ (length ds - k)"
    using decimal_less [of "drop k ds"] assms by (auto dest: in_set_dropD)
  ultimately show ?thesis by simp
qed

lemma digits_value_decimal: "digits_value ds = decimal (map digit_value ds)"
  by (simp add: digits_value_def decimal_def foldl_map)

lemma digit_value_le: "is_ascii_digit b \<Longrightarrow> digit_value b \<le> 9"
  by (auto simp: is_ascii_digit_def digit_value_def word_le_nat_alt unat_sub)

lemma digit_value_0: "digit_value b = 0 \<longleftrightarrow> b = 48"
  by (simp add: digit_value_def unat_0_iff)

lemma digits_value_leading_zeros:
  "digits_value (dropWhile (\<lambda>b. b = 48) ds) = digits_value ds"
proof -
  have "digits_value (takeWhile (\<lambda>b. b = 48) ds @ es) = digits_value es" for es
    by (induction ds) (auto simp: digits_value_decimal digit_value_def)
  then show ?thesis using takeWhile_dropWhile_id by metis
qed

text \<open>Two digits in a byte.\<close>

lemma pair_digits_pack: "a \<le> 9 \<Longrightarrow> b \<le> 9 \<Longrightarrow> pair_digits (push_bit 4 (of_nat a) OR of_nat b) = a * 10 + b"
proof -
  have "\<forall>a \<in> set [0..<10]. \<forall>b \<in> set [0..<10].
      pair_digits (push_bit 4 (of_nat a) OR of_nat b) = a * 10 + b"
    by code_simp
  then show "a \<le> 9 \<Longrightarrow> b \<le> 9 \<Longrightarrow> pair_digits (push_bit 4 (of_nat a) OR of_nat b) = a * 10 + b" by simp
qed

lemma pack_pairs_value:
  "even (length ds) \<Longrightarrow> \<forall>d \<in> set ds. d \<le> 9 \<Longrightarrow>
     foldl (\<lambda>v b. v * 100 + pair_digits b) n (pack_pairs ds) = n * 10 ^ length ds + decimal ds"
proof (induction ds arbitrary: n rule: pack_pairs.induct)
  case (1 a b ds)
  then show ?case by (simp add: pair_digits_pack algebra_simps)
qed auto

lemma length_pack_pairs: "length (pack_pairs ds) = length ds div 2"
  by (induction ds rule: pack_pairs.induct) auto


lemma mantissa_digits_facts:
  assumes "\<forall>b \<in> set ds. is_ascii_digit b"
  shows "length (mantissa_digits c ds) = 10" and "\<forall>d \<in> set (mantissa_digits c ds). d \<le> 9"
    and "decimal (mantissa_digits c ds) =
      (let k = (if c then 10 else 9); n = length ds in digits_value ds * 10 ^ (k - n) div 10 ^ (n - k))"
proof -
  show "length (mantissa_digits c ds) = 10" by (auto simp: mantissa_digits_def Let_def)
  have nine: "\<forall>d \<in> set (map digit_value ds). d \<le> 9" using assms digit_value_le by auto
  then show "\<forall>d \<in> set (mantissa_digits c ds). d \<le> 9"
    by (auto simp: mantissa_digits_def Let_def dest: in_set_takeD)
  define k :: nat where "k = (if c then 10 else 9)"
  have "decimal (mantissa_digits c ds) =
      decimal (take k (map digit_value ds)) * 10 ^ (k - min (length ds) k)"
    by (auto simp: mantissa_digits_def Let_def k_def take_map)
  also have "decimal (take k (map digit_value ds)) = digits_value ds div 10 ^ (length ds - k)"
    using decimal_take [OF nine] by (simp add: digits_value_decimal)
  finally show "decimal (mantissa_digits c ds) =
      (let k = (if c then 10 else 9); n = length ds in digits_value ds * 10 ^ (k - n) div 10 ^ (n - k))"
    by (cases "length ds \<le> k") (auto simp: k_def Let_def min_def)
qed

lemma div_bracket:
  assumes "0 < B"
  shows "(of_nat (A div B) :: rat) \<le> of_nat A / of_nat B" and "(of_nat A :: rat) / of_nat B < of_nat (A div B) + 1"
proof -
  have A: "(of_nat A :: rat) = of_nat (A div B) * of_nat B + of_nat (A mod B)"
    by (metis div_mult_mod_eq of_nat_add of_nat_mult)
  have "(of_nat (A mod B) :: rat) < of_nat B" using assms by simp
  with A assms show "(of_nat (A div B) :: rat) \<le> of_nat A / of_nat B"
    and "(of_nat A :: rat) / of_nat B < of_nat (A div B) + 1"
    by (simp_all add: field_simps)
qed

lemma powi_diff: "(10 :: rat) powi (int a - int b) = 10 ^ (a - b) / 10 ^ (b - a)"
proof -
  have "(10 :: rat) powi (int a - int b) = 10 powi (int (a - b) - int (b - a))"
    by (rule arg_cong [where f = "\<lambda>z. 10 powi z"]) arith
  also have "\<dots> = 10 powi int (a - b) / 10 powi int (b - a)" by (rule power_int_diff) simp
  finally show ?thesis by simp
qed

lemma hundred_powi: "(100 :: rat) powi z = 10 powi (2 * z)"
  by (simp add: power_int_mult)

lemma kept_digits:
  assumes digits: "\<forall>b \<in> set ds. is_ascii_digit b" "ds \<noteq> []" "hd ds \<noteq> 48"
    and s: "s = int (length ds) - 1 + P"
    and m: "m = decimal (mantissa_digits (s mod 2 \<noteq> 0) ds)"
  shows "of_nat m * 100 powi (s div 2 - 4) \<le> (of_nat (digits_value ds) * 10 powi P :: rat)"
    and "(of_nat (digits_value ds) * 10 powi P :: rat) < (of_nat m + 1) * 100 powi (s div 2 - 4)"
    and "10 powi s \<le> (of_nat (digits_value ds) * 10 powi P :: rat)"
    and "(of_nat (digits_value ds) * 10 powi P :: rat) < 10 powi (s + 1)"
    and "10 ^ 8 \<le> m" and "m < 10 ^ 10"
proof -
  let ?D = "digits_value ds" and ?n = "length ds"
  define k :: nat where "k = (if s mod 2 \<noteq> 0 then 10 else 9)"
  have "int k = 9 + s mod 2" by (auto simp: k_def)
  then have P: "P = (int k - int ?n) + 2 * (s div 2 - 4)" using s by presburger
  have split: "(10 :: rat) powi P = 10 powi (int k - int ?n) * 100 powi (s div 2 - 4)"
    by (simp add: P power_int_add hundred_powi)
  have m': "m = ?D * 10 ^ (k - ?n) div 10 ^ (?n - k)"
    unfolding m mantissa_digits_facts (3) [OF digits(1)] k_def Let_def by (rule refl)
  have scaled: "of_nat ?D * (10 :: rat) powi (int k - int ?n) = of_nat (?D * 10 ^ (k - ?n)) / of_nat (10 ^ (?n - k))"
    by (simp add: powi_diff)
  have pos: "(0 :: rat) < 100 powi (s div 2 - 4)" by simp
  have low: "(of_nat m :: rat) \<le> of_nat ?D * 10 powi (int k - int ?n)"
    and high: "of_nat ?D * (10 :: rat) powi (int k - int ?n) < of_nat m + 1"
    unfolding scaled m' by (rule div_bracket; simp)+
  show "of_nat m * 100 powi (s div 2 - 4) \<le> (of_nat ?D * 10 powi P :: rat)"
    using mult_right_mono [OF low, of "100 powi (s div 2 - 4)"] pos by (simp add: split mult.assoc)
  show "(of_nat ?D * 10 powi P :: rat) < (of_nat m + 1) * 100 powi (s div 2 - 4)"
    using mult_strict_right_mono [OF high pos] by (simp add: split mult.assoc)
  have nine: "\<forall>d \<in> set (map digit_value ds). d \<le> 9" using digits(1) digit_value_le by auto
  have D: "10 ^ (?n - 1) \<le> ?D" "?D < 10 ^ ?n"
    using decimal_head [of "map digit_value ds"] decimal_less [OF nine] digits(2,3)
    by (simp_all add: digits_value_decimal list.map_sel digit_value_0)
  have n: "int ?n - 1 = int (?n - 1)" using digits(2) by (cases ds) auto
  have "(10 :: rat) powi s = 10 ^ (?n - 1) * 10 powi P" "(10 :: rat) powi (s + 1) = 10 ^ ?n * 10 powi P"
    unfolding s n using digits(2) by (simp_all add: power_int_add power_eq_if mult.commute flip: n)
  moreover have "(10 :: rat) ^ (?n - 1) \<le> of_nat ?D" "of_nat ?D < (10 :: rat) ^ ?n"
    using D by (metis of_nat_le_iff of_nat_power of_nat_numeral, metis of_nat_less_iff of_nat_power of_nat_numeral)
  ultimately show "10 powi s \<le> (of_nat ?D * 10 powi P :: rat)" "(of_nat ?D * 10 powi P :: rat) < 10 powi (s + 1)"
    by simp_all
  have "10 ^ 8 \<le> (10 :: nat) ^ (k - 1)" by (simp add: k_def)
  also have "(10 :: nat) ^ (k - 1) * 10 ^ (?n - k) \<le> ?D * 10 ^ (k - ?n)"
  proof (cases "?n \<le> k")
    case True
    have "(10 :: nat) ^ (k - 1) = 10 ^ (?n - 1) * 10 ^ (k - ?n)"
      using True digits(2) by (cases ds) (simp_all flip: power_add)
    with D(1) True show ?thesis by simp
  next
    case False
    then have "(10 :: nat) ^ (k - 1) * 10 ^ (?n - k) = 10 ^ (?n - 1)"
      by (simp add: k_def flip: power_add split: if_splits)
    with D(1) False show ?thesis by simp
  qed
  then have "10 ^ (k - 1) \<le> m" unfolding m' by (simp add: less_eq_div_iff_mult_less_eq)
  finally show "10 ^ 8 \<le> m" .
  show "m < 10 ^ 10"
    using decimal_less [OF mantissa_digits_facts(2) [OF digits(1)]] mantissa_digits_facts(1) [OF digits(1)] m
    by simp
qed


section \<open>Conversion\<close>

text \<open>The number a value of the format stands for.\<close>

definition real_value :: "atari_real \<Rightarrow> rat" where
  "real_value r =
     (if real_is_zero r then 0
      else (if real_is_negative r then - 1 else 1) *
        of_nat (real_mantissa r) * 100 powi (real_exponent r - 4))"

definition exponent_byte :: "bool \<Rightarrow> int \<Rightarrow> u8" where
  "exponent_byte negative e = (let w = word_of_int (e + 64) in if negative then w OR 0x80 else w)"

lemma exponent_byte_facts:
  assumes "- 49 \<le> e" and "e \<le> 49"
  shows "exponent_byte negative e \<noteq> 0" and "uint (exponent_byte negative e AND 0x7F) - 64 = e"
    and "exponent_byte negative e AND 0x80 \<noteq> 0 \<longleftrightarrow> negative"
proof -
  have "\<forall>e \<in> set [- 49..49]. \<forall>negative \<in> set [False, True].
      exponent_byte negative e \<noteq> 0 \<and> uint (exponent_byte negative e AND 0x7F) - 64 = e \<and>
      (exponent_byte negative e AND 0x80 \<noteq> 0 \<longleftrightarrow> negative)"
    by code_simp
  moreover have "e \<in> set [- 49..49]"
    unfolding set_upto atLeastAtMost_iff using assms by simp
  moreover have "negative \<in> set [False, True]" by auto
  ultimately show "exponent_byte negative e \<noteq> 0" "uint (exponent_byte negative e AND 0x7F) - 64 = e"
      "exponent_byte negative e AND 0x80 \<noteq> 0 \<longleftrightarrow> negative"
    by blast+
qed

lemma packed_value:
  assumes "- 49 \<le> e" and "e \<le> 49" and "length ds = 10" and "\<forall>d \<in> set ds. d \<le> 9"
    and r: "r = AtariReal (exponent_byte negative e # pack_pairs ds)"
  shows "\<not> real_is_zero r" and "real_is_negative r = negative" and "real_exponent r = e"
    and "real_mantissa r = decimal ds" and "length (real_bytes r) = 6"
  using exponent_byte_facts [OF assms(1,2), of negative] pack_pairs_value [of ds 0] assms(3,4)
  by (simp_all add: r real_is_zero_def real_is_negative_def real_exponent_def real_mantissa_def
      length_pack_pairs)

lemma wrap_i32_id: "- (2 ^ 31) \<le> v \<Longrightarrow> v < 2 ^ 31 \<Longrightarrow> wrap_i32 v = v"
  by (simp add: wrap_i32_def signed_take_bit_int_eq_self)

lemma spelled_exponent_bounds:
  assumes "well_spelled s"
  shows "\<bar>spelled_exponent s\<bar> \<le> 99"
proof (cases "exponent_part s")
  case (Some x)
  obtain e sg ds where x: "x = (e, sg, ds)" by (cases x) auto
  with assms Some have ds: "\<forall>b \<in> set ds. is_ascii_digit b" "length ds \<le> 2"
    by (auto simp: well_spelled_def)
  have "digits_value ds < 10 ^ length ds"
    using decimal_less [of "map digit_value ds"] ds(1) digit_value_le by (simp add: digits_value_decimal)
  also have "\<dots> \<le> 10 ^ 2" using ds(2) by (intro power_increasing) simp_all
  finally have "digits_value ds < 100" by simp
  with Some x show ?thesis by (simp add: spelled_exponent_def)
qed (simp add: spelled_exponent_def)

text \<open>The significant digits of an accepted spelling.\<close>

definition leading_digits :: "spelling \<Rightarrow> bytes" where
  "leading_digits s = dropWhile (\<lambda>b. b = 48) (integer_part s @ fraction_digits s)"

definition scientific_power :: "spelling \<Rightarrow> int" where
  "scientific_power s =
     int (length (leading_digits s)) - 1 + (spelled_exponent s - int (length (fraction_digits s)))"

lemma leading_digits_facts:
  assumes "well_spelled s"
  shows "\<forall>b \<in> set (leading_digits s). is_ascii_digit b"
    and "leading_digits s \<noteq> [] \<Longrightarrow> hd (leading_digits s) \<noteq> 48"
    and "digits_value (integer_part s @ fraction_digits s) = digits_value (leading_digits s)"
    and "\<bar>spelled_value s\<bar> = of_nat (digits_value (leading_digits s)) *
      10 powi (spelled_exponent s - int (length (fraction_digits s)))"
proof -
  show "\<forall>b \<in> set (leading_digits s). is_ascii_digit b"
    using assms by (auto simp: leading_digits_def well_spelled_def dest: set_dropWhileD)
  show "leading_digits s \<noteq> [] \<Longrightarrow> hd (leading_digits s) \<noteq> 48"
    unfolding leading_digits_def by (rule hd_dropWhile)
  show same: "digits_value (integer_part s @ fraction_digits s) = digits_value (leading_digits s)"
    by (simp add: leading_digits_def digits_value_leading_zeros)
  show "\<bar>spelled_value s\<bar> = of_nat (digits_value (leading_digits s)) *
      10 powi (spelled_exponent s - int (length (fraction_digits s)))"
    unfolding spelled_value_def same by (simp add: abs_mult)
qed

lemma encode_spelled:
  assumes "well_spelled s" and "int (length (spelled s)) < 2 ^ 31 - 200"
  shows "encode_decimal (decimal_of s) =
    (let ds = leading_digits s; p = scientific_power s
     in if ds = [] \<or> p div 2 < - 49 then Inr real_zero
        else if p div 2 > 49 then Inl (ParseRealError RealOverflow (length (spelled s)))
        else Inr (AtariReal (exponent_byte (spelled_sign s = [45]) (p div 2) #
          pack_pairs (mantissa_digits (p mod 2 \<noteq> 0) ds))))"
proof -
  have "filter is_ascii_digit (fraction_text s) = fraction_digits s"
    using assms(1) by (auto simp: fraction_text_def fraction_digits_def well_spelled_def split: option.splits)
  moreover have "filter is_ascii_digit (integer_part s) = integer_part s"
    using assms(1) by (auto simp: well_spelled_def)
  ultimately have ds: "dropWhile (\<lambda>b. b = 48) (filter is_ascii_digit (significant_digits (decimal_of s))) =
      leading_digits s"
    by (simp add: decimal_of_def leading_digits_def)
  have "length (leading_digits s) \<le> length (integer_part s @ fraction_digits s)"
    unfolding leading_digits_def by (rule length_dropWhile_le)
  moreover have "length (integer_part s @ fraction_digits s) \<le> length (spelled s)"
    by (auto simp: spelled_def fraction_text_def fraction_digits_def split: option.splits)
  ultimately have small: "int (length (leading_digits s)) < 2 ^ 31 - 200"
      "int (length (fraction_digits s)) < 2 ^ 31 - 200"
    using assms(2) by simp_all
  have E: "\<bar>spelled_exponent s\<bar> \<le> 99" by (rule spelled_exponent_bounds) (rule assms(1))
  have power: "decimal_power (decimal_of s) = spelled_exponent s - int (length (fraction_digits s))"
    using small(2) E by (simp add: decimal_of_def wrap_i32_id)
  have sci: "wrap_i32 (wrap_i32 (wrap_i32 (int (length (leading_digits s))) - 1) + decimal_power (decimal_of s)) =
      scientific_power s"
    using small E by (simp add: power scientific_power_def wrap_i32_id)
  have rest: "error_offset (decimal_of s) = length (spelled s)"
      "parsed_negative (decimal_of s) = (spelled_sign s = [45])"
    by (simp_all add: decimal_of_def)
  show ?thesis
    unfolding encode_decimal_def ds sci rest exponent_byte_def Let_def by simp
qed


text \<open>C38: every decimal constant is converted to its value cut towards zero: the result has the
  constant's sign, is at most the constant in magnitude and differs from it by less than one unit of
  the last digit pair kept, in a mantissa of nine or ten significant digits. The result is zero exactly
  for constants below the smallest power \<open>10 ^ -98\<close>, and the conversion fails exactly for constants of at
  least \<open>10 ^ 100\<close>, with an overflow at the end of the text.\<close>

theorem from_decimal_truncates:
  assumes s: "well_spelled s" "int (length (spelled s)) < 2 ^ 31 - 200"
  shows "case from_decimal (spelled s) of
      Inl e \<Rightarrow> e = ParseRealError RealOverflow (length (spelled s)) \<and> 10 ^ 100 \<le> \<bar>spelled_value s\<bar>
    | Inr r \<Rightarrow>
        \<bar>spelled_value s\<bar> < 10 ^ 100 \<and>
        (if real_is_zero r then \<bar>spelled_value s\<bar> < 10 powi - 98
         else 10 powi - 98 \<le> \<bar>spelled_value s\<bar> \<and>
           real_is_negative r = (spelled_value s < 0) \<and>
           \<bar>real_value r\<bar> \<le> \<bar>spelled_value s\<bar> \<and>
           \<bar>spelled_value s\<bar> < \<bar>real_value r\<bar> + 100 powi (real_exponent r - 4) \<and>
           10 ^ 8 \<le> real_mantissa r \<and> real_mantissa r < 10 ^ 10)"
proof -
  let ?ds = "leading_digits s" and ?p = "scientific_power s" and ?neg = "spelled_sign s = [45]"
  have conv: "from_decimal (spelled s) = encode_decimal (decimal_of s)"
    using s(1) by (simp add: from_decimal_def parse_spelled)
  note facts = leading_digits_facts [OF s(1)]
  have zero: "real_is_zero real_zero" by (simp add: real_zero_def real_is_zero_def)
  have powers: "(10 :: rat) powi a \<le> 10 powi c" if "a \<le> c" for a c
    using that by (intro power_int_increasing) simp_all
  have hundred: "(10 :: rat) powi 100 = 10 ^ 100" by (simp only: power_int_numeral)
  show ?thesis
  proof (cases "?ds = []")
    case True
    then have "\<bar>spelled_value s\<bar> = 0" using facts(4) by (simp add: digits_value_def)
    with True s conv zero show ?thesis by (simp add: encode_spelled)
  next
    case False
    note kept = kept_digits [OF facts(1) False facts(2) [OF False] scientific_power_def [of s] refl,
        folded facts(4)]
    consider "?p div 2 < - 49" | "49 < ?p div 2" | "- 49 \<le> ?p div 2" "?p div 2 \<le> 49" by linarith
    then show ?thesis
    proof cases
      case 1
      then have "(10 :: rat) powi (?p + 1) \<le> 10 powi - 98" by (intro powers) simp
      with kept(4) have low: "\<bar>spelled_value s\<bar> < 10 powi - 98" by (rule less_le_trans)
      also have "\<dots> \<le> 10 powi 100" by (rule powers) simp
      finally have "\<bar>spelled_value s\<bar> < 10 ^ 100" by (simp only: hundred)
      with low 1 s conv zero show ?thesis by (simp add: encode_spelled)
    next
      case 2
      then have "(10 :: rat) powi int 100 \<le> 10 powi ?p" by (intro power_int_increasing) simp_all
      then have "(10 :: rat) ^ 100 \<le> 10 powi ?p" by (simp only: power_int_of_nat)
      with kept(3) have "10 ^ 100 \<le> \<bar>spelled_value s\<bar>" by (rule order_trans [rotated])
      moreover have "from_decimal (spelled s) = Inl (ParseRealError RealOverflow (length (spelled s)))"
        using 2 False s conv by (simp add: encode_spelled Let_def)
      ultimately show ?thesis by (simp only: sum.case)
    next
      case 3
      let ?m = "mantissa_digits (?p mod 2 \<noteq> 0) ?ds"
      define r where "r = AtariReal (exponent_byte ?neg (?p div 2) # pack_pairs ?m)"
      have result: "from_decimal (spelled s) = Inr r"
        using 3 False s conv by (simp add: encode_spelled Let_def r_def)
      note r = packed_value [OF 3 mantissa_digits_facts(1,2) [OF facts(1)] r_def]
      have "0 < \<bar>spelled_value s\<bar>" by (rule less_le_trans [OF _ kept(3)]) simp
      moreover have "(0 :: rat) < 10 powi (spelled_exponent s - int (length (fraction_digits s)))" by simp
      ultimately have "(spelled_value s < 0) = ?neg"
        unfolding spelled_value_def by (auto simp: mult_less_0_iff simp del: zero_less_power_int)
      moreover have "\<bar>real_value r\<bar> = of_nat (decimal ?m) * 100 powi (?p div 2 - 4)"
        using r by (simp add: real_value_def abs_mult)
      moreover have "10 powi - 98 \<le> \<bar>spelled_value s\<bar>"
      proof -
        have "(10 :: rat) powi - 98 \<le> 10 powi ?p" using 3(1) by (intro powers) simp
        with kept(3) show ?thesis by (rule order_trans [rotated])
      qed
      moreover have "\<bar>spelled_value s\<bar> < 10 ^ 100"
      proof -
        have "(10 :: rat) powi (?p + 1) \<le> 10 powi 100" using 3(2) by (intro powers) simp
        with kept(4) show ?thesis unfolding hundred by (rule less_le_trans)
      qed
      ultimately show ?thesis
        using r kept(1,2) kept(5-) unfolding result by (simp add: distrib_right)
    qed
  qed
qed

definition pi_spelling :: spelling where
  "pi_spelling =
     \<lparr>spelled_sign = [45], integer_part = [51], fraction_part = Some [49, 52, 49, 53, 57, 50, 54, 53, 51, 53],
      exponent_part = Some (69, [43], [50])\<rparr>"

theorem from_decimal_truncates_witness:
  "case from_decimal (spelled pi_spelling) of
      Inl e \<Rightarrow> e = ParseRealError RealOverflow (length (spelled pi_spelling)) \<and>
        10 ^ 100 \<le> \<bar>spelled_value pi_spelling\<bar>
    | Inr r \<Rightarrow>
        \<bar>spelled_value pi_spelling\<bar> < 10 ^ 100 \<and>
        (if real_is_zero r then \<bar>spelled_value pi_spelling\<bar> < 10 powi - 98
         else 10 powi - 98 \<le> \<bar>spelled_value pi_spelling\<bar> \<and>
           real_is_negative r = (spelled_value pi_spelling < 0) \<and>
           \<bar>real_value r\<bar> \<le> \<bar>spelled_value pi_spelling\<bar> \<and>
           \<bar>spelled_value pi_spelling\<bar> < \<bar>real_value r\<bar> + 100 powi (real_exponent r - 4) \<and>
           10 ^ 8 \<le> real_mantissa r \<and> real_mantissa r < 10 ^ 10)"
  by (rule from_decimal_truncates)
    (simp_all add: pi_spelling_def well_spelled_def sign_text_def is_ascii_digit_def spelled_def
      fraction_digits_def fraction_text_def exponent_text_def)

lemma pi_bytes:
  "from_decimal (spelled pi_spelling) = Inr (AtariReal [0xC1, 0x03, 0x14, 0x15, 0x92, 0x65])"
  by code_simp

section \<open>Rounding\<close>

lemma checked_pow_100_eq:
  "checked_pow_100 n = (if 100 ^ n \<le> u128_max then Some (100 ^ n) else None)"
proof (induction n)
  case 0
  then show ?case by (simp add: u128_max_def)
next
  case (Suc n)
  have "(100 :: nat) ^ n \<le> 100 ^ n * 100" by simp
  then have "100 ^ n * 100 \<le> u128_max \<Longrightarrow> (100 :: nat) ^ n \<le> u128_max" by (rule order_trans)
  then show ?case by (auto simp: Suc checked_mul128_def mult.commute)
qed

lemma floor_half:
  assumes "0 < B"
  shows "\<lfloor>(of_nat A / of_nat B + 1 / 2 :: rat)\<rfloor> = int (A div B + (if B \<le> A mod B * 2 then 1 else 0))"
proof -
  define q m where "q = A div B" and "m = A mod B"
  have A: "A = q * B + m" and m: "m < B" using assms by (simp_all add: q_def m_def)
  have "(of_nat A / of_nat B :: rat) = of_nat q + of_nat m / of_nat B"
    using assms by (simp add: A field_simps)
  moreover have "\<lfloor>of_nat q + (of_nat m / of_nat B + 1 / 2) :: rat\<rfloor> = int q + \<lfloor>of_nat m / of_nat B + 1 / 2 :: rat\<rfloor>"
    by (metis floor_add_int add.commute of_int_of_nat_eq)
  moreover have "\<lfloor>of_nat m / of_nat B + 1 / 2 :: rat\<rfloor> = (if B \<le> m * 2 then 1 else 0)"
  proof (cases "B \<le> m * 2")
    case True
    then have "(of_nat B :: rat) \<le> of_nat m * 2" by (metis of_nat_le_iff of_nat_mult of_nat_numeral)
    with True m assms show ?thesis by (simp add: floor_eq_iff field_simps)
  next
    case False
    then have "(of_nat m * 2 :: rat) < of_nat B" by (metis not_le of_nat_less_iff of_nat_mult of_nat_numeral)
    with False assms show ?thesis by (simp add: floor_eq_iff field_simps)
  qed
  ultimately show ?thesis by (simp add: q_def m_def add.assoc)
qed

lemma quotient_integral:
  assumes "0 < B"
  shows "(of_nat A / of_nat B :: rat) \<in> \<int> \<longleftrightarrow> A mod B = 0"
proof
  assume "A mod B = 0"
  then have "A = A div B * B" by (metis add.right_neutral div_mult_mod_eq)
  then have "(of_nat A / of_nat B :: rat) = of_nat (A div B)" using assms by (metis of_nat_mult nonzero_mult_div_cancel_right of_nat_0_eq_iff neq0_conv)
  then show "(of_nat A / of_nat B :: rat) \<in> \<int>" by simp
next
  assume "(of_nat A / of_nat B :: rat) \<in> \<int>"
  then obtain z :: int where "(of_nat A / of_nat B :: rat) = of_int z" by (auto elim: Ints_cases)
  then have "(of_nat A :: rat) = of_int z * of_nat B" using assms by (simp add: field_simps)
  then have "int A = z * int B" by (metis of_int_eq_iff of_int_mult of_int_of_nat_eq)
  then have "int A mod int B = 0" by simp
  then show "A mod B = 0" by (metis of_nat_eq_0_iff zmod_int)
qed


definition real_nearest :: "atari_real \<Rightarrow> int" where
  "real_nearest r =
     (let magnitude = \<lfloor>\<bar>real_value r\<bar> + 1 / 2\<rfloor> in if real_value r < 0 then - magnitude else magnitude)"

lemma rounded_magnitude_exact:
  assumes r: "\<not> real_is_zero r" "0 < real_mantissa r" "real_mantissa r < 10 ^ 10"
  shows "case rounded_magnitude r of
      None \<Rightarrow> int u128_max < \<lfloor>\<bar>real_value r\<bar> + 1 / 2\<rfloor>
    | Some (n, exact) \<Rightarrow> int n = \<lfloor>\<bar>real_value r\<bar> + 1 / 2\<rfloor> \<and> exact = (\<bar>real_value r\<bar> \<in> \<int>)"
proof -
  let ?m = "real_mantissa r" and ?k = "real_exponent r - 4"
  have v: "\<bar>real_value r\<bar> = of_nat ?m * 100 powi ?k"
    using r(1) by (simp add: real_value_def abs_mult)
  show ?thesis
  proof (cases "0 \<le> ?k")
    case True
    then obtain j where j: "?k = int j" by (metis nonneg_int_cases)
    then have whole: "\<bar>real_value r\<bar> = of_nat (?m * 100 ^ j)" by (simp add: v)
    then have rounding: "\<lfloor>\<bar>real_value r\<bar> + 1 / 2\<rfloor> = int (?m * 100 ^ j)"
      using floor_half [of 1 "?m * 100 ^ j"] by simp
    have integral: "\<bar>real_value r\<bar> \<in> \<int>" by (simp only: whole Ints_of_nat)
    have "1 * 100 ^ j \<le> ?m * 100 ^ j" using r(2) by (intro mult_le_mono1) simp
    then have "?m * 100 ^ j \<le> u128_max \<longrightarrow> 100 ^ j \<le> u128_max" by linarith
    then have "rounded_magnitude r = (if ?m * 100 ^ j \<le> u128_max then Some (?m * 100 ^ j, True) else None)"
      using j by (auto simp: rounded_magnitude_def Let_def checked_pow_100_eq checked_mul128_def)
    moreover have "\<not> ?m * 100 ^ j \<le> u128_max \<Longrightarrow> int u128_max < int (?m * 100 ^ j)"
      by (simp only: of_nat_less_iff not_le)
    ultimately show ?thesis unfolding rounding using integral by simp
  next
    case False
    then obtain j where j: "?k = - int j" "0 < j" by (metis neg_int_cases not_le)
    then have part: "\<bar>real_value r\<bar> = of_nat ?m / of_nat (100 ^ j)"
      unfolding v j(1) power_int_minus by (simp add: divide_inverse)
    have B: "(0 :: nat) < 100 ^ j" by simp
    have rounding: "\<lfloor>\<bar>real_value r\<bar> + 1 / 2\<rfloor> =
        int (?m div 100 ^ j + (if 100 ^ j \<le> ?m mod 100 ^ j * 2 then 1 else 0))"
      unfolding part by (rule floor_half [OF B])
    have exact: "\<bar>real_value r\<bar> \<in> \<int> \<longleftrightarrow> ?m mod 100 ^ j = 0"
      unfolding part by (rule quotient_integral [OF B])
    show ?thesis
    proof (cases "6 \<le> j")
      case True
      then have "(100 :: nat) ^ 6 \<le> 100 ^ j" by (intro power_increasing) simp_all
      with r(3) have "?m * 2 < 100 ^ j" by simp
      then have "?m div 100 ^ j = 0" "?m mod 100 ^ j = ?m" "\<not> 100 ^ j \<le> ?m * 2" by simp_all
      with r(2) j True rounding exact show ?thesis by (simp add: rounded_magnitude_def Let_def)
    next
      case False
      then have "(100 :: nat) ^ j \<le> 100 ^ 5" by (intro power_increasing) simp_all
      then have fits: "(100 :: nat) ^ j \<le> u128_max" by (simp add: u128_max_def)
      have "?m * 2 \<le> u128_max" using r(3) by (simp add: u128_max_def)
      with mult_le_mono1 [OF mod_less_eq_dividend [of ?m "100 ^ j"], of 2]
      have "?m mod 100 ^ j * 2 \<le> u128_max" by (rule order_trans)
      with fits j False rounding exact show ?thesis
        by (simp add: rounded_magnitude_def Let_def checked_pow_100_eq min_absorb2)
    qed
  qed
qed

text \<open>C39: for every value with a decimal mantissa (all that the conversion produces),
  \<open>rounded_integer\<close> is the nearest integer with halves rounded away from zero, it tells whether the value
  was an integer, and it is absent exactly when that integer leaves the range of \<open>i128\<close>.\<close>

theorem rounded_integer_exact:
  assumes "real_is_zero r \<or> 0 < real_mantissa r \<and> real_mantissa r < 10 ^ 10"
  shows "rounded_integer r =
    (if \<bar>real_nearest r\<bar> \<le> int i128_max
     then Some \<lparr>integer_value = real_nearest r, integer_exact = (real_value r \<in> \<int>)\<rparr>
     else None)"
proof (cases "real_is_zero r")
  case True
  moreover have "\<lfloor>1 / 2 :: rat\<rfloor> = 0" by (simp add: floor_eq_iff)
  ultimately show ?thesis by (simp add: rounded_integer_def real_nearest_def real_value_def)
next
  case False
  with assms have m: "0 < real_mantissa r" "real_mantissa r < 10 ^ 10" by auto
  have "(0 :: rat) < of_nat (real_mantissa r) * 100 powi (real_exponent r - 4)" using m(1) by simp
  with False have sign: "real_value r < 0 \<longleftrightarrow> real_is_negative r"
    by (auto simp: real_value_def)
  have "0 \<le> \<lfloor>\<bar>real_value r\<bar> + 1 / 2\<rfloor>" by simp
  then have size: "\<bar>real_nearest r\<bar> = \<lfloor>\<bar>real_value r\<bar> + 1 / 2\<rfloor>" by (simp add: real_nearest_def Let_def)
  have whole: "\<bar>real_value r\<bar> \<in> \<int> \<longleftrightarrow> real_value r \<in> \<int>" by (auto simp: abs_if)
  have "i128_max < u128_max" by (simp add: i128_max_def u128_max_def)
  then show ?thesis
    using False rounded_magnitude_exact [OF False m] size whole sign
    by (auto simp: rounded_integer_def real_nearest_def Let_def split: option.splits)
qed

theorem rounded_integer_exact_witness:
  "rounded_integer (AtariReal [0xC0, 0x01, 0x50, 0, 0, 0]) =
    (if \<bar>real_nearest (AtariReal [0xC0, 0x01, 0x50, 0, 0, 0])\<bar> \<le> int i128_max
     then Some \<lparr>integer_value = real_nearest (AtariReal [0xC0, 0x01, 0x50, 0, 0, 0]),
       integer_exact = (real_value (AtariReal [0xC0, 0x01, 0x50, 0, 0, 0]) \<in> \<int>)\<rparr>
     else None)"
  by (rule rounded_integer_exact) (simp add: real_mantissa_def pair_digits_def real_is_zero_def)

lemma rounded_minus_one_and_a_half:
  "rounded_integer (AtariReal [0xC0, 0x01, 0x50, 0, 0, 0]) = Some \<lparr>integer_value = - 2, integer_exact = False\<rparr>"
  by (simp add: rounded_integer_def rounded_magnitude_def real_is_zero_def real_is_negative_def
      real_exponent_def real_mantissa_def pair_digits_def checked_pow_100_eq u128_max_def i128_max_def
      min_def Let_def)


section \<open>Negation\<close>

lemma and_one_bit: "b AND push_bit n 1 = 0 \<or> b AND push_bit n 1 = push_bit n (1 :: 'a::len word)"
proof (cases "bit b n")
  case True
  then have "b AND push_bit n 1 = push_bit n 1"
    by (intro bit_word_eqI) (auto simp: bit_and_iff bit_exp_iff)
  then show ?thesis by simp
next
  case False
  then have "b AND push_bit n 1 = 0"
    by (intro bit_word_eqI) (auto simp: bit_and_iff bit_exp_iff)
  then show ?thesis by simp
qed

lemma sign_bit: "b AND 0x80 = 0 \<or> b AND 0x80 = (0x80 :: u8)"
  using and_one_bit [of b 7] by simp

lemma flipped_sign:
  "(b XOR 0x80) AND 0x7F = b AND (0x7F :: u8)"
  "(b XOR 0x80) AND 0x80 = 0 \<longleftrightarrow> b AND 0x80 \<noteq> (0 :: u8)"
  "b XOR 0x80 = 0 \<longleftrightarrow> b = (0x80 :: u8)"
proof -
  show "(b XOR 0x80) AND 0x7F = b AND (0x7F :: u8)" by (simp add: bit.conj_xor_distrib2)
  show "(b XOR 0x80) AND 0x80 = 0 \<longleftrightarrow> b AND 0x80 \<noteq> (0 :: u8)"
    using sign_bit [of b] by (auto simp: bit.conj_xor_distrib2)
  show "b XOR 0x80 = 0 \<longleftrightarrow> b = (0x80 :: u8)" by (metis xor.left_neutral xor.assoc xor_self_eq)
qed

text \<open>Negation changes the sign and nothing else. The byte \<open>0x80\<close>, which no conversion produces,
  is excepted: its negation is the zero byte.\<close>

lemma real_negated_value:
  assumes "length (real_bytes r) = 6" and "real_bytes r ! 0 \<noteq> 0x80"
  shows "real_value (real_negated r) = - real_value r"
proof (cases "real_is_zero r")
  case True
  then show ?thesis by (simp add: real_negated_def real_value_def)
next
  case False
  from assms(1) obtain b bs where r: "real_bytes r = b # bs" by (cases "real_bytes r") auto
  then have n: "real_bytes (real_negated r) = (b XOR 0x80) # bs" using False by (simp add: real_negated_def)
  from False assms(2) r have "b \<noteq> 0" "b \<noteq> 0x80" by (auto simp: real_is_zero_def)
  then show ?thesis
    using r n flipped_sign [of b]
    by (simp add: real_value_def real_is_zero_def real_is_negative_def real_mantissa_def real_exponent_def)
qed

end
