(* ===== verification/Lexer_Text.thy ===== *)
theory Lexer_Text
  imports Prelude
begin

text \<open>
  Source text for the lexer: Rust's \<open>char\<close> as a 32-bit code point and \<open>str\<close> as a list of them with
  UTF-8 byte lengths, the character classes and trimming of the standard library, source bytes
  (\<open>decode_source\<close>, \<open>source_char_byte\<close> in \<open>src/src/source.rs\<close>), and the ATASCII escapes of string
  and character constants (\<open>decode_atascii_escape\<close> in \<open>src/src/lexer.rs\<close>).
\<close>

type_synonym rust_char = u32
type_synonym rust_str = "u32 list"

definition str :: "string \<Rightarrow> rust_str" where
  "str s = map of_char s"

definition len_utf8 :: "rust_char \<Rightarrow> nat" where
  "len_utf8 c = (if c < 0x80 then 1 else if c < 0x800 then 2 else if c < 0x10000 then 3 else 4)"

definition byte_len :: "rust_str \<Rightarrow> nat" where
  "byte_len s = sum_list (map len_utf8 s)"

lemma len_utf8_pos [simp]: "0 < len_utf8 c"
  by (simp add: len_utf8_def)

lemma byte_len_simps [simp]:
  "byte_len [] = 0"
  "byte_len (c # cs) = len_utf8 c + byte_len cs"
  "byte_len (xs @ ys) = byte_len xs + byte_len ys"
  by (simp_all add: byte_len_def)

lemma byte_len_eq_0 [simp]: "byte_len s = 0 \<longleftrightarrow> s = []"
  by (cases s) auto

section \<open>Character classes\<close>

definition in_range :: "rust_char \<Rightarrow> rust_char \<Rightarrow> rust_char \<Rightarrow> bool" where
  "in_range a b c \<longleftrightarrow> a \<le> c \<and> c \<le> b"

definition is_upper :: "rust_char \<Rightarrow> bool" where
  "is_upper c \<longleftrightarrow> in_range 65 90 c"

definition is_lower :: "rust_char \<Rightarrow> bool" where
  "is_lower c \<longleftrightarrow> in_range 97 122 c"

definition is_digit_char :: "rust_char \<Rightarrow> bool" where
  "is_digit_char c \<longleftrightarrow> in_range 48 57 c"

definition is_hex_digit :: "rust_char \<Rightarrow> bool" where
  "is_hex_digit c \<longleftrightarrow> is_digit_char c \<or> in_range 65 70 c \<or> in_range 97 102 c"

text \<open>Unicode's property \<open>White_Space\<close>.\<close>

definition is_whitespace :: "rust_char \<Rightarrow> bool" where
  "is_whitespace c \<longleftrightarrow>
     in_range 9 13 c \<or> c = 32 \<or> c = 0x85 \<or> c = 0xA0 \<or> c = 0x1680 \<or> in_range 0x2000 0x200A c \<or>
     c = 0x2028 \<or> c = 0x2029 \<or> c = 0x202F \<or> c = 0x205F \<or> c = 0x3000"

definition is_newline :: "rust_char \<Rightarrow> bool" where
  "is_newline c \<longleftrightarrow> c = 10 \<or> c = 13"

definition char_upper :: "rust_char \<Rightarrow> rust_char" where
  "char_upper c = (if is_lower c then c - 32 else c)"

definition str_upper :: "rust_str \<Rightarrow> rust_str" where
  "str_upper s = map char_upper s"

definition eq_ignore_case :: "rust_str \<Rightarrow> rust_str \<Rightarrow> bool" where
  "eq_ignore_case s t \<longleftrightarrow> str_upper s = str_upper t"

definition trim :: "rust_str \<Rightarrow> rust_str" where
  "trim s = rev (dropWhile is_whitespace (rev (dropWhile is_whitespace s)))"

definition hex_digit_value :: "rust_char \<Rightarrow> u32" where
  "hex_digit_value c =
     (if is_digit_char c then c - 48 else if is_upper c then c - 55 else c - 87)"

definition strip_prefix :: "rust_str \<Rightarrow> rust_str \<Rightarrow> rust_str option" where
  "strip_prefix p s = (if take (length p) s = p then Some (drop (length p) s) else None)"

definition strip_either :: "rust_str \<Rightarrow> rust_str \<Rightarrow> rust_str \<Rightarrow> rust_str option" where
  "strip_either p q s = (case strip_prefix p s of Some t \<Rightarrow> Some t | None \<Rightarrow> strip_prefix q s)"

section \<open>Source bytes\<close>

definition decode_source :: "bytes \<Rightarrow> rust_str" where
  "decode_source bs = map (\<lambda>b. if b = 0x9B then 10 else ucast b) bs"

definition source_char_byte :: "rust_char \<Rightarrow> u8 option" where
  "source_char_byte c = (if c \<le> 0xFF then Some (ucast c) else None)"

section \<open>ATASCII escapes\<close>

definition atascii_to_screen_code :: "u8 \<Rightarrow> u8" where
  "atascii_to_screen_code b =
     (let inverse = b AND 0x80; base = b AND 0x7F;
          screen = (if base \<le> 0x1F then base + 0x40 else if base \<le> 0x5F then base - 0x20 else base)
      in inverse OR screen)"

definition decode_hex_byte :: "rust_str \<Rightarrow> rust_str + u8" where
  "decode_hex_byte hex =
     (case hex of
        [a, b] \<Rightarrow>
          if is_hex_digit a \<and> is_hex_digit b
          then Inr (ucast (hex_digit_value a * 16 + hex_digit_value b))
          else Inl (str ''ATASCII byte escape requires two hex digits, got `'' @ hex @ str ''`'')
      | _ \<Rightarrow> Inl (str ''ATASCII byte escape requires two hex digits, got `'' @ hex @ str ''`''))"

definition named_atascii_escape :: "rust_str \<Rightarrow> u8 option" where
  "named_atascii_escape n =
     (let u = str_upper n
      in if u \<in> {str ''RETURN'', str ''EOL'', str ''CR''} then Some 0x9B
         else if u \<in> {str ''ESC'', str ''ESCAPE''} then Some 0x1B
         else if u \<in> {str ''CLEAR'', str ''CLS''} then Some 0x7D
         else None)"

definition inverse_char :: "rust_char \<Rightarrow> rust_str + rust_char" where
  "inverse_char c =
     (if c > 0x7F then Inl (str ''cannot inverse non-ASCII character `'' @ [c] @ str ''`'')
      else Inr (ucast ((ucast c :: u8) OR 0x80)))"

definition screen_char :: "rust_char \<Rightarrow> rust_str + rust_char" where
  "screen_char c =
     (if c > 0xFF
      then Inl (str ''cannot convert non-ATASCII character `'' @ [c] @ str ''` to a screen code'')
      else Inr (ucast (atascii_to_screen_code (ucast c))))"

definition one_char :: "u8 \<Rightarrow> rust_str" where
  "one_char b = [ucast b]"

definition decode_atascii_escape :: "rust_str \<Rightarrow> rust_str + rust_str" where
  "decode_atascii_escape body =
     (case strip_prefix (str ''$'') body of
        Some hex \<Rightarrow> bind_result (decode_hex_byte hex) (\<lambda>b. Inr (one_char b))
      | None \<Rightarrow>
     (case strip_either (str ''CHAR:$'') (str ''char:$'') body of
        Some hex \<Rightarrow> bind_result (decode_hex_byte hex) (\<lambda>b. Inr (one_char b))
      | None \<Rightarrow>
     (case strip_either (str ''INV:'') (str ''inv:'') body of
        Some t \<Rightarrow>
          if t = [] then Inl (str ''inverse ATASCII escape requires at least one character'')
          else map_result inverse_char t
      | None \<Rightarrow>
     (case strip_either (str ''SCREEN:'') (str ''screen:'') body of
        Some t \<Rightarrow>
          if t = [] then Inl (str ''screen-code escape requires at least one character'')
          else map_result screen_char t
      | None \<Rightarrow>
          ok_or (str ''unknown ATASCII escape `'' @ body @ str ''`'')
            (map_option one_char (named_atascii_escape body))))))"

text \<open>The bytes \<open>0x9B\<close> apart, decoding keeps every source byte.\<close>

lemma source_bytes_kept: "b \<noteq> 0x9B \<Longrightarrow> map source_char_byte (decode_source [b]) = [Some b]"
proof -
  have "(ucast b :: u32) \<le> 0xFF"
    using unsigned_less [where 'a = nat, of b] by (simp add: word_le_nat_alt unsigned_ucast_eq take_bit_eq_mod)
  moreover have "(ucast (ucast b :: u32) :: u8) = b"
    by (rule bit_word_eqI) (simp add: bit_ucast_iff)
  ultimately show "b \<noteq> 0x9B \<Longrightarrow> map source_char_byte (decode_source [b]) = [Some b]"
    by (simp add: decode_source_def source_char_byte_def)
qed

text \<open>Screen codes are a permutation of the bytes: the character can be read back.\<close>

definition screen_code_to_atascii :: "u8 \<Rightarrow> u8" where
  "screen_code_to_atascii b =
     (let inverse = b AND 0x80; base = b AND 0x7F;
          atascii = (if base \<le> 0x3F then base + 0x20 else if base \<le> 0x5F then base - 0x40 else base)
      in inverse OR atascii)"

lemma screen_code_inverse: "screen_code_to_atascii (atascii_to_screen_code b) = b"
proof -
  have "\<forall>i \<in> set [0..255]. screen_code_to_atascii (atascii_to_screen_code (word_of_int i)) = word_of_int i"
    by code_simp
  moreover have "uint b \<in> set [0..255]"
    unfolding set_upto atLeastAtMost_iff
    using unsigned_less [where 'a = int, of b] unsigned_greater_eq [where 'a = int, of b] by simp
  ultimately have "screen_code_to_atascii (atascii_to_screen_code (word_of_int (uint b))) = word_of_int (uint b)"
    by (rule bspec)
  then show ?thesis by simp
qed

end
