(* ===== verification/Lexer.thy ===== *)
theory Lexer
  imports Lexer_Text
begin

text \<open>
  The lexer of the Action! language (\<open>src/src/lexer.rs\<close>): tokens, the scanning state and one function per
  \<open>lex_\<close> method. The state holds the unread input \<open>input[pos..]\<close> beside \<open>pos\<close>; a slice from the start of a
  token is what has been consumed since (\<open>consumed\<close>), so the functions take the state at the token's
  start where the code takes its offset and line. Every loop consumes a character per round, which
  is its measure.
\<close>

section \<open>Tokens\<close>

datatype keyword =
    KwAnd | KwArray | KwByte | KwCard | KwChar | KwDefine | KwDo | KwElse | KwElseIf | KwExit | KwFi
  | KwFor | KwFunc | KwIf | KwInclude | KwInt | KwLsh | KwMod | KwModule | KwOd | KwOr | KwPointer
  | KwProc | KwRecord | KwReturn | KwRsh | KwSet | KwStep | KwThen | KwTo | KwType | KwUntil
  | KwWhile | KwXor

datatype number_kind = NkByte | NkInt | NkCard | NkLongInt | NkLongCard | NkReal

record number_literal =
  literal_text :: rust_str
  literal_kind :: number_kind
  literal_value :: "u64 option"

datatype token_kind =
    TkIdent rust_str
  | TkInlineAsm (asm_source: rust_str) (asm_offset: nat) (asm_opaque: bool)
  | TkNumber number_literal
  | TkString rust_str
  | TkCString bytes
  | TkChar rust_char
  | TkActioncAnnotation rust_str
  | TkKeyword keyword
  | TkAssign
  | TkCompoundAssign rust_str
  | TkPlus | TkMinus | TkStar | TkSlash | TkLt | TkGt | TkLe | TkGe | TkNe | TkAt | TkCaret | TkDot
  | TkColon | TkComma | TkLParen | TkRParen | TkLBracket | TkRBracket
  | TkEof

record source_span =
  span_start :: nat
  span_end :: nat

record diagnostic =
  diagnostic_span :: source_span
  diagnostic_message :: rust_str

record token =
  token_kind_of :: token_kind
  token_span :: source_span
  token_line :: nat

fun keyword_token_id :: "keyword \<Rightarrow> u8" where
  "keyword_token_id KwAnd = 6"
| "keyword_token_id KwArray = 64"
| "keyword_token_id KwByte = 33"
| "keyword_token_id KwCard = 35"
| "keyword_token_id KwChar = 32"
| "keyword_token_id KwDefine = 38"
| "keyword_token_id KwDo = 98"
| "keyword_token_id KwElse = 97"
| "keyword_token_id KwElseIf = 106"
| "keyword_token_id KwExit = 83"
| "keyword_token_id KwFi = 99"
| "keyword_token_id KwFor = 84"
| "keyword_token_id KwFunc = 65"
| "keyword_token_id KwIf = 80"
| "keyword_token_id KwInclude = 67"
| "keyword_token_id KwInt = 34"
| "keyword_token_id KwLsh = 15"
| "keyword_token_id KwMod = 13"
| "keyword_token_id KwModule = 87"
| "keyword_token_id KwOd = 100"
| "keyword_token_id KwOr = 5"
| "keyword_token_id KwPointer = 69"
| "keyword_token_id KwProc = 66"
| "keyword_token_id KwRecord = 39"
| "keyword_token_id KwReturn = 82"
| "keyword_token_id KwRsh = 16"
| "keyword_token_id KwSet = 68"
| "keyword_token_id KwStep = 102"
| "keyword_token_id KwThen = 96"
| "keyword_token_id KwTo = 101"
| "keyword_token_id KwType = 70"
| "keyword_token_id KwUntil = 88"
| "keyword_token_id KwWhile = 81"
| "keyword_token_id KwXor = 14"

fun number_token_id :: "number_kind \<Rightarrow> u8" where
  "number_token_id NkByte = 128 + 2"
| "number_token_id NkInt = 128 + 3"
| "number_token_id NkCard = 128 + 4"
| "number_token_id NkLongInt = 128 + 5"
| "number_token_id NkLongCard = 128 + 5"
| "number_token_id NkReal = 128 + 6"

fun token_id :: "token_kind \<Rightarrow> u8 option" where
  "token_id (TkIdent _) = None"
| "token_id (TkCString _) = None"
| "token_id (TkInlineAsm _ _ _) = None"
| "token_id (TkNumber n) = Some (number_token_id (literal_kind n))"
| "token_id (TkString _) = Some (128 + 5)"
| "token_id (TkChar _) = Some (128 + 1)"
| "token_id (TkActioncAnnotation _) = None"
| "token_id (TkKeyword k) = Some (keyword_token_id k)"
| "token_id TkAssign = Some 7"
| "token_id (TkCompoundAssign _) = None"
| "token_id TkPlus = Some 1"
| "token_id TkMinus = Some 2"
| "token_id TkStar = Some 3"
| "token_id TkSlash = Some 4"
| "token_id TkLt = Some 11"
| "token_id TkGt = Some 9"
| "token_id TkLe = Some 12"
| "token_id TkGe = Some 10"
| "token_id TkNe = Some 8"
| "token_id TkAt = Some 18"
| "token_id TkCaret = Some 94"
| "token_id TkDot = Some 23"
| "token_id TkColon = None"
| "token_id TkComma = Some 26"
| "token_id TkLParen = Some 25"
| "token_id TkRParen = Some 24"
| "token_id TkLBracket = Some 91"
| "token_id TkRBracket = Some 93"
| "token_id TkEof = Some 127"

text \<open>The spelling of every keyword, in upper case.\<close>

definition keyword_table :: "(rust_str \<times> keyword) list" where
  "keyword_table =
     [(str ''AND'', KwAnd), (str ''ARRAY'', KwArray), (str ''BYTE'', KwByte), (str ''CARD'', KwCard),
      (str ''CHAR'', KwChar), (str ''DEFINE'', KwDefine), (str ''DO'', KwDo), (str ''ELSE'', KwElse),
      (str ''ELSEIF'', KwElseIf), (str ''EXIT'', KwExit), (str ''FI'', KwFi), (str ''FOR'', KwFor),
      (str ''FUNC'', KwFunc), (str ''IF'', KwIf), (str ''INCLUDE'', KwInclude), (str ''INT'', KwInt),
      (str ''LSH'', KwLsh), (str ''MOD'', KwMod), (str ''MODULE'', KwModule), (str ''OD'', KwOd),
      (str ''OR'', KwOr), (str ''POINTER'', KwPointer), (str ''PROC'', KwProc),
      (str ''RECORD'', KwRecord), (str ''RETURN'', KwReturn), (str ''RSH'', KwRsh),
      (str ''SET'', KwSet), (str ''STEP'', KwStep), (str ''THEN'', KwThen), (str ''TO'', KwTo),
      (str ''TYPE'', KwType), (str ''UNTIL'', KwUntil), (str ''WHILE'', KwWhile), (str ''XOR'', KwXor)]"

section \<open>The scanning state\<close>

record lexer =
  unread :: rust_str
  lexer_pos :: nat
  lexer_line :: nat
  previous_was_cr :: bool
  diagnostics :: "diagnostic list"

definition new_lexer :: "rust_str \<Rightarrow> lexer" where
  "new_lexer input =
     \<lparr>unread = input, lexer_pos = 0, lexer_line = 1, previous_was_cr = False, diagnostics = []\<rparr>"

definition peek :: "lexer \<Rightarrow> rust_char option" where
  "peek lx = (case unread lx of [] \<Rightarrow> None | c # _ \<Rightarrow> Some c)"

definition peek_next :: "lexer \<Rightarrow> rust_char option" where
  "peek_next lx = (case unread lx of _ # c # _ \<Rightarrow> Some c | _ \<Rightarrow> None)"

definition bump :: "lexer \<Rightarrow> lexer" where
  "bump lx =
     (case unread lx of
        [] \<Rightarrow> lx
      | c # cs \<Rightarrow>
          lx\<lparr>unread := cs, lexer_pos := lexer_pos lx + len_utf8 c,
             lexer_line :=
               (if c = 13 then lexer_line lx + 1
                else if c = 10 \<and> \<not> previous_was_cr lx then lexer_line lx + 1 else lexer_line lx),
             previous_was_cr := (c = 13)\<rparr>)"

definition match_char :: "rust_char \<Rightarrow> lexer \<Rightarrow> lexer option" where
  "match_char c lx = (if peek lx = Some c then Some (bump lx) else None)"

text \<open>Setting the position past ASCII text that was looked at, without the bookkeeping of \<open>bump\<close>.\<close>

definition jump :: "nat \<Rightarrow> lexer \<Rightarrow> lexer" where
  "jump n lx = lx\<lparr>unread := drop n (unread lx), lexer_pos := lexer_pos lx + n\<rparr>"

definition unread_starts :: "rust_str \<Rightarrow> lexer \<Rightarrow> bool" where
  "unread_starts p lx \<longleftrightarrow> take (length p) (unread lx) = p"

definition report :: "nat \<Rightarrow> nat \<Rightarrow> rust_str \<Rightarrow> lexer \<Rightarrow> lexer" where
  "report a b m lx =
     lx\<lparr>diagnostics := diagnostics lx @
       [\<lparr>diagnostic_span = \<lparr>span_start = a, span_end = b\<rparr>, diagnostic_message = m\<rparr>]\<rparr>"

text \<open>The input from the position of one state to that of a later one.\<close>

definition consumed :: "lexer \<Rightarrow> lexer \<Rightarrow> rust_str" where
  "consumed s lx = take (length (unread s) - length (unread lx)) (unread s)"

definition report_from :: "lexer \<Rightarrow> string \<Rightarrow> lexer \<Rightarrow> lexer" where
  "report_from s m lx = report (lexer_pos s) (lexer_pos lx) (str m) lx"

definition make_token :: "lexer \<Rightarrow> lexer \<Rightarrow> token_kind \<Rightarrow> token" where
  "make_token s lx k =
     \<lparr>token_kind_of = k, token_span = \<lparr>span_start = lexer_pos s, span_end = lexer_pos lx\<rparr>,
      token_line = lexer_line s\<rparr>"

lemma unread_bump [simp]: "unread (bump lx) = tl (unread lx)"
  by (simp add: bump_def split: list.splits)

lemma unread_report [simp]: "unread (report a b m lx) = unread lx" "unread (report_from s n lx) = unread lx"
  by (simp_all add: report_def report_from_def)

lemma peek_Some [simp]: "peek lx = Some c \<longleftrightarrow> (\<exists>cs. unread lx = c # cs)"
  by (auto simp: peek_def split: list.splits)

lemma peek_None [simp]: "peek lx = None \<longleftrightarrow> unread lx = []"
  by (auto simp: peek_def split: list.splits)

function bump_while :: "(rust_char \<Rightarrow> bool) \<Rightarrow> lexer \<Rightarrow> lexer" where
  "bump_while P lx =
     (case peek lx of Some c \<Rightarrow> if P c then bump_while P (bump lx) else lx | None \<Rightarrow> lx)"
  by pat_completeness auto
termination
  by (relation "measure (\<lambda>(P, lx). length (unread lx))") auto

declare bump_while.simps [simp del]

lemma unread_bump_while [simp]: "unread (bump_while P lx) = dropWhile P (unread lx)"
proof (induction P lx rule: bump_while.induct)
  case (1 P lx)
  then show ?case by (subst bump_while.simps) (auto simp: peek_def split: list.splits)
qed

definition not_newline :: "rust_char \<Rightarrow> bool" where
  "not_newline c \<longleftrightarrow> \<not> is_newline c"

text \<open>One line break: \<open>CR\<close>, \<open>CR LF\<close> or \<open>LF\<close>.\<close>

definition match_newline :: "lexer \<Rightarrow> lexer" where
  "match_newline lx =
     (case match_char 13 lx of
        Some lx1 \<Rightarrow> (case match_char 10 lx1 of Some lx2 \<Rightarrow> lx2 | None \<Rightarrow> lx1)
      | None \<Rightarrow> (case match_char 10 lx of Some lx1 \<Rightarrow> lx1 | None \<Rightarrow> lx))"

lemma unread_match_newline:
  "length (unread (match_newline lx)) \<le> length (unread lx)"
  "unread lx = c # cs \<Longrightarrow> is_newline c \<Longrightarrow> length (unread (match_newline lx)) < length (unread lx)"
  by (auto simp: match_newline_def match_char_def is_newline_def peek_def split: list.splits)


section \<open>Trivia\<close>

definition match_layout_trivia :: "lexer \<Rightarrow> lexer option" where
  "match_layout_trivia lx =
     (if unread_starts (92 # str ''{INV:_}'') lx \<or> unread_starts (92 # str ''{inv:_}'') lx
      then Some (jump 8 lx)
      else match_char 0xDF lx)"

lemma unread_match_layout:
  "match_layout_trivia lx = Some lx' \<Longrightarrow> length (unread lx') < length (unread lx)"
  by (cases "unread lx")
    (auto simp: match_layout_trivia_def match_char_def jump_def unread_starts_def split: if_splits)

function skip_layout :: "lexer \<Rightarrow> lexer" where
  "skip_layout lx =
     (if (case peek lx of Some c \<Rightarrow> is_whitespace c | None \<Rightarrow> False) then skip_layout (bump lx)
      else (case match_layout_trivia lx of Some lx' \<Rightarrow> skip_layout lx' | None \<Rightarrow> lx))"
  by pat_completeness auto
termination
  by (relation "measure (\<lambda>lx. length (unread lx))")
    (auto simp: unread_match_layout peek_def split: list.splits)

declare skip_layout.simps [simp del]

lemma unread_skip_layout: "length (unread (skip_layout lx)) \<le> length (unread lx)"
proof (induction lx rule: skip_layout.induct)
  case (1 lx)
  show ?case
  proof (cases "case peek lx of Some c \<Rightarrow> is_whitespace c | None \<Rightarrow> False")
    case True
    with 1(1) show ?thesis by (subst skip_layout.simps) auto
  next
    case False
    show ?thesis
    proof (cases "match_layout_trivia lx")
      case None
      with False show ?thesis by (subst skip_layout.simps) simp
    next
      case (Some lx')
      with False have "skip_layout lx = skip_layout lx'" by (subst skip_layout.simps) simp
      with 1(2) [OF False Some] unread_match_layout [OF Some] show ?thesis by simp
    qed
  qed
qed

function skip_trivia :: "lexer \<Rightarrow> lexer" where
  "skip_trivia lx =
     (let lx1 = skip_layout lx
      in if unread_starts (str '';@actionc'') lx1 then lx1
         else if peek lx1 = Some 59 then skip_trivia (bump_while not_newline lx1)
         else lx1)"
  by pat_completeness auto
termination
proof (relation "measure (\<lambda>lx. length (unread lx))", goal_cases)
  case (2 lx lx1)
  then obtain cs where cs: "unread (skip_layout lx) = 59 # cs" by auto
  then have "length (dropWhile not_newline (unread (skip_layout lx))) \<le> length cs"
    by (simp add: not_newline_def is_newline_def length_dropWhile_le)
  also have "\<dots> < length (unread lx)" using unread_skip_layout [of lx] cs by simp
  finally show ?case using 2 by simp
qed simp

declare skip_trivia.simps [simp del]

section \<open>String and character constants\<close>

text \<open>The escape \<open>\{...}\<close>: the characters it stands for. An escape that cannot be decoded is reported
  and stands for a question mark.\<close>

definition lex_atascii_escape :: "lexer \<Rightarrow> rust_str \<times> lexer" where
  "lex_atascii_escape lx =
     (let body_start = bump (bump lx);
          lx1 = bump_while (\<lambda>c. c \<noteq> 125) body_start
      in case match_char 125 lx1 of
           None \<Rightarrow> ([63], report_from lx ''unterminated ATASCII escape'' lx1)
         | Some lx2 \<Rightarrow>
             (case decode_atascii_escape (consumed body_start lx1) of
                Inr cs \<Rightarrow> (cs, lx2)
              | Inl m \<Rightarrow> ([63], report (lexer_pos lx) (lexer_pos lx2) m lx2)))"

lemma unread_atascii_escape:
  "lex_atascii_escape lx = (cs, lx') \<Longrightarrow> unread lx \<noteq> [] \<Longrightarrow> length (unread lx') < length (unread lx)"
proof -
  assume esc: "lex_atascii_escape lx = (cs, lx')" and "unread lx \<noteq> []"
  have "length (dropWhile (\<lambda>c. c \<noteq> 125) (tl (tl (unread lx)))) \<le> length (tl (unread lx))"
    using length_dropWhile_le [of "\<lambda>c. c \<noteq> 125" "tl (tl (unread lx))"] by simp
  also have "\<dots> < length (unread lx)" using \<open>unread lx \<noteq> []\<close> by simp
  finally have "length (dropWhile (\<lambda>c. c \<noteq> 125) (tl (tl (unread lx)))) < length (unread lx)" .
  moreover have "length (unread lx') \<le> length (dropWhile (\<lambda>c. c \<noteq> 125) (tl (tl (unread lx))))"
    using esc by (auto simp: lex_atascii_escape_def Let_def match_char_def split: option.splits sum.splits if_splits)
  ultimately show ?thesis by (rule order_le_less_trans [rotated])
qed

text \<open>The text up to the closing quote, and whether it was found.\<close>

function string_loop :: "rust_char \<Rightarrow> rust_str \<Rightarrow> lexer \<Rightarrow> rust_str \<times> bool \<times> lexer" where
  "string_loop closing acc lx =
     (case peek lx of
        None \<Rightarrow> (acc, False, lx)
      | Some c \<Rightarrow>
          if c = closing then
            let lx1 = bump lx
            in if peek lx1 = Some closing then string_loop closing (acc @ [closing]) (bump lx1)
               else (acc, True, lx1)
          else if c = 92 \<and> peek_next lx = Some 123 then
            let (cs, lx1) = lex_atascii_escape lx in string_loop closing (acc @ cs) lx1
          else string_loop closing (acc @ [c]) (bump lx))"
  by pat_completeness auto
termination
  by (relation "measure (\<lambda>(closing, acc, lx). length (unread lx))")
    (auto dest: unread_atascii_escape [OF sym])

declare string_loop.simps [simp del]

definition lex_string :: "lexer \<Rightarrow> rust_char \<Rightarrow> lexer \<Rightarrow> token \<times> lexer" where
  "lex_string s quote lx =
     (let closing = (if quote = 0x201C then 0x201D else quote);
          (t, closed, lx1) = string_loop closing [] lx;
          lx2 = (if closed then lx1 else report_from s ''unterminated string'' lx1)
      in (make_token s lx2 (TkString t), lx2))"

definition lex_char :: "lexer \<Rightarrow> lexer \<Rightarrow> token \<times> lexer" where
  "lex_char s lx =
     (let (v, lx1) =
        (if peek lx = Some 92 \<and> peek_next lx = Some 123 then
           let (cs, lx1) = lex_atascii_escape lx;
               lx2 = (if length cs \<noteq> 1
                      then report_from s ''character ATASCII escape must produce exactly one byte'' lx1
                      else lx1)
           in ((case cs of [] \<Rightarrow> 0 | c # _ \<Rightarrow> c), lx2)
         else ((case peek lx of Some c \<Rightarrow> c | None \<Rightarrow> 0), bump lx))
      in (make_token s lx1 (TkChar v), lx1))"

section \<open>C strings\<close>

text \<open>At most \<open>n\<close> further hexadecimal digits: value, digits read, state.\<close>

fun hex_escape_digits :: "nat \<Rightarrow> u8 \<Rightarrow> nat \<Rightarrow> lexer \<Rightarrow> u8 \<times> nat \<times> lexer" where
  "hex_escape_digits 0 v k lx = (v, k, lx)"
| "hex_escape_digits (Suc n) v k lx =
     (case peek lx of
        Some c \<Rightarrow>
          if is_hex_digit c
          then hex_escape_digits n (v * 16 + ucast (hex_digit_value c)) (k + 1) (bump lx)
          else (v, k, lx)
      | None \<Rightarrow> (v, k, lx))"

definition simple_escape :: "rust_char \<Rightarrow> u8 option" where
  "simple_escape e =
     (if e = 110 then Some 10 else if e = 114 then Some 13 else if e = 116 then Some 9
      else if e = 98 then Some 8 else if e = 102 then Some 12 else if e = 118 then Some 11
      else if e = 97 then Some 7 else if e = 48 then Some 0
      else if e \<in> {92, 34, 39, 63} then Some (ucast e)
      else None)"

definition cstring_escape :: "lexer \<Rightarrow> rust_char \<Rightarrow> lexer \<Rightarrow> u8 option \<times> lexer" where
  "cstring_escape s e lx =
     (case simple_escape e of
        Some b \<Rightarrow> (Some b, lx)
      | None \<Rightarrow>
          if e = 120 then
            let (v, k, lx1) = hex_escape_digits 2 0 0 lx
            in if k = 2 then (Some v, lx1)
               else (None, report_from s ''C-string hexadecimal escape requires exactly two hex digits'' lx1)
          else (None, report (lexer_pos s) (lexer_pos lx) (str ''unknown C-string escape '' @ [92, e]) lx))"

lemma unread_hex_escape:
  "hex_escape_digits n v k lx = (w, j, lx') \<Longrightarrow> length (unread lx') \<le> length (unread lx)"
proof (induction n v k lx rule: hex_escape_digits.induct)
  case (2 n v k lx)
  then show ?case by (auto split: option.splits if_splits)
qed simp

lemma unread_cstring_escape:
  "cstring_escape s e lx = (b, lx') \<Longrightarrow> length (unread lx') \<le> length (unread lx)"
  by (auto simp: cstring_escape_def Let_def dest: unread_hex_escape split: option.splits if_splits prod.splits)

definition push_byte :: "bytes \<Rightarrow> u8 option \<Rightarrow> bytes" where
  "push_byte acc b = (case b of Some v \<Rightarrow> acc @ [v] | None \<Rightarrow> acc)"

function cstring_loop :: "lexer \<Rightarrow> bytes \<Rightarrow> lexer \<Rightarrow> bytes \<times> bool \<times> lexer" where
  "cstring_loop s acc lx =
     (case peek lx of
        None \<Rightarrow> (acc, False, lx)
      | Some c \<Rightarrow>
          if is_newline c then (acc, False, lx)
          else
            let lx1 = bump lx
            in if c = 34 then (acc, True, lx1)
               else if c = 92 then
                 (case peek lx1 of
                    None \<Rightarrow> (acc, False, lx1)
                  | Some e \<Rightarrow>
                      if is_newline e then (acc, False, lx1)
                      else let (b, lx2) = cstring_escape s e (bump lx1)
                           in cstring_loop s (push_byte acc b) lx2)
               else if c \<le> 0xFF then cstring_loop s (push_byte acc (Some (ucast c))) lx1
               else cstring_loop s (push_byte acc None)
                 (report_from s ''C-string character is outside the single-byte source encoding'' lx1))"
  by pat_completeness auto
termination
proof (relation "measure (\<lambda>(s, acc, lx). length (unread lx))", goal_cases)
  case (2 s acc lx c lx1 e p b lx2)
  then have "length (unread lx2) \<le> length (unread (bump lx1))"
    using unread_cstring_escape [of s e "bump lx1" b lx2] by simp
  with 2 show ?case by auto
qed auto

declare cstring_loop.simps [simp del]

definition lex_cstring :: "lexer \<Rightarrow> lexer \<Rightarrow> token \<times> lexer" where
  "lex_cstring s lx =
     (let (bs, closed, lx1) = cstring_loop s [] lx;
          lx2 = (if closed then lx1
                 else report_from s ''unterminated C-string; physical newlines are not allowed'' lx1)
      in (make_token s lx2 (TkCString bs), lx2))"


section \<open>Numbers\<close>

text \<open>\<open>u64::from_str_radix\<close> on a text of digits.\<close>

definition parse_u64 :: "int \<Rightarrow> rust_str \<Rightarrow> u64 option" where
  "parse_u64 radix ds =
     (let v = foldl (\<lambda>v c. v * radix + uint (hex_digit_value c)) 0 ds
      in if v < 2 ^ 64 then Some (word_of_int v) else None)"

definition make_number :: "lexer \<Rightarrow> lexer \<Rightarrow> number_kind \<Rightarrow> u64 option \<Rightarrow> token \<times> lexer" where
  "make_number s lx k v =
     (make_token s lx
        (TkNumber \<lparr>literal_text = consumed s lx, literal_kind = k, literal_value = v\<rparr>), lx)"

definition hex_number_kind :: "u64 option \<Rightarrow> number_kind" where
  "hex_number_kind v =
     (case v of
        Some v \<Rightarrow> if v \<le> 0xFF then NkByte else if v \<le> 0xFFFF then NkCard else NkLongCard
      | None \<Rightarrow> NkLongCard)"

definition lex_hex_number :: "lexer \<Rightarrow> lexer \<Rightarrow> token \<times> lexer" where
  "lex_hex_number s lx =
     (let lx1 = bump_while is_hex_digit lx;
          digits = consumed lx lx1;
          (v, lx2) =
            (if digits = [] then (None, report_from s ''expected hexadecimal digits after `$`'' lx1)
             else case parse_u64 16 digits of
                    Some v \<Rightarrow>
                      if v \<le> 0xFFFFFFFF then (Some v, lx1)
                      else (None, report_from s ''hexadecimal constant is too large'' lx1)
                  | None \<Rightarrow> (None, report_from s ''hexadecimal constant is too large'' lx1))
      in make_number s lx2 (hex_number_kind v) v)"

definition scan_exponent :: "lexer \<Rightarrow> lexer \<Rightarrow> lexer" where
  "scan_exponent s lx =
     (if peek lx = Some 69 \<or> peek lx = Some 101 then
        let lx1 = bump lx;
            lx2 = (if peek lx1 = Some 43 \<or> peek lx1 = Some 45 then bump lx1 else lx1);
            lx3 = bump_while is_digit_char lx2
        in if lexer_pos lx2 = lexer_pos lx3
           then report_from s ''expected exponent digits in real constant'' lx3 else lx3
      else lx)"

definition scan_decimal :: "lexer \<Rightarrow> lexer \<Rightarrow> lexer" where
  "scan_decimal s lx =
     (let lx1 = bump_while is_digit_char lx;
          lx2 = (if peek lx1 = Some 46 then bump_while is_digit_char (bump lx1) else lx1)
      in scan_exponent s lx2)"

definition lex_decimal_number :: "lexer \<Rightarrow> lexer \<Rightarrow> token \<times> lexer" where
  "lex_decimal_number s lx =
     (let lx1 = scan_decimal s lx;
          t = consumed s lx1
      in if 46 \<in> set t \<or> 69 \<in> set t \<or> 101 \<in> set t then make_number s lx1 NkReal None
         else case parse_u64 10 t of
                Some v \<Rightarrow>
                  if v \<le> 0xFF then make_number s lx1 NkByte (Some v)
                  else if v \<le> 0xFFFF then make_number s lx1 NkInt (Some v)
                  else if v \<le> 0xFFFFFFFF then make_number s lx1 NkLongInt (Some v)
                  else make_number s (report_from s ''decimal constant is too large'' lx1) NkInt None
              | None \<Rightarrow> make_number s (report_from s ''invalid decimal constant'' lx1) NkInt None)"

definition lex_number :: "lexer \<Rightarrow> lexer \<Rightarrow> token \<times> lexer" where
  "lex_number s lx = (if peek s = Some 36 then lex_hex_number s lx else lex_decimal_number s lx)"

section \<open>Assembly blocks\<close>

text \<open>The line that closes a block: \<open>ENDASM\<close>, perhaps with a comment behind it.\<close>

definition asm_terminator :: "rust_str \<Rightarrow> bool" where
  "asm_terminator raw =
     (let line = trim raw;
          terminator = (if 59 \<in> set line then trim (takeWhile (\<lambda>c. c \<noteq> 59) line) else line)
      in eq_ignore_case terminator (str ''ENDASM''))"

lemma unread_asm_line:
  "unread lx \<noteq> [] \<Longrightarrow>
     length (unread (match_newline (bump_while not_newline lx))) < length (unread lx)"
proof -
  assume "unread lx \<noteq> []"
  then obtain c cs where lx: "unread lx = c # cs" by (cases "unread lx") auto
  show ?thesis
  proof (cases "is_newline c")
    case True
    with lx have "unread (bump_while not_newline lx) = c # cs" by (simp add: not_newline_def)
    with True lx show ?thesis using unread_match_newline(2) by fastforce
  next
    case False
    with lx have "length (unread (bump_while not_newline lx)) \<le> length cs"
      by (simp add: not_newline_def length_dropWhile_le)
    with lx unread_match_newline(1) [of "bump_while not_newline lx"] show ?thesis by simp
  qed
qed

text \<open>The lines of a block: the states before and behind the closing line, or the end of the input.\<close>

function asm_lines :: "lexer \<Rightarrow> lexer + lexer \<times> lexer" where
  "asm_lines lx =
     (if unread lx = [] then Inl lx
      else
        let line_end = bump_while not_newline lx
        in if asm_terminator (consumed lx line_end) then Inr (lx, line_end)
           else asm_lines (match_newline line_end))"
  by pat_completeness auto
termination
  by (relation "measure (\<lambda>lx. length (unread lx))") (auto dest: unread_asm_line)

declare asm_lines.simps [simp del]

definition is_blank :: "rust_char \<Rightarrow> bool" where
  "is_blank c \<longleftrightarrow> c = 32 \<or> c = 9"

definition asm_opaque_word :: "lexer \<Rightarrow> bool" where
  "asm_opaque_word lx \<longleftrightarrow>
     6 \<le> length (unread lx) \<and> eq_ignore_case (take 6 (unread lx)) (str ''OPAQUE'') \<and>
     (case drop 6 (unread lx) of [] \<Rightarrow> True | c # _ \<Rightarrow> is_whitespace c \<or> c = 59)"

definition asm_header :: "lexer \<Rightarrow> bool \<times> lexer" where
  "asm_header lx =
     (let lx1 = bump_while is_blank lx
      in if asm_opaque_word lx1 then (True, bump_while is_blank (jump 6 lx1)) else (False, lx1))"

definition lex_inline_asm :: "lexer \<Rightarrow> lexer \<Rightarrow> token \<times> lexer" where
  "lex_inline_asm s lx =
     (let (opaque, lx1) = asm_header lx;
          header_end = lexer_pos lx1 + byte_len (takeWhile not_newline (unread lx1));
          lx2 = (if (case peek lx1 of Some c \<Rightarrow> is_newline c \<or> c = 59 | None \<Rightarrow> True) then lx1
                 else report (lexer_pos lx1) header_end
                        (str ''ASM body must begin on the following line'') lx1);
          body = match_newline (bump_while not_newline lx2)
      in case asm_lines body of
           Inr (line_start, line_end) \<Rightarrow>
             (make_token s line_end
                (TkInlineAsm (consumed body line_start) (lexer_pos body) opaque), line_end)
         | Inl lx3 \<Rightarrow>
             let lx4 = report_from s ''unterminated ASM block; expected ENDASM on its own line'' lx3
             in (make_token s lx4 (TkInlineAsm (consumed body lx3) (lexer_pos body) opaque), lx4))"

section \<open>Words, annotations, compound assignment\<close>

definition is_word_char :: "rust_char \<Rightarrow> bool" where
  "is_word_char c \<longleftrightarrow> is_upper c \<or> is_lower c \<or> is_digit_char c \<or> c = 95"

definition word_kind :: "rust_str \<Rightarrow> token_kind" where
  "word_kind t =
     (case map_of keyword_table (str_upper t) of Some k \<Rightarrow> TkKeyword k | None \<Rightarrow> TkIdent t)"

definition lex_ident_or_keyword :: "lexer \<Rightarrow> lexer \<Rightarrow> token \<times> lexer" where
  "lex_ident_or_keyword s lx =
     (let lx1 = bump_while is_word_char lx;
          t = consumed s lx1
      in if str_upper t = str ''ASM'' then lex_inline_asm s lx1
         else (make_token s lx1 (word_kind t), lx1))"

definition lex_actionc_annotation :: "lexer \<Rightarrow> lexer \<Rightarrow> token \<times> lexer" where
  "lex_actionc_annotation s lx =
     (let lx1 = bump_while not_newline lx;
          t = trim (case strip_prefix (str '';@actionc'') (consumed s lx1) of Some t \<Rightarrow> t | None \<Rightarrow> [])
      in (make_token s lx1 (TkActioncAnnotation t), lx1))"

definition is_letter :: "rust_char \<Rightarrow> bool" where
  "is_letter c \<longleftrightarrow> is_upper c \<or> is_lower c"

definition lex_compound_assign :: "lexer \<Rightarrow> lexer \<Rightarrow> token_kind \<times> lexer" where
  "lex_compound_assign s lx =
     (let op = bump_while is_whitespace lx;
          lx1 = (case peek op of
                   None \<Rightarrow> op
                 | Some c \<Rightarrow>
                     if c \<in> {43, 45, 47, 42, 38, 37, 33} then bump op
                     else if is_letter c then bump_while is_letter op
                     else op);
          lx2 = (if lexer_pos op = lexer_pos lx1
                 then report_from s ''expected operator after compound assignment `==`'' lx1 else lx1)
      in (TkCompoundAssign (str_upper (consumed op lx2)), lx2))"

section \<open>The next token\<close>

text \<open>The one-character tokens.\<close>

definition punctuation :: "(rust_char \<times> token_kind) list" where
  "punctuation =
     [(43, TkPlus), (45, TkMinus), (42, TkStar), (47, TkSlash), (38, TkKeyword KwAnd),
      (37, TkKeyword KwOr), (33, TkKeyword KwXor), (35, TkNe), (64, TkAt), (94, TkCaret), (46, TkDot),
      (58, TkColon), (44, TkComma), (40, TkLParen), (41, TkRParen), (91, TkLBracket), (93, TkRBracket)]"

text \<open>Operators: \<open>None\<close> for a character no token begins with. \<open>s\<close> is the state before the
  character, \<open>lx\<close> the state behind it.\<close>

definition lex_operator :: "lexer \<Rightarrow> rust_char \<Rightarrow> lexer \<Rightarrow> (token_kind \<times> lexer) option" where
  "lex_operator s c lx =
     (if c = 61 then
        (case match_char 61 lx of
           Some lx1 \<Rightarrow> Some (lex_compound_assign s lx1)
         | None \<Rightarrow> Some (TkAssign, lx))
      else if c = 60 then
        (case match_char 61 lx of
           Some lx1 \<Rightarrow> Some (TkLe, lx1)
         | None \<Rightarrow> (case match_char 62 lx of Some lx1 \<Rightarrow> Some (TkNe, lx1) | None \<Rightarrow> Some (TkLt, lx)))
      else if c = 62 then
        (case match_char 61 lx of Some lx1 \<Rightarrow> Some (TkGe, lx1) | None \<Rightarrow> Some (TkGt, lx))
      else map_option (\<lambda>k. (k, lx)) (map_of punctuation c))"

text \<open>The token that begins with a character, or a report of it.\<close>

definition lex_token :: "lexer \<Rightarrow> rust_char \<Rightarrow> lexer \<Rightarrow> lexer + token \<times> lexer" where
  "lex_token s c lx =
     (if (c = 99 \<or> c = 67) \<and> peek lx = Some 34 then Inr (lex_cstring s (bump lx))
      else if is_letter c \<or> c = 95 then Inr (lex_ident_or_keyword s lx)
      else if is_digit_char c \<or> c = 36 then Inr (lex_number s lx)
      else if c = 34 \<or> c = 0x201C \<or> c = 0x201D then Inr (lex_string s c lx)
      else if c = 39 then Inr (lex_char s lx)
      else if c = 59 \<and> unread_starts (str '';@actionc'') s then Inr (lex_actionc_annotation s lx)
      else case lex_operator s c lx of
             Some (k, lx1) \<Rightarrow> Inr (make_token s lx1 k, lx1)
           | None \<Rightarrow>
               Inl (report (lexer_pos s) (lexer_pos lx)
                 (str ''unexpected character `'' @ [c] @ str ''`'') lx))"

end
