(* ===== verification/Lexer_Tokenize.thy ===== *)
theory Lexer_Tokenize
  imports Lexer "HOL-Library.Sublist"
begin

text \<open>
  \<open>next_token\<close> and \<open>tokenize\<close> of \<open>src/src/lexer.rs\<close>, on the relation that every scanning function satisfies:
  it consumes a prefix of the unread input, moves the position by the bytes of that prefix and, unless
  a layout escape stands directly behind a carriage return, counts its line breaks
  (\<open>advances\<close>, collection \<open>advancing\<close>). The property: the tokens of a text are disjoint non-empty pieces of
  it, in order, each on its line.
\<close>

named_theorems advancing \<open>the scanning functions consume a prefix of their input\<close>

section \<open>Line breaks\<close>

text \<open>Lines passed and whether the last character was a carriage return.\<close>

definition count_line :: "rust_char \<Rightarrow> nat \<times> bool \<Rightarrow> nat \<times> bool" where
  "count_line c = (\<lambda>(n, cr). (if c = 13 then n + 1 else if c = 10 \<and> \<not> cr then n + 1 else n, c = 13))"

definition line_breaks :: "rust_str \<Rightarrow> nat" where
  "line_breaks s = fst (fold count_line s (0, False))"

lemma count_lines_from: "fold count_line s (n, cr) = (n + fst (fold count_line s (0, cr)), snd (fold count_line s (0, cr)))"
proof (induction s arbitrary: n cr)
  case (Cons c s)
  show ?case
    using Cons [of "fst (count_line c (n, cr))" "snd (count_line c (n, cr))"]
      Cons [of "fst (count_line c (0, cr))" "snd (count_line c (0, cr))"]
    by (simp add: count_line_def)
qed simp

lemma count_no_newline:
  "\<forall>c \<in> set s. not_newline c \<Longrightarrow> fold count_line s (n, False) = (n, False)"
  by (induction s) (auto simp: count_line_def not_newline_def is_newline_def)

lemma count_cr: "snd (fold count_line s (n, cr)) \<Longrightarrow> (s = [] \<and> cr) \<or> (\<exists>t. s = t @ [13])"
  by (induction s rule: rev_induct) (auto simp: count_line_def split: prod.splits)

section \<open>Consuming a prefix\<close>

definition layout_escapes :: "rust_str set" where
  "layout_escapes = {92 # str ''{INV:_}'', 92 # str ''{inv:_}''}"

text \<open>No carriage return directly before a layout escape.\<close>

definition breaks_apart :: "rust_str \<Rightarrow> bool" where
  "breaks_apart s \<longleftrightarrow> (\<forall>e \<in> layout_escapes. \<not> sublist (13 # e) s)"

definition lexer_context :: "lexer \<Rightarrow> rust_str" where
  "lexer_context lx = (if previous_was_cr lx then 13 # unread lx else unread lx)"

definition advances :: "lexer \<Rightarrow> lexer \<Rightarrow> bool" where
  "advances lx lx' \<longleftrightarrow>
     (\<exists>cs. unread lx = cs @ unread lx' \<and> lexer_pos lx' = lexer_pos lx + byte_len cs \<and>
       (breaks_apart (lexer_context lx) \<longrightarrow>
         (lexer_line lx', previous_was_cr lx') = fold count_line cs (lexer_line lx, previous_was_cr lx)))"

lemma breaks_apart_suffix: "breaks_apart s \<Longrightarrow> suffix t s \<Longrightarrow> breaks_apart t"
  unfolding breaks_apart_def by (meson suffix_imp_sublist sublist_order.order_trans)

lemma advances_context:
  assumes "advances lx lx'" and "breaks_apart (lexer_context lx)"
  shows "breaks_apart (lexer_context lx')"
proof -
  from assms obtain cs where cs: "unread lx = cs @ unread lx'"
      "(lexer_line lx', previous_was_cr lx') = fold count_line cs (lexer_line lx, previous_was_cr lx)"
    by (auto simp: advances_def)
  then have "previous_was_cr lx' = snd (fold count_line cs (lexer_line lx, previous_was_cr lx))" by (metis snd_conv)
  then have "previous_was_cr lx' \<Longrightarrow> (cs = [] \<and> previous_was_cr lx) \<or> (\<exists>t. cs = t @ [13])"
    using count_cr by blast
  then have "suffix (lexer_context lx') (lexer_context lx)"
    using cs(1) by (auto simp: lexer_context_def suffix_def)
  with assms(2) show ?thesis by (rule breaks_apart_suffix)
qed

lemma advances_refl [advancing, simp]: "advances lx lx"
  by (auto simp: advances_def)

lemma advances_trans [trans]:
  assumes "advances a b" and "advances b c"
  shows "advances a c"
proof -
  from assms obtain xs ys where xs: "unread a = xs @ unread b" "lexer_pos b = lexer_pos a + byte_len xs"
      "breaks_apart (lexer_context a) \<Longrightarrow>
        (lexer_line b, previous_was_cr b) = fold count_line xs (lexer_line a, previous_was_cr a)"
    and ys: "unread b = ys @ unread c" "lexer_pos c = lexer_pos b + byte_len ys"
      "breaks_apart (lexer_context b) \<Longrightarrow>
        (lexer_line c, previous_was_cr c) = fold count_line ys (lexer_line b, previous_was_cr b)"
    by (auto simp: advances_def)
  show ?thesis
    unfolding advances_def using xs ys advances_context [OF assms(1)]
    by (intro exI [of _ "xs @ ys"]) auto
qed

lemma advances_shorter: "advances lx lx' \<Longrightarrow> length (unread lx') \<le> length (unread lx)"
  by (auto simp: advances_def)

lemma advances_bump [advancing]: "advances lx (bump lx)"
proof (cases "unread lx")
  case Nil
  then show ?thesis by (simp add: bump_def)
next
  case (Cons c cs)
  then show ?thesis
    unfolding advances_def by (intro exI [of _ "[c]"]) (simp add: bump_def count_line_def)
qed

lemma advances_report [advancing]:
  "advances a b \<Longrightarrow> advances a (report p q m b)" "advances a b \<Longrightarrow> advances a (report_from s n b)"
  by (simp_all add: advances_def report_def report_from_def)

lemma advances_after_report:
  "advances (report p q m a) b \<longleftrightarrow> advances a b" "advances (report_from s n a) b \<longleftrightarrow> advances a b"
  by (simp_all add: advances_def report_def report_from_def lexer_context_def)

lemma advances_bump_while [advancing]: "advances lx (bump_while P lx)"
proof (induction P lx rule: bump_while.induct)
  case (1 P lx)
  show ?case
    using 1 advances_trans [OF advances_bump]
    by (subst bump_while.simps) (auto simp: peek_def split: list.splits)
qed

lemma advances_match_char: "match_char c lx = Some lx' \<Longrightarrow> advances lx lx'"
  by (auto simp: match_char_def advances_bump split: if_splits)

lemma advances_match_newline [advancing]: "advances lx (match_newline lx)"
  by (auto simp: match_newline_def match_char_def split: option.splits
      intro: advances_bump advances_trans [OF advances_bump advances_bump])

text \<open>A jump over text without line breaks, when no carriage return precedes it.\<close>

lemma advances_jump:
  assumes "take n (unread lx) = cs" and "length cs = n" and "byte_len cs = n"
    and "\<forall>c \<in> set cs. not_newline c" and "breaks_apart (lexer_context lx) \<Longrightarrow> \<not> previous_was_cr lx"
  shows "advances lx (jump n lx)"
proof -
  have "unread lx = cs @ drop n (unread lx)" using assms(1) by (metis append_take_drop_id)
  then show ?thesis
    unfolding advances_def jump_def using assms(3-5) count_no_newline [OF assms(4), of "lexer_line lx"]
    by (intro exI [of _ cs]) auto
qed

lemma layout_escape_facts:
  assumes "e \<in> layout_escapes"
  shows "length e = 8" and "byte_len e = 8" and "\<forall>c \<in> set e. not_newline c"
  using assms by (auto simp: layout_escapes_def str_def len_utf8_def not_newline_def is_newline_def)

lemma advances_match_layout:
  assumes "match_layout_trivia lx = Some lx'"
  shows "advances lx lx'"
proof (cases "\<exists>e \<in> layout_escapes. unread_starts e lx")
  case True
  then obtain e where e: "e \<in> layout_escapes" "take 8 (unread lx) = e"
    using layout_escape_facts(1) by (auto simp: unread_starts_def)
  have "\<not> previous_was_cr lx" if "breaks_apart (lexer_context lx)"
  proof
    assume "previous_was_cr lx"
    then have "lexer_context lx = 13 # e @ drop 8 (unread lx)"
      using e(2) by (simp add: lexer_context_def) (metis append_take_drop_id)
    then have "sublist (13 # e) (lexer_context lx)" by (metis append_Cons append_Nil sublist_appendI)
    with that e(1) show False by (simp add: breaks_apart_def)
  qed
  with e layout_escape_facts [OF e(1)] have "advances lx (jump 8 lx)" by (intro advances_jump) auto
  moreover have "lx' = jump 8 lx"
    using assms True by (auto simp: match_layout_trivia_def layout_escapes_def split: if_splits)
  ultimately show ?thesis by simp
next
  case False
  with assms have "match_char 0xDF lx = Some lx'"
    by (auto simp: match_layout_trivia_def layout_escapes_def split: if_splits)
  then show ?thesis by (rule advances_match_char)
qed

lemma advances_skip_layout [advancing]: "advances lx (skip_layout lx)"
proof (induction lx rule: skip_layout.induct)
  case (1 lx)
  show ?case
  proof (cases "case peek lx of Some c \<Rightarrow> is_whitespace c | None \<Rightarrow> False")
    case True
    from advances_bump 1(1) [OF True] have "advances lx (skip_layout (bump lx))" by (rule advances_trans)
    with True show ?thesis by (subst skip_layout.simps) simp
  next
    case False
    show ?thesis
    proof (cases "match_layout_trivia lx")
      case None
      with False show ?thesis by (subst skip_layout.simps) simp
    next
      case (Some lx')
      from advances_match_layout [OF Some] 1(2) [OF False Some] have "advances lx (skip_layout lx')"
        by (rule advances_trans)
      with False Some show ?thesis by (subst skip_layout.simps) simp
    qed
  qed
qed

lemma advances_skip_trivia [advancing]: "advances lx (skip_trivia lx)"
proof (induction lx rule: skip_trivia.induct)
  case (1 lx)
  let ?lx1 = "skip_layout lx"
  show ?case
  proof (cases "\<not> unread_starts (str '';@actionc'') ?lx1 \<and> peek ?lx1 = Some 59")
    case True
    then have "advances (bump_while not_newline ?lx1) (skip_trivia (bump_while not_newline ?lx1))"
      using 1 by blast
    then have "advances lx (skip_trivia (bump_while not_newline ?lx1))"
      using advances_skip_layout advances_bump_while advances_trans by metis
    with True show ?thesis by (subst skip_trivia.simps) (simp add: Let_def)
  next
    case False
    then have "skip_trivia lx = ?lx1" by (subst skip_trivia.simps) (auto simp: Let_def)
    then show ?thesis by (simp add: advances_skip_layout)
  qed
qed


section \<open>The scanning functions\<close>

text \<open>One more step behind what has been scanned.\<close>

lemma advances_step [advancing]:
  assumes "advances a b"
  shows "advances a (bump b)" "advances a (bump_while P b)" "advances a (match_newline b)"
  using assms advances_trans advances_bump advances_bump_while advances_match_newline by blast+

lemma advances_matched: "advances a b \<Longrightarrow> match_char c b = Some d \<Longrightarrow> advances a d"
  using advances_trans advances_match_char by blast

lemma advances_atascii_escape:
  assumes "lex_atascii_escape lx = (cs, lx')"
  shows "advances lx lx'"
proof -
  have "advances lx (bump_while (\<lambda>c. c \<noteq> 125) (bump (bump lx)))" by (intro advancing)
  with assms show ?thesis
    by (auto simp: lex_atascii_escape_def Let_def split: option.splits sum.splits
        intro: advances_report advances_matched)
qed

lemma advances_string_loop:
  "string_loop closing acc lx = (t, ok, lx') \<Longrightarrow> advances lx lx'"
proof (induction closing acc lx rule: string_loop.induct)
  case (1 closing acc lx)
  show ?case
  proof (cases "peek lx")
    case None
    with 1(4) show ?thesis by (subst (asm) string_loop.simps) simp
  next
    case (Some c)
    consider (double) "c = closing" "peek (bump lx) = Some closing" | (close) "c = closing" "peek (bump lx) \<noteq> Some closing"
      | (esc) "c \<noteq> closing" "c = 92 \<and> peek_next lx = Some 123"
      | (plain) "c \<noteq> closing" "\<not> (c = 92 \<and> peek_next lx = Some 123)"
      by blast
    then show ?thesis
    proof cases
      case double
      with 1(4) Some have loop: "string_loop closing (acc @ [closing]) (bump (bump lx)) = (t, ok, lx')"
        by (subst (asm) string_loop.simps) (simp del: peek_Some)
      have "advances (bump (bump lx)) lx'" by (rule 1(1) [OF Some double(1) refl double(2) loop])
      then show ?thesis using advances_bump advances_trans by blast
    next
      case close
      with 1(4) Some show ?thesis
        by (subst (asm) string_loop.simps) (auto simp: advances_bump simp del: peek_Some)
    next
      case esc
      obtain es lx1 where e: "lex_atascii_escape lx = (es, lx1)" by fastforce
      with 1(4) Some esc have loop: "string_loop closing (acc @ es) lx1 = (t, ok, lx')"
        by (subst (asm) string_loop.simps) (simp del: peek_Some)
      have "advances lx1 lx'" by (rule 1(2) [OF Some esc e [symmetric] refl loop])
      with advances_atascii_escape [OF e] show ?thesis by (rule advances_trans)
    next
      case plain
      with 1(4) Some have loop: "string_loop closing (acc @ [c]) (bump lx) = (t, ok, lx')"
        by (subst (asm) string_loop.simps) (simp del: peek_Some)
      have "advances (bump lx) lx'" by (rule 1(3) [OF Some plain loop])
      with advances_bump show ?thesis by (rule advances_trans)
    qed
  qed
qed

lemma advances_hex_escape:
  "hex_escape_digits n v k lx = (w, j, lx') \<Longrightarrow> advances lx lx'"
proof (induction n v k lx rule: hex_escape_digits.induct)
  case (2 n v k lx)
  then show ?case
    by (auto split: option.splits if_splits intro: advances_trans [OF advances_bump])
qed simp

lemma advances_cstring_escape:
  "cstring_escape s e lx = (b, lx') \<Longrightarrow> advances lx lx'"
  by (auto simp: cstring_escape_def Let_def split: option.splits if_splits prod.splits
      intro: advances_report advances_hex_escape)

lemma advances_cstring_loop:
  "cstring_loop s acc lx = (bs, ok, lx') \<Longrightarrow> advances lx lx'"
proof (induction s acc lx rule: cstring_loop.induct)
  case (1 s acc lx)
  show ?case
  proof (cases "\<exists>c. peek lx = Some c \<and> \<not> is_newline c \<and> c \<noteq> 34")
    case False
    with 1(4) show ?thesis
      by (subst (asm) cstring_loop.simps)
        (auto simp: peek_def advances_bump split: list.splits if_splits)
  next
    case True
    then obtain c where c: "peek lx = Some c" "\<not> is_newline c" "c \<noteq> 34" by blast
    show ?thesis
    proof (cases "c = 92")
      case True
      show ?thesis
      proof (cases "\<exists>e. peek (bump lx) = Some e \<and> \<not> is_newline e")
        case False
        with 1(4) c True show ?thesis
          by (subst (asm) cstring_loop.simps)
            (auto simp: Let_def advances_bump split: option.splits if_splits simp del: peek_Some peek_None)
      next
        case True
        then obtain e where e: "peek (bump lx) = Some e" "\<not> is_newline e" by blast
        obtain b lx2 where esc: "cstring_escape s e (bump (bump lx)) = (b, lx2)" by fastforce
        with 1(4) c e \<open>c = 92\<close> have loop: "cstring_loop s (push_byte acc b) lx2 = (bs, ok, lx')"
          by (subst (asm) cstring_loop.simps) (simp add: Let_def del: peek_Some)
        have "advances lx2 lx'"
          by (rule 1(1) [OF c(1,2) refl c(3) \<open>c = 92\<close> e esc [symmetric] refl loop])
        moreover have "advances lx lx2"
          using advances_cstring_escape [OF esc] advances_bump advances_trans by blast
        ultimately show ?thesis using advances_trans by blast
      qed
    next
      case False
      show ?thesis
      proof (cases "c \<le> 0xFF")
        case True
        with 1(4) c False have loop: "cstring_loop s (push_byte acc (Some (ucast c))) (bump lx) = (bs, ok, lx')"
          by (subst (asm) cstring_loop.simps) (simp add: Let_def del: peek_Some)
        have "advances (bump lx) lx'" by (rule 1(2) [OF c(1,2) refl c(3) False True loop])
        with advances_bump show ?thesis by (rule advances_trans)
      next
        case False
        with 1(4) c \<open>c \<noteq> 92\<close> have loop: "cstring_loop s (push_byte acc None) (report_from s
            ''C-string character is outside the single-byte source encoding'' (bump lx)) = (bs, ok, lx')"
          by (subst (asm) cstring_loop.simps) (simp add: Let_def del: peek_Some)
        have "advances (report_from s
            ''C-string character is outside the single-byte source encoding'' (bump lx)) lx'"
          by (rule 1(3) [OF c(1,2) refl c(3) \<open>c \<noteq> 92\<close> False loop])
        then show ?thesis using advances_bump advances_trans by (simp only: advances_after_report) blast
      qed
    qed
  qed
qed


lemma scanned_token:
  "lex_string s q lx = (t, lx') \<Longrightarrow> advances lx lx' \<and> (\<exists>k. t = make_token s lx' k)"
  "lex_char s lx = (t, lx') \<Longrightarrow> advances lx lx' \<and> (\<exists>k. t = make_token s lx' k)"
  "lex_cstring s lx = (t, lx') \<Longrightarrow> advances lx lx' \<and> (\<exists>k. t = make_token s lx' k)"
  "lex_actionc_annotation s lx = (t, lx') \<Longrightarrow> advances lx lx' \<and> (\<exists>k. t = make_token s lx' k)"
  by (auto simp: lex_string_def lex_char_def lex_cstring_def lex_actionc_annotation_def Let_def
      split: prod.splits if_splits
      intro: advances_report advances_string_loop advances_cstring_loop advances_atascii_escape
        advances_bump advances_bump_while)

lemma advances_scan_exponent [advancing]: "advances a b \<Longrightarrow> advances a (scan_exponent s b)"
  by (auto simp: scan_exponent_def Let_def intro!: advances_report advances_step(1,2))

lemma advances_scan_decimal [advancing]: "advances a b \<Longrightarrow> advances a (scan_decimal s b)"
  by (auto simp: scan_decimal_def Let_def intro!: advances_scan_exponent advances_step(1,2))

lemma scanned_number:
  assumes "lex_number s lx = (t, lx')"
  shows "advances lx lx' \<and> (\<exists>k. t = make_token s lx' k)"
proof -
  have "advances lx (bump_while is_hex_digit lx)" "advances lx (scan_decimal s lx)"
    by (intro advancing)+
  with assms show ?thesis
    by (auto simp: lex_number_def lex_hex_number_def lex_decimal_number_def make_number_def Let_def
        split: prod.splits option.splits if_splits intro: advances_report)
qed

lemma asm_lines_advance:
  "asm_lines lx = Inr (a, b) \<Longrightarrow> advances lx b"
  "asm_lines lx = Inl b \<Longrightarrow> advances lx b"
proof (induction lx rule: asm_lines.induct)
  case (1 lx)
  let ?e = "bump_while not_newline lx"
  have e: "advances lx ?e" "advances lx (match_newline ?e)" by (intro advancing)+
  {
    case 1
    then show ?case
      using e "1.IH"(1) [OF _ refl] advances_trans [OF e(2)]
      by (subst (asm) asm_lines.simps) (auto simp: Let_def split: if_splits)
  next
    case 2
    then show ?case
      using e "1.IH"(2) [OF _ refl] advances_trans [OF e(2)]
      by (subst (asm) asm_lines.simps) (auto simp: Let_def split: if_splits)
  }
qed

lemma upper_letter: "char_upper c = u \<Longrightarrow> is_upper u \<Longrightarrow> c < 0x80 \<and> not_newline c"
proof -
  assume u: "char_upper c = u" "is_upper u"
  have "is_upper c \<or> is_lower c" using u by (auto simp: char_upper_def split: if_splits)
  then show ?thesis
    by (auto simp: is_upper_def is_lower_def in_range_def not_newline_def is_newline_def
        word_le_nat_alt word_less_nat_alt)
qed

lemma upper_text:
  assumes "str_upper s = u" and "\<forall>c \<in> set u. is_upper c"
  shows "byte_len s = length s" and "\<forall>c \<in> set s. not_newline c"
proof -
  have "\<forall>c \<in> set s. c < 0x80 \<and> not_newline c" using assms upper_letter by (auto simp: str_upper_def)
  then show "byte_len s = length s" "\<forall>c \<in> set s. not_newline c"
    by (induction s) (auto simp: len_utf8_def)
qed

lemma no_cr_bump_while:
  assumes "\<not> previous_was_cr lx" and "\<not> P 13"
  shows "\<not> previous_was_cr (bump_while P lx)"
  using assms
proof (induction P lx rule: bump_while.induct)
  case (1 P lx)
  show ?case
  proof (cases "\<exists>c. peek lx = Some c \<and> P c")
    case True
    then obtain c cs where c: "peek lx = Some c" "P c" "unread lx = c # cs" by auto
    with 1(3) have "\<not> previous_was_cr (bump lx)" by (auto simp: bump_def)
    with 1 c have "\<not> previous_was_cr (bump_while P (bump lx))" by blast
    with c show ?thesis by (subst bump_while.simps) (simp add: peek_def)
  next
    case False
    then have "bump_while P lx = lx" by (subst bump_while.simps) (auto split: option.splits)
    with 1(2) show ?thesis by simp
  qed
qed

lemma advances_asm_header:
  assumes "asm_header lx = (opaque, lx')" and "\<not> previous_was_cr lx"
  shows "advances lx lx'"
proof -
  let ?b = "bump_while is_blank lx"
  have b: "advances lx ?b" by (intro advancing)
  show ?thesis
  proof (cases "asm_opaque_word ?b")
    case True
    have "\<forall>c \<in> set (str_upper (str ''OPAQUE'')). is_upper c"
      by (simp add: str_def str_upper_def char_upper_def is_upper_def is_lower_def in_range_def)
    moreover have "str_upper (take 6 (unread ?b)) = str_upper (str ''OPAQUE'')" "6 \<le> length (unread ?b)"
      using True by (simp_all add: asm_opaque_word_def eq_ignore_case_def)
    ultimately have ascii: "byte_len (take 6 (unread ?b)) = 6" "\<forall>c \<in> set (take 6 (unread ?b)). not_newline c"
      "length (take 6 (unread ?b)) = 6"
      using upper_text [of "take 6 (unread ?b)" "str_upper (str ''OPAQUE'')"] by simp_all
    have "\<not> previous_was_cr ?b" by (rule no_cr_bump_while [OF assms(2)]) (simp add: is_blank_def)
    then have "advances ?b (jump 6 ?b)"
      by (intro advances_jump [OF refl ascii(3,1,2)])
    with b have "advances lx (jump 6 ?b)" by (rule advances_trans)
    then have "advances lx (bump_while is_blank (jump 6 ?b))" by (rule advances_step)
    with True assms(1) show ?thesis by (simp add: asm_header_def Let_def)
  next
    case False
    with assms(1) b show ?thesis by (simp add: asm_header_def Let_def)
  qed
qed

lemma scanned_asm:
  assumes "lex_inline_asm s lx = (t, lx')" and "\<not> previous_was_cr lx"
  shows "advances lx lx' \<and> (\<exists>k. t = make_token s lx' k)"
proof -
  obtain opaque lx1 where header: "asm_header lx = (opaque, lx1)" by fastforce
  define lx2 where "lx2 = (if (case peek lx1 of Some c \<Rightarrow> is_newline c \<or> c = 59 | None \<Rightarrow> True) then lx1
    else report (lexer_pos lx1) (lexer_pos lx1 + byte_len (takeWhile not_newline (unread lx1)))
      (str ''ASM body must begin on the following line'') lx1)"
  define body where "body = match_newline (bump_while not_newline lx2)"
  have "advances lx lx1" using header assms(2) by (rule advances_asm_header)
  then have "advances lx lx2" by (simp add: lx2_def advances_report)
  then have body: "advances lx body" unfolding body_def by (intro advances_step)
  show ?thesis
  proof (cases "asm_lines body")
    case (Inl lx3)
    with body asm_lines_advance(2) have "advances lx lx3" by (blast intro: advances_trans)
    then have "advances lx (report_from s ''unterminated ASM block; expected ENDASM on its own line'' lx3)"
      by (rule advances_report)
    moreover have "lx' = report_from s ''unterminated ASM block; expected ENDASM on its own line'' lx3 \<and>
        t = make_token s lx' (TkInlineAsm (consumed body lx3) (lexer_pos body) opaque)"
      using Inl assms(1) unfolding lex_inline_asm_def header Let_def prod.case
      by (auto simp: lx2_def [symmetric] body_def [symmetric])
    ultimately show ?thesis by blast
  next
    case (Inr p)
    obtain a b where p: "p = (a, b)" by fastforce
    with Inr body asm_lines_advance(1) have "advances lx b" by (blast intro: advances_trans)
    moreover have "lx' = b \<and> t = make_token s b (TkInlineAsm (consumed body a) (lexer_pos body) opaque)"
      using Inr p assms(1) unfolding lex_inline_asm_def header Let_def prod.case
      by (auto simp: lx2_def [symmetric] body_def [symmetric])
    ultimately show ?thesis by blast
  qed
qed


lemma scanned_word:
  assumes "lex_ident_or_keyword s lx = (t, lx')" and "\<not> previous_was_cr lx"
  shows "advances lx lx' \<and> (\<exists>k. t = make_token s lx' k)"
proof -
  let ?w = "bump_while is_word_char lx"
  have w: "advances lx ?w" by (intro advancing)
  have "\<not> is_word_char 13"
    by (simp add: is_word_char_def is_upper_def is_lower_def is_digit_char_def in_range_def)
  then have "\<not> previous_was_cr ?w" by (rule no_cr_bump_while [OF assms(2)])
  with assms(1) w scanned_asm [of s ?w t lx'] advances_trans [OF w] show ?thesis
    by (auto simp: lex_ident_or_keyword_def Let_def split: if_splits)
qed

lemma scanned_compound:
  assumes "lex_compound_assign s lx = (k, lx')"
  shows "advances lx lx'"
proof -
  let ?op = "bump_while is_whitespace lx"
  have "advances lx ?op" "advances lx (bump ?op)" "advances lx (bump_while is_letter ?op)"
    by (intro advancing)+
  with assms show ?thesis
    by (auto simp: lex_compound_assign_def Let_def split: option.splits if_splits intro: advances_report)
qed

lemma scanned_operator:
  assumes "lex_operator s c lx = Some (k, lx')"
  shows "advances lx lx'"
  using assms
  by (auto simp: lex_operator_def split: if_splits option.splits
      dest: advances_match_char intro: scanned_compound advances_trans)

text \<open>A token ends where scanning stops.\<close>

lemma scanned:
  assumes "unread s = c # cs" and "lex_token s c (bump s) = Inr (t, lx')"
  shows "advances (bump s) lx' \<and> (\<exists>k. t = make_token s lx' k)"
proof -
  have no_cr: "is_letter c \<or> c = 95 \<Longrightarrow> \<not> previous_was_cr (bump s)"
    using assms(1) by (auto simp: bump_def is_letter_def is_upper_def is_lower_def in_range_def)
  consider "lex_cstring s (bump (bump s)) = (t, lx')"
    | "is_letter c \<or> c = 95" "lex_ident_or_keyword s (bump s) = (t, lx')"
    | "lex_number s (bump s) = (t, lx')" | "lex_string s c (bump s) = (t, lx')"
    | "lex_char s (bump s) = (t, lx')" | "lex_actionc_annotation s (bump s) = (t, lx')"
    | k where "lex_operator s c (bump s) = Some (k, lx')" "t = make_token s lx' k"
    using assms(2) by (auto simp: lex_token_def split: if_splits option.splits)
  then show ?thesis
  proof cases
    case 1
    then show ?thesis using scanned_token(3) advances_trans [OF advances_bump] by blast
  next
    case 2
    with no_cr show ?thesis by (intro scanned_word)
  next
    case (7 k)
    then show ?thesis using scanned_operator by blast
  qed (erule scanned_number scanned_token)+
qed

lemma rejected: "lex_token s c lx = Inl lx' \<Longrightarrow> advances lx lx' \<and> unread lx' = unread lx"
  by (auto simp: lex_token_def split: if_splits option.splits intro: advances_report)

section \<open>Tokens of a text\<close>

function next_token :: "lexer \<Rightarrow> token option \<times> lexer" where
  "next_token lx =
     (let s = skip_trivia lx
      in case peek s of
           None \<Rightarrow> (None, s)
         | Some c \<Rightarrow>
             (case lex_token s c (bump s) of
                Inr (t, lx1) \<Rightarrow> (Some t, lx1)
              | Inl lx1 \<Rightarrow> next_token lx1))"
  by pat_completeness auto
termination
proof (relation "measure (\<lambda>lx. length (unread lx))", goal_cases)
  case (2 lx s c lx1)
  then obtain cs where cs: "unread s = c # cs" by auto
  have "unread lx1 = unread (bump s)" using rejected [of s c "bump s" lx1] 2 by simp
  with cs have "length (unread lx1) < length (unread s)" by simp
  also have "\<dots> \<le> length (unread lx)" using 2 advances_shorter [OF advances_skip_trivia] by simp
  finally show ?case by simp
qed simp

declare next_token.simps [simp del]

text \<open>A token lies between a start and an end state.\<close>

lemma next_token_facts:
  assumes "next_token lx = (r, lx')"
  shows "advances lx lx'"
    and "r = Some t \<Longrightarrow> \<exists>s k. advances lx s \<and> advances s lx' \<and> unread s \<noteq> [] \<and>
      length (unread lx') < length (unread s) \<and> t = make_token s lx' k"
proof -
  have "advances lx lx' \<and> (\<forall>t. r = Some t \<longrightarrow> (\<exists>s k. advances lx s \<and> advances s lx' \<and> unread s \<noteq> [] \<and>
      length (unread lx') < length (unread s) \<and> t = make_token s lx' k))"
    using assms
  proof (induction lx rule: next_token.induct)
    case (1 lx)
    let ?s = "skip_trivia lx"
    have s: "advances lx ?s" by (intro advancing)
    show ?case
    proof (cases "unread ?s")
      case Nil
      with 1(2) s show ?thesis by (subst (asm) next_token.simps) (auto simp: peek_def)
    next
      case (Cons c cs)
      then have peek: "peek ?s = Some c" by simp
      have bump: "advances ?s (bump ?s)" by (rule advances_bump)
      show ?thesis
      proof (cases "lex_token ?s c (bump ?s)")
        case (Inl lx1)
        then have lx1: "advances (bump ?s) lx1" using rejected by blast
        from Inl peek 1(2) have "next_token lx1 = (r, lx')" by (subst (asm) next_token.simps) (simp add: Let_def del: peek_Some)
        note ih = 1(1) [OF refl peek Inl this]
        have "advances lx lx1" using s bump lx1 advances_trans by blast
        with ih show ?thesis using advances_trans by blast
      next
        case (Inr p)
        obtain t u where p: "p = (t, u)" by fastforce
        with Inr peek 1(2) have r: "r = Some t" "lx' = u"
          by (subst (asm) next_token.simps, simp add: Let_def del: peek_Some)+
        from scanned [OF Cons Inr [unfolded p]] r obtain k
          where k: "advances (bump ?s) lx'" "t = make_token ?s lx' k" by blast
        then have "length (unread lx') < length (unread ?s)"
          using advances_shorter [OF k(1)] Cons by simp
        moreover have end_state: "advances ?s lx'" using bump k(1) by (rule advances_trans)
        moreover have "advances lx lx'" using s end_state by (rule advances_trans)
        moreover have "unread ?s \<noteq> []" using Cons by simp
        ultimately show ?thesis using s k(2) r(1) by blast
      qed
    qed
  qed
  then show "advances lx lx'"
    and "r = Some t \<Longrightarrow> \<exists>s k. advances lx s \<and> advances s lx' \<and> unread s \<noteq> [] \<and>
      length (unread lx') < length (unread s) \<and> t = make_token s lx' k"
    by blast+
qed

function lex_all :: "lexer \<Rightarrow> token list \<times> lexer" where
  "lex_all lx =
     (case next_token lx of
        (None, lx1) \<Rightarrow> ([], lx1)
      | (Some t, lx1) \<Rightarrow> (let (ts, lx2) = lex_all lx1 in (t # ts, lx2)))"
  by pat_completeness auto
termination
proof (relation "measure (\<lambda>lx. length (unread lx))", goal_cases)
  case (2 lx r lx1 t)
  then have "next_token lx = (Some t, lx1)" by simp
  from next_token_facts(2) [OF this refl] obtain s where "advances lx s" "length (unread lx1) < length (unread s)"
    by blast
  then show ?case using advances_shorter [of lx s] by simp
qed simp

declare lex_all.simps [simp del]

definition eof_token :: "nat \<Rightarrow> nat \<Rightarrow> token" where
  "eof_token n line =
     \<lparr>token_kind_of = TkEof, token_span = \<lparr>span_start = n, span_end = n\<rparr>, token_line = line\<rparr>"

definition tokenize :: "rust_str \<Rightarrow> diagnostic list + token list" where
  "tokenize input =
     (let (ts, lx) = lex_all (new_lexer input)
      in if diagnostics lx = [] then Inr (ts @ [eof_token (byte_len input) (lexer_line lx)])
         else Inl (diagnostics lx))"


section \<open>Where the tokens of a text are\<close>

text \<open>The state of the lexer after a prefix of the text.\<close>

definition lexer_at :: "rust_str \<Rightarrow> lexer \<Rightarrow> bool" where
  "lexer_at input lx \<longleftrightarrow>
     breaks_apart (lexer_context lx) \<and>
     (\<exists>before. input = before @ unread lx \<and> lexer_pos lx = byte_len before \<and>
       (lexer_line lx, previous_was_cr lx) = fold count_line before (1, False))"

lemma lexer_at_new: "breaks_apart input \<Longrightarrow> lexer_at input (new_lexer input)"
  by (simp add: lexer_at_def new_lexer_def lexer_context_def)

lemma lexer_at_advances:
  assumes "lexer_at input lx" and "advances lx lx'"
  shows "lexer_at input lx'"
proof -
  from assms(1) obtain b where b: "breaks_apart (lexer_context lx)" "input = b @ unread lx"
      "lexer_pos lx = byte_len b" "(lexer_line lx, previous_was_cr lx) = fold count_line b (1, False)"
    by (auto simp: lexer_at_def)
  from assms(2) b(1) obtain cs where cs: "unread lx = cs @ unread lx'" "lexer_pos lx' = lexer_pos lx + byte_len cs"
      "(lexer_line lx', previous_was_cr lx') = fold count_line cs (lexer_line lx, previous_was_cr lx)"
    by (auto simp: advances_def)
  have "breaks_apart (lexer_context lx')" using assms(2) b(1) by (rule advances_context)
  with b cs show ?thesis unfolding lexer_at_def by (intro conjI exI [of _ "b @ cs"]) simp_all
qed

lemma lexer_at_line:
  assumes "lexer_at input lx" and "input = b @ unread lx"
  shows "lexer_pos lx = byte_len b" and "lexer_line lx = 1 + line_breaks b"
proof -
  have "(1 :: nat, False) = (1, False)" ..
  with assms obtain "lexer_pos lx = byte_len b" "(lexer_line lx, previous_was_cr lx) = fold count_line b (1, False)"
    by (auto simp: lexer_at_def)
  then show "lexer_pos lx = byte_len b" "lexer_line lx = 1 + line_breaks b"
    using count_lines_from [of b 1 False] by (simp_all add: line_breaks_def)
qed

definition token_at :: "rust_str \<Rightarrow> token \<Rightarrow> bool" where
  "token_at input t \<longleftrightarrow>
     (\<exists>before piece after. input = before @ piece @ after \<and> piece \<noteq> [] \<and>
       span_start (token_span t) = byte_len before \<and>
       span_end (token_span t) = byte_len before + byte_len piece \<and>
       token_line t = 1 + line_breaks before)"

lemma make_token_at:
  assumes "lexer_at input s" and "advances s lx'" and "length (unread lx') < length (unread s)"
  shows "token_at input (make_token s lx' k)"
proof -
  obtain b where b: "input = b @ unread s" using assms(1) by (auto simp: lexer_at_def)
  obtain cs where cs: "unread s = cs @ unread lx'" "lexer_pos lx' = lexer_pos s + byte_len cs"
    using assms(2) by (auto simp: advances_def)
  have "cs \<noteq> []" using cs(1) assms(3) by auto
  with b cs lexer_at_line [OF assms(1) b] show ?thesis
    unfolding token_at_def make_token_def by (intro exI [of _ b] exI [of _ cs] exI [of _ "unread lx'"]) simp
qed

lemma next_token_end: "next_token lx = (None, lx') \<Longrightarrow> unread lx' = []"
proof (induction lx rule: next_token.induct)
  case (1 lx)
  let ?s = "skip_trivia lx"
  show ?case
  proof (cases "unread ?s")
    case Nil
    with 1(2) show ?thesis by (subst (asm) next_token.simps) (auto simp: peek_def)
  next
    case (Cons c cs)
    then have peek: "peek ?s = Some c" by simp
    show ?thesis
    proof (cases "lex_token ?s c (bump ?s)")
      case (Inl lx1)
      with peek 1(2) have "next_token lx1 = (None, lx')"
        by (subst (asm) next_token.simps) (simp add: Let_def del: peek_Some)
      with 1(1) [OF refl peek Inl] show ?thesis .
    next
      case (Inr p)
      with peek 1(2) show ?thesis
        by (subst (asm) next_token.simps) (simp add: Let_def split: prod.splits del: peek_Some)
    qed
  qed
qed

lemma advances_pos: "advances lx lx' \<Longrightarrow> lexer_pos lx \<le> lexer_pos lx'"
  by (auto simp: advances_def)

definition tokens_in_order :: "token list \<Rightarrow> bool" where
  "tokens_in_order ts \<longleftrightarrow> sorted_wrt (\<lambda>t u. span_end (token_span t) \<le> span_start (token_span u)) ts"

lemma lex_all_facts:
  assumes "lexer_at input lx" and "lex_all lx = (ts, lx')"
  shows "lexer_at input lx' \<and> unread lx' = [] \<and> tokens_in_order ts \<and>
    (\<forall>t \<in> set ts. token_at input t \<and> lexer_pos lx \<le> span_start (token_span t))"
  using assms
proof (induction lx arbitrary: ts rule: lex_all.induct)
  case (1 lx)
  obtain r lx1 where r: "next_token lx = (r, lx1)" by fastforce
  have lx1: "lexer_at input lx1" using 1(2) next_token_facts(1) [OF r] by (rule lexer_at_advances)
  show ?case
  proof (cases r)
    case None
    with r 1(3) have "ts = []" "lx' = lx1" by (subst (asm) lex_all.simps, simp)+
    with r None lx1 next_token_end [of lx lx1] show ?thesis by (simp add: tokens_in_order_def)
  next
    case (Some t)
    with r 1(3) obtain us where us: "lex_all lx1 = (us, lx')" "ts = t # us"
      by (subst (asm) lex_all.simps) (auto split: prod.splits)
    have rest: "lexer_at input lx' \<and> unread lx' = [] \<and> tokens_in_order us \<and>
        (\<forall>t \<in> set us. token_at input t \<and> lexer_pos lx1 \<le> span_start (token_span t))"
      by (rule 1(1) [OF r [symmetric] Some lx1 us(1)])
    from next_token_facts(2) [OF r Some] obtain s k where s: "advances lx s" "advances s lx1"
        "length (unread lx1) < length (unread s)" "t = make_token s lx1 k"
      by blast
    have "lexer_at input s" using 1(2) s(1) by (rule lexer_at_advances)
    then have "token_at input t" using s(2-4) make_token_at by simp
    moreover have "lexer_pos lx \<le> lexer_pos s" "lexer_pos s \<le> lexer_pos lx1"
      using s(1,2) by (simp_all add: advances_pos)
    moreover have "span_start (token_span t) = lexer_pos s" "span_end (token_span t) = lexer_pos lx1"
      by (simp_all add: s(4) make_token_def)
    ultimately show ?thesis using rest us(2) by (auto simp: tokens_in_order_def)
  qed
qed

text \<open>C40: the tokens of a text are non-empty pieces of it at their byte offsets, disjoint and in the
  order of the text, each with the number of the line it begins on (a carriage return, a line feed and
  the pair of both end a line), followed by one end-of-file token behind the last byte. Texts where a
  layout escape directly follows a carriage return are excepted.\<close>

theorem tokenize_covers:
  assumes "tokenize input = Inr toks" and "breaks_apart input"
  shows "\<exists>ts. toks = ts @ [eof_token (byte_len input) (1 + line_breaks input)] \<and>
    (\<forall>t \<in> set ts. token_at input t) \<and> tokens_in_order ts"
proof -
  obtain ts lx where all: "lex_all (new_lexer input) = (ts, lx)" by fastforce
  then have toks: "toks = ts @ [eof_token (byte_len input) (lexer_line lx)]"
    using assms(1) by (simp add: tokenize_def split: if_splits)
  note facts = lex_all_facts [OF lexer_at_new [OF assms(2)] all]
  then have "lexer_line lx = 1 + line_breaks input" by (intro lexer_at_line(2) [of input]) simp_all
  then have "toks = ts @ [eof_token (byte_len input) (1 + line_breaks input)]" by (simp only: toks)
  with facts show ?thesis by blast
qed

end
