(* ===== verification/Lexer_Sample.thy ===== *)
theory Lexer_Sample
  imports Lexer_Tokenize
begin

text \<open>
  Evaluated texts for the lexer: a procedure with a comment, a \<open>CR LF\<close> line break and an assignment, and
  the line count of a text where a layout escape follows a carriage return.
\<close>

definition sample_text :: rust_str where
  "sample_text = str ''BYTE x ; a byte'' @ [13, 10] @ str ''x==+$1F''"

lemma sample_tokens:
  "map_sum length (map (\<lambda>t. (token_kind_of t, token_line t))) (tokenize sample_text) =
    Inr [(TkKeyword KwByte, 1), (TkIdent (str ''x''), 1), (TkIdent (str ''x''), 2),
      (TkCompoundAssign (str ''+''), 2),
      (TkNumber \<lparr>literal_text = str ''$1F'', literal_kind = NkByte, literal_value = Some 31\<rparr>, 2), (TkEof, 2)]"
  by code_simp


lemma sample_breaks: "breaks_apart sample_text"
  by code_simp

theorem tokenize_covers_witness:
  "\<exists>toks ts. tokenize sample_text = Inr toks \<and>
    toks = ts @ [eof_token (byte_len sample_text) (1 + line_breaks sample_text)] \<and>
    (\<forall>t \<in> set ts. token_at sample_text t) \<and> tokens_in_order ts"
proof -
  obtain toks where toks: "tokenize sample_text = Inr toks"
    using sample_tokens by (cases "tokenize sample_text") auto
  from tokenize_covers [OF this sample_breaks] toks show ?thesis by blast
qed

text \<open>A layout escape between a carriage return and a line feed hides the second line break: the jump over
  the escape leaves the mark of the carriage return, so that the line feed is taken for its second half. The
  identifier behind stands on line 3 and is reported on line 2.\<close>

definition hidden_break :: rust_str where
  "hidden_break = [65, 13, 92] @ str ''{INV:_}'' @ [10, 66]"

lemma hidden_line_break:
  "map_sum length (map (\<lambda>t. (token_kind_of t, token_line t))) (tokenize hidden_break) =
    Inr [(TkIdent [65], 1), (TkIdent [66], 2), (TkEof, 2)] \<and>
   hidden_break = butlast hidden_break @ [66] \<and> 1 + line_breaks (butlast hidden_break) = 3"
  by code_simp

end
