(* ===== verification/Spec2Isabelle.thy ===== *)
theory Spec2Isabelle
  imports Nir_Analysis M68k_Relax Hunk_Loader Mir68k_Allocation_Correct O65_Sample Atari_Real Lexer_Sample
begin

text \<open>
  Verification development for the Action! compiler \<open>actionc\<close>.

  \<^bold>\<open>The program.\<close> \<open>actionc\<close> reads Action! sources (\<open>src/src/lexer.rs\<close>, \<open>src/src/parser.rs\<close>), checks them
  (\<open>src/src/semantic.rs\<close>) and lowers them to a target-independent intermediate representation, NIR
  (\<open>src/src/nir\<close>). Analyses over the control-flow graph of a NIR routine share one data-flow solver and one
  dominance computation (\<open>src/src/analysis\<close>). Backends turn verified NIR into machine code: the classic
  6502 generator (\<open>src/src/codegen\<close>), MIR6502 (\<open>src/src/mir6502\<close>), the 65816 (\<open>src/src/mir65816\<close>), whose
  programs are written, admitted and relocated in a form of the o65 format, and the MC68000
  (\<open>src/src/mir68k\<close>), which allocates registers, selects instructions, relaxes branches, encodes, links
  objects and writes Amiga executables.

  \<^bold>\<open>What is modelled.\<close> The parts whose correctness can be stated without the semantics of a machine or of
  the source language, each from its source and executable:

  \<^item> \<open>Lexer_Text\<close>, \<open>Lexer\<close>, \<open>Lexer_Tokenize\<close>, \<open>Lexer_Sample\<close>: the lexer. The scanning state keeps the unread
    input beside \<open>pos\<close>; \<open>Token\<close>, \<open>TokenKind\<close> and \<open>Keyword\<close> are a record and datatypes; every \<open>lex_\<close> method
    is a function from states to a token and a state. All of them satisfy \<open>advances\<close>: they consume a prefix
    of the input and count its line breaks.
  \<^item> \<open>Atari_Real\<close>: decimal constants to six-byte Atari reals (\<open>src/src/atari_real.rs\<close>), with the grammar of
    the accepted spellings (\<open>parse_spelled\<close>, \<open>parse_accepts\<close>) and the rational number a value stands for.
  \<^item> \<open>Flow_Graph\<close>, \<open>Dataflow\<close>: the graph trait and the worklist solver. The problem trait is a record of
    functions. The locale \<open>flow_graph\<close> is the contract of a graph (finite, edges seen from both ends), the
    locale \<open>monotone_problem\<close> that of a problem the solver finishes on.
  \<^item> \<open>Dominance\<close>, \<open>Dominance_Correct\<close>: dominator sets, tree, frontiers and iterated frontiers, against the
    definition by paths.
  \<^item> \<open>Target\<close>, \<open>Nir_Ir\<close>: target layouts, NIR types, values, places, operations, blocks and data images.
    \<open>Nir_Cfg\<close>, \<open>Nir_Use_Def\<close>, \<open>Nir_Liveness\<close>: control-flow graph, definition and use sites, liveness. The
    graph built by \<open>from_routine\<close> interprets \<open>flow_graph\<close> (\<open>nir\<close>), the liveness problem on it interprets
    \<open>monotone_problem\<close> (\<open>live\<close>). \<open>Nir_Analysis\<close> states the solver's and the dominance facts for NIR.
  \<^item> \<open>M68k_Machine\<close>, \<open>M68k_Encode\<close>, \<open>M68k_Relax\<close>: MC68000 instructions, their encoder and the shortening of
    long branches. \<open>M68k_Image\<close>, \<open>M68k_Object\<close>: linked images, relocatable objects and the linker.
    \<open>M68k_Hunk\<close>, \<open>Hunk_Loader\<close>: the Amiga executable, and a loader of the documented format as its
    specification.
  \<^item> \<open>Mir68k_Ir\<close>, \<open>Mir68k_Cfg\<close>, \<open>Mir68k_Allocation\<close>, \<open>Mir68k_Allocation_Correct\<close>: the MC68000 MIR, its graph
    and the register allocator, with liveness along executions as the specification of interference.
  \<^item> \<open>O65_Profile\<close>, \<open>O65_Reader\<close>, \<open>O65_Descriptor\<close>, \<open>O65_Wire\<close>, \<open>O65_Roundtrip\<close>: the wire form of an o65
    application and of its descriptor, written and read back. \<open>O65_Region\<close>: address ranges and their index.
    \<open>O65_Relocate\<close>, \<open>O65_Admission\<close>, \<open>O65_Relocate_Correct\<close>, \<open>O65_Panic_Free\<close>, \<open>O65_Accept\<close>: admission and
    relocation. \<open>O65_Write\<close>: the writer against the loader. \<open>O65_Compact\<close>, \<open>O65_Compact_Correct\<close>: the compact
    form. \<open>O65_Sample\<close>: one application taken through all of it.
  \<^item> \<open>Prelude\<close>, \<open>Set_Map\<close>: machine integers, results, loops over results, bytes, ordered sets and maps.

  \<^bold>\<open>Conventions.\<close> Fixed-width integers are words; \<open>usize\<close> is \<open>nat\<close>. \<open>Result\<close> is a sum with the error on the
  left and \<open>bind_result\<close> for the \<open>?\<close> operator; \<open>for_each\<close> is a loop whose body may return an error. A place
  where the linker, the allocator or the o65 loader would panic on an index, a slice, a copy or a missing
  key is an error value of its own. \<open>link_never_panics\<close>, \<open>relocate_never_panics\<close> and
  \<open>relocate_compact_never_panics\<close> prove it absent for every input; \<open>allocate_returns\<close> says when the allocator
  can panic. A \<open>BTreeMap\<close> is a partial function or a finite map, a \<open>BTreeSet\<close> a set walked in
  ascending order.

  \<^bold>\<open>Overflow.\<close> Sums that the code tests (\<open>checked_\<close>, \<open>saturating_\<close>, widened to \<open>u64\<close>) are modelled with their
  tests. In the o65 loader, where the numbers come from the file, a sum of \<open>u32\<close> values that the code does
  not test is a panic when it overflows (\<open>add_u32\<close>), and the two theorems above exclude it; the sums of a
  widened \<open>u16\<close> and a constant (\<open>task_headroom\<close>, \<open>irq_headroom\<close>, the stack bound of \<open>validate_profile\<close>)
  cannot overflow. Elsewhere an untested sum of words wraps, as in a release build: the position within a
  relaxation pass, which the same pass has laid out with checked sums; the address of the zeros behind a
  payload and the ends of regions, which are used behind the checks of the extents; the \<open>u64\<close> block
  weights and scores of the allocator; the \<open>i32\<close> exponent of a decimal constant, which \<open>from_decimal_truncates\<close>
  keeps in range by its bound on the length of the text. Counters and positions of type \<open>usize\<close> are
  unbounded.

  \<^bold>\<open>Loops.\<close> Loops without a syntactic bound are \<open>while_option\<close>, so that a run that never ends is \<open>None\<close>, and
  each has a theorem that it ends: the solver on monotone problems, the dominator sweeps, the iterated
  frontier, branch relaxation, the graph search and the loop weights of the allocator. The hunk loader has
  fuel for its records, the length of the file; every record consumes at least four bytes. The lexer, the
  decoders and the parser of reals are recursive over the unread input.

  \<^bold>\<open>What the theorems show.\<close> Liveness is exactly reading before redefinition along executions; the solver
  returns fixpoints; dominance is dominance over all paths and its frontiers are closed;
  graphs are faithful and their blocks listed in depth-first postorder, use sites are faithful; constants, regions, layouts and target names;
  relaxation ends, keeps the program's meaning and leaves encodable branches; the two encoders
  agree after linking and sizes are exact; a loaded executable is the linked image, the
  linker stores what its relocations ask for, never panics and lays its segments out apart;
  the allocator keeps interfering temporaries apart, defines before use and returns on every routine; an o65
  image holds the addresses its relocations name, respects the placement, is produced exactly for
  acceptable placements and never panics, and files and descriptors read back; real constants
  are cut exactly, with exact underflow and overflow, and rounded exactly; tokens are pieces of the text
  in order.

  \<^bold>\<open>Parameters.\<close> The compact writer takes the signature of the entry, which the front end computes; the
  encoder takes the caller's address resolver. Both are arguments of the definitions.

  \<^bold>\<open>Not modelled.\<close> Parser and semantic analysis (no independent specification of the language to verify
  them against), lowering, optimizers, instruction selection and rewriting (they need an operational
  semantics of NIR and of the three processors, which the repository does not define), \<open>ObjectImage::emit\<close> and the
  preparation of o65 records from emitted 65816 code, input and output, the embedded runtime sources, the
  command line and the emulator runner. Display and debug texts are left out where they are not errors that
  the code compares.
\<close>

end
